(* ===== verification/Sched_Prelude.thy ===== *)
theory Sched_Prelude
  imports Main "HOL-Library.Word"
begin

text \<open>
  Shared vocabulary of the development: names for the machine types of the sources, the collections
  of simplification rules the component theories extend, and the generic facts on powers of two,
  masks and lists that several components use.
\<close>

unbundle bit_operations_syntax

section \<open>Machine types\<close>

type_synonym u8 = "8 word"
type_synonym u32 = "32 word"
type_synonym u64 = "64 word"

text \<open>A slot, worker, fiber or node index; the sources use \<^verbatim>\<open>size_t\<close> and never let one of these wrap.\<close>

type_synonym idx = nat

named_theorems sched_defs \<open>definitions a component's automation unfolds\<close>
named_theorems sched_inv \<open>facts that an operation keeps an invariant\<close>

section \<open>Powers of two and masks\<close>

definition pow2 :: "nat \<Rightarrow> bool" where
  "pow2 n \<longleftrightarrow> (\<exists>k. n = 2 ^ k)"

lemma pow2_gt0 [simp]: "pow2 c \<Longrightarrow> 0 < c"
  by (auto simp: pow2_def)

lemma pow2_double [intro]: "pow2 c \<Longrightarrow> pow2 (c * 2)"
  unfolding pow2_def by (metis power_Suc2)

lemma pow2_exp [simp]: "pow2 (2 ^ k)"
  by (auto simp: pow2_def)

lemma and_mask_mod: "pow2 c \<Longrightarrow> i AND (c - 1) = i mod c" for i :: nat
  by (auto simp: pow2_def take_bit_eq_mod [symmetric] take_bit_eq_mask mask_eq_exp_minus_1)

section \<open>Logical indices in a ring\<close>

lemma mod_window_inj:
  fixes i j c :: nat
  assumes "i mod c = j mod c" "t \<le> i" "i < t + c" "t \<le> j" "j < t + c"
  shows "i = j"
proof -
  have less: "i = j" if le: "i \<le> j" and eq: "j mod c = i mod c" and lt: "j < i + c" for i j :: nat
  proof -
    from le eq have "c dvd j - i" by (simp add: mod_eq_dvd_iff_nat)
    moreover from lt le have "j - i < c" by linarith
    ultimately have "j - i = 0" by (metis nat_dvd_not_less neq0_conv)
    with le show ?thesis by simp
  qed
  show ?thesis
    using less [of i j] less [of j i] assms by (cases "i \<le> j") auto
qed

section \<open>Lists\<close>

lemma upt_snoc: "t \<le> b \<Longrightarrow> [t..<Suc b] = [t..<b] @ [b]"
  by simp

lemma set_butlast_last: "xs \<noteq> [] \<Longrightarrow> set xs = insert (last xs) (set (butlast xs))"
  by (metis append_butlast_last_id list.simps(15) rotate1.simps(2) set_rotate1)

lemma in_set_update: "x \<in> set xs \<Longrightarrow> x = xs ! i \<or> x \<in> set (xs[i := y])"
  by (metis in_set_conv_nth length_list_update nth_list_update_neq)

lemma in_set_remove_nth:
  assumes "x \<in> set xs" and "i < length xs"
  shows "x = xs ! i \<or> x \<in> set (take i xs @ drop (i + 1) xs)"
  using assms id_take_nth_drop [OF assms(2)] by (metis Suc_eq_plus1 Un_iff insert_iff list.set(2) set_append)

section \<open>Maps\<close>

lemma ran_upd_None:
  assumes "m p = Some e" and "\<forall>q. m q = Some e \<longrightarrow> q = p"
  shows "ran (m(p := None)) = ran m - {e}"
proof (rule set_eqI)
  fix x
  have "(\<exists>q. (m(p := None)) q = Some x) \<longleftrightarrow> (\<exists>q. q \<noteq> p \<and> m q = Some x)" by auto
  also have "\<dots> \<longleftrightarrow> (\<exists>q. m q = Some x) \<and> x \<noteq> e" using assms by (metis option.inject)
  finally show "x \<in> ran (m(p := None)) \<longleftrightarrow> x \<in> ran m - {e}" by (simp add: ran_def)
qed

section \<open>Runs of a stepwise system\<close>

text \<open>Perform a sequence of actions; \<open>None\<close> if one of them is not enabled.\<close>

fun exec :: "('a \<Rightarrow> 's \<Rightarrow> 's option) \<Rightarrow> 'a list \<Rightarrow> 's \<Rightarrow> 's option" where
  "exec step [] s = Some s"
| "exec step (a # as) s = (case step a s of None \<Rightarrow> None | Some s' \<Rightarrow> exec step as s')"

lemma exec_ex: "(case exec step as s0 of None \<Rightarrow> False | Some s \<Rightarrow> P s) \<Longrightarrow> \<exists>s. exec step as s0 = Some s \<and> P s"
  by (simp split: option.splits)

lemma exec_append: "exec step (as @ bs) s = (case exec step as s of None \<Rightarrow> None | Some s' \<Rightarrow> exec step bs s')"
  by (induction as arbitrary: s) (auto split: option.splits)

text \<open>The states a run goes through.\<close>

fun visited :: "('a \<Rightarrow> 's \<Rightarrow> 's option) \<Rightarrow> 'a list \<Rightarrow> 's \<Rightarrow> 's list" where
  "visited step [] s = [s]"
| "visited step (a # as) s = s # (case step a s of None \<Rightarrow> [] | Some s' \<Rightarrow> visited step as s')"

lemma visited_first: "s \<in> set (visited step as s)"
  by (cases as) auto

text \<open>The contract between a component that says what its actions keep and the arguments about its runs.\<close>

locale step_invariant =
  fixes step :: "'a \<Rightarrow> 's \<Rightarrow> 's option" and s0 :: 's and inv :: "'s \<Rightarrow> bool"
  assumes inv_init: "inv s0" and inv_step: "\<And>a s s'. inv s \<Longrightarrow> step a s = Some s' \<Longrightarrow> inv s'"
begin

lemma inv_exec_from: "inv s \<Longrightarrow> exec step as s = Some s' \<Longrightarrow> inv s'"
  by (induction as arbitrary: s) (auto split: option.splits intro: inv_step)

lemma inv_exec: "exec step as s0 = Some s \<Longrightarrow> inv s"
  using inv_exec_from [OF inv_init] .

end

end
