(* ===== verification/Task_Deque.thy ===== *)
theory Task_Deque
  imports Sched_Prelude "HOL-Library.Multiset"
begin

text \<open>
  The work-stealing deque of \<^verbatim>\<open>include/TaskDeque.h\<close>, run by one thread at a time: the tag encoding
  of a stored pointer, construction, growth by doubling, the owner's pushes and pop, and a thief's
  steal. Every operation is shown to implement the list of queued tasks. The interleaved protocol
  between the owner and its thieves is the subject of theory \<open>Deque_Protocol\<close>.

  Indices are natural numbers: \<^verbatim>\<open>top_\<close> and \<^verbatim>\<open>bottom_\<close> are 64-bit counters that move by one per
  operation. The general allocator is a parameter \<open>alloc\<close>, which says whether \<^verbatim>\<open>new\<close> of a ring of a
  given capacity succeeds.
\<close>

section \<open>Task descriptors\<close>

text \<open>The two enums a thief may vet, with their underlying values (\<^verbatim>\<open>include/Task.h\<close>).\<close>

datatype task_type = Native | Fiber

fun task_type_val :: "task_type \<Rightarrow> u64" where
  "task_type_val Native = 0"
| "task_type_val Fiber = 1"

datatype core_pref = Default | Wide

fun core_pref_val :: "core_pref \<Rightarrow> u64" where
  "core_pref_val Default = 0"
| "core_pref_val Wide = 1"

text \<open>A \<^verbatim>\<open>Task*\<close>: its address and the two fields \<^verbatim>\<open>tag\<close> reads through it.\<close>

record task =
  addr :: u64
  corePref :: core_pref
  ttype :: task_type

definition kTagMask :: u64 where
  "kTagMask = 0xF"

text \<open>\<^verbatim>\<open>Task\<close> is declared \<^verbatim>\<open>alignas(16)\<close>.\<close>

definition task_aligned :: "task \<Rightarrow> bool" where
  "task_aligned t \<longleftrightarrow> addr t AND kTagMask = 0"

record steal_bits =
  sb_corePref :: u64
  sb_type :: u64

definition tag :: "task \<Rightarrow> u64" where
  "tag item = (addr item OR (core_pref_val (corePref item) AND 3))
                OR push_bit 2 (task_type_val (ttype item) AND 3)"

definition untag :: "u64 \<Rightarrow> u64" where
  "untag v = v AND NOT kTagMask"

definition bits :: "u64 \<Rightarrow> steal_bits" where
  "bits v = \<lparr>sb_corePref = v AND 3, sb_type = drop_bit 2 v AND 3\<rparr>"

section \<open>Rings and the deque\<close>

record ring =
  mask :: nat
  capacity :: nat
  slots :: "u64 list"

datatype grow_failure = CeilingReached | HardCeilingReached | OutOfMemory

datatype deque_error =
    CapacityNotPowerOfTwo   \<comment> \<open>the constructor's exception\<close>
  | FatalGrow grow_failure  \<comment> \<open>the process aborts\<close>
  | SlotOutOfBounds         \<comment> \<open>a store past the end of the slot array\<close>

record deque =
  dq_ring :: ring
  dq_retired :: "ring list"
  maxCapacity :: nat
  ceilingIsHard :: bool
  warnedPastCeiling :: bool
  growCount :: nat
  dq_top :: nat
  dq_bottom :: nat

definition kDefaultMaxCapacity :: nat where
  "kDefaultMaxCapacity = 65536"

definition kHardMaxCapacity :: nat where
  "kHardMaxCapacity = 4194304"

text \<open>\<^verbatim>\<open>capacity - 1\<close> is unsigned: for capacity 0 the mask is all ones.\<close>

definition MakeRing :: "nat \<Rightarrow> ring" where
  "MakeRing c = \<lparr>mask = (if c = 0 then 2 ^ 64 - 1 else c - 1), capacity = c, slots = replicate c 0\<rparr>"

definition TaskDeque :: "nat \<Rightarrow> nat \<Rightarrow> deque_error + deque" where
  "TaskDeque cap maxCap =
     (if cap AND (cap - 1) \<noteq> 0 then Inl CapacityNotPowerOfTwo
      else Inr \<lparr>dq_ring = MakeRing cap, dq_retired = [],
                maxCapacity = (if maxCap < cap then cap else maxCap),
                ceilingIsHard = (maxCap \<noteq> kDefaultMaxCapacity),
                warnedPastCeiling = False, growCount = 0, dq_top = 0, dq_bottom = 0\<rparr>)"

definition ring_get :: "ring \<Rightarrow> nat \<Rightarrow> u64" where
  "ring_get r i = slots r ! (i AND mask r)"

definition ring_put :: "nat \<Rightarrow> u64 \<Rightarrow> ring \<Rightarrow> ring" where
  "ring_put i v r = r\<lparr>slots := (slots r)[i AND mask r := v]\<rparr>"

text \<open>The copy loop of \<^verbatim>\<open>grow\<close>: by logical index, from \<open>t\<close> up to \<open>b\<close>.\<close>

definition copy_ring :: "ring \<Rightarrow> nat \<Rightarrow> nat \<Rightarrow> ring \<Rightarrow> ring" where
  "copy_ring old t b r = fold (\<lambda>i. ring_put i (ring_get old i)) [t..<b] r"

definition grow :: "(nat \<Rightarrow> bool) \<Rightarrow> nat \<Rightarrow> nat \<Rightarrow> deque \<Rightarrow> deque_error + deque" where
  "grow alloc t b d =
     (let old = dq_ring d; newCap = capacity old * 2 in
      if newCap > maxCapacity d \<and> ceilingIsHard d then Inl (FatalGrow CeilingReached)
      else if newCap > maxCapacity d \<and> newCap > kHardMaxCapacity
        then Inl (FatalGrow HardCeilingReached)
      else if \<not> alloc newCap then Inl (FatalGrow OutOfMemory)
      else Inr (d\<lparr>dq_ring := copy_ring old t b (MakeRing newCap),
                  dq_retired := dq_retired d @ [old],
                  warnedPastCeiling := (warnedPastCeiling d \<or> newCap > maxCapacity d),
                  growCount := growCount d + 1\<rparr>))"

definition store_slot :: "nat \<Rightarrow> u64 \<Rightarrow> deque \<Rightarrow> deque_error + deque" where
  "store_slot i v d =
     (if i AND mask (dq_ring d) < length (slots (dq_ring d))
      then Inr (d\<lparr>dq_ring := ring_put i v (dq_ring d)\<rparr>) else Inl SlotOutOfBounds)"

definition push_bottom :: "(nat \<Rightarrow> bool) \<Rightarrow> task option \<Rightarrow> deque \<Rightarrow> deque_error + (bool \<times> deque)" where
  "push_bottom alloc item d =
     (case item of
        None \<Rightarrow> Inr (False, d)
      | Some it \<Rightarrow>
          (let b = dq_bottom d; t = dq_top d in
           case (if b - t \<ge> capacity (dq_ring d) then grow alloc t b d else Inr d) of
             Inl e \<Rightarrow> Inl e
           | Inr d1 \<Rightarrow>
               (case store_slot b (tag it) d1 of
                  Inl e \<Rightarrow> Inl e
                | Inr d2 \<Rightarrow> Inr (True, d2\<lparr>dq_bottom := b + 1\<rparr>))))"

text \<open>The growth loop of a batch push; \<open>None\<close> is a loop that never ends.\<close>

partial_function (option) grow_until ::
  "(nat \<Rightarrow> bool) \<Rightarrow> nat \<Rightarrow> nat \<Rightarrow> nat \<Rightarrow> deque \<Rightarrow> (deque_error + deque) option" where
  "grow_until alloc n t b d =
     (if (b + n) - t > capacity (dq_ring d)
      then (case grow alloc t b d of Inl e \<Rightarrow> Some (Inl e) | Inr d' \<Rightarrow> grow_until alloc n t b d')
      else Some (Inr d))"

fun store_items :: "nat \<Rightarrow> task list \<Rightarrow> deque \<Rightarrow> deque_error + deque" where
  "store_items i [] d = Inr d"
| "store_items i (it # its) d =
     (case store_slot i (tag it) d of Inl e \<Rightarrow> Inl e | Inr d' \<Rightarrow> store_items (i + 1) its d')"

definition push_bottom_batch ::
  "(nat \<Rightarrow> bool) \<Rightarrow> task list \<Rightarrow> deque \<Rightarrow> (deque_error + (bool \<times> deque)) option" where
  "push_bottom_batch alloc items d =
     (let b = dq_bottom d; t = dq_top d; n = length items in
      case grow_until alloc n t b d of
        None \<Rightarrow> None
      | Some (Inl e) \<Rightarrow> Some (Inl e)
      | Some (Inr d1) \<Rightarrow>
          (case store_items b items d1 of
             Inl e \<Rightarrow> Some (Inl e)
           | Inr d2 \<Rightarrow> Some (Inr (True, d2\<lparr>dq_bottom := b + n\<rparr>))))"

definition pop_bottom :: "deque \<Rightarrow> u64 option \<times> deque" where
  "pop_bottom d =
     (let b = dq_bottom d; t = dq_top d in
      if t \<ge> b then (None, d)
      else
        (let b = b - 1; d = d\<lparr>dq_bottom := b\<rparr>; t = dq_top d in
         if t \<le> b then
           (let item = untag (ring_get (dq_ring d) b) in
            if t = b then (Some item, d\<lparr>dq_top := t + 1, dq_bottom := b + 1\<rparr>)
            else (Some item, d))
         else (None, d\<lparr>dq_bottom := t\<rparr>)))"

definition steal_if :: "(steal_bits \<Rightarrow> bool) \<Rightarrow> deque \<Rightarrow> u64 option \<times> deque" where
  "steal_if pred d =
     (let t = dq_top d; b = dq_bottom d in
      if t < b then
        (let slot = ring_get (dq_ring d) t in
         if \<not> pred (bits slot) then (None, d) else (Some (untag slot), d\<lparr>dq_top := t + 1\<rparr>))
      else (None, d))"

definition steal :: "deque \<Rightarrow> u64 option \<times> deque" where
  "steal d =
     (let t = dq_top d; b = dq_bottom d in
      if t < b then (Some (untag (ring_get (dq_ring d) t)), d\<lparr>dq_top := t + 1\<rparr>) else (None, d))"

definition size :: "deque \<Rightarrow> nat" where
  "size d = (let t = dq_top d; b = dq_bottom d in if b > t then b - t else 0)"

definition deque_capacity :: "deque \<Rightarrow> nat" where
  "deque_capacity d = capacity (dq_ring d)"

definition empty :: "deque \<Rightarrow> bool" where
  "empty d \<longleftrightarrow> dq_top d \<ge> dq_bottom d"

section \<open>Tag round trips\<close>

lemma bit_kTagMask [simp]: "bit kTagMask n \<longleftrightarrow> n < 4"
proof -
  have eq: "kTagMask = Bit_Operations.mask 4" by (simp add: kTagMask_def mask_eq_exp_minus_1)
  show ?thesis by (simp only: eq bit_mask_iff) auto
qed

lemma bit_three [simp]: "bit (3 :: int) n \<longleftrightarrow> n < 2" "bit (3 :: u64) n \<longleftrightarrow> n < 2"
proof -
  have eq: "(3 :: int) = Bit_Operations.mask 2" "(3 :: u64) = Bit_Operations.mask 2"
    by (simp_all add: mask_eq_exp_minus_1)
  show "bit (3 :: int) n \<longleftrightarrow> n < 2" by (simp only: eq bit_mask_iff) auto
  show "bit (3 :: u64) n \<longleftrightarrow> n < 2" by (simp only: eq bit_mask_iff) auto
qed

lemma task_aligned_bit: "task_aligned t \<Longrightarrow> bit (addr t) n \<Longrightarrow> 4 \<le> n"
  unfolding task_aligned_def by (metis bit_and_iff bit_0_eq bot_apply bit_kTagMask bot_bool_def not_less)

lemma bit_task_type_val [simp]: "bit (task_type_val x) n \<longleftrightarrow> x = Fiber \<and> n = 0"
  by (cases x) (auto simp: bit_1_iff)

lemma bit_core_pref_val [simp]: "bit (core_pref_val x) n \<longleftrightarrow> x = Wide \<and> n = 0"
  by (cases x) (auto simp: bit_1_iff)

lemma untag_tag: "task_aligned t \<Longrightarrow> untag (tag t) = addr t"
  by (rule bit_word_eqI)
     (auto simp: untag_def tag_def bit_simps not_less dest: task_aligned_bit)

lemma bits_tag:
  assumes "task_aligned t"
  shows "bits (tag t) = \<lparr>sb_corePref = core_pref_val (corePref t), sb_type = task_type_val (ttype t)\<rparr>"
proof -
  have "tag t AND 3 = core_pref_val (corePref t)"
    using assms by (intro bit_word_eqI) (auto simp: tag_def bit_simps dest!: task_aligned_bit)
  moreover have "drop_bit 2 (tag t) AND 3 = task_type_val (ttype t)"
    using assms by (intro bit_word_eqI) (auto simp: tag_def bit_simps dest!: task_aligned_bit)
  ultimately show ?thesis by (simp add: bits_def)
qed

section \<open>Well-formed deques and their contents\<close>

definition wf_ring :: "ring \<Rightarrow> bool" where
  "wf_ring r \<longleftrightarrow> pow2 (capacity r) \<and> mask r = capacity r - 1 \<and> length (slots r) = capacity r"

text \<open>Besides the shape of the live ring: the window fits it, and all retired rings together hold
  fewer slots than the live one (the memory bound stated at \<^verbatim>\<open>kDefaultMaxCapacity\<close>).\<close>

definition wf_deque :: "deque \<Rightarrow> bool" where
  "wf_deque d \<longleftrightarrow>
     wf_ring (dq_ring d) \<and> dq_top d \<le> dq_bottom d
   \<and> dq_bottom d - dq_top d \<le> capacity (dq_ring d)
   \<and> sum_list (map capacity (dq_retired d)) < capacity (dq_ring d)
   \<and> capacity (dq_ring d) \<le> max (maxCapacity d) (if ceilingIsHard d then 0 else kHardMaxCapacity)"

definition contents :: "deque \<Rightarrow> u64 list" where
  "contents d = map (ring_get (dq_ring d)) [dq_top d..<dq_bottom d]"

lemma wf_ring_mod: "wf_ring r \<Longrightarrow> i AND mask r = i mod capacity r"
  unfolding wf_ring_def using and_mask_mod by metis

lemma wf_ring_idx: "wf_ring r \<Longrightarrow> i AND mask r < length (slots r)"
  by (metis wf_ring_mod wf_ring_def mod_less_divisor pow2_gt0)

lemma wf_MakeRing: "pow2 c \<Longrightarrow> wf_ring (MakeRing c)"
  by (auto simp: wf_ring_def MakeRing_def dest: pow2_gt0)

lemma capacity_MakeRing [simp]: "capacity (MakeRing c) = c"
  by (simp add: MakeRing_def)

lemma capacity_ring_put [simp]: "capacity (ring_put i v r) = capacity r"
  by (simp add: ring_put_def)

lemma wf_ring_put [sched_inv]: "wf_ring r \<Longrightarrow> wf_ring (ring_put i v r)"
  by (simp add: wf_ring_def ring_put_def)

lemma ring_get_put:
  "wf_ring r \<Longrightarrow>
     ring_get (ring_put i v r) j = (if i mod capacity r = j mod capacity r then v else ring_get r j)"
  using wf_ring_idx [of r] wf_ring_mod [of r] by (auto simp: ring_get_def ring_put_def)

lemma ring_get_put_window:
  assumes "wf_ring r" "t \<le> i" "i < t + capacity r" "t \<le> j" "j < t + capacity r"
  shows "ring_get (ring_put i v r) j = (if i = j then v else ring_get r j)"
  using assms mod_window_inj [of i "capacity r" j t] by (auto simp: ring_get_put)

lemma copy_ring_correct:
  assumes "wf_ring r" "b \<le> t + capacity r"
  shows "wf_ring (copy_ring old t b r) \<and> capacity (copy_ring old t b r) = capacity r
       \<and> (\<forall>i. t \<le> i \<longrightarrow> i < b \<longrightarrow> ring_get (copy_ring old t b r) i = ring_get old i)"
  using assms(2)
proof (induction b)
  case 0
  then show ?case using assms(1) by (simp add: copy_ring_def)
next
  case (Suc b)
  show ?case
  proof (cases "t \<le> b")
    case True
    then have step: "copy_ring old t (Suc b) r = ring_put b (ring_get old b) (copy_ring old t b r)"
      by (simp add: copy_ring_def)
    from Suc have IH: "wf_ring (copy_ring old t b r)" "capacity (copy_ring old t b r) = capacity r"
      "\<And>i. t \<le> i \<Longrightarrow> i < b \<Longrightarrow> ring_get (copy_ring old t b r) i = ring_get old i" by auto
    have "ring_get (copy_ring old t (Suc b) r) i = ring_get old i" if "t \<le> i" "i < Suc b" for i
      using that True Suc.prems IH ring_get_put_window [OF IH(1), of t b i]
      by (auto simp: step less_Suc_eq)
    with IH show ?thesis by (auto simp: step wf_ring_put)
  next
    case False
    then show ?thesis using assms(1) by (auto simp: copy_ring_def)
  qed
qed

lemmas copy_ring_simps [simp] = copy_ring_correct [THEN conjunct2, THEN conjunct1]

section \<open>Growth\<close>

lemma grow_Inr:
  assumes "grow alloc t b d = Inr d'"
  shows "d' = d\<lparr>dq_ring := copy_ring (dq_ring d) t b (MakeRing (capacity (dq_ring d) * 2)),
                dq_retired := dq_retired d @ [dq_ring d],
                warnedPastCeiling := (warnedPastCeiling d \<or> capacity (dq_ring d) * 2 > maxCapacity d),
                growCount := growCount d + 1\<rparr>"
    and "capacity (dq_ring d) * 2 \<le> max (maxCapacity d) (if ceilingIsHard d then 0 else kHardMaxCapacity)"
    and "alloc (capacity (dq_ring d) * 2)"
  using assms by (auto simp: grow_def Let_def split: if_splits)

lemma grow_keeps:
  assumes wf: "wf_deque d" and g: "grow alloc (dq_top d) (dq_bottom d) d = Inr d'"
  shows "wf_deque d'" and "contents d' = contents d"
    and "capacity (dq_ring d') = capacity (dq_ring d) * 2"
    and "dq_top d' = dq_top d" and "dq_bottom d' = dq_bottom d"
    and "maxCapacity d' = maxCapacity d" and "ceilingIsHard d' = ceilingIsHard d"
proof -
  let ?c = "capacity (dq_ring d)"
  have r: "wf_ring (MakeRing (?c * 2))"
    using wf by (intro wf_MakeRing pow2_double) (simp add: wf_deque_def wf_ring_def)
  have fit: "dq_bottom d \<le> dq_top d + capacity (MakeRing (?c * 2))"
    using wf by (auto simp: wf_deque_def)
  note cp = copy_ring_correct [OF r fit, of "dq_ring d"]
  show "contents d' = contents d"
    using cp grow_Inr(1) [OF g] by (auto simp: contents_def)
  show "wf_deque d'"
    using wf cp grow_Inr(1,2) [OF g] by (auto simp: wf_deque_def)
  show "capacity (dq_ring d') = ?c * 2" "dq_top d' = dq_top d" "dq_bottom d' = dq_bottom d"
    "maxCapacity d' = maxCapacity d" "ceilingIsHard d' = ceilingIsHard d"
    using cp grow_Inr(1) [OF g] by auto
qed

section \<open>Stores\<close>

lemma store_slot_Inr:
  assumes "wf_deque d" "dq_bottom d - dq_top d < capacity (dq_ring d)" "i = dq_bottom d"
  shows "\<exists>d2. store_slot i v d = Inr d2 \<and> wf_deque (d2\<lparr>dq_bottom := i + 1\<rparr>)
            \<and> contents (d2\<lparr>dq_bottom := i + 1\<rparr>) = contents d @ [v]"
proof -
  have wr: "wf_ring (dq_ring d)" and le: "dq_top d \<le> dq_bottom d"
    using assms(1) by (simp_all add: wf_deque_def)
  let ?d2 = "d\<lparr>dq_ring := ring_put i v (dq_ring d)\<rparr>"
  have "store_slot i v d = Inr ?d2"
    by (simp add: store_slot_def wf_ring_idx [OF wr])
  moreover have "wf_deque (?d2\<lparr>dq_bottom := i + 1\<rparr>)"
    using assms by (auto simp: wf_deque_def wf_ring_put)
  moreover have "contents (?d2\<lparr>dq_bottom := i + 1\<rparr>) = contents d @ [v]"
  proof -
    have "ring_get (ring_put i v (dq_ring d)) j = (if i = j then v else ring_get (dq_ring d) j)"
      if "dq_top d \<le> j" "j \<le> i" for j
      using that assms le by (intro ring_get_put_window [OF wr, of "dq_top d"]) auto
    then show ?thesis using le assms(3) by (auto simp: contents_def)
  qed
  ultimately show ?thesis by blast
qed

section \<open>Functional behaviour of every operation\<close>

lemma wf_TaskDeque:
  assumes "pow2 cap" and "maxCap \<noteq> kDefaultMaxCapacity \<or> cap \<le> kHardMaxCapacity"
    and "TaskDeque cap maxCap = Inr d"
  shows "wf_deque d" and "contents d = []"
  using assms by (auto simp: TaskDeque_def wf_deque_def wf_MakeRing contents_def split: if_splits)

lemma push_bottom_null: "push_bottom alloc None d = Inr (False, d)"
  by (simp add: push_bottom_def)

text \<open>A non-null push never fails quietly and never stores out of range: it appends, or the process
  aborts because the deque is full and cannot grow.\<close>

lemma push_bottom_cases:
  assumes wf: "wf_deque d"
  shows "(\<exists>d'. push_bottom alloc (Some it) d = Inr (True, d') \<and> wf_deque d'
               \<and> contents d' = contents d @ [tag it])
       \<or> (\<exists>f. push_bottom alloc (Some it) d = Inl (FatalGrow f)
               \<and> length (contents d) = capacity (dq_ring d))"
proof (cases "dq_bottom d - dq_top d \<ge> capacity (dq_ring d)")
  case False
  then show ?thesis
    using store_slot_Inr [OF wf, of "dq_bottom d" "tag it"] by (auto simp: push_bottom_def Let_def)
next
  case full: True
  show ?thesis
  proof (cases "grow alloc (dq_top d) (dq_bottom d) d")
    case (Inl e)
    then obtain f where "e = FatalGrow f" by (auto simp: grow_def Let_def split: if_splits)
    moreover have "length (contents d) = capacity (dq_ring d)"
      using wf full by (simp add: contents_def wf_deque_def)
    ultimately show ?thesis using Inl full by (simp add: push_bottom_def)
  next
    case (Inr d1)
    note k = grow_keeps [OF wf Inr]
    have "0 < capacity (dq_ring d)" using wf by (simp add: wf_deque_def wf_ring_def)
    then have "dq_bottom d1 - dq_top d1 < capacity (dq_ring d1)"
      using k wf by (auto simp: wf_deque_def)
    from store_slot_Inr [OF k(1) this, of "dq_bottom d" "tag it"]
    show ?thesis using Inr full k by (auto simp: push_bottom_def Let_def)
  qed
qed

lemma pop_bottom_spec:
  assumes wf: "wf_deque d" and p: "pop_bottom d = (r, d')"
  shows "wf_deque d'"
    and "r = (if contents d = [] then None else Some (untag (last (contents d))))"
    and "contents d' = butlast (contents d)"
proof -
  consider (emp) "dq_top d = dq_bottom d" | (ne) b where "dq_bottom d = Suc b" "dq_top d \<le> b"
    using wf by (cases "dq_bottom d") (auto simp: wf_deque_def le_Suc_eq)
  then have "wf_deque d' \<and> r = (if contents d = [] then None else Some (untag (last (contents d))))
           \<and> contents d' = butlast (contents d)"
  proof cases
    case emp
    then show ?thesis using wf p by (auto simp: pop_bottom_def contents_def Let_def)
  next
    case ne
    then show ?thesis using wf p
      by (auto simp: pop_bottom_def contents_def wf_deque_def Let_def split: if_splits)
  qed
  then show "wf_deque d'" "r = (if contents d = [] then None else Some (untag (last (contents d))))"
    "contents d' = butlast (contents d)" by auto
qed

lemma steal_if_spec:
  assumes wf: "wf_deque d" and p: "steal_if pred d = (r, d')"
  shows "wf_deque d'"
    and "case contents d of
           [] \<Rightarrow> r = None \<and> d' = d
         | v # vs \<Rightarrow> (if pred (bits v) then r = Some (untag v) \<and> contents d' = vs
                     else r = None \<and> d' = d)"
proof -
  consider (emp) "dq_top d = dq_bottom d" | (ne) "dq_top d < dq_bottom d"
    using wf by (auto simp: wf_deque_def le_less)
  then have "wf_deque d' \<and> (case contents d of
           [] \<Rightarrow> r = None \<and> d' = d
         | v # vs \<Rightarrow> (if pred (bits v) then r = Some (untag v) \<and> contents d' = vs
                     else r = None \<and> d' = d))"
  proof cases
    case emp
    then show ?thesis using wf p by (auto simp: steal_if_def contents_def)
  next
    case ne
    then have "contents d = ring_get (dq_ring d) (dq_top d)
                              # map (ring_get (dq_ring d)) [Suc (dq_top d)..<dq_bottom d]"
      by (simp add: contents_def upt_conv_Cons)
    then show ?thesis using wf p ne
      by (auto simp: steal_if_def wf_deque_def contents_def Let_def split: if_splits)
  qed
  then show "wf_deque d'" and "case contents d of
           [] \<Rightarrow> r = None \<and> d' = d
         | v # vs \<Rightarrow> (if pred (bits v) then r = Some (untag v) \<and> contents d' = vs
                     else r = None \<and> d' = d)" by auto
qed

lemma steal_eq_steal_if: "steal d = steal_if (\<lambda>_. True) d"
  by (simp add: steal_def steal_if_def Let_def)

lemma size_contents: "size d = length (contents d)"
  by (simp add: size_def contents_def Let_def)

lemma empty_contents: "empty d \<longleftrightarrow> contents d = []"
  by (auto simp: empty_def contents_def)

section \<open>Batch push\<close>

text \<open>The growth loop returns: each round doubles a positive capacity.\<close>

lemma grow_until_returns:
  assumes "wf_deque d" "t = dq_top d" "b = dq_bottom d"
  shows "\<exists>r. grow_until alloc n t b d = Some r
         \<and> (case r of Inl e \<Rightarrow> \<exists>f. e = FatalGrow f
            | Inr d' \<Rightarrow> wf_deque d' \<and> contents d' = contents d \<and> dq_top d' = t \<and> dq_bottom d' = b
                       \<and> b + n - t \<le> capacity (dq_ring d'))"
  using assms
proof (induction "b + n - t - capacity (dq_ring d)" arbitrary: d rule: less_induct)
  case less
  show ?case
  proof (cases "b + n - t > capacity (dq_ring d)")
    case False
    then show ?thesis using less.prems by (subst grow_until.simps) auto
  next
    case big: True
    show ?thesis
    proof (cases "grow alloc t b d")
      case (Inl e)
      then have "\<exists>f. e = FatalGrow f" by (auto simp: grow_def Let_def split: if_splits)
      then show ?thesis using Inl big by (subst grow_until.simps) auto
    next
      case (Inr d1)
      with less.prems have g: "grow alloc (dq_top d) (dq_bottom d) d = Inr d1" by simp
      note k = grow_keeps [OF less.prems(1) g]
      have "0 < capacity (dq_ring d)" using less.prems(1) by (simp add: wf_deque_def wf_ring_def)
      with k(3) big
      have lt: "b + n - t - capacity (dq_ring d1) < b + n - t - capacity (dq_ring d)" by linarith
      have eq: "grow_until alloc n t b d = grow_until alloc n t b d1"
        using big Inr by (subst grow_until.simps) simp
      show ?thesis
        using less.hyps [OF lt k(1)] k(4,5) less.prems(2,3) unfolding eq k(2) by simp
    qed
  qed
qed

lemma store_items_Inr:
  assumes "wf_deque d" "dq_bottom d + length its - dq_top d \<le> capacity (dq_ring d)"
  shows "\<exists>d2. store_items (dq_bottom d) its d = Inr d2
            \<and> wf_deque (d2\<lparr>dq_bottom := dq_bottom d + length its\<rparr>)
            \<and> contents (d2\<lparr>dq_bottom := dq_bottom d + length its\<rparr>) = contents d @ map tag its"
proof -
  have gen: "\<exists>d2. store_items i its d = Inr d2 \<and> wf_deque (d2\<lparr>dq_bottom := i + length its\<rparr>)
            \<and> contents (d2\<lparr>dq_bottom := i + length its\<rparr>)
                = contents (d\<lparr>dq_bottom := i\<rparr>) @ map tag its"
    if "wf_deque (d\<lparr>dq_bottom := i\<rparr>)" "i + length its - dq_top d \<le> capacity (dq_ring d)" for i d
    using that
  proof (induction its arbitrary: i d)
    case Nil
    then show ?case by simp
  next
    case (Cons x its)
    have w: "dq_top d \<le> i" using Cons.prems(1) by (simp add: wf_deque_def)
    have lt: "i - dq_top d < capacity (dq_ring d)" using Cons.prems(2) w by simp
    obtain d1 where d1: "store_slot i (tag x) (d\<lparr>dq_bottom := i\<rparr>) = Inr d1"
      "wf_deque (d1\<lparr>dq_bottom := i + 1\<rparr>)"
      "contents (d1\<lparr>dq_bottom := i + 1\<rparr>) = contents (d\<lparr>dq_bottom := i\<rparr>) @ [tag x]"
      using store_slot_Inr [OF Cons.prems(1), of i "tag x"] lt by auto
    have wr: "i AND mask (dq_ring d) < length (slots (dq_ring d))"
      using Cons.prems(1) wf_ring_idx by (simp add: wf_deque_def)
    let ?d1 = "d\<lparr>dq_ring := ring_put i (tag x) (dq_ring d)\<rparr>"
    have s: "store_slot i (tag x) d = Inr ?d1" and e: "d1\<lparr>dq_bottom := i + 1\<rparr> = ?d1\<lparr>dq_bottom := i + 1\<rparr>"
      using d1(1) wr by (auto simp: store_slot_def)
    from Cons.IH [of "i + 1" ?d1] d1(2,3) e Cons.prems(2) s show ?case by auto
  qed
  have "d\<lparr>dq_bottom := dq_bottom d\<rparr> = d" by simp
  with gen [of "dq_bottom d" d] assms show ?thesis by simp
qed

text \<open>A batch push always returns, and when the process does not abort it appends the whole batch
  in order, whatever number of doublings that takes.\<close>

lemma push_bottom_batch_spec:
  assumes wf: "wf_deque d"
  shows "(\<exists>d'. push_bottom_batch alloc its d = Some (Inr (True, d')) \<and> wf_deque d'
               \<and> contents d' = contents d @ map tag its)
       \<or> (\<exists>f. push_bottom_batch alloc its d = Some (Inl (FatalGrow f)))"
proof -
  obtain r where r: "grow_until alloc (length its) (dq_top d) (dq_bottom d) d = Some r"
    "case r of Inl e \<Rightarrow> \<exists>f. e = FatalGrow f
     | Inr d' \<Rightarrow> wf_deque d' \<and> contents d' = contents d \<and> dq_top d' = dq_top d
                \<and> dq_bottom d' = dq_bottom d
                \<and> dq_bottom d + length its - dq_top d \<le> capacity (dq_ring d')"
    using grow_until_returns [OF wf refl refl] by blast
  show ?thesis
  proof (cases r)
    case (Inl e)
    then show ?thesis using r by (auto simp: push_bottom_batch_def Let_def)
  next
    case (Inr d1)
    with r(2) have "wf_deque d1" "dq_bottom d1 + length its - dq_top d1 \<le> capacity (dq_ring d1)"
      by auto
    from store_items_Inr [OF this] Inr r show ?thesis
      by (auto simp: push_bottom_batch_def Let_def)
  qed
qed

lemma store_items_not_fatal: "store_items i its d \<noteq> Inl (FatalGrow f)"
  by (induction its arbitrary: i d) (auto simp: store_slot_def split: sum.splits if_splits)

text \<open>Three tasks into a ring of one: two doublings.\<close>

definition tiny_deque :: deque where
  "tiny_deque = (case TaskDeque 1 8 of Inr d \<Rightarrow> d | Inl _ \<Rightarrow> undefined)"

lemma wf_tiny_deque: "wf_deque tiny_deque" "contents tiny_deque = []"
proof -
  have d: "TaskDeque 1 8 = Inr tiny_deque" by (simp add: tiny_deque_def TaskDeque_def)
  have "pow2 1" using pow2_exp [of 0] by simp
  from wf_TaskDeque [OF this _ d] show "wf_deque tiny_deque" "contents tiny_deque = []"
    by (simp_all add: kDefaultMaxCapacity_def)
qed

lemma grow_until_tiny: "grow_until (\<lambda>_. True) 3 0 0 tiny_deque \<noteq> Some (Inl e)"
  by (simp add: grow_until.simps [of _ _ _ _ tiny_deque] grow_until.simps grow_def tiny_deque_def TaskDeque_def
      kDefaultMaxCapacity_def Let_def copy_ring_def)

lemma push_bottom_batch_spec_example:
  "\<exists>d'. push_bottom_batch (\<lambda>_. True) (replicate 3 \<lparr>addr = 0x10, corePref = Wide, ttype = Native\<rparr>) tiny_deque
          = Some (Inr (True, d')) \<and> contents d' = replicate 3 0x11"
proof -
  let ?t = "\<lparr>addr = 0x10, corePref = Wide, ttype = Native\<rparr>"
  have "dq_bottom tiny_deque = 0" "dq_top tiny_deque = 0" by (simp_all add: tiny_deque_def TaskDeque_def)
  then have "push_bottom_batch (\<lambda>_. True) (replicate 3 ?t) tiny_deque \<noteq> Some (Inl (FatalGrow f))" for f
    using grow_until_tiny store_items_not_fatal
    by (fastforce simp: push_bottom_batch_def Let_def split: option.splits sum.splits)
  moreover have "tag ?t = 0x11" by (simp add: tag_def)
  ultimately show ?thesis
    using push_bottom_batch_spec [OF wf_tiny_deque(1), of "\<lambda>_. True" "replicate 3 ?t"] wf_tiny_deque(2)
    by (auto simp: map_replicate)
qed

section \<open>A capacity of zero\<close>

text \<open>The constructor's test \<^verbatim>\<open>capacity & (capacity - 1)\<close> lets zero through. Such a deque has no slot at all: a
  push stores out of bounds (doubling zero gives zero) and a batch push never returns.\<close>

lemma grow_zero:
  assumes "dq_ring d = MakeRing 0"
  shows "\<exists>d'. grow (\<lambda>_. True) 0 0 d = Inr d' \<and> dq_ring d' = MakeRing 0 \<and> dq_top d' = dq_top d \<and> dq_bottom d' = dq_bottom d"
  using assms by (simp add: grow_def Let_def copy_ring_def)

lemma grow_until_zero:
  assumes "grow_until alloc n t b d = Some r"
  shows "alloc = (\<lambda>_. True) \<and> t = 0 \<and> b = 0 \<and> 0 < n \<longrightarrow> dq_ring d \<noteq> MakeRing 0"
  using assms
proof (rule grow_until.raw_induct [rotated 1])
  fix rec and alloc :: "nat \<Rightarrow> bool" and n t b :: nat and d :: deque and r :: "deque_error + deque"
  assume IH: "\<And>alloc n t b d r. rec alloc n t b d = Some r \<Longrightarrow>
        alloc = (\<lambda>_. True) \<and> t = 0 \<and> b = 0 \<and> 0 < n \<longrightarrow> dq_ring d \<noteq> MakeRing 0"
    and body: "(if (b + n) - t > capacity (dq_ring d)
      then (case grow alloc t b d of Inl e \<Rightarrow> Some (Inl e) | Inr d' \<Rightarrow> rec alloc n t b d')
      else Some (Inr d)) = Some r"
  show "alloc = (\<lambda>_. True) \<and> t = 0 \<and> b = 0 \<and> 0 < n \<longrightarrow> dq_ring d \<noteq> MakeRing 0"
  proof (intro impI notI)
    assume c: "alloc = (\<lambda>_. True) \<and> t = 0 \<and> b = 0 \<and> 0 < n" and z: "dq_ring d = MakeRing 0"
    obtain d' where "grow alloc t b d = Inr d'" "dq_ring d' = MakeRing 0" using grow_zero [OF z] c by auto
    with body c z have "rec alloc n t b d' = Some r" by simp
    from IH [OF this] c \<open>dq_ring d' = MakeRing 0\<close> show False by simp
  qed
qed

text \<open>The two consequences of accepting capacity zero.\<close>

lemma zero_capacity_broken:
  assumes "TaskDeque 0 maxCap = Inr d"
  shows "push_bottom (\<lambda>_. True) (Some it) d = Inl SlotOutOfBounds
       \<and> push_bottom_batch (\<lambda>_. True) (it # its) d = None"
proof
  have d: "dq_ring d = MakeRing 0" "dq_top d = 0" "dq_bottom d = 0"
    using assms by (auto simp: TaskDeque_def)
  obtain d' where d': "grow (\<lambda>_. True) 0 0 d = Inr d'" "dq_ring d' = MakeRing 0"
    using grow_zero [OF d(1)] by auto
  then show "push_bottom (\<lambda>_. True) (Some it) d = Inl SlotOutOfBounds"
    using d by (simp add: push_bottom_def store_slot_def MakeRing_def)
  have "grow_until (\<lambda>_. True) (Suc (length its)) 0 0 d = None"
    using grow_until_zero [of "\<lambda>_. True" "Suc (length its)" 0 0 d] d(1)
    by (cases "grow_until (\<lambda>_. True) (Suc (length its)) 0 0 d") auto
  then show "push_bottom_batch (\<lambda>_. True) (it # its) d = None"
    using d by (simp add: push_bottom_batch_def)
qed

lemma zero_capacity_broken_witness:
  "\<exists>d. TaskDeque 0 64 = Inr d
     \<and> push_bottom_batch (\<lambda>_. True) [\<lparr>addr = 0x10, corePref = Default, ttype = Fiber\<rparr>] d = None"
proof -
  obtain d where d: "TaskDeque 0 64 = Inr d" by (simp add: TaskDeque_def)
  from zero_capacity_broken [OF d] d show ?thesis by blast
qed

section \<open>The deque as an interface\<close>

datatype ('x, 'p) wd_op = WPush 'x | WPop | WSteal 'p

text \<open>A run of operations on any deque; it collects what was pushed and what was taken, and is \<open>None\<close>
  once an operation aborts.\<close>

fun wd_run :: "('x \<Rightarrow> 'd \<Rightarrow> 'd option) \<Rightarrow> ('d \<Rightarrow> 'v option \<times> 'd) \<Rightarrow> ('p \<Rightarrow> 'd \<Rightarrow> 'v option \<times> 'd)
    \<Rightarrow> ('x, 'p) wd_op list \<Rightarrow> 'd \<Rightarrow> ('x list \<times> 'v list \<times> 'd) option" where
  "wd_run put takeB takeT [] d = Some ([], [], d)"
| "wd_run put takeB takeT (WPush x # ops) d =
     (case put x d of None \<Rightarrow> None
      | Some d' \<Rightarrow> map_option (\<lambda>(xs, vs, e). (x # xs, vs, e)) (wd_run put takeB takeT ops d'))"
| "wd_run put takeB takeT (WPop # ops) d =
     (case takeB d of (r, d') \<Rightarrow>
        map_option (\<lambda>(xs, vs, e). (xs, (case r of None \<Rightarrow> vs | Some v \<Rightarrow> v # vs), e))
          (wd_run put takeB takeT ops d'))"
| "wd_run put takeB takeT (WSteal p # ops) d =
     (case takeT p d of (r, d') \<Rightarrow>
        map_option (\<lambda>(xs, vs, e). (xs, (case r of None \<Rightarrow> vs | Some v \<Rightarrow> v # vs), e))
          (wd_run put takeB takeT ops d'))"

locale work_deque =
  fixes inv :: "'d \<Rightarrow> bool" and cont :: "'d \<Rightarrow> 'v list"
    and val :: "'x \<Rightarrow> 'v" and ok :: "'x \<Rightarrow> bool"
    and put :: "'x \<Rightarrow> 'd \<Rightarrow> 'd option"
    and takeB :: "'d \<Rightarrow> 'v option \<times> 'd"
    and takeT :: "'p \<Rightarrow> 'd \<Rightarrow> 'v option \<times> 'd"
  assumes put_law: "inv d \<Longrightarrow> ok x \<Longrightarrow> put x d = Some d' \<Longrightarrow> inv d' \<and> cont d' = cont d @ [val x]"
    and takeB_law: "inv d \<Longrightarrow> takeB d = (r, d') \<Longrightarrow>
          inv d' \<and> (case r of None \<Rightarrow> cont d = [] \<and> cont d' = [] | Some v \<Rightarrow> cont d = cont d' @ [v])"
    and takeT_law: "inv d \<Longrightarrow> takeT p d = (r, d') \<Longrightarrow>
          inv d' \<and> (case r of None \<Rightarrow> cont d' = cont d | Some v \<Rightarrow> cont d = v # cont d')"
begin

lemma take_conserves:
  assumes "inv d' \<and> mset vs + mset (cont d') = mset (cont d1) + mset (map val xs)"
    and "case r of None \<Rightarrow> mset (cont d) = mset (cont d1) | Some v \<Rightarrow> mset (cont d) = add_mset v (mset (cont d1))"
  shows "inv d' \<and> mset (case r of None \<Rightarrow> vs | Some v \<Rightarrow> v # vs) + mset (cont d')
                  = mset (cont d) + mset (map val xs)"
  using assms by (cases r) auto

lemma run_conserves:
  assumes "inv d" and "\<forall>x. WPush x \<in> set ops \<longrightarrow> ok x"
    and "wd_run put takeB takeT ops d = Some (xs, vs, d')"
  shows "inv d' \<and> mset vs + mset (cont d') = mset (cont d) + mset (map val xs)"
  using assms
proof (induction ops arbitrary: d xs vs)
  case Nil
  then show ?case by auto
next
  case (Cons op ops)
  show ?case
  proof (cases op)
    case (WPush x)
    with Cons.prems obtain d1 xs1 where d1: "put x d = Some d1" "xs = x # xs1"
      "wd_run put takeB takeT ops d1 = Some (xs1, vs, d')" by (auto split: option.splits)
    with put_law [OF Cons.prems(1) _ d1(1)] Cons.IH [OF _ _ d1(3)] Cons.prems(2) WPush
    show ?thesis by auto
  next
    case WPop
    with Cons.prems obtain r d1 vs1 where d1: "takeB d = (r, d1)"
      "vs = (case r of None \<Rightarrow> vs1 | Some v \<Rightarrow> v # vs1)"
      "wd_run put takeB takeT ops d1 = Some (xs, vs1, d')" by (auto split: prod.splits)
    with takeB_law [OF Cons.prems(1) d1(1)] Cons.IH [OF _ _ d1(3)] Cons.prems(2)
    show ?thesis unfolding d1(2) by (intro take_conserves) (auto split: option.splits)
  next
    case (WSteal p)
    with Cons.prems obtain r d1 vs1 where d1: "takeT p d = (r, d1)"
      "vs = (case r of None \<Rightarrow> vs1 | Some v \<Rightarrow> v # vs1)"
      "wd_run put takeB takeT ops d1 = Some (xs, vs1, d')" by (auto split: prod.splits)
    with takeT_law [OF Cons.prems(1) d1(1)] Cons.IH [OF _ _ d1(3)] Cons.prems(2)
    show ?thesis unfolding d1(2) by (intro take_conserves) (auto split: option.splits)
  qed
qed

end

text \<open>The interface on the model's own operations; an abort is \<open>None\<close>.\<close>

definition dq_push :: "(nat \<Rightarrow> bool) \<Rightarrow> task \<Rightarrow> deque \<Rightarrow> deque option" where
  "dq_push alloc x d = (case push_bottom alloc (Some x) d of Inl _ \<Rightarrow> None | Inr (_, d') \<Rightarrow> Some d')"

definition dq_addrs :: "deque \<Rightarrow> u64 list" where
  "dq_addrs d = map untag (contents d)"

lemma dq_push_law:
  assumes "wf_deque d" "task_aligned x" "dq_push alloc x d = Some d'"
  shows "wf_deque d' \<and> dq_addrs d' = dq_addrs d @ [addr x]"
  using assms(3) push_bottom_cases [OF assms(1), of alloc x] untag_tag [OF assms(2)]
  by (auto simp: dq_push_def dq_addrs_def)

lemma dq_pop_law:
  assumes "wf_deque d" "pop_bottom d = (r, d')"
  shows "wf_deque d' \<and> (case r of None \<Rightarrow> dq_addrs d = [] \<and> dq_addrs d' = []
                        | Some v \<Rightarrow> dq_addrs d = dq_addrs d' @ [v])"
proof -
  have "contents d \<noteq> [] \<Longrightarrow> map untag (butlast (contents d)) @ [untag (last (contents d))]
                           = map untag (contents d)"
    by (metis append_butlast_last_id list.map(1) list.simps(9) map_append)
  then show ?thesis using pop_bottom_spec [OF assms] by (auto simp: dq_addrs_def)
qed

lemma dq_steal_law:
  assumes "wf_deque d" "steal_if p d = (r, d')"
  shows "wf_deque d' \<and> (case r of None \<Rightarrow> dq_addrs d' = dq_addrs d
                        | Some v \<Rightarrow> dq_addrs d = v # dq_addrs d')"
  using steal_if_spec [OF assms] by (auto simp: dq_addrs_def split: list.splits if_splits)

interpretation jd: work_deque wf_deque dq_addrs addr task_aligned "dq_push alloc" pop_bottom steal_if
  for alloc
  by (unfold_locales; (rule dq_push_law | rule dq_pop_law | rule dq_steal_law); assumption)

text \<open>Any single-threaded sequence of pushes, pops and (predicated) steals on a deque.\<close>

definition dq_run :: "(nat \<Rightarrow> bool) \<Rightarrow> (task, steal_bits \<Rightarrow> bool) wd_op list \<Rightarrow> deque
    \<Rightarrow> (task list \<times> u64 list \<times> deque) option" where
  "dq_run alloc = wd_run (dq_push alloc) pop_bottom steal_if"

text \<open>Nothing is lost or duplicated by any sequence of operations: the addresses taken together
  with those still queued are, as multisets, exactly the tasks pushed.\<close>

lemma deque_run_conserves:
  assumes "pow2 cap" and "cap \<le> kHardMaxCapacity" and "TaskDeque cap maxCap = Inr d"
    and "\<forall>x. WPush x \<in> set ops \<longrightarrow> task_aligned x"
    and "dq_run alloc ops d = Some (pushed, taken, d')"
  shows "mset taken + mset (dq_addrs d') = mset (map addr pushed)"
proof -
  have "wf_deque d" "contents d = []" using wf_TaskDeque [OF assms(1) _ assms(3)] assms(2) by auto
  with jd.run_conserves [OF _ assms(4), of d alloc] assms(5) show ?thesis
    by (simp add: dq_run_def dq_addrs_def)
qed

text \<open>Two pushes (the ring of one grows), a steal that declines the oldest task by its type, one that takes it by
  its core preference, and a pop.\<close>

definition some_ops :: "(task, steal_bits \<Rightarrow> bool) wd_op list" where
  "some_ops = [WPush \<lparr>addr = 0x10, corePref = Wide, ttype = Native\<rparr>, WPush \<lparr>addr = 0x20, corePref = Default, ttype = Fiber\<rparr>,
     WSteal (\<lambda>b. sb_type b = 1), WSteal (\<lambda>b. sb_corePref b = 1), WPop]"

lemma some_ops_run: "\<exists>pushed d'. dq_run (\<lambda>_. True) some_ops tiny_deque = Some (pushed, [0x10, 0x20], d')"
  by (simp add: some_ops_def dq_run_def dq_push_def push_bottom_def tiny_deque_def TaskDeque_def MakeRing_def
      kDefaultMaxCapacity_def grow_def store_slot_def Let_def copy_ring_def ring_put_def ring_get_def
      steal_if_def pop_bottom_def tag_def untag_def bits_def kTagMask_def numeral_2_eq_2)

lemma deque_run_conserves_example:
  "\<exists>pushed taken d'. dq_run (\<lambda>_. True) some_ops tiny_deque = Some (pushed, taken, d') \<and> taken = [0x10, 0x20]
     \<and> mset taken + mset (dq_addrs d') = mset (map addr pushed)"
proof -
  obtain d' pushed where r: "dq_run (\<lambda>_. True) some_ops tiny_deque = Some (pushed, [0x10, 0x20], d')"
    using some_ops_run by blast
  have p: "pow2 1" using pow2_exp [of 0] by simp
  have d: "TaskDeque 1 8 = Inr tiny_deque" by (simp add: tiny_deque_def TaskDeque_def)
  have al: "\<forall>x. WPush x \<in> set some_ops \<longrightarrow> task_aligned x"
    by (auto simp: some_ops_def task_aligned_def kTagMask_def)
  from deque_run_conserves [OF p _ d al r] r show ?thesis by (auto simp: kHardMaxCapacity_def)
qed

end
