(* ===== verification/Deque_Protocol.thy ===== *)
theory Deque_Protocol
  imports Task_Deque
begin

text \<open>
  The Chase--Lev protocol of \<^verbatim>\<open>include/TaskDeque.h\<close> with its owner and any number of thieves
  interleaved at the granularity of single atomic accesses. A program counter records the
  locals of each participant; an action lets one of them perform its next access. The accesses
  interleave in one total order (the sources put sequentially consistent fences and
  compare-exchanges where the protocol needs that order).

  The auxiliary fields \<open>pushed\<close>, \<open>content\<close> and \<open>claims\<close> record the history: the values in the order
  their push became visible, which push a logical index holds, and who claimed which push with
  which returned pointer. No step reads them.
\<close>

section \<open>State\<close>

datatype owner_pc =
    OIdle
  | OPushT "u64 list" nat nat   \<comment> \<open>values to push, \<open>b\<close> and \<open>t\<close> loaded\<close>
  | OPushS "u64 list" nat nat   \<comment> \<open>room is there; values, \<open>b\<close>, stores done so far\<close>
  | OPop1 nat                   \<comment> \<open>not empty; about to store \<open>bottom_\<close>\<close>
  | OPop2 nat                   \<comment> \<open>\<open>bottom_\<close> stored, fence passed; about to load \<open>top_\<close> again\<close>
  | OPopCas nat u64             \<comment> \<open>last item; about to compare-exchange \<open>top_\<close>\<close>
  | OPopRestore nat             \<comment> \<open>about to store this value back to \<open>bottom_\<close>\<close>
  | OAborted

datatype thief_pc =
    TIdle
  | TTop nat            \<comment> \<open>\<open>top_\<close> loaded\<close>
  | TRing nat           \<comment> \<open>\<open>t < b\<close> seen; about to load \<open>ring_\<close>\<close>
  | TSlot nat nat       \<comment> \<open>ring loaded; about to load the slot\<close>
  | TCas nat u64        \<comment> \<open>value vetted; about to compare-exchange \<open>top_\<close>\<close>

text \<open>
  \<open>rings\<close> holds every ring ever published. Growth moves the old ring to \<^verbatim>\<open>retired_\<close>, which only the destructor empties; the model ends before the destructor, so the list only grows, and
  the retired rings are those before \<open>cur\<close>.
\<close>

record dstate =
  rings :: "ring list"
  cur :: nat                        \<comment> \<open>\<open>ring_\<close>\<close>
  topv :: nat
  botv :: nat
  opc :: owner_pc
  tpc :: "nat \<Rightarrow> thief_pc"
  pushed :: "u64 list"
  content :: "nat \<Rightarrow> nat"
  claims :: "(nat \<times> u64 \<times> nat option) list"  \<comment> \<open>push, returned pointer, thief (\<open>None\<close>: owner)\<close>

abbreviation cur_ring :: "dstate \<Rightarrow> ring" where
  "cur_ring s \<equiv> rings s ! cur s"

definition dinit :: "nat \<Rightarrow> dstate" where
  "dinit cap = \<lparr>rings = [MakeRing cap], cur = 0, topv = 0, botv = 0, opc = OIdle, tpc = (\<lambda>_. TIdle),
                pushed = [], content = (\<lambda>_. 0), claims = []\<rparr>"

section \<open>The owner\<close>

text \<open>\<^verbatim>\<open>push_bottom\<close> is a batch of one: \<open>b - t \<ge> capacity\<close> is \<open>(b + 1) - t > capacity\<close>.\<close>

definition call_push :: "u64 list \<Rightarrow> dstate \<Rightarrow> dstate option" where
  "call_push vs s = (if opc s = OIdle then Some (s\<lparr>opc := OPushT vs (botv s) (topv s)\<rparr>) else None)"

definition call_pop :: "dstate \<Rightarrow> dstate option" where
  "call_pop s =
     (if opc s = OIdle
      then Some (if topv s \<ge> botv s then s else s\<lparr>opc := OPop1 (botv s - 1)\<rparr>) else None)"

text \<open>Growth that fails (a ceiling, or no memory) aborts the process.\<close>

definition grow_abort :: "dstate \<Rightarrow> dstate option" where
  "grow_abort s =
     (case opc s of
        OPushT vs b t \<Rightarrow>
          (if b + length vs - t > capacity (cur_ring s) then Some (s\<lparr>opc := OAborted\<rparr>) else None)
      | _ \<Rightarrow> None)"

definition publish :: "u64 list \<Rightarrow> nat \<Rightarrow> dstate \<Rightarrow> dstate" where
  "publish vs b s =
     s\<lparr>botv := b + length vs, opc := OIdle, pushed := pushed s @ vs,
       content := (\<lambda>i. if b \<le> i \<and> i < b + length vs then length (pushed s) + (i - b) else content s i)\<rparr>"

definition owner_step :: "dstate \<Rightarrow> dstate option" where
  "owner_step s =
     (case opc s of
        OIdle \<Rightarrow> None
      | OPushT vs b t \<Rightarrow>
          Some (if b + length vs - t > capacity (cur_ring s)
                then s\<lparr>rings := rings s @ [copy_ring (cur_ring s) t b (MakeRing (capacity (cur_ring s) * 2))],
                       cur := length (rings s)\<rparr>
                else s\<lparr>opc := OPushS vs b 0\<rparr>)
      | OPushS vs b k \<Rightarrow>
          Some (if k < length vs
                then s\<lparr>rings := (rings s)[cur s := ring_put (b + k) (vs ! k) (cur_ring s)],
                       opc := OPushS vs b (k + 1)\<rparr>
                else publish vs b s)
      | OPop1 b \<Rightarrow> Some (s\<lparr>botv := b, opc := OPop2 b\<rparr>)
      | OPop2 b \<Rightarrow>
          Some (let t = topv s; v = ring_get (cur_ring s) b in
                if t < b then s\<lparr>opc := OIdle, claims := claims s @ [(content s b, untag v, None)]\<rparr>
                else if t = b then s\<lparr>opc := OPopCas b v\<rparr>
                else s\<lparr>opc := OPopRestore t\<rparr>)
      | OPopCas b v \<Rightarrow>
          Some (if topv s = b
                then s\<lparr>topv := b + 1, opc := OPopRestore (b + 1),
                       claims := claims s @ [(content s b, untag v, None)]\<rparr>
                else s\<lparr>opc := OPopRestore (b + 1)\<rparr>)
      | OPopRestore x \<Rightarrow> Some (s\<lparr>botv := x, opc := OIdle\<rparr>)
      | OAborted \<Rightarrow> None)"

section \<open>A thief\<close>

text \<open>\<^verbatim>\<open>steal_if\<close> with thief \<open>i\<close>'s predicate; \<^verbatim>\<open>steal\<close> is the predicate that accepts everything.\<close>

definition thief_step :: "(nat \<Rightarrow> steal_bits \<Rightarrow> bool) \<Rightarrow> nat \<Rightarrow> dstate \<Rightarrow> dstate" where
  "thief_step pred i s =
     (case tpc s i of
        TIdle \<Rightarrow> s\<lparr>tpc := (tpc s)(i := TTop (topv s))\<rparr>
      | TTop t \<Rightarrow> s\<lparr>tpc := (tpc s)(i := (if t < botv s then TRing t else TIdle))\<rparr>
      | TRing t \<Rightarrow> s\<lparr>tpc := (tpc s)(i := TSlot t (cur s))\<rparr>
      | TSlot t r \<Rightarrow>
          (let v = ring_get (rings s ! r) t in
           s\<lparr>tpc := (tpc s)(i := (if pred i (bits v) then TCas t v else TIdle))\<rparr>)
      | TCas t v \<Rightarrow>
          (if topv s = t
           then s\<lparr>topv := t + 1, tpc := (tpc s)(i := TIdle),
                  claims := claims s @ [(content s t, untag v, Some i)]\<rparr>
           else s\<lparr>tpc := (tpc s)(i := TIdle)\<rparr>))"

section \<open>Interleaved runs\<close>

datatype act = CallPush "u64 list" | CallPop | Owner | GrowAbort | Thief nat

fun dstep :: "(nat \<Rightarrow> steal_bits \<Rightarrow> bool) \<Rightarrow> act \<Rightarrow> dstate \<Rightarrow> dstate option" where
  "dstep pred (CallPush vs) s = call_push vs s"
| "dstep pred CallPop s = call_pop s"
| "dstep pred Owner s = owner_step s"
| "dstep pred GrowAbort s = grow_abort s"
| "dstep pred (Thief i) s = Some (thief_step pred i s)"

fun drun :: "(nat \<Rightarrow> steal_bits \<Rightarrow> bool) \<Rightarrow> act list \<Rightarrow> dstate \<Rightarrow> dstate option" where
  "drun pred [] s = Some s"
| "drun pred (a # as) s = (case dstep pred a s of None \<Rightarrow> None | Some s' \<Rightarrow> drun pred as s')"

inductive dreach :: "(nat \<Rightarrow> steal_bits \<Rightarrow> bool) \<Rightarrow> nat \<Rightarrow> dstate \<Rightarrow> bool" for pred cap where
  dreach_init: "dreach pred cap (dinit cap)"
| dreach_step: "dreach pred cap s \<Longrightarrow> dstep pred a s = Some s' \<Longrightarrow> dreach pred cap s'"

lemma drun_dreach: "dreach pred cap s \<Longrightarrow> drun pred as s = Some s' \<Longrightarrow> dreach pred cap s'"
  by (induction as arbitrary: s) (auto split: option.splits intro: dreach_step)

lemma drun_obtain:
  "(case drun pred as (dinit cap) of None \<Rightarrow> False | Some s \<Rightarrow> P s) \<Longrightarrow> \<exists>s. dreach pred cap s \<and> P s"
  by (auto split: option.splits intro: drun_dreach [OF dreach_init])

section \<open>The invariant\<close>

text \<open>One past the last index that is still unclaimed from the owner's side: while the owner races for
  the last item, \<open>bottom_\<close> is already one below it.\<close>

definition eb :: "dstate \<Rightarrow> nat" where
  "eb s = (case opc s of OPop2 b \<Rightarrow> b + 1 | OPopCas b v \<Rightarrow> b + 1 | OPopRestore x \<Rightarrow> x | _ \<Rightarrow> botv s)"

definition holds :: "dstate \<Rightarrow> ring \<Rightarrow> nat \<Rightarrow> bool" where
  "holds s r i \<longleftrightarrow> ring_get r i = pushed s ! content s i"

definition inv_rings :: "dstate \<Rightarrow> bool" where
  "inv_rings s \<longleftrightarrow> (\<forall>r < length (rings s). wf_ring (rings s ! r)) \<and> cur s < length (rings s)"

definition inv_window :: "dstate \<Rightarrow> bool" where
  "inv_window s \<longleftrightarrow> topv s \<le> eb s \<and> botv s \<le> eb s \<and> eb s - topv s \<le> capacity (cur_ring s)
     \<and> (\<forall>i. topv s \<le> i \<longrightarrow> i < eb s \<longrightarrow> holds s (cur_ring s) i)"

fun owner_ok :: "dstate \<Rightarrow> owner_pc \<Rightarrow> bool" where
  "owner_ok s (OPushT vs b t) \<longleftrightarrow> b = botv s \<and> t \<le> topv s \<and> b \<le> t + capacity (cur_ring s)"
| "owner_ok s (OPushS vs b k) \<longleftrightarrow> b = botv s \<and> b + length vs \<le> topv s + capacity (cur_ring s)
     \<and> k \<le> length vs \<and> (\<forall>j < k. ring_get (cur_ring s) (b + j) = vs ! j)"
| "owner_ok s (OPop1 b) \<longleftrightarrow> botv s = b + 1"
| "owner_ok s (OPop2 b) \<longleftrightarrow> botv s = b"
| "owner_ok s (OPopCas b v) \<longleftrightarrow> botv s = b \<and> b \<le> topv s \<and> (topv s = b \<longrightarrow> v = pushed s ! content s b)"
| "owner_ok s (OPopRestore x) \<longleftrightarrow> topv s = x"
| "owner_ok s _ \<longleftrightarrow> True"

fun thief_ok :: "(steal_bits \<Rightarrow> bool) \<Rightarrow> dstate \<Rightarrow> thief_pc \<Rightarrow> bool" where
  "thief_ok p s TIdle \<longleftrightarrow> True"
| "thief_ok p s (TTop t) \<longleftrightarrow> t \<le> topv s"
| "thief_ok p s (TRing t) \<longleftrightarrow> t \<le> topv s \<and> (topv s = t \<longrightarrow> t < eb s)"
| "thief_ok p s (TSlot t r) \<longleftrightarrow> t \<le> topv s \<and> r < length (rings s)
     \<and> (topv s = t \<longrightarrow> t < eb s \<and> holds s (rings s ! r) t)"
| "thief_ok p s (TCas t v) \<longleftrightarrow> t \<le> topv s \<and> p (bits v)
     \<and> (topv s = t \<longrightarrow> t < eb s \<and> v = pushed s ! content s t)"

definition inv_ghost :: "dstate \<Rightarrow> bool" where
  "inv_ghost s \<longleftrightarrow> inj_on (content s) {topv s..<eb s} \<and> distinct (map fst (claims s))
     \<and> content s ` {topv s..<eb s} \<inter> fst ` set (claims s) = {}
     \<and> content s ` {topv s..<eb s} \<union> fst ` set (claims s) = {0..<length (pushed s)}"

definition claim_ok :: "(nat \<Rightarrow> steal_bits \<Rightarrow> bool) \<Rightarrow> dstate \<Rightarrow> bool" where
  "claim_ok pred s \<longleftrightarrow> (\<forall>(k, v, who) \<in> set (claims s).
      v = untag (pushed s ! k) \<and> (\<forall>i. who = Some i \<longrightarrow> pred i (bits (pushed s ! k))))"

definition dinv :: "(nat \<Rightarrow> steal_bits \<Rightarrow> bool) \<Rightarrow> dstate \<Rightarrow> bool" where
  "dinv pred s \<longleftrightarrow> inv_rings s \<and> inv_window s \<and> owner_ok s (opc s)
     \<and> (\<forall>i. thief_ok (pred i) s (tpc s i)) \<and> inv_ghost s \<and> claim_ok pred s"

lemma dinv_dinit: "pow2 cap \<Longrightarrow> dinv pred (dinit cap)"
  by (simp add: dinv_def dinit_def inv_rings_def inv_window_def eb_def inv_ghost_def claim_ok_def
      wf_MakeRing)

text \<open>What a thief relies on survives every step that does not move \<open>top_\<close> backwards and keeps the item
  at \<open>top_\<close> in place in every ring.\<close>

lemma thief_ok_frame:
  assumes "thief_ok p s pc" and "topv s \<le> topv s'" and "length (rings s) \<le> length (rings s')"
    and "topv s' = topv s \<Longrightarrow> topv s < eb s \<Longrightarrow>
           topv s < eb s' \<and> pushed s' ! content s' (topv s) = pushed s ! content s (topv s)
           \<and> (\<forall>r < length (rings s). ring_get (rings s' ! r) (topv s) = ring_get (rings s ! r) (topv s))"
  shows "thief_ok p s' pc"
  using assms by (cases pc) (auto simp: holds_def dest: le_antisym)

lemma thief_ok_same:
  assumes "thief_ok p s pc" and "topv s' = topv s" and "rings s' = rings s" and "eb s' = eb s"
    and "content s' = content s" and "pushed s' = pushed s"
  shows "thief_ok p s' pc"
  using assms by (intro thief_ok_frame [OF assms(1)]) auto

text \<open>Each conjunct depends on few fields.\<close>

lemma inv_rings_cong: "rings s' = rings s \<Longrightarrow> cur s' = cur s \<Longrightarrow> inv_rings s' = inv_rings s"
  by (simp only: inv_rings_def)

lemma inv_window_cong:
  "rings s' = rings s \<Longrightarrow> cur s' = cur s \<Longrightarrow> topv s' = topv s \<Longrightarrow> botv s' = botv s \<Longrightarrow> eb s' = eb s \<Longrightarrow>
   pushed s' = pushed s \<Longrightarrow> content s' = content s \<Longrightarrow> inv_window s' = inv_window s"
  by (simp only: inv_window_def holds_def)

lemma inv_ghost_cong:
  "topv s' = topv s \<Longrightarrow> eb s' = eb s \<Longrightarrow> pushed s' = pushed s \<Longrightarrow> content s' = content s \<Longrightarrow>
   claims s' = claims s \<Longrightarrow> inv_ghost s' = inv_ghost s"
  by (simp only: inv_ghost_def)

lemma claim_ok_cong:
  "pushed s' = pushed s \<Longrightarrow> claims s' = claims s \<Longrightarrow> claim_ok pred s' = claim_ok pred s"
  by (simp only: claim_ok_def)

lemma dinvD:
  assumes "dinv pred s"
  shows "inv_rings s" "inv_window s" "owner_ok s (opc s)" "thief_ok (pred i) s (tpc s i)"
    "inv_ghost s" "claim_ok pred s"
  using assms by (simp_all add: dinv_def)

lemma dinvI:
  assumes "inv_rings s" "inv_window s" "owner_ok s (opc s)" "\<And>i. thief_ok (pred i) s (tpc s i)"
    "inv_ghost s" "claim_ok pred s"
  shows "dinv pred s"
  using assms by (simp add: dinv_def)

lemma dinv_opc:
  assumes inv: "dinv pred s" and e: "eb (s\<lparr>opc := p\<rparr>) = eb s" and ok: "owner_ok (s\<lparr>opc := p\<rparr>) p"
  shows "dinv pred (s\<lparr>opc := p\<rparr>)" (is "dinv pred ?s'")
proof (rule dinvI)
  show "inv_rings ?s'" using dinvD(1) [OF inv] inv_rings_cong [of ?s' s] by simp
  show "inv_window ?s'" using dinvD(2) [OF inv] e inv_window_cong [of ?s' s] by simp
  show "owner_ok ?s' (opc ?s')" using ok by simp
  show "thief_ok (pred i) ?s' (tpc ?s' i)" for i
    using dinvD(4) [OF inv, of i] e by - (rule thief_ok_same [of _ s], auto)
  show "inv_ghost ?s'" using dinvD(5) [OF inv] e inv_ghost_cong [of ?s' s] by simp
  show "claim_ok pred ?s'" using dinvD(6) [OF inv] claim_ok_cong [of ?s' s pred] by simp
qed

lemma content_bound:
  assumes "inv_ghost s" and "topv s \<le> i" and "i < eb s"
  shows "content s i < length (pushed s)"
  using assms by (auto simp: inv_ghost_def)

subsection \<open>The owner's steps\<close>

lemma dinv_call_push:
  assumes "dinv pred s" and "call_push vs s = Some s'"
  shows "dinv pred s'"
proof -
  from assms(2) have "s' = s\<lparr>opc := OPushT vs (botv s) (topv s)\<rparr>" "opc s = OIdle"
    by (auto simp: call_push_def split: if_splits)
  with dinvD(2) [OF assms(1)] show ?thesis
    by (auto intro!: dinv_opc [OF assms(1)] simp: eb_def inv_window_def)
qed

lemma dinv_call_pop:
  assumes "dinv pred s" and "call_pop s = Some s'"
  shows "dinv pred s'"
proof -
  from assms(2) have "s' = s \<or> (s' = s\<lparr>opc := OPop1 (botv s - 1)\<rparr> \<and> topv s < botv s)" "opc s = OIdle"
    by (auto simp: call_pop_def split: if_splits)
  with assms(1) show ?thesis by (auto intro!: dinv_opc [OF assms(1)] simp: eb_def)
qed

lemma dinv_grow_abort:
  assumes "dinv pred s" and "grow_abort s = Some s'"
  shows "dinv pred s'"
proof -
  from assms(2) have "s' = s\<lparr>opc := OAborted\<rparr>" "eb (s\<lparr>opc := OAborted\<rparr>) = eb s"
    by (auto simp: grow_abort_def eb_def split: owner_pc.splits if_splits)
  with assms(1) show ?thesis by (auto intro!: dinv_opc [OF assms(1)])
qed

text \<open>Growing: the copy holds the window, and the old ring stays as it is for thieves that loaded it.\<close>

lemma dinv_grow:
  assumes inv: "dinv pred s" and pc: "opc s = OPushT vs b t"
  shows "dinv pred (s\<lparr>rings := rings s @ [copy_ring (cur_ring s) t b (MakeRing (capacity (cur_ring s) * 2))],
                     cur := length (rings s)\<rparr>)" (is "dinv pred ?s'")
proof -
  let ?c = "capacity (cur_ring s)"
  let ?n = "copy_ring (cur_ring s) t b (MakeRing (?c * 2))"
  have ow: "b = botv s" "t \<le> topv s" "b \<le> t + ?c" using dinvD(3) [OF inv] pc by auto
  have wfc: "wf_ring (cur_ring s)" using inv by (simp add: dinv_def inv_rings_def)
  then have "wf_ring (MakeRing (?c * 2))" by (intro wf_MakeRing pow2_double) (simp add: wf_ring_def)
  then have cp: "wf_ring ?n" "capacity ?n = ?c * 2"
      "\<And>i. t \<le> i \<Longrightarrow> i < b \<Longrightarrow> ring_get ?n i = ring_get (cur_ring s) i"
    using copy_ring_correct [of "MakeRing (?c * 2)" b t "cur_ring s"] ow(3) by auto
  have e: "eb s = b" "eb ?s' = b" using pc ow by (simp_all add: eb_def)
  show ?thesis
  proof (rule dinvI)
    show "inv_rings ?s'"
      using dinvD(1) [OF inv] cp(1) by (auto simp: inv_rings_def nth_append less_Suc_eq)
    show "inv_window ?s'"
      using dinvD(2) [OF inv] cp e ow by (auto simp: inv_window_def holds_def)
    show "owner_ok ?s' (opc ?s')" using pc ow cp by simp
    show "thief_ok (pred i) ?s' (tpc ?s' i)" for i
      using dinvD(4) [OF inv, of i] e by - (rule thief_ok_frame [of _ s], auto simp: nth_append)
    show "inv_ghost ?s'" using dinvD(5) [OF inv] e inv_ghost_cong [of ?s' s] by simp
    show "claim_ok pred ?s'" using dinvD(6) [OF inv] claim_ok_cong [of ?s' s pred] by simp
  qed
qed

lemma dinv_push_ready:
  assumes "dinv pred s" and "opc s = OPushT vs b t" and "\<not> b + length vs - t > capacity (cur_ring s)"
  shows "dinv pred (s\<lparr>opc := OPushS vs b 0\<rparr>)"
  using dinvD(3) [OF assms(1)] assms(2,3) by (intro dinv_opc [OF assms(1)]) (auto simp: eb_def)

text \<open>A slot store lands outside the window, so no thief can be reading that slot for a claim that will
  succeed.\<close>

lemma dinv_push_store:
  assumes inv: "dinv pred s" and pc: "opc s = OPushS vs b k" and k: "k < length vs"
  shows "dinv pred (s\<lparr>rings := (rings s)[cur s := ring_put (b + k) (vs ! k) (cur_ring s)],
                     opc := OPushS vs b (k + 1)\<rparr>)" (is "dinv pred ?s'")
proof -
  let ?r = "ring_put (b + k) (vs ! k) (cur_ring s)"
  have ow: "b = botv s" "b + length vs \<le> topv s + capacity (cur_ring s)"
      "\<forall>j < k. ring_get (cur_ring s) (b + j) = vs ! j" using dinvD(3) [OF inv] pc by auto
  have wfc: "wf_ring (cur_ring s)" and cur: "cur s < length (rings s)"
    using inv by (auto simp: dinv_def inv_rings_def)
  have e: "eb s = b" "eb ?s' = b" using pc ow by (simp_all add: eb_def)
  have tb: "topv s \<le> b" using inv e by (simp add: dinv_def inv_window_def)
  have get: "ring_get ?r i = (if i = b + k then vs ! k else ring_get (cur_ring s) i)"
    if "topv s \<le> i" "i \<le> b + k" for i
    using that k ow tb by (subst ring_get_put_window [OF wfc, of "topv s"]) auto
  have same: "ring_get (rings ?s' ! r) i = ring_get (rings s ! r) i" if "topv s \<le> i" "i < b" for r i
    using that get [of i] cur by (cases "r = cur s") auto
  show ?thesis
  proof (rule dinvI)
    show "inv_rings ?s'"
      using dinvD(1) [OF inv] cur wfc by (auto simp: inv_rings_def nth_list_update intro: wf_ring_put)
    show "inv_window ?s'"
      using dinvD(2) [OF inv] e get cur by (auto simp: inv_window_def holds_def)
    show "owner_ok ?s' (opc ?s')" using ow cur k get tb by (auto simp: less_Suc_eq)
    show "thief_ok (pred i) ?s' (tpc ?s' i)" for i
      using dinvD(4) [OF inv, of i] e same by - (rule thief_ok_frame [of _ s], auto)
    show "inv_ghost ?s'" using dinvD(5) [OF inv] e inv_ghost_cong [of ?s' s] by simp
    show "claim_ok pred ?s'" using dinvD(6) [OF inv] claim_ok_cong [of ?s' s pred] by simp
  qed
qed

text \<open>Publishing a batch: the new indices hold fresh pushes.\<close>

lemma inv_ghost_publish:
  assumes g: "inv_ghost s" and e: "eb s = b" and tb: "topv s \<le> b" and e': "eb (publish vs b s) = b + length vs"
  shows "inv_ghost (publish vs b s)"
proof -
  let ?n = "length vs" and ?s' = "publish vs b s" and ?m = "length (pushed s)"
  have new: "content ?s' ` {b..<b + ?n} = {?m..<?m + ?n}"
  proof -
    have "content ?s' ` {b..<b + ?n} = (\<lambda>i. ?m + (i - b)) ` {b..<b + ?n}"
      by (rule image_cong) (auto simp: publish_def)
    also have "\<dots> = {?m..<?m + ?n}"
    proof (rule set_eqI)
      show "x \<in> (\<lambda>i. ?m + (i - b)) ` {b..<b + ?n} \<longleftrightarrow> x \<in> {?m..<?m + ?n}" for x
        by (auto simp: image_iff intro!: bexI [of _ "b + (x - ?m)"])
    qed
    finally show ?thesis .
  qed
  have old: "content ?s' ` {topv s..<b} = content s ` {topv s..<b}"
    by (rule image_cong) (auto simp: publish_def)
  have split: "{topv s..<b + ?n} = {topv s..<b} \<union> {b..<b + ?n}" using tb by auto
  have lt: "content s ` {topv s..<b} \<union> fst ` set (claims s) = {0..<?m}"
      "content s ` {topv s..<b} \<inter> fst ` set (claims s) = {}" "distinct (map fst (claims s))"
      "inj_on (content s) {topv s..<b}"
    using g e by (auto simp: inv_ghost_def)
  then have bound: "content s ` {topv s..<b} \<subseteq> {0..<?m}" "fst ` set (claims s) \<subseteq> {0..<?m}" by blast+
  have "inj_on (content ?s') {topv s..<b}" "inj_on (content ?s') {b..<b + ?n}"
    using lt(4) by (auto simp: inj_on_def publish_def)
  moreover have "content ?s' ` {topv s..<b} \<inter> content ?s' ` {b..<b + ?n} = {}"
    using bound(1) by (auto simp: old new)
  ultimately have inj': "inj_on (content ?s') {topv s..<b + ?n}"
    by (auto simp: split inj_on_Un)
  have img': "content ?s' ` {topv s..<b + ?n} = content s ` {topv s..<b} \<union> {?m..<?m + ?n}"
    by (simp add: split image_Un old new)
  have fields: "topv ?s' = topv s" "claims ?s' = claims s" "length (pushed ?s') = ?m + ?n"
    by (simp_all add: publish_def)
  have disj: "{?m..<?m + ?n} \<inter> fst ` set (claims s) = {}" using bound(2) by auto
  have un: "{0..<?m} \<union> {?m..<?m + ?n} = {0..<?m + ?n}" by auto
  show ?thesis
  proof (unfold inv_ghost_def e' fields img', intro conjI)
    show "inj_on (content ?s') {topv s..<b + ?n}" by (rule inj')
    show "distinct (map fst (claims s))" by (rule lt(3))
    show "(content s ` {topv s..<b} \<union> {?m..<?m + ?n}) \<inter> fst ` set (claims s) = {}"
      using lt(2) disj by blast
    show "content s ` {topv s..<b} \<union> {?m..<?m + ?n} \<union> fst ` set (claims s) = {0..<?m + ?n}"
      using lt(1) un by blast
  qed
qed

lemma dinv_publish:
  assumes inv: "dinv pred s" and pc: "opc s = OPushS vs b k" and k: "\<not> k < length vs"
  shows "dinv pred (publish vs b s)" (is "dinv pred ?s'")
proof -
  have ow: "b = botv s" "b + length vs \<le> topv s + capacity (cur_ring s)"
      "\<forall>j < length vs. ring_get (cur_ring s) (b + j) = vs ! j"
    using dinvD(3) [OF inv] pc k by auto
  have e: "eb s = b" "eb ?s' = b + length vs" using pc ow by (simp_all add: eb_def publish_def)
  have tb: "topv s \<le> b" using dinvD(2) [OF inv] e by (simp add: inv_window_def)
  have val: "pushed ?s' ! content ?s' i = (if b \<le> i then vs ! (i - b) else pushed s ! content s i)"
    if "topv s \<le> i" "i < b + length vs" for i
    using that content_bound [OF dinvD(5) [OF inv], of i] e by (auto simp: publish_def nth_append)
  have fields: "rings ?s' = rings s" "cur ?s' = cur s" "topv ?s' = topv s" "tpc ?s' = tpc s"
    "claims ?s' = claims s" "opc ?s' = OIdle" "botv ?s' = b + length vs" by (simp_all add: publish_def)
  show ?thesis
  proof (rule dinvI)
    show "inv_rings ?s'" using dinvD(1) [OF inv] inv_rings_cong [of ?s' s] fields by simp
    show "inv_window ?s'"
    proof -
      have "holds ?s' (cur_ring s) i" if i: "topv s \<le> i" "i < b + length vs" for i
        using dinvD(2) [OF inv] e ow(3) val [OF i] i
        by (cases "b \<le> i") (auto simp: holds_def inv_window_def dest: spec [of _ "i - b"])
      then show ?thesis using ow tb e(2) fields by (auto simp: inv_window_def)
    qed
    show "owner_ok ?s' (opc ?s')" by (simp add: fields)
    show "thief_ok (pred i) ?s' (tpc ?s' i)" for i
      using dinvD(4) [OF inv, of i] e val fields by - (rule thief_ok_frame [of _ s], auto)
    show "inv_ghost ?s'" using inv_ghost_publish dinvD(5) [OF inv] e tb by blast
    have "k < length (pushed s)" if "(k, v, w) \<in> set (claims s)" for k v w
      using that dinvD(5) [OF inv] by (force simp: inv_ghost_def)
    then show "claim_ok pred ?s'" using dinvD(6) [OF inv]
      by (fastforce simp: claim_ok_def publish_def nth_append)
  qed
qed

subsection \<open>Claims\<close>

text \<open>Taking the first or the last item of the window moves one push from the window to the claims.\<close>

lemma inv_ghost_claim:
  assumes g: "inv_ghost s" and j: "topv s \<le> j" "j < eb s"
    and w: "{topv s'..<eb s'} = {topv s..<eb s} - {j}"
    and same: "content s' = content s" "pushed s' = pushed s"
    and c: "claims s' = claims s @ [(content s j, v, who)]"
  shows "inv_ghost s'"
proof -
  let ?A = "{topv s..<eb s}"
  have inj: "inj_on (content s) ?A" using g by (simp add: inv_ghost_def)
  have jA: "j \<in> ?A" using j by simp
  have img: "content s ` (?A - {j}) = content s ` ?A - {content s j}"
    using inj_on_image_set_diff [OF inj, of ?A "{j}"] jA by simp
  have "inj_on (content s) (?A - {j})" using inj by (rule inj_on_subset) blast
  moreover have cj: "content s j \<in> content s ` ?A" using jA by (rule imageI)
  moreover have "content s j \<notin> fst ` set (claims s)"
    using g cj unfolding inv_ghost_def by blast
  ultimately show ?thesis
    using g unfolding inv_ghost_def w same c img
    by (simp add: insert_absorb) blast
qed

lemma claim_ok_claim:
  assumes "claim_ok pred s" and "pushed s' = pushed s" and "claims s' = claims s @ [(k, v, who)]"
    and "v = untag (pushed s ! k)" and "\<And>i. who = Some i \<Longrightarrow> pred i (bits (pushed s ! k))"
  shows "claim_ok pred s'"
  using assms by (auto simp: claim_ok_def)

lemma dinv_pop2_take:
  assumes inv: "dinv pred s" and pc: "opc s = OPop2 b" and t: "topv s < b"
  shows "dinv pred (s\<lparr>opc := OIdle, claims := claims s @ [(content s b, untag (ring_get (cur_ring s) b), None)]\<rparr>)"
    (is "dinv pred ?s'")
proof -
  have e: "eb s = b + 1" "eb ?s' = b" and ow: "botv s = b"
    using dinvD(3) [OF inv] pc by (simp_all add: eb_def)
  have w: "{topv ?s'..<eb ?s'} = {topv s..<eb s} - {b}" using e by auto
  have h: "holds s (cur_ring s) b" using dinvD(2) [OF inv] e t by (simp add: inv_window_def)
  show ?thesis
  proof (rule dinvI)
    show "inv_rings ?s'" using dinvD(1) [OF inv] inv_rings_cong [of ?s' s] by simp
    show "inv_window ?s'" using dinvD(2) [OF inv] e t ow by (auto simp: inv_window_def holds_def)
    show "owner_ok ?s' (opc ?s')" by simp
    show "thief_ok (pred i) ?s' (tpc ?s' i)" for i
      using dinvD(4) [OF inv, of i] e t by - (rule thief_ok_frame [of _ s], auto)
    show "inv_ghost ?s'"
      using inv_ghost_claim [OF dinvD(5) [OF inv] _ _ w] e t by simp
    show "claim_ok pred ?s'"
      using h by (intro claim_ok_claim [OF dinvD(6) [OF inv]]) (auto simp: holds_def)
  qed
qed

lemma dinv_pop_cas:
  assumes inv: "dinv pred s" and pc: "opc s = OPopCas b v" and t: "topv s = b"
  shows "dinv pred (s\<lparr>topv := b + 1, opc := OPopRestore (b + 1), claims := claims s @ [(content s b, untag v, None)]\<rparr>)"
    (is "dinv pred ?s'")
proof -
  have e: "eb s = b + 1" "eb ?s' = b + 1" and ow: "botv s = b" "v = pushed s ! content s b"
    using dinvD(3) [OF inv] pc t by (simp_all add: eb_def)
  have w: "{topv ?s'..<eb ?s'} = {topv s..<eb s} - {b}" using e t by auto
  show ?thesis
  proof (rule dinvI)
    show "inv_rings ?s'" using dinvD(1) [OF inv] inv_rings_cong [of ?s' s] by simp
    show "inv_window ?s'" using dinvD(2) [OF inv] e t ow by (auto simp: inv_window_def holds_def)
    show "owner_ok ?s' (opc ?s')" by simp
    show "thief_ok (pred i) ?s' (tpc ?s' i)" for i
      using dinvD(4) [OF inv, of i] e t by - (rule thief_ok_frame [of _ s], auto)
    show "inv_ghost ?s'"
      using inv_ghost_claim [OF dinvD(5) [OF inv] _ _ w] e t by simp
    show "claim_ok pred ?s'"
      using ow by (intro claim_ok_claim [OF dinvD(6) [OF inv]]) auto
  qed
qed

lemma dinv_botv:
  assumes inv: "dinv pred s" and e: "eb (s\<lparr>botv := x, opc := p\<rparr>) = eb s" and x: "x \<le> eb s"
    and ok: "owner_ok (s\<lparr>botv := x, opc := p\<rparr>) p"
  shows "dinv pred (s\<lparr>botv := x, opc := p\<rparr>)" (is "dinv pred ?s'")
proof (rule dinvI)
  show "inv_rings ?s'" using dinvD(1) [OF inv] inv_rings_cong [of ?s' s] by simp
  show "inv_window ?s'" using dinvD(2) [OF inv] e x by (simp add: inv_window_def holds_def)
  show "owner_ok ?s' (opc ?s')" using ok by simp
  show "thief_ok (pred i) ?s' (tpc ?s' i)" for i
    using dinvD(4) [OF inv, of i] e by - (rule thief_ok_same [of _ s], auto)
  show "inv_ghost ?s'" using dinvD(5) [OF inv] e inv_ghost_cong [of ?s' s] by simp
  show "claim_ok pred ?s'" using dinvD(6) [OF inv] claim_ok_cong [of ?s' s pred] by simp
qed

lemma dinv_owner_step:
  assumes inv: "dinv pred s" and step: "owner_step s = Some s'"
  shows "dinv pred s'"
proof (cases "opc s")
  case (OPushT vs b t)
  then show ?thesis
    using step dinv_grow [OF inv OPushT] dinv_push_ready [OF inv OPushT]
    by (auto simp: owner_step_def split: if_splits)
next
  case (OPushS vs b k)
  then show ?thesis
    using step dinv_push_store [OF inv OPushS] dinv_publish [OF inv OPushS]
    by (auto simp: owner_step_def split: if_splits)
next
  case (OPop1 b)
  then show ?thesis
    using step dinvD(3) [OF inv] by (auto simp: owner_step_def eb_def intro!: dinv_botv [OF inv])
next
  case (OPop2 b)
  have e: "eb s = b + 1" and ow: "botv s = b" using dinvD(3) [OF inv] OPop2 by (simp_all add: eb_def)
  have win: "topv s \<le> b + 1" "topv s = b \<Longrightarrow> holds s (cur_ring s) b"
    using dinvD(2) [OF inv] e by (auto simp: inv_window_def)
  consider "topv s < b" | "topv s = b" | "topv s = b + 1" using win(1) by linarith
  then show ?thesis
  proof cases
    case 1
    then show ?thesis using step OPop2 dinv_pop2_take [OF inv OPop2] by (simp add: owner_step_def Let_def)
  next
    case 2
    then show ?thesis using step OPop2 ow win(2)
      by (auto simp: owner_step_def Let_def holds_def eb_def intro!: dinv_opc [OF inv])
  next
    case 3
    then show ?thesis using step OPop2
      by (auto simp: owner_step_def Let_def eb_def intro!: dinv_opc [OF inv])
  qed
next
  case (OPopCas b v)
  have "topv s \<le> b + 1" "b \<le> topv s" using dinvD(2,3) [OF inv] OPopCas by (auto simp: inv_window_def eb_def)
  then show ?thesis
    using step OPopCas dinv_pop_cas [OF inv OPopCas]
    by (auto simp: owner_step_def eb_def split: if_splits intro!: dinv_opc [OF inv])
next
  case (OPopRestore x)
  then show ?thesis
    using step by (auto simp: owner_step_def eb_def intro!: dinv_botv [OF inv])
qed (use step in \<open>auto simp: owner_step_def\<close>)

subsection \<open>The thieves' steps\<close>

lemma dinv_tpc:
  assumes inv: "dinv pred s" and ok: "thief_ok (pred i) s p"
  shows "dinv pred (s\<lparr>tpc := (tpc s)(i := p)\<rparr>)" (is "dinv pred ?s'")
proof (rule dinvI)
  have e: "eb ?s' = eb s" by (simp add: eb_def split: owner_pc.split)
  show "inv_rings ?s'" using dinvD(1) [OF inv] inv_rings_cong [of ?s' s] by simp
  show "inv_window ?s'" using dinvD(2) [OF inv] e inv_window_cong [of ?s' s] by simp
  show "owner_ok ?s' (opc ?s')" using dinvD(3) [OF inv] by (cases "opc s") auto
  show "thief_ok (pred j) ?s' (tpc ?s' j)" for j
    using dinvD(4) [OF inv, of j] ok e by - (rule thief_ok_same [of _ s], auto)
  show "inv_ghost ?s'" using dinvD(5) [OF inv] e inv_ghost_cong [of ?s' s] by simp
  show "claim_ok pred ?s'" using dinvD(6) [OF inv] claim_ok_cong [of ?s' s pred] by simp
qed

lemma dinv_thief_claim:
  assumes inv: "dinv pred s" and pc: "tpc s i = TCas t v" and t: "topv s = t"
  shows "dinv pred (s\<lparr>topv := t + 1, tpc := (tpc s)(i := TIdle),
                     claims := claims s @ [(content s t, untag v, Some i)]\<rparr>)" (is "dinv pred ?s'")
proof -
  have e: "eb ?s' = eb s" by (simp add: eb_def split: owner_pc.split)
  have ok: "t < eb s" "v = pushed s ! content s t" "pred i (bits v)"
    using dinvD(4) [OF inv, of i] pc t by auto
  have w: "{topv ?s'..<eb ?s'} = {topv s..<eb s} - {t}" using e t by auto
  show ?thesis
  proof (rule dinvI)
    show "inv_rings ?s'" using dinvD(1) [OF inv] inv_rings_cong [of ?s' s] by simp
    show "inv_window ?s'" using dinvD(2) [OF inv] e t ok by (auto simp: inv_window_def holds_def)
    show "owner_ok ?s' (opc ?s')"
      using dinvD(3) [OF inv] t ok(1) by (cases "opc s") (auto simp: eb_def)
    show "thief_ok (pred j) ?s' (tpc ?s' j)" for j
      using dinvD(4) [OF inv, of j] e t by (cases "j = i") (auto intro: thief_ok_frame)
    show "inv_ghost ?s'"
      using inv_ghost_claim [OF dinvD(5) [OF inv] _ _ w] ok t by simp
    show "claim_ok pred ?s'"
      using ok by (intro claim_ok_claim [OF dinvD(6) [OF inv]]) auto
  qed
qed

lemma dinv_thief_step:
  assumes inv: "dinv pred s"
  shows "dinv pred (thief_step pred i s)"
proof -
  note ok = dinvD(4) [OF inv, of i]
  have cur: "cur s < length (rings s)" and be: "botv s \<le> eb s"
    and win: "topv s < eb s \<Longrightarrow> holds s (cur_ring s) (topv s)"
    using dinvD(1,2) [OF inv] by (auto simp: inv_rings_def inv_window_def)
  show ?thesis
  proof (cases "tpc s i")
    case (TCas t v)
    then show ?thesis using dinv_thief_claim [OF inv TCas]
      by (auto simp: thief_step_def intro!: dinv_tpc [OF inv])
  qed (use ok cur be win in \<open>auto simp: thief_step_def Let_def holds_def intro!: dinv_tpc [OF inv]\<close>)
qed

lemma dinv_dstep: "dinv pred s \<Longrightarrow> dstep pred a s = Some s' \<Longrightarrow> dinv pred s'"
  by (cases a) (auto intro: dinv_call_push dinv_call_pop dinv_owner_step dinv_grow_abort dinv_thief_step)

lemma dinv_dreach: "dreach pred cap s \<Longrightarrow> pow2 cap \<Longrightarrow> dinv pred s"
  by (induction rule: dreach.induct) (auto intro: dinv_dinit dinv_dstep)

section \<open>What the protocol guarantees\<close>

text \<open>C1: However the owner and its thieves interleave, no push is claimed twice (by the owner and a
  thief, or by two thieves), whoever claims a push gets exactly the pointer that was pushed, and a
  thief only ever claims a task whose tag its predicate accepted.\<close>

theorem deque_claims_exclusive:
  assumes "pow2 cap" and "dreach pred cap s"
  shows "distinct (map fst (claims s))
       \<and> (\<forall>k v who. (k, v, who) \<in> set (claims s) \<longrightarrow>
            k < length (pushed s) \<and> v = untag (pushed s ! k)
            \<and> (\<forall>i. who = Some i \<longrightarrow> pred i (bits (pushed s ! k))))"
proof -
  note inv = dinv_dreach [OF assms(2,1)]
  have "k < length (pushed s)" if "(k, v, who) \<in> set (claims s)" for k v who
    using that dinvD(5) [OF inv] by (force simp: inv_ghost_def)
  with dinvD(5,6) [OF inv] show ?thesis by (auto simp: inv_ghost_def claim_ok_def)
qed

text \<open>The owner pushes two tasks into a ring of one (so the ring grows), a thief loads the ring, the owner
  pops down to the last item and races the thief for it.\<close>

definition race_run :: "act list" where
  "race_run = [CallPush [0x10, 0x24], Owner, Owner, Owner, Owner, Owner, Thief 0, Thief 0, CallPop, Owner, Owner,
     Thief 0, Thief 0, CallPop, Owner, Owner, Thief 0, Owner, Owner]"

lemma race_run_ends:
  "case drun (\<lambda>_ _. True) race_run (dinit 1) of None \<Rightarrow> False
   | Some s \<Rightarrow> claims s = [(1, 0x20, None), (0, 0x10, Some 0)] \<and> opc s = OIdle \<and> pushed s = [0x10, 0x24]"
  by code_simp

lemma race_run_obtain:
  obtains s where "dreach (\<lambda>_ _. True) 1 s" "claims s = [(1, 0x20, None), (0, 0x10, Some 0)]"
    "opc s = OIdle" "pushed s = [0x10, 0x24]"
  using drun_obtain [OF race_run_ends] by blast

theorem deque_claims_exclusive_witness:
  "\<exists>s. dreach (\<lambda>_ _. True) 1 s \<and> length (claims s) = 2 \<and> distinct (map fst (claims s))"
proof -
  obtain s where s: "dreach (\<lambda>_ _. True) 1 s" "claims s = [(1, 0x20, None), (0, 0x10, Some 0)]"
    by (rule race_run_obtain)
  have "pow2 1" using pow2_exp [of 0] by simp
  from deque_claims_exclusive [OF this s(1)] s show ?thesis by auto
qed

text \<open>C2: Nothing is lost. Whenever the owner is between operations, every task it ever pushed has either
  been claimed or sits in the window \<^verbatim>\<open>[top_, bottom_)\<close> of the live ring, exactly once; so a
  pop that finds the deque empty means every push was claimed.\<close>

theorem deque_nothing_lost:
  assumes "pow2 cap" and "dreach pred cap s" and "opc s = OIdle"
  shows "mset (map fst (claims s)) + mset (map (content s) [topv s..<botv s]) = mset [0..<length (pushed s)]
       \<and> map (ring_get (cur_ring s)) [topv s..<botv s] = map (\<lambda>i. pushed s ! content s i) [topv s..<botv s]"
proof
  note inv = dinv_dreach [OF assms(2,1)]
  have e: "eb s = botv s" using assms(3) by (simp add: eb_def)
  let ?l = "map fst (claims s) @ map (content s) [topv s..<botv s]"
  have "distinct ?l" "set ?l = set [0..<length (pushed s)]"
    using dinvD(5) [OF inv] e by (auto simp: inv_ghost_def distinct_map)
  then have "mset ?l = mset [0..<length (pushed s)]"
    by (subst set_eq_iff_mset_eq_distinct [symmetric]) auto
  then show "mset (map fst (claims s)) + mset (map (content s) [topv s..<botv s]) = mset [0..<length (pushed s)]"
    by simp
  show "map (ring_get (cur_ring s)) [topv s..<botv s] = map (\<lambda>i. pushed s ! content s i) [topv s..<botv s]"
    using dinvD(2) [OF inv] e by (auto simp: inv_window_def holds_def)
qed

theorem deque_nothing_lost_witness:
  "\<exists>s. dreach (\<lambda>_ _. True) 1 s \<and> mset (map fst (claims s)) + mset (map (content s) [topv s..<botv s]) = mset [0, 1]"
proof -
  obtain s where s: "dreach (\<lambda>_ _. True) 1 s" "opc s = OIdle" "pushed s = [0x10, 0x24]"
    by (rule race_run_obtain)
  have "pow2 1" using pow2_exp [of 0] by simp
  moreover have "[0..<length (pushed s)] = [0, 1]" using s(3) by (simp add: upt_rec)
  ultimately show ?thesis using deque_nothing_lost [of 1, OF _ s(1,2)] s(1) by metis
qed

end
