(* ===== verification/Mpsc_Queue.thy ===== *)
theory Mpsc_Queue
  imports Sched_Prelude
begin

text \<open>
  The intrusive multi-producer single-consumer queue of \<^verbatim>\<open>include/TaskMPSCQueue.h\<close> (a worker's
  inbox). Producers exchange \<^verbatim>\<open>head_\<close> and then store the predecessor's \<^verbatim>\<open>next\<close>, as two separate steps;
  the consumer's \<^verbatim>\<open>pop\<close> is split at each of its shared accesses. The auxiliary fields \<open>chain\<close>,
  \<open>committed\<close> and \<open>popped\<close> record the nodes from \<^verbatim>\<open>tail_\<close> to \<^verbatim>\<open>head_\<close> in exchange order, every task
  pushed in that order, and every task returned; no step branches on them.
\<close>

section \<open>State\<close>

type_synonym node = nat   \<comment> \<open>a \<^verbatim>\<open>Task*\<close>\<close>

datatype pop_pc =
    PIdle
  | PTail node     \<comment> \<open>\<open>tail\<close> is not the stub; about to load its \<open>next\<close>\<close>
  | PHead node     \<comment> \<open>no \<open>next\<close>; about to compare with \<open>head_\<close>\<close>
  | PExch node     \<comment> \<open>about to exchange \<open>head_\<close> in \<^verbatim>\<open>append(stub_)\<close>\<close>
  | PLink node node  \<comment> \<open>about to link the stub behind the previous head\<close>
  | PLast node     \<comment> \<open>about to load \<open>next\<close> for the last time\<close>

record mpsc =
  mq_head :: node
  mq_tail :: node
  mq_stub :: node
  mq_next :: "node \<Rightarrow> node option"
  mq_pend :: "nat \<Rightarrow> (node \<times> node) option"  \<comment> \<open>producer between exchange and link: its \<open>prev\<close> and first node\<close>
  mq_pop :: pop_pc
  mq_result :: "node option"     \<comment> \<open>what the last finished \<^verbatim>\<open>pop\<close> returned\<close>
  chain :: "node list"
  committed :: "node list"
  popped :: "node list"

definition init :: "node \<Rightarrow> mpsc" where
  "init stub = \<lparr>mq_head = stub, mq_tail = stub, mq_stub = stub, mq_next = (\<lambda>_. None), mq_pend = (\<lambda>_. None),
                mq_pop = PIdle, mq_result = None, chain = [stub], committed = [], popped = []\<rparr>"

section \<open>Producers\<close>

text \<open>Adjacent pairs of a list, and a batch already linked through \<open>next\<close>, as \<^verbatim>\<open>push_batch\<close> expects it.\<close>

fun adj :: "'a list \<Rightarrow> ('a \<times> 'a) list" where
  "adj (x # y # ys) = (x, y) # adj (y # ys)"
| "adj _ = []"

definition linked :: "(node \<Rightarrow> node option) \<Rightarrow> node list \<Rightarrow> bool" where
  "linked nx xs \<longleftrightarrow> (\<forall>(a, b) \<in> set (adj xs). nx a = Some b)"

text \<open>A task that is in no queue may be linked to another by its owner before a batch push.\<close>

definition link_private :: "node \<Rightarrow> node \<Rightarrow> mpsc \<Rightarrow> mpsc option" where
  "link_private a b s =
     (if a \<in> set (chain s) \<or> a = mq_stub s then None else Some (s\<lparr>mq_next := (mq_next s)(a \<mapsto> b)\<rparr>))"

text \<open>\<^verbatim>\<open>push_batch\<close> up to its exchange; \<^verbatim>\<open>push\<close> is the batch of one. The guard is the caller's contract:
  a linked, non-empty batch of distinct tasks that are in no queue.\<close>

definition push_exchange :: "nat \<Rightarrow> node list \<Rightarrow> mpsc \<Rightarrow> mpsc option" where
  "push_exchange p xs s =
     (if mq_pend s p = None \<and> xs \<noteq> [] \<and> distinct xs \<and> linked (mq_next s) xs
         \<and> set xs \<inter> set (chain s) = {} \<and> mq_stub s \<notin> set xs
      then Some (s\<lparr>mq_next := (mq_next s)(last xs := None), mq_head := last xs,
                   mq_pend := (mq_pend s)(p \<mapsto> (mq_head s, hd xs)),
                   chain := chain s @ xs, committed := committed s @ xs\<rparr>)
      else None)"

definition push_link :: "nat \<Rightarrow> mpsc \<Rightarrow> mpsc option" where
  "push_link p s =
     (case mq_pend s p of
        None \<Rightarrow> None
      | Some (prev, n) \<Rightarrow> Some (s\<lparr>mq_next := (mq_next s)(prev \<mapsto> n), mq_pend := (mq_pend s)(p := None)\<rparr>))"

section \<open>The consumer\<close>

definition pop_return :: "node option \<Rightarrow> mpsc \<Rightarrow> mpsc" where
  "pop_return r s = s\<lparr>mq_pop := PIdle, mq_result := r, popped := popped s @ (case r of None \<Rightarrow> [] | Some x \<Rightarrow> [x])\<rparr>"

definition take_tail :: "node \<Rightarrow> mpsc \<Rightarrow> mpsc" where
  "take_tail nx s = s\<lparr>mq_tail := nx, chain := tl (chain s)\<rparr>"

definition pop_step :: "mpsc \<Rightarrow> mpsc" where
  "pop_step s =
     (case mq_pop s of
        PIdle \<Rightarrow>
          (let tail = mq_tail s in
           if tail = mq_stub s then
             (case mq_next s tail of
                None \<Rightarrow> pop_return None s
              | Some nx \<Rightarrow> (take_tail nx s)\<lparr>mq_pop := PTail nx\<rparr>)
           else (case mq_next s tail of
                   Some nx \<Rightarrow> pop_return (Some tail) (take_tail nx s)
                 | None \<Rightarrow> s\<lparr>mq_pop := PHead tail\<rparr>))
      | PTail tail \<Rightarrow>
          (case mq_next s tail of
             Some nx \<Rightarrow> pop_return (Some tail) (take_tail nx s)
           | None \<Rightarrow> s\<lparr>mq_pop := PHead tail\<rparr>)
      | PHead tail \<Rightarrow> (if tail \<noteq> mq_head s then pop_return None s else s\<lparr>mq_pop := PExch tail\<rparr>)
      | PExch tail \<Rightarrow>
          s\<lparr>mq_next := (mq_next s)(mq_stub s := None), mq_head := mq_stub s,
            mq_pop := PLink tail (mq_head s), chain := chain s @ [mq_stub s]\<rparr>
      | PLink tail prev \<Rightarrow> s\<lparr>mq_next := (mq_next s)(prev \<mapsto> mq_stub s), mq_pop := PLast tail\<rparr>
      | PLast tail \<Rightarrow>
          (case mq_next s tail of
             Some nx \<Rightarrow> pop_return (Some tail) (take_tail nx s)
           | None \<Rightarrow> pop_return None s))"

definition empty :: "mpsc \<Rightarrow> bool" where
  "empty s \<longleftrightarrow> mq_tail s = mq_stub s \<and> mq_next s (mq_tail s) = None"

definition quiescent :: "mpsc \<Rightarrow> bool" where
  "quiescent s \<longleftrightarrow>
     (let tail = mq_tail s in
      if tail \<noteq> mq_stub s then False
      else if mq_next s tail \<noteq> None then False
      else mq_head s = tail)"

text \<open>\<^verbatim>\<open>pop\<close> with nobody interfering: at most six accesses.\<close>

definition settle :: "mpsc \<Rightarrow> mpsc" where
  "settle s = (if mq_pop s = PIdle then s else pop_step s)"

definition pop :: "mpsc \<Rightarrow> node option \<times> mpsc" where
  "pop s = (let s' = settle (settle (settle (settle (settle (pop_step s))))) in (mq_result s', s'))"

partial_function (option) clear :: "mpsc \<Rightarrow> mpsc option" where
  "clear s = (case pop s of (None, s') \<Rightarrow> Some s' | (Some _, s') \<Rightarrow> clear s')"

section \<open>Interleaved runs\<close>

datatype mact = LinkPrivate node node | Exchange nat "node list" | Link nat | Consumer

fun mstep :: "mact \<Rightarrow> mpsc \<Rightarrow> mpsc option" where
  "mstep (LinkPrivate a b) s = link_private a b s"
| "mstep (Exchange p xs) s = push_exchange p xs s"
| "mstep (Link p) s = push_link p s"
| "mstep Consumer s = Some (pop_step s)"

fun mrun :: "mact list \<Rightarrow> mpsc \<Rightarrow> mpsc option" where
  "mrun [] s = Some s"
| "mrun (a # as) s = (case mstep a s of None \<Rightarrow> None | Some s' \<Rightarrow> mrun as s')"

inductive mreach :: "node \<Rightarrow> mpsc \<Rightarrow> bool" for stub where
  mreach_init: "mreach stub (init stub)"
| mreach_step: "mreach stub s \<Longrightarrow> mstep a s = Some s' \<Longrightarrow> mreach stub s'"

lemma mrun_mreach: "mreach stub s \<Longrightarrow> mrun as s = Some s' \<Longrightarrow> mreach stub s'"
  by (induction as arbitrary: s) (auto split: option.splits intro: mreach_step)

lemma mrun_obtain:
  "(case mrun as (init stub) of None \<Rightarrow> False | Some s \<Rightarrow> P s) \<Longrightarrow> \<exists>s. mreach stub s \<and> P s"
  by (auto split: option.splits intro: mrun_mreach [OF mreach_init])

section \<open>The invariant\<close>

lemma adj_append:
  "xs \<noteq> [] \<Longrightarrow> ys \<noteq> [] \<Longrightarrow> set (adj (xs @ ys)) = insert (last xs, hd ys) (set (adj xs) \<union> set (adj ys))"
proof (induction xs)
  case (Cons x xs)
  then show ?case by (cases xs; cases ys) auto
qed simp

lemma adj_elems: "(a, b) \<in> set (adj xs) \<Longrightarrow> a \<in> set xs \<and> b \<in> set xs"
  by (induction xs rule: adj.induct) auto

lemma adj_not_last: "distinct xs \<Longrightarrow> (a, b) \<in> set (adj xs) \<Longrightarrow> a \<noteq> last xs"
proof (induction xs rule: adj.induct)
  case (1 x y ys)
  then show ?case by (cases "(a, b) = (x, y)") (auto split: if_splits)
qed auto

lemma adj_fun: "distinct xs \<Longrightarrow> (a, b) \<in> set (adj xs) \<Longrightarrow> (a, c) \<in> set (adj xs) \<Longrightarrow> b = c"
  by (induction xs rule: adj.induct) (auto dest: adj_elems)

lemma adj_ex: "x \<in> set xs \<Longrightarrow> x \<noteq> last xs \<Longrightarrow> \<exists>y. (x, y) \<in> set (adj xs)"
  by (induction xs rule: adj.induct) (auto split: if_splits)

text \<open>The edges whose link store is still to come: one per producer in its window, and the consumer's own
  while it re-appends the stub.\<close>

fun own_link :: "node \<Rightarrow> pop_pc \<Rightarrow> (node \<times> node) set" where
  "own_link stub (PLink tail prev) = {(prev, stub)}"
| "own_link stub _ = {}"

definition inflight :: "mpsc \<Rightarrow> (node \<times> node) set" where
  "inflight s = ran (mq_pend s) \<union> own_link (mq_stub s) (mq_pop s)"

definition edges_ok :: "mpsc \<Rightarrow> bool" where
  "edges_ok s \<longleftrightarrow> (\<forall>(a, b) \<in> set (adj (chain s)).
     mq_next s a = (if (a, b) \<in> inflight s then None else Some b)) \<and> inflight s \<subseteq> set (adj (chain s))"

text \<open>No two windows are open on the same edge.\<close>

definition pend_inj :: "mpsc \<Rightarrow> bool" where
  "pend_inj s \<longleftrightarrow> (\<forall>p q e. mq_pend s p = Some e \<longrightarrow> mq_pend s q = Some e \<longrightarrow> p = q)
     \<and> ran (mq_pend s) \<inter> own_link (mq_stub s) (mq_pop s) = {}"

definition pop_ok :: "mpsc \<Rightarrow> bool" where
  "pop_ok s \<longleftrightarrow>
     (case mq_pop s of
        PIdle \<Rightarrow> True
      | PExch tail \<Rightarrow> tail = mq_tail s \<and> tail \<noteq> mq_stub s \<and> mq_stub s \<notin> set (chain s)
      | PTail tail \<Rightarrow> tail = mq_tail s \<and> tail \<noteq> mq_stub s
      | PHead tail \<Rightarrow> tail = mq_tail s \<and> tail \<noteq> mq_stub s
      | PLink tail prev \<Rightarrow> tail = mq_tail s \<and> tail \<noteq> mq_stub s
      | PLast tail \<Rightarrow> tail = mq_tail s \<and> tail \<noteq> mq_stub s)"

text \<open>The tasks in the queue, stub apart.\<close>

definition items :: "mpsc \<Rightarrow> node list" where
  "items s = filter (\<lambda>x. x \<noteq> mq_stub s) (chain s)"

definition chain_ok :: "mpsc \<Rightarrow> bool" where
  "chain_ok s \<longleftrightarrow> chain s \<noteq> [] \<and> distinct (chain s) \<and> hd (chain s) = mq_tail s \<and> last (chain s) = mq_head s
     \<and> mq_next s (mq_head s) = None \<and> committed s = popped s @ items s"

definition minv :: "mpsc \<Rightarrow> bool" where
  "minv s \<longleftrightarrow> chain_ok s \<and> edges_ok s \<and> pend_inj s \<and> pop_ok s"

lemmas minv_defs = minv_def chain_ok_def edges_ok_def pend_inj_def pop_ok_def

lemma minvD:
  assumes "minv s"
  shows "chain_ok s" "edges_ok s" "pend_inj s" "pop_ok s"
  using assms by (simp_all add: minv_def)

lemma minv_init: "minv (init stub)"
  by (simp add: minv_defs init_def items_def inflight_def)

lemma edge_next:
  assumes "edges_ok s" and "(a, b) \<in> set (adj (chain s))"
  shows "mq_next s a = (if (a, b) \<in> inflight s then None else Some b)"
  using assms by (auto simp: edges_ok_def)

lemma edges_okI:
  assumes "\<And>a b. (a, b) \<in> set (adj (chain s)) \<Longrightarrow> mq_next s a = (if (a, b) \<in> inflight s then None else Some b)"
    and "inflight s \<subseteq> set (adj (chain s))"
  shows "edges_ok s"
  unfolding edges_ok_def using assms by auto

lemma minv_link_private:
  assumes inv: "minv s" and step: "link_private a b s = Some s'"
  shows "minv s'"
proof -
  have a: "a \<notin> set (chain s)" and s': "s' = s\<lparr>mq_next := (mq_next s)(a \<mapsto> b)\<rparr>"
    using step by (auto simp: link_private_def split: if_splits)
  have "a \<noteq> mq_head s" using minvD(1) [OF inv] a last_in_set by (force simp: chain_ok_def)
  then have "chain_ok s'" using minvD(1) [OF inv] by (simp add: s' chain_ok_def items_def)
  moreover have i: "inflight s' = inflight s" by (simp add: s' inflight_def)
  have "edges_ok s'"
    using minvD(2) [OF inv] a unfolding edges_ok_def i by (fastforce simp: s' dest: adj_elems)
  moreover have "pend_inj s'" using minvD(3) [OF inv] by (simp add: s' pend_inj_def)
  moreover have "pop_ok s'" using minvD(4) [OF inv] by (simp add: s' pop_ok_def split: pop_pc.splits)
  ultimately show ?thesis by (simp add: minv_def)
qed

lemma minv_push_exchange:
  assumes inv: "minv s" and step: "push_exchange p xs s = Some s'"
  shows "minv s'"
proof -
  have g: "mq_pend s p = None" "xs \<noteq> []" "distinct xs" "linked (mq_next s) xs"
      "set xs \<inter> set (chain s) = {}" "mq_stub s \<notin> set xs"
    and s': "s' = s\<lparr>mq_next := (mq_next s)(last xs := None), mq_head := last xs,
                   mq_pend := (mq_pend s)(p \<mapsto> (mq_head s, hd xs)),
                   chain := chain s @ xs, committed := committed s @ xs\<rparr>"
    using step by (auto simp: push_exchange_def split: if_splits)
  note c = minvD(1) [OF inv, unfolded chain_ok_def]
  have i: "inflight s' = insert (mq_head s, hd xs) (inflight s)"
    using g(1) by (simp add: s' inflight_def ran_map_upd)
  have a: "set (adj (chain s @ xs)) = insert (mq_head s, hd xs) (set (adj (chain s)) \<union> set (adj xs))"
    using adj_append c g(2) by force
  have lx: "last xs \<in> set xs" "hd xs \<in> set xs" "mq_head s \<in> set (chain s)"
    using g(2) c last_in_set [of "chain s"] by auto
  have ne: "last xs \<notin> set (chain s)" "hd xs \<notin> set (chain s)" using lx g(5) by auto
  show ?thesis
  proof (unfold minv_def, intro conjI)
    have "filter (\<lambda>x. x \<noteq> mq_stub s) xs = xs" using g(6) by (auto simp: filter_id_conv)
    then show "chain_ok s'" using c g by (simp add: s' chain_ok_def items_def Int_commute)
    show "edges_ok s'"
    proof -
      have "mq_next s' u = (if (u, v) \<in> inflight s' then None else Some v)"
        if e: "(u, v) \<in> set (adj (chain s @ xs))" for u v
      proof -
        consider "(u, v) = (mq_head s, hd xs)" | "(u, v) \<in> set (adj (chain s))" | "(u, v) \<in> set (adj xs)"
          using e a by blast
        then show ?thesis
        proof cases
          case 1
          then show ?thesis unfolding i using c lx ne by (auto simp: s')
        next
          case 2
          then show ?thesis unfolding i using edge_next [OF minvD(2) [OF inv] 2] adj_elems [OF 2] ne
            by (auto simp: s')
        next
          case 3
          then have "u \<noteq> last xs" "u \<in> set xs" using adj_not_last g(3) adj_elems by fast+
          moreover have "(u, v) \<notin> inflight s"
            using minvD(2) [OF inv] adj_elems \<open>u \<in> set xs\<close> g(5) by (fastforce simp: edges_ok_def)
          ultimately show ?thesis unfolding i using 3 g(4,5) lx by (auto simp: s' linked_def)
        qed
      qed
      moreover have "inflight s' \<subseteq> set (adj (chain s @ xs))"
        unfolding i a using minvD(2) [OF inv] by (auto simp: edges_ok_def)
      moreover have "chain s' = chain s @ xs" by (simp add: s')
      ultimately show ?thesis by (intro edges_okI) simp_all
    qed
    have "mq_pend s q \<noteq> Some (mq_head s, hd xs)" for q
      using minvD(2) [OF inv] ne adj_elems by (fastforce simp: edges_ok_def inflight_def ran_def)
    moreover have "(mq_head s, hd xs) \<notin> own_link (mq_stub s) (mq_pop s)"
      using g(6) lx by (cases "mq_pop s") auto
    ultimately show "pend_inj s'"
      using minvD(3) [OF inv] g(1) by (auto simp: pend_inj_def s' ran_map_upd split: if_splits)
    show "pop_ok s'" using minvD(4) [OF inv] g(6) by (auto simp: pop_ok_def s' split: pop_pc.splits)
  qed
qed

lemma minv_push_link:
  assumes inv: "minv s" and step: "push_link p s = Some s'"
  shows "minv s'"
proof -
  obtain u n where e: "mq_pend s p = Some (u, n)"
    and s': "s' = s\<lparr>mq_next := (mq_next s)(u \<mapsto> n), mq_pend := (mq_pend s)(p := None)\<rparr>"
    using step by (auto simp: push_link_def split: option.splits)
  note c = minvD(1) [OF inv, unfolded chain_ok_def]
  have un: "(u, n) \<in> set (adj (chain s))"
    using minvD(2) [OF inv] e by (auto simp: edges_ok_def inflight_def ran_def)
  have i: "inflight s' = inflight s - {(u, n)}"
  proof -
    have "(u, n) \<in> ran (mq_pend s)" using e by (auto simp: ran_def)
    with minvD(3) [OF inv] have "(u, n) \<notin> own_link (mq_stub s) (mq_pop s)" by (auto simp: pend_inj_def)
    moreover have "ran ((mq_pend s)(p := None)) = ran (mq_pend s) - {(u, n)}"
      using ran_upd_None [of "mq_pend s" p "(u, n)"] e minvD(3) [OF inv] unfolding pend_inj_def by metis
    ultimately show ?thesis by (auto simp: inflight_def s')
  qed
  show ?thesis
  proof (unfold minv_def, intro conjI)
    show "chain_ok s'" using c adj_not_last [OF _ un] by (auto simp: s' chain_ok_def items_def)
    have "mq_next s' a = (if (a, b) \<in> inflight s' then None else Some b)"
      if "(a, b) \<in> set (adj (chain s))" for a b
      unfolding i using edge_next [OF minvD(2) [OF inv] that] adj_fun [OF _ that, of n] c un
      by (auto simp: s')
    moreover have "inflight s' \<subseteq> set (adj (chain s))"
      unfolding i using minvD(2) [OF inv] by (auto simp: edges_ok_def)
    moreover have "chain s' = chain s" by (simp add: s')
    ultimately show "edges_ok s'" by (intro edges_okI) simp_all
    show "pend_inj s'" using minvD(3) [OF inv] by (auto simp: pend_inj_def s' ran_def split: if_splits)
    show "pop_ok s'" using minvD(4) [OF inv] by (auto simp: pop_ok_def s' split: pop_pc.splits)
  qed
qed

text \<open>Steps that only change the consumer's program counter.\<close>

lemma minv_pc:
  assumes inv: "minv s" and no: "own_link (mq_stub s) (mq_pop s) = {}" "own_link (mq_stub s) pc = {}"
    and ok: "pop_ok (s\<lparr>mq_pop := pc\<rparr>)"
  shows "minv (s\<lparr>mq_pop := pc\<rparr>)"
proof -
  have "inflight (s\<lparr>mq_pop := pc\<rparr>) = inflight s" using no by (simp add: inflight_def)
  then show ?thesis using inv ok no by (simp add: minv_def chain_ok_def edges_ok_def pend_inj_def items_def)
qed

lemma minv_fail:
  assumes inv: "minv s" and no: "own_link (mq_stub s) (mq_pop s) = {}"
  shows "minv (pop_return None s)"
proof -
  have "inflight (pop_return None s) = inflight s" using no by (simp add: inflight_def pop_return_def)
  then show ?thesis using inv no
    by (simp add: minv_def chain_ok_def edges_ok_def pend_inj_def pop_ok_def items_def pop_return_def)
qed

text \<open>A linked successor of \<open>tail_\<close> is the next node of the chain.\<close>

lemma take_chain:
  assumes "minv s" and "mq_next s (mq_tail s) = Some nx"
  obtains rest where "chain s = mq_tail s # nx # rest" "(mq_tail s, nx) \<notin> inflight s"
proof -
  note c = minvD(1) [OF assms(1), unfolded chain_ok_def]
  from c obtain r where r: "chain s = mq_tail s # r" by (cases "chain s") auto
  with c assms(2) obtain y rest where y: "r = y # rest" by (cases r) auto
  have "(mq_tail s, y) \<in> set (adj (chain s))" by (simp add: r y)
  from edge_next [OF minvD(2) [OF assms(1)] this] assms(2) have "y = nx" "(mq_tail s, nx) \<notin> inflight s"
    by (auto split: if_splits)
  with r y that show thesis by blast
qed

lemma edges_ok_take:
  assumes inv: "minv s" and nx: "mq_next s (mq_tail s) = Some nx"
    and f: "inflight s' = inflight s" "mq_next s' = mq_next s" "chain s' = tl (chain s)"
  shows "edges_ok s'"
proof -
  obtain rest where r: "chain s = mq_tail s # nx # rest" "(mq_tail s, nx) \<notin> inflight s"
    using take_chain [OF inv nx] .
  show ?thesis using minvD(2) [OF inv] r unfolding edges_ok_def f by auto
qed

lemma minv_take:
  assumes inv: "minv s" and nx: "mq_next s (mq_tail s) = Some nx" and ns: "mq_tail s \<noteq> mq_stub s"
    and no: "own_link (mq_stub s) (mq_pop s) = {}"
  shows "minv (pop_return (Some (mq_tail s)) (take_tail nx s))" (is "minv ?s'")
proof -
  obtain rest where r: "chain s = mq_tail s # nx # rest" "(mq_tail s, nx) \<notin> inflight s"
    using take_chain [OF inv nx] .
  have "inflight ?s' = inflight s" using no by (simp add: inflight_def pop_return_def take_tail_def)
  then have "edges_ok ?s'" by (rule edges_ok_take [OF inv nx]) (simp_all add: pop_return_def take_tail_def)
  moreover have "chain_ok ?s'"
    using minvD(1) [OF inv] r ns by (auto simp: chain_ok_def items_def pop_return_def take_tail_def)
  moreover have "pend_inj ?s'" "pop_ok ?s'"
    using minvD(3) [OF inv] by (simp_all add: pend_inj_def pop_ok_def pop_return_def take_tail_def)
  ultimately show ?thesis by (simp add: minv_def)
qed

lemma minv_skip_stub:
  assumes inv: "minv s" and nx: "mq_next s (mq_tail s) = Some nx" and st: "mq_tail s = mq_stub s"
    and pc: "mq_pop s = PIdle"
  shows "minv ((take_tail nx s)\<lparr>mq_pop := PTail nx\<rparr>)" (is "minv ?s'")
proof -
  obtain rest where r: "chain s = mq_tail s # nx # rest" "(mq_tail s, nx) \<notin> inflight s"
    using take_chain [OF inv nx] .
  have "inflight ?s' = inflight s" using pc by (simp add: inflight_def take_tail_def)
  then have "edges_ok ?s'" by (rule edges_ok_take [OF inv nx]) (simp_all add: take_tail_def)
  moreover have "chain_ok ?s'" "pop_ok ?s'"
    using minvD(1) [OF inv] r st by (auto simp: chain_ok_def pop_ok_def items_def take_tail_def)
  moreover have "pend_inj ?s'" using minvD(3) [OF inv] pc by (simp add: pend_inj_def take_tail_def)
  ultimately show ?thesis by (simp add: minv_def)
qed

text \<open>Re-appending the stub: the consumer is one more producer.\<close>

lemma minv_stub_exchange:
  assumes inv: "minv s" and pc: "mq_pop s = PExch t"
  shows "minv (pop_step s)"
proof -
  let ?s' = "pop_step s"
  note c = minvD(1) [OF inv, unfolded chain_ok_def]
  have ow: "t = mq_tail s" "t \<noteq> mq_stub s" "mq_stub s \<notin> set (chain s)"
    using minvD(4) [OF inv] pc by (auto simp: pop_ok_def)
  have s': "?s' = s\<lparr>mq_next := (mq_next s)(mq_stub s := None), mq_head := mq_stub s,
            mq_pop := PLink t (mq_head s), chain := chain s @ [mq_stub s]\<rparr>"
    using pc by (simp add: pop_step_def)
  have ch: "chain ?s' = chain s @ [mq_stub s]" by (simp add: s')
  have i: "inflight ?s' = insert (mq_head s, mq_stub s) (inflight s)" using pc by (simp add: s' inflight_def)
  have a: "set (adj (chain s @ [mq_stub s])) = insert (mq_head s, mq_stub s) (set (adj (chain s)))"
    using adj_append [of "chain s" "[mq_stub s]"] c by simp
  have hd: "mq_head s \<in> set (chain s)" using c last_in_set [of "chain s"] by auto
  show ?thesis
  proof (unfold minv_def, intro conjI)
    show "chain_ok ?s'" using c ow by (simp add: s' chain_ok_def items_def)
    show "edges_ok ?s'"
    proof (rule edges_okI, unfold ch a)
      fix u v assume "(u, v) \<in> insert (mq_head s, mq_stub s) (set (adj (chain s)))"
      then show "mq_next ?s' u = (if (u, v) \<in> inflight ?s' then None else Some v)"
        unfolding i using c edge_next [OF minvD(2) [OF inv], of u v] ow(3) hd adj_elems [of u v "chain s"]
        by (auto simp: s')
    qed (use minvD(2) [OF inv] in \<open>auto simp: i edges_ok_def\<close>)
    have "(mq_head s, mq_stub s) \<notin> ran (mq_pend s)"
      using minvD(2) [OF inv] ow(3) adj_elems by (fastforce simp: edges_ok_def inflight_def)
    then show "pend_inj ?s'" using minvD(3) [OF inv] by (simp add: pend_inj_def s')
    show "pop_ok ?s'" using ow by (simp add: pop_ok_def s')
  qed
qed

lemma minv_stub_link:
  assumes inv: "minv s" and pc: "mq_pop s = PLink t u"
  shows "minv (pop_step s)"
proof -
  let ?s' = "pop_step s"
  note c = minvD(1) [OF inv, unfolded chain_ok_def]
  have s': "?s' = s\<lparr>mq_next := (mq_next s)(u \<mapsto> mq_stub s), mq_pop := PLast t\<rparr>"
    using pc by (simp add: pop_step_def)
  have ch: "chain ?s' = chain s" by (simp add: s')
  have un: "(u, mq_stub s) \<in> set (adj (chain s))"
    using minvD(2) [OF inv] pc by (auto simp: edges_ok_def inflight_def)
  have i: "inflight ?s' = inflight s - {(u, mq_stub s)}"
    using minvD(3) [OF inv] pc by (auto simp: s' inflight_def pend_inj_def)
  show ?thesis
  proof (unfold minv_def, intro conjI)
    show "chain_ok ?s'" using c adj_not_last [OF _ un] by (auto simp: s' chain_ok_def items_def)
    show "edges_ok ?s'"
    proof (rule edges_okI, unfold ch)
      fix a b assume e: "(a, b) \<in> set (adj (chain s))"
      show "mq_next ?s' a = (if (a, b) \<in> inflight ?s' then None else Some b)"
        unfolding i using edge_next [OF minvD(2) [OF inv] e] adj_fun [OF _ e, of "mq_stub s"] c un
        by (auto simp: s')
    qed (use minvD(2) [OF inv] in \<open>auto simp: i edges_ok_def\<close>)
    show "pend_inj ?s'" using minvD(3) [OF inv] by (simp add: pend_inj_def s')
    show "pop_ok ?s'" using minvD(4) [OF inv] pc by (simp add: pop_ok_def s')
  qed
qed

text \<open>A chain whose first and last nodes coincide is a single node, so a non-stub head that is also the tail
  means the stub is out of the queue.\<close>

lemma single_chain:
  assumes "minv s" and "mq_head s = mq_tail s"
  shows "chain s = [mq_tail s]"
  using minvD(1) [OF assms(1)] assms(2) by (cases "chain s") (auto simp: chain_ok_def split: if_splits dest: last_in_set)

lemma minv_pop_step:
  assumes inv: "minv s"
  shows "minv (pop_step s)"
proof (cases "mq_pop s")
  case PIdle
  then show ?thesis
    using minv_fail [OF inv] minv_skip_stub [OF inv] minv_take [OF inv]
    by (auto simp: pop_step_def Let_def pop_ok_def split: option.split intro!: minv_pc [OF inv])
next
  case (PTail t)
  then show ?thesis
    using minvD(4) [OF inv] minv_take [OF inv]
    by (auto simp: pop_step_def pop_ok_def split: option.split intro!: minv_pc [OF inv])
next
  case (PHead t)
  then show ?thesis
    using minvD(4) [OF inv] minv_fail [OF inv] single_chain [OF inv]
    by (auto simp: pop_step_def pop_ok_def intro!: minv_pc [OF inv])
next
  case (PExch t)
  then show ?thesis by (rule minv_stub_exchange [OF inv])
next
  case (PLink t u)
  then show ?thesis by (rule minv_stub_link [OF inv])
next
  case (PLast t)
  then show ?thesis
    using minvD(4) [OF inv] minv_take [OF inv] minv_fail [OF inv]
    by (auto simp: pop_step_def pop_ok_def split: option.split)
qed

lemma minv_mstep: "minv s \<Longrightarrow> mstep a s = Some s' \<Longrightarrow> minv s'"
  by (cases a) (auto intro: minv_link_private minv_push_exchange minv_push_link minv_pop_step)

lemma minv_mreach: "mreach stub s \<Longrightarrow> minv s"
  by (induction rule: mreach.induct) (auto intro: minv_init minv_mstep)

section \<open>What the queue guarantees\<close>

text \<open>C7: The inbox is first-in first-out whatever the interleaving of producers and consumer: at every
  moment the tasks popped so far followed by the tasks still queued are exactly the tasks pushed, in
  the order of their exchanges, none lost and none delivered twice.\<close>

theorem mpsc_fifo:
  assumes "mreach stub s"
  shows "committed s = popped s @ items s \<and> distinct (items s)"
  using minvD(1) [OF minv_mreach [OF assms]] by (simp add: chain_ok_def items_def)

text \<open>Two producers race; the first one's link store is late, so the first pop fails and the next two deliver
  both tasks in exchange order.\<close>

definition late_link_run :: "mact list" where
  "late_link_run = [Exchange 0 [1], Exchange 1 [2], Link 1, Consumer, Link 0, Consumer, Consumer,
     Consumer, Consumer, Consumer, Consumer, Consumer]"

lemma late_link_run_ends:
  "case mrun late_link_run (init 0) of None \<Rightarrow> False | Some s \<Rightarrow> popped s = [1, 2] \<and> committed s = [1, 2]"
  by code_simp

theorem mpsc_fifo_witness:
  "\<exists>s. mreach 0 s \<and> popped s = [1, 2] \<and> items s = []"
proof -
  obtain s where s: "mreach 0 s" "popped s = [1, 2]" "committed s = [1, 2]"
    using mrun_obtain [OF late_link_run_ends] by blast
  from mpsc_fifo [OF s(1)] s show ?thesis by auto
qed

text \<open>\<^verbatim>\<open>quiescent()\<close> is an emptiness the park decision may trust: when it answers true, every task
  committed has been popped and no push is between its exchange and its link.\<close>

lemma quiescent_sound:
  assumes "mreach stub s" and "quiescent s"
  shows "popped s = committed s \<and> mq_pend s = Map.empty"
proof -
  note inv = minv_mreach [OF assms(1)]
  have st: "mq_tail s = mq_stub s" "mq_head s = mq_tail s"
    using assms(2) by (auto simp: quiescent_def Let_def split: if_splits)
  note ch = single_chain [OF inv st(2)]
  have "ran (mq_pend s) = {}" using minvD(2) [OF inv] ch by (simp add: edges_ok_def inflight_def)
  then have "mq_pend s p = None" for p by (cases "mq_pend s p") (auto simp: ran_def)
  then have "mq_pend s = Map.empty" by auto
  with minvD(1) [OF inv] ch st show ?thesis by (simp add: chain_ok_def items_def)
qed

lemma quiescent_run_ends:
  "case mrun [Exchange 0 [1], Link 0, Consumer, Consumer, Consumer, Consumer, Consumer, Consumer] (init 0) of
     None \<Rightarrow> False | Some s \<Rightarrow> quiescent s \<and> committed s = [1]"
  by code_simp

lemma quiescent_sound_example:
  "\<exists>s. mreach 0 s \<and> quiescent s \<and> committed s = [1] \<and> popped s = [1]"
proof -
  obtain s where s: "mreach 0 s" "quiescent s" "committed s = [1]"
    using mrun_obtain [OF quiescent_run_ends] by blast
  from quiescent_sound [OF s(1,2)] s show ?thesis by auto
qed

lemma empty_window_ends:
  "case mrun [Exchange 0 [1]] (init 0) of None \<Rightarrow> False
   | Some s \<Rightarrow> empty s \<and> \<not> quiescent s \<and> items s = [1] \<and> fst (pop s) = None"
  by code_simp

text \<open>\<^verbatim>\<open>empty()\<close> and a failed \<^verbatim>\<open>pop\<close> prove less: in the window between a producer's exchange and its
  link both report an empty queue although a task is committed, and \<^verbatim>\<open>quiescent()\<close> does not.\<close>

lemma empty_may_lie:
  "\<exists>s. mreach 0 s \<and> empty s \<and> \<not> quiescent s \<and> items s = [1] \<and> fst (pop s) = None"
  using mrun_obtain [OF empty_window_ends] by blast

subsection \<open>Pops without interference\<close>

lemma settle_idle [simp]: "mq_pop s = PIdle \<Longrightarrow> settle s = s"
  by (simp add: settle_def)

lemma minv_settle: "minv s \<Longrightarrow> minv (settle s)"
  by (simp add: settle_def minv_pop_step)

lemma minv_pop: "minv s \<Longrightarrow> minv (snd (pop s))"
  by (simp add: pop_def Let_def minv_settle minv_pop_step)

text \<open>Nothing in flight: every edge of the chain is linked.\<close>

definition calm :: "mpsc \<Rightarrow> bool" where
  "calm s \<longleftrightarrow> mq_pop s = PIdle \<and> mq_pend s = Map.empty"

lemma calm_next:
  assumes "minv s" "calm s" "chain s = x # y # r"
  shows "mq_next s x = Some y"
proof -
  have "(x, y) \<in> set (adj (chain s))" by (simp add: assms(3))
  from edge_next [OF minvD(2) [OF assms(1)] this] assms(2) show ?thesis
    by (simp add: calm_def inflight_def)
qed

lemma pop_step_idle:
  "mq_pop s = PIdle \<Longrightarrow> mq_tail s = mq_stub s \<Longrightarrow> mq_next s (mq_stub s) = None \<Longrightarrow> pop_step s = pop_return None s"
  "mq_pop s = PIdle \<Longrightarrow> mq_tail s = mq_stub s \<Longrightarrow> mq_next s (mq_stub s) = Some nx \<Longrightarrow>
     pop_step s = (take_tail nx s)\<lparr>mq_pop := PTail nx\<rparr>"
  "mq_pop s = PIdle \<Longrightarrow> mq_tail s = x \<Longrightarrow> x \<noteq> mq_stub s \<Longrightarrow> mq_next s x = Some nx \<Longrightarrow>
     pop_step s = pop_return (Some x) (take_tail nx s)"
  "mq_pop s = PIdle \<Longrightarrow> mq_tail s = x \<Longrightarrow> x \<noteq> mq_stub s \<Longrightarrow> mq_next s x = None \<Longrightarrow>
     pop_step s = s\<lparr>mq_pop := PHead x\<rparr>"
  by (simp_all add: pop_step_def)

text \<open>The tail of \<^verbatim>\<open>pop\<close> from a tail that is not the stub, with a successor and without one.\<close>

lemma settle_linked:
  "mq_pop s = PTail x \<Longrightarrow> mq_next s x = Some nx \<Longrightarrow> settle s = pop_return (Some x) (take_tail nx s)"
  by (simp add: settle_def pop_step_def)

lemma settle_single:
  "mq_pop s = PHead x \<Longrightarrow> mq_head s = x \<Longrightarrow> mq_stub s \<noteq> x \<Longrightarrow>
   settle (settle (settle (settle s))) =
     pop_return (Some x) (take_tail (mq_stub s)
       (s\<lparr>mq_head := mq_stub s, chain := chain s @ [mq_stub s],
          mq_next := (mq_next s)(mq_stub s := None, x \<mapsto> mq_stub s), mq_pop := PLast x\<rparr>))"
  by (simp add: settle_def pop_step_def)

lemma settle_tail_single:
  "mq_pop s = PTail x \<Longrightarrow> mq_next s x = None \<Longrightarrow> settle s = s\<lparr>mq_pop := PHead x\<rparr>"
  by (simp add: settle_def pop_step_def)

lemma pop_return_simps [simp]:
  "mq_pop (pop_return r s) = PIdle" "mq_result (pop_return r s) = r" "mq_pend (pop_return r s) = mq_pend s"
  "committed (pop_return r s) = committed s"
  "popped (pop_return r s) = popped s @ (case r of None \<Rightarrow> [] | Some x \<Rightarrow> [x])"
  by (simp_all add: pop_return_def)

lemma take_tail_simps [simp]:
  "mq_pop (take_tail n s) = mq_pop s" "mq_pend (take_tail n s) = mq_pend s"
  "committed (take_tail n s) = committed s" "popped (take_tail n s) = popped s"
  "mq_next (take_tail n s) = mq_next s" "mq_stub (take_tail n s) = mq_stub s" "mq_head (take_tail n s) = mq_head s"
  by (simp_all add: take_tail_def)

lemma pop_calm:
  assumes inv: "minv s" and calm: "calm s"
  shows "calm (snd (pop s)) \<and> committed (snd (pop s)) = committed s
       \<and> (case items s of [] \<Rightarrow> fst (pop s) = None \<and> popped (snd (pop s)) = popped s
          | x # _ \<Rightarrow> fst (pop s) = Some x \<and> popped (snd (pop s)) = popped s @ [x])"
proof -
  note c = minvD(1) [OF inv, unfolded chain_ok_def]
  have pc: "mq_pop s = PIdle" "mq_pend s = Map.empty" using calm by (simp_all add: calm_def)
  note steps = pop_def Let_def pop_step_idle settle_linked settle_tail_single settle_single
  consider (none) "chain s = [mq_stub s]" | (one) x where "chain s = [x]" "x \<noteq> mq_stub s"
    | (more) x y r where "chain s = x # y # r" "x \<noteq> mq_stub s"
    | (stub1) x where "chain s = [mq_stub s, x]" | (stub2) x y r where "chain s = mq_stub s # x # y # r"
    using c by (metis list.exhaust)
  then show ?thesis
  proof cases
    case none
    then have "mq_tail s = mq_stub s" "mq_next s (mq_stub s) = None" using c by auto
    with pc none show ?thesis by (simp add: steps items_def calm_def)
  next
    case one
    then have "mq_tail s = x" "mq_next s x = None" "mq_head s = x" using c by auto
    with pc one show ?thesis by (simp add: steps items_def calm_def)
  next
    case more
    then have "mq_tail s = x" "mq_next s x = Some y" using c calm_next [OF inv calm] by auto
    with pc more show ?thesis by (simp add: steps items_def calm_def)
  next
    case stub1
    then have "mq_tail s = mq_stub s" "mq_next s (mq_stub s) = Some x" "mq_next s x = None" "mq_head s = x"
      "x \<noteq> mq_stub s" using c calm_next [OF inv calm] by auto
    with pc stub1 show ?thesis by (simp add: steps items_def calm_def)
  next
    case stub2
    then have "mq_tail s = mq_stub s" "mq_next s (mq_stub s) = Some x" "x \<noteq> mq_stub s"
      using c calm_next [OF inv calm] by auto
    moreover have "mq_next s x = Some y"
      using stub2 edge_next [OF minvD(2) [OF inv], of x y] pc by (simp add: inflight_def)
    ultimately show ?thesis using pc stub2 by (simp add: steps items_def calm_def)
  qed
qed

lemma pop_calm_items:
  assumes "minv s" and "calm s"
  shows "items (snd (pop s)) = tl (items s)"
proof -
  have "committed (snd (pop s)) = popped (snd (pop s)) @ items (snd (pop s))" "committed s = popped s @ items s"
    using minvD(1) [OF minv_pop [OF assms(1)]] minvD(1) [OF assms(1)] by (simp_all add: chain_ok_def)
  with pop_calm [OF assms] show ?thesis by (auto split: list.splits)
qed

text \<open>With no push in flight a pop is exact: it takes the oldest task, and fails only on an empty
  queue; and \<^verbatim>\<open>clear()\<close> returns, having popped every task in order.\<close>

lemma pop_exact_and_clear_drains:
  assumes "mreach stub s" and "mq_pop s = PIdle" and "mq_pend s = Map.empty"
  shows "fst (pop s) = (case items s of [] \<Rightarrow> None | x # _ \<Rightarrow> Some x) \<and> items (snd (pop s)) = tl (items s)
       \<and> (\<exists>s'. clear s = Some s' \<and> items s' = [] \<and> popped s' = committed s)"
proof -
  have drain: "\<exists>s'. clear s = Some s' \<and> items s' = [] \<and> popped s' = committed s" if "minv s" "calm s" for s
    using that
  proof (induction "items s" arbitrary: s)
    case Nil
    then show ?case using pop_calm [OF Nil.prems] pop_calm_items [OF Nil.prems] minvD(1) [OF Nil.prems(1)]
      by (subst clear.simps) (auto split: prod.split option.split simp: chain_ok_def)
  next
    case (Cons x xs)
    let ?s = "snd (pop s)"
    have "xs = items ?s" using pop_calm_items [OF Cons.prems] Cons.hyps(2) by (metis list.sel(3))
    moreover have "minv ?s" "calm ?s" "committed ?s = committed s" "fst (pop s) = Some x"
      using minv_pop [OF Cons.prems(1)] pop_calm [OF Cons.prems] Cons.hyps(2) [symmetric] by auto
    ultimately obtain s' where "clear ?s = Some s'" "items s' = []" "popped s' = committed s"
      using Cons.hyps(1) by metis
    moreover obtain s1 where p: "pop s = (Some x, s1)" using \<open>fst (pop s) = Some x\<close> by (metis prod.collapse)
    have "clear s = clear ?s" by (subst clear.simps) (simp add: p)
    ultimately show ?case by auto
  qed
  have inv: "minv s" "calm s" using minv_mreach [OF assms(1)] assms(2,3) by (simp_all add: calm_def)
  from drain [OF this] pop_calm [OF this] pop_calm_items [OF this] show ?thesis
    by (auto split: list.splits)
qed

lemma calm_run_ends:
  "case mrun [LinkPrivate 1 2, Exchange 0 [1, 2], Link 0] (init 0) of
     None \<Rightarrow> False | Some s \<Rightarrow> mq_pop s = PIdle \<and> mq_pend s 0 = None \<and> items s = [1, 2]"
  by code_simp

lemma calm_run_pend:
  "mrun [LinkPrivate 1 2, Exchange 0 [1, 2], Link 0] (init 0) = Some s \<Longrightarrow> mq_pend s = Map.empty"
  by (auto simp: link_private_def push_exchange_def push_link_def init_def linked_def)

lemma pop_exact_and_clear_drains_example:
  "\<exists>s. mreach 0 s \<and> items s = [1, 2] \<and> fst (pop s) = Some 1 \<and> items (snd (pop s)) = [2]
     \<and> (\<exists>s'. clear s = Some s' \<and> items s' = [])"
proof -
  obtain s where r: "mrun [LinkPrivate 1 2, Exchange 0 [1, 2], Link 0] (init 0) = Some s"
    and s: "mq_pop s = PIdle" "items s = [1, 2]"
    using calm_run_ends by (auto split: option.splits)
  from pop_exact_and_clear_drains [OF mrun_mreach [OF mreach_init r] s(1) calm_run_pend [OF r]] s
    mrun_mreach [OF mreach_init r] show ?thesis by auto
qed

end
