(* ===== verification/Cancel_Token.thy ===== *)
theory Cancel_Token
  imports Sched_Prelude
begin

text \<open>
  Cancellation scopes and tokens (\<^verbatim>\<open>include/CancelToken.h\<close>, \<^verbatim>\<open>src/CancelToken.cpp\<close>): the slot table with
  its intrusive free list, the 16-bit index / 16-bit generation handles, root and nested scopes, and
  the bounded walks of \<^verbatim>\<open>Cancelled\<close> and \<^verbatim>\<open>IsWithin\<close>. Words keep their widths: the generation wraps at
  65,536 as the source documents.

  Each operation is one atomic step: every loop of the source is a compare-exchange on one word that
  retries until the word it read is the word it replaces (the free-list head carries a tag for that
  purpose), so it takes effect at its successful exchange.
\<close>

section \<open>Slots and handles\<close>

record cancel_slot =
  state :: u64      \<comment> \<open>generation in the high half, the cancelled flag in bit 0\<close>
  parent :: u32
  nextFree :: u32   \<comment> \<open>1-based, 0 is the end\<close>

record cancel_table =
  slot :: "nat \<Rightarrow> cancel_slot"
  freeHead :: u64   \<comment> \<open>tag in the high half, 1-based index in the low half\<close>

definition kCancelledBit :: u64 where
  "kCancelledBit = 1"

definition GenOf :: "u64 \<Rightarrow> u32" where
  "GenOf s = ucast (drop_bit 32 s) AND 0xFFFF"

definition CancelledIn :: "u64 \<Rightarrow> bool" where
  "CancelledIn s \<longleftrightarrow> s AND kCancelledBit \<noteq> 0"

definition kCancelSlots :: nat where
  "kCancelSlots = 65535"

definition kMaxScopeDepth :: nat where
  "kMaxScopeDepth = 8"

definition kNone :: u32 where
  "kNone = 0xFFFFFFFF"

definition Valid :: "u32 \<Rightarrow> bool" where
  "Valid raw \<longleftrightarrow> raw \<noteq> kNone"

definition index_of :: "u32 \<Rightarrow> nat" where
  "index_of raw = unat (raw AND 0xFFFF)"

section \<open>The table and its free list\<close>

definition CancelSlotTable :: "nat \<Rightarrow> cancel_slot" where
  "CancelSlotTable i =
     \<lparr>state = 0, parent = kNone, nextFree = (if i = kCancelSlots - 1 then 0 else of_nat (i + 2))\<rparr>"

definition cancel_init :: cancel_table where
  "cancel_init = \<lparr>slot = CancelSlotTable, freeHead = 1\<rparr>"

definition kIndexMask :: u64 where
  "kIndexMask = 0xFFFFFFFF"

definition AcquireSlot :: "cancel_table \<Rightarrow> u32 \<times> cancel_table" where
  "AcquireSlot T =
     (let head = freeHead T; idx = ucast (head AND kIndexMask) :: u32 in
      if idx = 0 then (0xFFFFFFFF, T)
      else (let nxt = ucast (nextFree (slot T (unat (idx - 1)))) :: u64;
                bumped = push_bit 32 (drop_bit 32 head + 1) OR nxt
            in (idx - 1, T\<lparr>freeHead := bumped\<rparr>)))"

definition set_slot :: "nat \<Rightarrow> (cancel_slot \<Rightarrow> cancel_slot) \<Rightarrow> cancel_table \<Rightarrow> cancel_table" where
  "set_slot i f T = T\<lparr>slot := (slot T)(i := f (slot T i))\<rparr>"

definition ReleaseSlot :: "u32 \<Rightarrow> cancel_table \<Rightarrow> cancel_table" where
  "ReleaseSlot index T =
     (let head = freeHead T;
          T1 = set_slot (unat index) (nextFree_update (\<lambda>_. ucast (head AND kIndexMask))) T;
          bumped = push_bit 32 (drop_bit 32 head + 1) OR ucast (index + 1)
      in T1\<lparr>freeHead := bumped\<rparr>)"

definition ResolveCancelSlot :: "cancel_table \<Rightarrow> u32 \<Rightarrow> nat option" where
  "ResolveCancelSlot T raw =
     (let index = index_of raw; gen = drop_bit 16 raw in
      if index \<ge> kCancelSlots then None
      else if GenOf (state (slot T index)) \<noteq> gen then None
      else Some index)"

section \<open>Tokens\<close>

fun cancelled_walk :: "cancel_table \<Rightarrow> nat \<Rightarrow> u32 \<Rightarrow> bool" where
  "cancelled_walk T 0 raw \<longleftrightarrow> False"
| "cancelled_walk T (Suc n) raw \<longleftrightarrow>
     (if raw = kNone then False
      else let index = index_of raw in
        if index \<ge> kCancelSlots then False
        else let st = state (slot T index) in
          if GenOf st \<noteq> drop_bit 16 raw then False
          else if CancelledIn st then True
          else cancelled_walk T n (parent (slot T index)))"

definition Cancelled :: "cancel_table \<Rightarrow> u32 \<Rightarrow> bool" where
  "Cancelled T raw = cancelled_walk T kMaxScopeDepth raw"

fun within_walk :: "cancel_table \<Rightarrow> u32 \<Rightarrow> nat \<Rightarrow> u32 \<Rightarrow> bool" where
  "within_walk T anc 0 raw \<longleftrightarrow> False"
| "within_walk T anc (Suc n) raw \<longleftrightarrow>
     (if raw = kNone then False
      else if raw = anc then True
      else let index = index_of raw in
        if index \<ge> kCancelSlots then False
        else if GenOf (state (slot T index)) \<noteq> drop_bit 16 raw then False
        else within_walk T anc n (parent (slot T index)))"

definition IsWithin :: "cancel_table \<Rightarrow> u32 \<Rightarrow> u32 \<Rightarrow> bool" where
  "IsWithin T raw anc = (if \<not> Valid anc then False else within_walk T anc kMaxScopeDepth raw)"

section \<open>Scopes\<close>

definition CancelScope_root :: "cancel_table \<Rightarrow> u32 \<times> cancel_table" where
  "CancelScope_root T =
     (case AcquireSlot T of (i, T1) \<Rightarrow>
        if i = 0xFFFFFFFF then (kNone, T1)
        else (let T2 = set_slot (unat i) (parent_update (\<lambda>_. kNone)) T1;
                  gen = GenOf (state (slot T2 (unat i)))
              in (push_bit 16 gen OR i, T2)))"

definition CancelScope_nested :: "u32 \<Rightarrow> cancel_table \<Rightarrow> u32 \<times> cancel_table" where
  "CancelScope_nested par T =
     (case AcquireSlot T of (i, T1) \<Rightarrow>
        if i = 0xFFFFFFFF then (kNone, T1)
        else (let T2 = set_slot (unat i)
                         (parent_update (\<lambda>_. if ResolveCancelSlot T1 par \<noteq> None then par else kNone)) T1;
                  gen = GenOf (state (slot T2 (unat i)))
              in (push_bit 16 gen OR i, T2)))"

definition CancelScope_destroy :: "u32 \<Rightarrow> cancel_table \<Rightarrow> cancel_table" where
  "CancelScope_destroy raw T =
     (if raw = kNone then T
      else let i = raw AND 0xFFFF;
               T1 = set_slot (unat i)
                      (state_update (\<lambda>st. push_bit 32 (ucast (ucast (drop_bit 32 st) + 1 :: u32)))) T;
               T2 = set_slot (unat i) (parent_update (\<lambda>_. kNone)) T1
           in ReleaseSlot i T2)"

definition Cancel :: "u32 \<Rightarrow> cancel_table \<Rightarrow> cancel_table" where
  "Cancel raw T =
     (if raw = kNone then T else set_slot (index_of raw) (state_update (\<lambda>st. st OR kCancelledBit)) T)"

definition CancelVia :: "u32 \<Rightarrow> cancel_table \<Rightarrow> bool \<times> cancel_table" where
  "CancelVia raw T =
     (if raw = kNone then (False, T)
      else let index = index_of raw in
        if index \<ge> kCancelSlots then (False, T)
        else let st = state (slot T index) in
          if GenOf st \<noteq> drop_bit 16 raw then (False, T)
          else if CancelledIn st then (True, T)
          else (True, set_slot index (state_update (\<lambda>_. st OR kCancelledBit)) T))"

section \<open>Arithmetic of handles\<close>

lemma and_ffff: "(x :: u32) AND 0xFFFF = take_bit 16 x"
  by (simp add: take_bit_eq_mask mask_eq_exp_minus_1)

lemma and_index_mask: "x AND kIndexMask = take_bit 32 x"
  by (simp add: kIndexMask_def take_bit_eq_mask mask_eq_exp_minus_1)

lemma index_of_alt: "index_of raw = unat raw mod 65536"
  by (simp add: index_of_def and_ffff take_bit_eq_mod unat_mod_distrib)

lemma index_of_less: "index_of raw < 65536"
  by (simp add: index_of_alt)

lemma raw_split: "push_bit 16 (drop_bit 16 raw) OR (raw AND 0xFFFF) = (raw :: u32)"
  by (simp add: and_ffff) (rule bit_word_eqI, auto simp: bit_simps)

lemma raw_eqI:
  assumes "drop_bit 16 a = drop_bit 16 b" and "index_of a = index_of b"
  shows "a = (b :: u32)"
proof -
  have "a AND 0xFFFF = b AND 0xFFFF" using assms(2) unfolding index_of_def word_unat_eq_iff .
  then show ?thesis using assms(1) by (metis raw_split)
qed

lemma GenOf_take: "GenOf st = take_bit 16 (ucast (drop_bit 32 st))"
  by (simp add: GenOf_def and_ffff)

lemma GenOf_or [simp]: "GenOf (st OR kCancelledBit) = GenOf st"
  by (simp add: GenOf_def kCancelledBit_def drop_bit_or)

lemma CancelledIn_odd: "CancelledIn st \<longleftrightarrow> odd st"
  by (simp add: CancelledIn_def kCancelledBit_def and_one_eq mod_2_eq_odd)

lemma CancelledIn_or [simp]: "CancelledIn (st OR kCancelledBit)"
  by (simp add: CancelledIn_odd kCancelledBit_def even_or_iff)

lemma small_word: "unat i < 65536 \<Longrightarrow> take_bit 16 (i :: u32) = i"
  unfolding word_unat_eq_iff by (simp add: take_bit_eq_mod unat_mod_distrib)

lemma handle_gen:
  assumes "unat (i :: u32) < 65536"
  shows "drop_bit 16 (push_bit 16 (take_bit 16 g) OR i) = take_bit 16 g"
proof -
  have "drop_bit 16 (push_bit 16 (take_bit 16 g) OR take_bit 16 i) = take_bit 16 g"
    by (rule bit_word_eqI) (auto simp: bit_simps)
  then show ?thesis using small_word [OF assms] by simp
qed

lemma handle_index:
  assumes "unat (i :: u32) < 65536"
  shows "(push_bit 16 g OR i) AND 0xFFFF = i"
proof -
  have "take_bit 16 (push_bit 16 g OR take_bit 16 i) = take_bit 16 i"
    by (rule bit_word_eqI) (auto simp: bit_simps)
  then show ?thesis using small_word [OF assms] by (simp add: and_ffff)
qed

text \<open>The destructor's new word: the next generation, flag clear.\<close>

definition next_state :: "u64 \<Rightarrow> u64" where
  "next_state st = push_bit 32 (ucast (ucast (drop_bit 32 st) + 1 :: u32))"

lemma not_cancelled_next_state [simp]: "\<not> CancelledIn (next_state st)"
  by (simp add: CancelledIn_odd next_state_def)

lemma unat_GenOf: "unat (GenOf st) = unat (ucast (drop_bit 32 st) :: u32) mod 65536"
  by (simp add: GenOf_take take_bit_eq_mod unat_mod_distrib)

lemma unat_GenOf_next_state: "unat (GenOf (next_state st)) = (unat (GenOf st) + 1) mod 65536"
proof -
  let ?w = "ucast (drop_bit 32 st) :: u32"
  have "ucast (drop_bit 32 (push_bit 32 (ucast (w :: u32) :: u64))) = w" for w
    by (rule bit_word_eqI) (auto simp: bit_simps)
  then have "unat (GenOf (next_state st)) = unat (?w + 1) mod 65536"
    by (simp add: unat_GenOf next_state_def)
  also have "\<dots> = (unat ?w + 1) mod 2 ^ 32 mod 65536"
    by (simp add: unat_word_ariths)
  also have "\<dots> = (unat ?w + 1) mod 65536"
    by (rule mod_mod_cancel) simp
  finally show ?thesis by (simp add: unat_GenOf mod_simps)
qed

section \<open>The free-list invariant\<close>

definition head_index :: "cancel_table \<Rightarrow> u32" where
  "head_index T = ucast (freeHead T AND kIndexMask)"

fun free_chain :: "(nat \<Rightarrow> cancel_slot) \<Rightarrow> u32 \<Rightarrow> nat list \<Rightarrow> bool" where
  "free_chain sl h [] \<longleftrightarrow> h = 0"
| "free_chain sl h (i # is) \<longleftrightarrow> h = of_nat (i + 1) \<and> i < kCancelSlots \<and> free_chain sl (nextFree (sl i)) is"

definition cinv_with :: "cancel_table \<Rightarrow> u32 list \<Rightarrow> nat list \<Rightarrow> bool" where
  "cinv_with T live fr \<longleftrightarrow>
     free_chain (slot T) (head_index T) fr \<and> distinct fr
   \<and> set fr \<union> index_of ` set live = {..<kCancelSlots} \<and> set fr \<inter> index_of ` set live = {}
   \<and> distinct (map index_of live)
   \<and> (\<forall>i \<in> set fr. \<not> CancelledIn (state (slot T i)))
   \<and> (\<forall>r \<in> set live. GenOf (state (slot T (index_of r))) = drop_bit 16 r)"

definition cinv :: "cancel_table \<Rightarrow> u32 list \<Rightarrow> bool" where
  "cinv T live \<longleftrightarrow> (\<exists>fr. cinv_with T live fr)"

lemma free_chain_cong:
  "(\<And>i. i \<in> set fr \<Longrightarrow> nextFree (sl' i) = nextFree (sl i)) \<Longrightarrow> free_chain sl' h fr = free_chain sl h fr"
  by (induction fr arbitrary: h) auto

lemma free_chain_init:
  "k \<le> kCancelSlots \<Longrightarrow> free_chain CancelSlotTable (if k = kCancelSlots then 0 else of_nat (k + 1)) [k..<kCancelSlots]"
proof (induction rule: inc_induct)
  case base
  then show ?case by simp
next
  case (step n)
  have "nextFree (CancelSlotTable n) = (if Suc n = kCancelSlots then 0 else of_nat (Suc n + 1))"
    using step.hyps by (auto simp: CancelSlotTable_def)
  with step show ?case by (simp add: upt_conv_Cons)
qed

lemma cinv_init: "cinv cancel_init []"
proof -
  have "head_index cancel_init = 1" by (simp add: head_index_def cancel_init_def kIndexMask_def)
  then have "free_chain (slot cancel_init) (head_index cancel_init) [0..<kCancelSlots]"
    using free_chain_init [of 0] by (simp add: cancel_init_def kCancelSlots_def)
  then have "cinv_with cancel_init [] [0..<kCancelSlots]"
    by (auto simp: cinv_with_def cancel_init_def CancelSlotTable_def CancelledIn_def)
  then show ?thesis by (auto simp: cinv_def)
qed

text \<open>The two halves of the list head.\<close>

lemma head_index_bumped: "ucast ((push_bit 32 w OR ucast (n :: u32)) AND kIndexMask :: u64) = n"
  unfolding and_index_mask by (rule bit_word_eqI) (auto simp: bit_simps)

lemma free_chain_0: "free_chain sl 0 fr \<Longrightarrow> fr = []"
proof (cases fr)
  case (Cons i "is")
  assume "free_chain sl 0 fr"
  then have "of_nat (i + 1) = (0 :: u32)" "i < 65535" using Cons by (auto simp: kCancelSlots_def)
  moreover have "unat (of_nat (i + 1) :: u32) = (i + 1) mod 2 ^ 32"
    unfolding unat_of_nat by simp
  ultimately show ?thesis by simp
qed simp

lemma unat_slot: "i < kCancelSlots \<Longrightarrow> unat (of_nat (i + 1) - 1 :: u32) = i"
  by (simp add: kCancelSlots_def unat_of_nat)

text \<open>Taking a slot: exhausted, or the first free slot, which leaves the list.\<close>

lemma AcquireSlot_cases:
  assumes "cinv_with T live fr"
  shows "(fr = [] \<and> AcquireSlot T = (0xFFFFFFFF, T))
       \<or> (\<exists>i is h. fr = i # is \<and> AcquireSlot T = (of_nat i, T\<lparr>freeHead := h\<rparr>)
             \<and> head_index (T\<lparr>freeHead := h\<rparr>) = nextFree (slot T i))"
proof (cases fr)
  case Nil
  then have "head_index T = 0" using assms by (simp add: cinv_with_def)
  then show ?thesis using Nil by (simp add: AcquireSlot_def head_index_def)
next
  case (Cons i "is")
  then have h: "head_index T = of_nat (i + 1)" and i: "i < kCancelSlots" using assms by (auto simp: cinv_with_def)
  have nz: "head_index T \<noteq> 0"
    using free_chain_0 [of "slot T" fr] assms Cons by (auto simp: cinv_with_def)
  let ?h = "push_bit 32 (drop_bit 32 (freeHead T) + 1) OR ucast (nextFree (slot T i))"
  have "AcquireSlot T = (of_nat i, T\<lparr>freeHead := ?h\<rparr>)"
    using nz h unat_slot [OF i] by (simp add: AcquireSlot_def head_index_def [symmetric] Let_def)
  moreover have "head_index (T\<lparr>freeHead := ?h\<rparr>) = nextFree (slot T i)"
    by (simp add: head_index_def head_index_bumped)
  ultimately show ?thesis using Cons by blast
qed

lemma slot_set_slot [simp]: "slot (set_slot i f T) j = (if j = i then f (slot T i) else slot T j)"
  by (simp add: set_slot_def)

lemma freeHead_set_slot [simp]: "freeHead (set_slot i f T) = freeHead T"
  by (simp add: set_slot_def)

lemma head_index_set_slot [simp]: "head_index (set_slot i f T) = head_index T"
  by (simp add: head_index_def)

lemma word_of_slot: "i < kCancelSlots \<Longrightarrow> unat (of_nat i :: u32) = i" "i < kCancelSlots \<Longrightarrow> of_nat i \<noteq> (0xFFFFFFFF :: u32)"
proof -
  assume i: "i < kCancelSlots"
  then show u: "unat (of_nat i :: u32) = i" by (simp add: unat_of_nat kCancelSlots_def)
  show "of_nat i \<noteq> (0xFFFFFFFF :: u32)"
  proof
    assume "of_nat i = (0xFFFFFFFF :: u32)"
    then have "unat (of_nat i :: u32) = 0xFFFFFFFF" by simp
    then show False using i u by (simp add: kCancelSlots_def)
  qed
qed

lemma index_of_kNone: "index_of kNone = 65535"
  by (simp add: index_of_alt kNone_def)

text \<open>A handle made from a slot below 65,535 and that slot's generation.\<close>

lemma handle_facts:
  assumes "i < kCancelSlots"
  shows "index_of (push_bit 16 (GenOf st) OR of_nat i) = i"
    and "drop_bit 16 (push_bit 16 (GenOf st) OR of_nat i) = GenOf st"
    and "push_bit 16 (GenOf st) OR of_nat i \<noteq> kNone"
proof -
  have u: "unat (of_nat i :: u32) < 65536" "unat (of_nat i :: u32) = i"
    using assms word_of_slot(1) [OF assms] by (simp_all add: kCancelSlots_def)
  show ix: "index_of (push_bit 16 (GenOf st) OR of_nat i) = i"
    using handle_index [OF u(1)] u(2) by (simp add: index_of_def)
  show "drop_bit 16 (push_bit 16 (GenOf st) OR of_nat i) = GenOf st"
    using handle_gen [OF u(1)] by (simp add: GenOf_take)
  show "push_bit 16 (GenOf st) OR of_nat i \<noteq> kNone"
    using ix index_of_kNone assms by (metis kCancelSlots_def less_irrefl)
qed

text \<open>Both constructors, with the parent link they store as a parameter.\<close>

definition make_scope :: "(cancel_table \<Rightarrow> u32) \<Rightarrow> cancel_table \<Rightarrow> u32 \<times> cancel_table" where
  "make_scope par T =
     (case AcquireSlot T of (i, T1) \<Rightarrow>
        if i = 0xFFFFFFFF then (kNone, T1)
        else (push_bit 16 (GenOf (state (slot T1 (unat i)))) OR i, set_slot (unat i) (parent_update (\<lambda>_. par T1)) T1))"

lemma CancelScope_root_make: "CancelScope_root = make_scope (\<lambda>_. kNone)"
  by (rule ext) (simp add: CancelScope_root_def make_scope_def Let_def split: prod.split)

lemma CancelScope_nested_make:
  "CancelScope_nested p = make_scope (\<lambda>T. if ResolveCancelSlot T p \<noteq> None then p else kNone)"
  by (rule ext) (simp add: CancelScope_nested_def make_scope_def Let_def split: prod.split)

lemma make_scope_cases:
  assumes inv: "cinv_with T live fr"
  obtains "fr = []" "make_scope par T = (kNone, T)"
  | i "is" h r T' where "fr = i # is" "r \<noteq> kNone" "index_of r = i" "i < kCancelSlots"
      "T' = set_slot i (parent_update (\<lambda>_. par (T\<lparr>freeHead := h\<rparr>))) (T\<lparr>freeHead := h\<rparr>)"
      "make_scope par T = (r, T')" "cinv_with T' (r # live) is"
proof (cases fr)
  case Nil
  then have "make_scope par T = (kNone, T)"
    using AcquireSlot_cases [OF inv] by (simp add: make_scope_def)
  with Nil that(1) show thesis by blast
next
  case (Cons i "is")
  then obtain h where h: "AcquireSlot T = (of_nat i, T\<lparr>freeHead := h\<rparr>)"
      "head_index (T\<lparr>freeHead := h\<rparr>) = nextFree (slot T i)"
    using AcquireSlot_cases [OF inv] by auto
  have i: "i < kCancelSlots" using inv Cons by (simp add: cinv_with_def)
  let ?T1 = "T\<lparr>freeHead := h\<rparr>"
  let ?T' = "set_slot i (parent_update (\<lambda>_. par ?T1)) ?T1"
  let ?r = "push_bit 16 (GenOf (state (slot T i))) OR of_nat i :: u32"
  have m: "make_scope par T = (?r, ?T')"
    using h(1) word_of_slot [OF i] by (simp add: make_scope_def)
  have "free_chain (slot ?T') (head_index ?T') is"
  proof -
    have "free_chain (slot T) (nextFree (slot T i)) is" using inv Cons by (simp add: cinv_with_def)
    then show ?thesis using free_chain_cong [of "is" "slot ?T'" "slot T"] h(2) by auto
  qed
  then have "cinv_with ?T' (?r # live) is"
    using inv Cons i handle_facts [OF i, of "state (slot T i)"] by (auto simp: cinv_with_def)
  with Cons handle_facts [OF i] i m that(2) show thesis by blast
qed

lemma cinv_make_scope:
  assumes "cinv T live" and "make_scope par T = (r, T')"
  shows "cinv T' (if r = kNone then live else r # live)"
proof -
  obtain fr where fr: "cinv_with T live fr" using assms(1) by (auto simp: cinv_def)
  show ?thesis
    by (rule make_scope_cases [OF fr, of par]) (use assms fr in \<open>auto simp: cinv_def\<close>)
qed

lemma set_remove1_map:
  "distinct (map f xs) \<Longrightarrow> x \<in> set xs \<Longrightarrow> f ` set (remove1 x xs) = f ` set xs - {f x}"
  by (induction xs) (auto simp: image_iff)

lemma distinct_map_remove1: "distinct (map f xs) \<Longrightarrow> distinct (map f (remove1 x xs))"
  by (induction xs) (auto dest: subsetD [OF set_remove1_subset])

lemma CancelScope_destroy_alt:
  assumes "index_of raw < kCancelSlots"
  shows "slot (CancelScope_destroy raw T) j =
           (if j = index_of raw then \<lparr>state = next_state (state (slot T j)), parent = kNone, nextFree = head_index T\<rparr>
            else slot T j)"
    and "head_index (CancelScope_destroy raw T) = of_nat (index_of raw + 1)"
proof -
  have ne: "raw \<noteq> kNone" using assms index_of_kNone by (auto simp: kCancelSlots_def)
  show "slot (CancelScope_destroy raw T) j =
           (if j = index_of raw then \<lparr>state = next_state (state (slot T j)), parent = kNone, nextFree = head_index T\<rparr>
            else slot T j)"
    using ne by (simp add: CancelScope_destroy_def ReleaseSlot_def Let_def next_state_def index_of_def head_index_def)
  have "(raw AND 0xFFFF) + 1 = (of_nat (index_of raw + 1) :: u32)"
    by (simp add: index_of_def add.commute)
  then show "head_index (CancelScope_destroy raw T) = of_nat (index_of raw + 1)"
    using ne by (simp add: CancelScope_destroy_def ReleaseSlot_def Let_def head_index_def head_index_bumped)
qed

lemma live_index:
  assumes "cinv T live" and "r \<in> set live"
  shows "index_of r < kCancelSlots" and "GenOf (state (slot T (index_of r))) = drop_bit 16 r" and "r \<noteq> kNone"
proof -
  show ix: "index_of r < kCancelSlots" "GenOf (state (slot T (index_of r))) = drop_bit 16 r"
    using assms by (auto simp: cinv_def cinv_with_def)
  then show "r \<noteq> kNone" using index_of_kNone by (auto simp: kCancelSlots_def)
qed

lemma cinv_destroy:
  assumes inv: "cinv T live" and r: "r \<in> set live"
  shows "cinv (CancelScope_destroy r T) (remove1 r live)"
proof -
  obtain fr where fr: "cinv_with T live fr" using inv by (auto simp: cinv_def)
  let ?i = "index_of r" and ?T' = "CancelScope_destroy r T"
  note ix = live_index [OF inv r]
  note alt = CancelScope_destroy_alt [OF ix(1), of T]
  have nfr: "?i \<notin> set fr" using fr r by (auto simp: cinv_with_def)
  have "free_chain (slot ?T') (head_index T) fr = free_chain (slot T) (head_index T) fr"
    by (rule free_chain_cong) (use nfr in \<open>auto simp: alt(1)\<close>)
  then have "free_chain (slot ?T') (head_index ?T') (?i # fr)"
    using fr ix(1) by (simp add: cinv_with_def alt)
  moreover have d: "distinct (map index_of live)" using fr by (simp add: cinv_with_def)
  then have img: "index_of ` set (remove1 r live) = index_of ` set live - {?i}"
    using r by (rule set_remove1_map)
  moreover have "distinct (map index_of (remove1 r live))"
    using d by (rule distinct_map_remove1)
  moreover have "index_of x \<noteq> ?i" if "x \<in> set (remove1 r live)" for x using img that by blast
  ultimately have "cinv_with ?T' (remove1 r live) (?i # fr)"
    using fr nfr ix(1) unfolding cinv_with_def img
    by (auto simp: alt dest: notin_set_remove1 split: if_splits)
  then show ?thesis by (auto simp: cinv_def)
qed

text \<open>Setting the flag of a slot that is not free keeps everything else.\<close>

lemma cinv_set_flag:
  assumes inv: "cinv T live" and i: "i \<in> index_of ` set live"
  shows "cinv (set_slot i (state_update (\<lambda>st. st OR kCancelledBit)) T) live"
proof -
  obtain fr where fr: "cinv_with T live fr" using inv by (auto simp: cinv_def)
  then have nfr: "i \<notin> set fr" using i by (auto simp: cinv_with_def)
  let ?T' = "set_slot i (state_update (\<lambda>st. st OR kCancelledBit)) T"
  have "free_chain (slot ?T') h fr = free_chain (slot T) h fr" for h
    by (rule free_chain_cong) simp
  then have "cinv_with ?T' live fr" using fr nfr by (auto simp: cinv_with_def)
  then show ?thesis by (auto simp: cinv_def)
qed

lemma cinv_with_length:
  assumes "cinv_with T live fr"
  shows "length fr + length live = kCancelSlots"
proof -
  have "card (set fr \<union> index_of ` set live) = kCancelSlots" using assms by (simp add: cinv_with_def)
  moreover have "card (set fr \<union> index_of ` set live) = card (set fr) + card (index_of ` set live)"
    using assms by (intro card_Un_disjoint) (auto simp: cinv_with_def)
  moreover have "card (set fr) = length fr" "card (index_of ` set live) = length live"
    using assms distinct_card [of "map index_of live"] by (auto simp: cinv_with_def distinct_card)
  ultimately show ?thesis by simp
qed

section \<open>Runs\<close>

text \<open>The scopes alive are those constructed and not yet destroyed. \<open>uses\<close> counts how often each slot has
  been given back, and \<open>issued\<close> pairs every token with that count at its birth (both auxiliary). Only a
  live scope's owner calls \<^verbatim>\<open>Cancel\<close> or the destructor; any token ever issued may be passed to
  \<^verbatim>\<open>CancelVia\<close>, dead or alive, as long as its slot has been given back fewer than 65,536 times since,
  the bound the sources document; any value may be passed as a parent.\<close>

record csys =
  tab :: cancel_table
  live :: "u32 list"
  uses :: "nat \<Rightarrow> nat"
  issued :: "(u32 \<times> nat) list"

datatype cop = New | NewIn u32 | Destroy u32 | DoCancel u32 | Via u32 nat

definition csys_init :: csys where
  "csys_init = \<lparr>tab = cancel_init, live = [], uses = (\<lambda>_. 0), issued = []\<rparr>"

fun add_scope :: "u32 \<times> cancel_table \<Rightarrow> csys \<Rightarrow> csys" where
  "add_scope (r, T) s =
     (if r = kNone then s\<lparr>tab := T\<rparr>
      else s\<lparr>tab := T, live := r # live s, issued := (r, uses s (index_of r)) # issued s\<rparr>)"

definition fresh_enough :: "u32 \<Rightarrow> nat \<Rightarrow> csys \<Rightarrow> bool" where
  "fresh_enough r b s \<longleftrightarrow> (r, b) \<in> set (issued s) \<and> uses s (index_of r) < b + 65536"

fun cstep :: "cop \<Rightarrow> csys \<Rightarrow> csys option" where
  "cstep New s = Some (add_scope (CancelScope_root (tab s)) s)"
| "cstep (NewIn p) s = Some (add_scope (CancelScope_nested p (tab s)) s)"
| "cstep (Destroy r) s =
     (if r \<in> set (live s)
      then Some (s\<lparr>tab := CancelScope_destroy r (tab s), live := remove1 r (live s),
                   uses := (uses s)(index_of r := uses s (index_of r) + 1)\<rparr>)
      else None)"
| "cstep (DoCancel r) s = (if r \<in> set (live s) then Some (s\<lparr>tab := Cancel r (tab s)\<rparr>) else None)"
| "cstep (Via r b) s = (if fresh_enough r b s then Some (s\<lparr>tab := snd (CancelVia r (tab s))\<rparr>) else None)"

fun crun :: "cop list \<Rightarrow> csys \<Rightarrow> csys option" where
  "crun [] s = Some s"
| "crun (a # as) s = (case cstep a s of None \<Rightarrow> None | Some s' \<Rightarrow> crun as s')"

lemma crun_obtain:
  "(case crun as csys_init of None \<Rightarrow> False | Some s \<Rightarrow> P s) \<Longrightarrow> \<exists>s. crun as csys_init = Some s \<and> P s"
  by (auto split: option.splits)

definition gens_ok :: "csys \<Rightarrow> bool" where
  "gens_ok s \<longleftrightarrow>
     (\<forall>i < kCancelSlots. unat (GenOf (state (slot (tab s) i))) = uses s i mod 65536)
   \<and> (\<forall>(r, b) \<in> set (issued s). index_of r < kCancelSlots \<and> unat (drop_bit 16 r) = b mod 65536
        \<and> b \<le> uses s (index_of r) \<and> (b = uses s (index_of r) \<longrightarrow> r \<in> set (live s)))
   \<and> (\<forall>r \<in> set (live s). (r, uses s (index_of r)) \<in> set (issued s))"

definition csys_inv :: "csys \<Rightarrow> bool" where
  "csys_inv s \<longleftrightarrow> cinv (tab s) (live s) \<and> gens_ok s"

lemma csys_inv_init: "csys_inv csys_init"
  using cinv_init
  by (simp add: csys_inv_def csys_init_def gens_ok_def cancel_init_def CancelSlotTable_def GenOf_def)

text \<open>Within the bound, a handle matches its slot's generation exactly while its scope is alive.\<close>

lemma mod_window: "(b :: nat) \<le> u \<Longrightarrow> u < b + 65536 \<Longrightarrow> u mod 65536 = b mod 65536 \<Longrightarrow> u = b"
  using mod_window_inj [of u 65536 b b] by simp

lemma gen_matches_iff:
  assumes inv: "csys_inv s" and fr: "fresh_enough r b s"
  shows "GenOf (state (slot (tab s) (index_of r))) = drop_bit 16 r \<longleftrightarrow> uses s (index_of r) = b"
    and "uses s (index_of r) = b \<Longrightarrow> r \<in> set (live s)" and "index_of r < kCancelSlots"
proof -
  have g: "index_of r < kCancelSlots" "unat (drop_bit 16 r) = b mod 65536" "b \<le> uses s (index_of r)"
      "b = uses s (index_of r) \<Longrightarrow> r \<in> set (live s)"
      "unat (GenOf (state (slot (tab s) (index_of r)))) = uses s (index_of r) mod 65536"
    using inv fr unfolding csys_inv_def gens_ok_def fresh_enough_def by auto
  show "index_of r < kCancelSlots" by (rule g(1))
  show "uses s (index_of r) = b \<Longrightarrow> r \<in> set (live s)" using g(4) by simp
  show "GenOf (state (slot (tab s) (index_of r))) = drop_bit 16 r \<longleftrightarrow> uses s (index_of r) = b"
    using g(2,3,5) mod_window [of b "uses s (index_of r)"] fr unfolding word_unat_eq_iff
    by (auto simp: fresh_enough_def)
qed

text \<open>An operation that leaves every generation and the bookkeeping alone.\<close>

lemma csys_inv_tab:
  assumes "csys_inv s" and "cinv T (live s)"
    and "\<And>i. GenOf (state (slot T i)) = GenOf (state (slot (tab s) i))"
  shows "csys_inv (s\<lparr>tab := T\<rparr>)"
  using assms by (simp add: csys_inv_def gens_ok_def)

lemma csys_inv_make:
  assumes inv: "csys_inv s"
  shows "csys_inv (add_scope (make_scope par (tab s)) s)"
proof -
  obtain fr where fr: "cinv_with (tab s) (live s) fr" using inv by (auto simp: csys_inv_def cinv_def)
  show ?thesis
  proof (rule make_scope_cases [OF fr, of par])
    fix i "is" h r T'
    assume m: "r \<noteq> kNone" "index_of r = i" "i < kCancelSlots"
      "T' = set_slot i (parent_update (\<lambda>_. par (tab s\<lparr>freeHead := h\<rparr>))) (tab s\<lparr>freeHead := h\<rparr>)"
      "make_scope par (tab s) = (r, T')" "cinv_with T' (r # live s) is"
    then have st: "state (slot T' j) = state (slot (tab s) j)" for j by simp
    have "unat (drop_bit 16 r) = uses s i mod 65536"
      using m(2,3,6) inv st by (auto simp: cinv_with_def csys_inv_def gens_ok_def)
    with inv m st show ?thesis by (auto simp: csys_inv_def cinv_def gens_ok_def)
  qed (use inv in \<open>simp add: csys_inv_def gens_ok_def\<close>)
qed

lemma csys_inv_destroy:
  assumes inv: "csys_inv s" and r: "r \<in> set (live s)" and step: "cstep (Destroy r) s = Some s'"
  shows "csys_inv s'"
proof -
  let ?i = "index_of r"
  note c = inv [unfolded csys_inv_def, THEN conjunct1] and g = inv [unfolded csys_inv_def, THEN conjunct2]
  note ix = live_index [OF c r]
  have s': "s' = s\<lparr>tab := CancelScope_destroy r (tab s), live := remove1 r (live s), uses := (uses s)(?i := uses s ?i + 1)\<rparr>"
    using step r by simp
  have d: "distinct (map index_of (live s))" using c by (auto simp: cinv_def cinv_with_def)
  have other: "index_of x \<noteq> ?i" if "x \<in> set (remove1 r (live s))" for x
    using set_remove1_map [OF d r] that by blast
  have keep: "x \<in> set (remove1 r (live s))" if "x \<in> set (live s)" "index_of x \<noteq> ?i" for x
    using that by (metis in_set_remove1)
  have "gens_ok s'"
  proof (unfold gens_ok_def, intro conjI ballI allI impI)
    fix j assume "j < kCancelSlots"
    then show "unat (GenOf (state (slot (tab s') j))) = uses s' j mod 65536"
      using g ix(1) by (simp add: s' CancelScope_destroy_alt gens_ok_def unat_GenOf_next_state mod_simps)
  next
    fix x assume x: "x \<in> set (issued s')"
    obtain q b where q: "x = (q, b)" by force
    have "index_of q < kCancelSlots \<and> unat (drop_bit 16 q) = b mod 65536 \<and> b \<le> uses s (index_of q)
        \<and> (b = uses s (index_of q) \<longrightarrow> q \<in> set (live s))"
      using g x q by (auto simp: gens_ok_def s')
    then show "case x of (r, b) \<Rightarrow> index_of r < kCancelSlots \<and> unat (drop_bit 16 r) = b mod 65536
        \<and> b \<le> uses s' (index_of r) \<and> (b = uses s' (index_of r) \<longrightarrow> r \<in> set (live s'))"
      using keep by (auto simp: q s')
  next
    fix x assume "x \<in> set (live s')"
    then show "(x, uses s' (index_of x)) \<in> set (issued s')"
      using g other [of x] notin_set_remove1 [of x "live s" r] by (auto simp: gens_ok_def s')
  qed
  then show ?thesis using cinv_destroy [OF c r] by (simp add: csys_inv_def s')
qed

lemma Cancel_set_flag: "r \<noteq> kNone \<Longrightarrow> Cancel r T = set_slot (index_of r) (state_update (\<lambda>st. st OR kCancelledBit)) T"
  by (simp add: Cancel_def)

lemma set_state_alt:
  "set_slot i (state_update (\<lambda>_. state (slot T i) OR c)) T = set_slot i (state_update (\<lambda>st. st OR c)) T"
proof -
  have "state_update (\<lambda>_. state x OR c) x = state_update (\<lambda>st. st OR c) x" for x :: cancel_slot by simp
  then show ?thesis by (simp only: set_slot_def)
qed

lemma CancelVia_cases:
  assumes "index_of r < kCancelSlots"
  shows "CancelVia r T =
    (if GenOf (state (slot T (index_of r))) = drop_bit 16 r
     then (True, if CancelledIn (state (slot T (index_of r))) then T else Cancel r T) else (False, T))"
proof -
  have "r \<noteq> kNone" using assms index_of_kNone by (auto simp: kCancelSlots_def)
  then show ?thesis
    using assms set_state_alt [of "index_of r" T kCancelledBit] by (simp add: CancelVia_def Cancel_def Let_def)
qed

lemma csys_inv_cancel:
  assumes inv: "csys_inv s" and r: "r \<in> set (live s)"
  shows "csys_inv (s\<lparr>tab := Cancel r (tab s)\<rparr>)"
proof (rule csys_inv_tab [OF inv])
  have c: "cinv (tab s) (live s)" using inv by (simp add: csys_inv_def)
  note f = Cancel_set_flag [OF live_index(3) [OF c r]]
  show "cinv (Cancel r (tab s)) (live s)" unfolding f using c r by (intro cinv_set_flag) auto
  show "GenOf (state (slot (Cancel r (tab s)) i)) = GenOf (state (slot (tab s) i))" for i
    unfolding f by simp
qed

lemma csys_inv_cstep:
  assumes inv: "csys_inv s" and step: "cstep a s = Some s'"
  shows "csys_inv s'"
proof (cases a)
  case New
  then show ?thesis using step csys_inv_make [OF inv] by (auto simp: CancelScope_root_make)
next
  case (NewIn p)
  then show ?thesis using step csys_inv_make [OF inv] by (auto simp: CancelScope_nested_make)
next
  case (Destroy r)
  then show ?thesis using step csys_inv_destroy [OF inv, of r s'] by (auto split: if_splits)
next
  case (DoCancel r)
  then show ?thesis using step csys_inv_cancel [OF inv] by (auto split: if_splits)
next
  case (Via r b)
  then have fr: "fresh_enough r b s" and s': "s' = s\<lparr>tab := snd (CancelVia r (tab s))\<rparr>"
    using step by (auto split: if_splits)
  note m = gen_matches_iff [OF inv fr]
  have "s\<lparr>tab := tab s\<rparr> = s" by simp
  then show ?thesis
    using inv m csys_inv_cancel [OF inv, of r] by (auto simp: s' CancelVia_cases [OF m(3)])
qed

lemma csys_inv_crun: "csys_inv s \<Longrightarrow> crun as s = Some s' \<Longrightarrow> csys_inv s'"
  by (induction as arbitrary: s) (auto split: option.splits intro: csys_inv_cstep)

section \<open>What cancellation guarantees\<close>

lemma or_bit_cancelled: "CancelledIn st \<Longrightarrow> st OR kCancelledBit = st"
  by (rule bit_word_eqI) (auto simp: CancelledIn_odd kCancelledBit_def bit_simps bit_0 elim: oddE)

lemma Cancel_cancelled: "CancelledIn (state (slot T (index_of r))) \<Longrightarrow> Cancel r T = T"
  by (auto simp: Cancel_def set_slot_def or_bit_cancelled intro!: cancel_table.equality ext cancel_slot.equality)

lemma cancelled_walk_Suc:
  "cancelled_walk T (Suc n) raw \<longleftrightarrow>
     raw \<noteq> kNone \<and> index_of raw < kCancelSlots \<and> GenOf (state (slot T (index_of raw))) = drop_bit 16 raw
   \<and> (CancelledIn (state (slot T (index_of raw))) \<or> cancelled_walk T n (parent (slot T (index_of raw))))"
  by (auto simp: Let_def)

lemma within_walk_Suc:
  "within_walk T anc (Suc n) raw \<longleftrightarrow>
     raw \<noteq> kNone \<and> (raw = anc
      \<or> (index_of raw < kCancelSlots \<and> GenOf (state (slot T (index_of raw))) = drop_bit 16 raw
         \<and> within_walk T anc n (parent (slot T (index_of raw)))))"
  by (auto simp: Let_def)

lemmas walk_simps_Suc = cancelled_walk_Suc within_walk_Suc
lemmas walk_numeral = cancelled_walk_Suc [of _ "pred_numeral k" for k, folded numeral_eq_Suc]
  within_walk_Suc [of _ _ "pred_numeral k" for k, folded numeral_eq_Suc]
declare cancelled_walk.simps(2) [simp del] within_walk.simps(2) [simp del]

lemma Cancelled_step:
  "Cancelled T raw \<longleftrightarrow>
     raw \<noteq> kNone \<and> index_of raw < kCancelSlots \<and> GenOf (state (slot T (index_of raw))) = drop_bit 16 raw
   \<and> (CancelledIn (state (slot T (index_of raw))) \<or> cancelled_walk T 7 (parent (slot T (index_of raw))))"
  using cancelled_walk_Suc [of T 7 raw] by (simp add: Cancelled_def kMaxScopeDepth_def)

lemma IsWithin_parent:
  assumes "raw \<noteq> kNone" "index_of raw < kCancelSlots" "GenOf (state (slot T (index_of raw))) = drop_bit 16 raw"
    and "parent (slot T (index_of raw)) = anc" "anc \<noteq> kNone"
  shows "IsWithin T raw anc"
  using within_walk_Suc [of T anc 7 raw] within_walk_Suc [of T anc 6 anc] assms
  by (simp add: IsWithin_def kMaxScopeDepth_def Valid_def)

lemma cancelled_walk_Cancel:
  assumes r: "r \<noteq> kNone" "index_of r < kCancelSlots" "GenOf (state (slot T (index_of r))) = drop_bit 16 r"
  shows "cancelled_walk (Cancel r T) n t \<longleftrightarrow> cancelled_walk T n t \<or> within_walk T r n t"
proof (induction n arbitrary: t)
  case (Suc n)
  note f = Cancel_set_flag [OF r(1), of T]
  show ?case
  proof (cases "t = r")
    case True
    then show ?thesis using r by (simp add: walk_simps_Suc f)
  next
    case False
    show ?thesis
    proof (cases "GenOf (state (slot T (index_of t))) = drop_bit 16 t")
      case True
      then have "index_of t \<noteq> index_of r" using r(3) False raw_eqI [of t r] by metis
      then have "slot (Cancel r T) (index_of t) = slot T (index_of t)" by (simp add: f)
      then show ?thesis using Suc.IH False by (auto simp: walk_simps_Suc)
    next
      case other: False
      have "GenOf (state (slot (Cancel r T) i)) = GenOf (state (slot T i))" for i by (simp add: f)
      then show ?thesis using other False by (simp add: walk_simps_Suc)
    qed
  qed
qed simp

text \<open>C9: Cancelling a scope cancels exactly that scope and the scopes nested in it (as \<^verbatim>\<open>IsWithin\<close> finds
  them within the depth bound): any token answers \<^verbatim>\<open>Cancelled\<close> afterwards if and only if it did before
  or lies within the cancelled scope. No unrelated scope is affected, whatever slots were recycled.\<close>

theorem cancel_reaches_exactly_nested:
  assumes "crun as csys_init = Some s" and "r \<in> set (live s)"
  shows "Cancelled (Cancel r (tab s)) t \<longleftrightarrow> Cancelled (tab s) t \<or> IsWithin (tab s) t r"
proof -
  have "cinv (tab s) (live s)" using csys_inv_crun [OF csys_inv_init assms(1)] by (simp add: csys_inv_def)
  note ix = live_index [OF this assms(2)]
  show ?thesis
    using cancelled_walk_Cancel [OF ix(3,1,2)] ix(3) by (simp add: Cancelled_def IsWithin_def Valid_def)
qed

lemmas cancel_eval = csys_init_def cancel_init_def CancelSlotTable_def CancelScope_root_def
  CancelScope_nested_def CancelScope_destroy_def ReleaseSlot_def Cancel_def AcquireSlot_def Let_def
  set_slot_def GenOf_def kIndexMask_def kNone_def index_of_def kCancelSlots_def ResolveCancelSlot_def
  IsWithin_def Valid_def Cancelled_def kMaxScopeDepth_def CancelledIn_def kCancelledBit_def fresh_enough_def
  walk_numeral

lemma nested_run_ends:
  "case crun [New, NewIn 0, New] csys_init of None \<Rightarrow> False
   | Some s \<Rightarrow> live s = [2, 1, 0] \<and> IsWithin (tab s) 1 0 \<and> \<not> IsWithin (tab s) 2 0 \<and> \<not> Cancelled (tab s) 2"
  by (simp add: cancel_eval)

theorem cancel_reaches_exactly_nested_witness:
  "\<exists>(s :: csys). live s = [2, 1, 0] \<and> Cancelled (Cancel 0 (tab s)) 1 \<and> \<not> Cancelled (Cancel 0 (tab s)) 2"
proof -
  obtain s where s: "crun [New, NewIn 0, New] csys_init = Some s" "live s = [2, 1, 0]"
    "IsWithin (tab s) 1 0" "\<not> IsWithin (tab s) 2 0" "\<not> Cancelled (tab s) 2"
    using crun_obtain [OF nested_run_ends] by blast
  have "0 \<in> set (live s)" using s(2) by simp
  from cancel_reaches_exactly_nested [OF s(1) this, of 1] cancel_reaches_exactly_nested [OF s(1) this, of 2] s(2-)
  show ?thesis by blast
qed

text \<open>C10: A token outlives its scope safely, within the width of its generation. In every run, for every token issued in it whose slot has been given back fewer
  than 65,536 times since (in a run where \<^verbatim>\<open>CancelVia\<close> too is used with such tokens only): \<^verbatim>\<open>CancelVia\<close> cancels its scope and returns true while the scope is alive, and
  once the scope is gone it changes nothing and returns false, \<^verbatim>\<open>Cancelled\<close> answers false and the handle
  no longer resolves, even though the slot may by then belong to another scope.\<close>

theorem stale_token_inert:
  assumes "crun as csys_init = Some s" and "fresh_enough r b s"
  shows "if uses s (index_of r) = b
         then r \<in> set (live s) \<and> CancelVia r (tab s) = (True, Cancel r (tab s))
              \<and> ResolveCancelSlot (tab s) r = Some (index_of r)
         else CancelVia r (tab s) = (False, tab s) \<and> \<not> Cancelled (tab s) r
              \<and> ResolveCancelSlot (tab s) r = None"
proof -
  note inv = csys_inv_crun [OF csys_inv_init assms(1)]
  note m = gen_matches_iff [OF inv assms(2)]
  have "Cancelled (tab s) r \<Longrightarrow> GenOf (state (slot (tab s) (index_of r))) = drop_bit 16 r"
    by (simp add: Cancelled_step)
  then show ?thesis
    using m by (auto simp: CancelVia_cases ResolveCancelSlot_def Let_def Cancel_cancelled)
qed

lemma stale_run_ends:
  "case crun [New, Destroy 0, New] csys_init of None \<Rightarrow> False
   | Some s \<Rightarrow> live s = [0x10000] \<and> fresh_enough 0 0 s \<and> uses s (index_of 0) = 1"
  by (simp add: cancel_eval)

theorem stale_token_inert_witness:
  "\<exists>(s :: csys). live s = [0x10000] \<and> CancelVia 0 (tab s) = (False, tab s) \<and> \<not> Cancelled (tab s) 0"
proof -
  obtain s where s: "crun [New, Destroy 0, New] csys_init = Some s" "live s = [0x10000]"
    "fresh_enough 0 0 s" "uses s (index_of 0) = 1"
    using crun_obtain [OF stale_run_ends] by blast
  from stale_token_inert [OF s(1,3)] s(2,4) show ?thesis by auto
qed

text \<open>The constructor. It fails exactly when 65,535 scopes are alive, and then nothing changes and the
  invalid scope it leaves never reports cancelled (it fails open); otherwise it hands out a slot no
  live scope owns, with a clean flag even if the previous tenant was cancelled.\<close>

lemma root_scope_constructed:
  assumes "crun as csys_init = Some s" and "CancelScope_root (tab s) = (r, T')"
  shows "(r = kNone \<longleftrightarrow> length (live s) = kCancelSlots)
       \<and> (r = kNone \<longrightarrow> T' = tab s)
       \<and> (r \<noteq> kNone \<longrightarrow> index_of r < kCancelSlots \<and> index_of r \<notin> index_of ` set (live s))
       \<and> \<not> Cancelled T' r"
proof -
  have "cinv (tab s) (live s)" using csys_inv_crun [OF csys_inv_init assms(1)] by (simp add: csys_inv_def)
  then obtain fr where fr: "cinv_with (tab s) (live s) fr" by (auto simp: cinv_def)
  note len = cinv_with_length [OF fr]
  have none: "\<not> Cancelled T kNone" for T by (simp add: Cancelled_step)
  show ?thesis
  proof (rule make_scope_cases [OF fr, of "\<lambda>_. kNone"])
    assume "fr = []" "make_scope (\<lambda>_. kNone) (tab s) = (kNone, tab s)"
    then show ?thesis using assms(2) len none by (simp add: CancelScope_root_make)
  next
    fix i "is" h r1 T1
    assume m: "fr = i # is" "r1 \<noteq> kNone" "index_of r1 = i" "i < kCancelSlots"
      "T1 = set_slot i (parent_update (\<lambda>_. kNone)) (tab s\<lparr>freeHead := h\<rparr>)"
      "make_scope (\<lambda>_. kNone) (tab s) = (r1, T1)" "cinv_with T1 (r1 # live s) is"
    have e: "r = r1" "T' = T1" using m(6) assms(2) by (simp_all add: CancelScope_root_make)
    have "\<not> CancelledIn (state (slot T1 i))" "parent (slot T1 i) = kNone"
      using fr m(1,5) by (simp_all add: cinv_with_def)
    moreover have "\<not> cancelled_walk T1 7 kNone" by (simp add: walk_numeral)
    ultimately have "\<not> Cancelled T1 r1" using m(3) by (simp add: Cancelled_step)
    moreover have "i \<notin> index_of ` set (live s)" using fr m(1) by (auto simp: cinv_with_def)
    ultimately show ?thesis using len m by (simp add: e)
  qed
qed

lemma reuse_run_ends:
  "case crun [New, DoCancel 0, Destroy 0] csys_init of None \<Rightarrow> False
   | Some s \<Rightarrow> live s = [] \<and> fst (CancelScope_root (tab s)) = 0x10000"
  by (simp add: cancel_eval)

lemma root_scope_constructed_example:
  "\<exists>(s :: csys) T'. CancelScope_root (tab s) = (0x10000, T') \<and> \<not> Cancelled T' 0x10000"
proof -
  obtain s where s: "crun [New, DoCancel 0, Destroy 0] csys_init = Some s" "fst (CancelScope_root (tab s)) = 0x10000"
    using crun_obtain [OF reuse_run_ends] by blast
  obtain T' where T': "CancelScope_root (tab s) = (0x10000, T')" using s(2) by (metis prod.collapse)
  from root_scope_constructed [OF s(1) T'] T' show ?thesis by blast
qed

text \<open>A nested scope inherits: constructed inside a live scope, it is within that scope, and cancelling
  the enclosing scope cancels it.\<close>

lemma nested_scope_inherits:
  assumes "crun as csys_init = Some s" and "p \<in> set (live s)"
    and "CancelScope_nested p (tab s) = (r, T')" and "r \<noteq> kNone"
  shows "IsWithin T' r p \<and> Cancelled (Cancel p T') r"
proof -
  note inv = csys_inv_crun [OF csys_inv_init assms(1)]
  then have "cinv (tab s) (live s)" by (simp add: csys_inv_def)
  note p = live_index [OF this assms(2)]
  from \<open>cinv (tab s) (live s)\<close> obtain fr where fr: "cinv_with (tab s) (live s) fr" by (auto simp: cinv_def)
  let ?par = "\<lambda>T. if ResolveCancelSlot T p \<noteq> None then p else kNone"
  obtain i "is" h where m: "index_of r = i" "i < kCancelSlots"
      "T' = set_slot i (parent_update (\<lambda>_. ?par (tab s\<lparr>freeHead := h\<rparr>))) (tab s\<lparr>freeHead := h\<rparr>)"
      "cinv_with T' (r # live s) is"
    by (rule make_scope_cases [OF fr, of ?par]) (use assms(3,4) in \<open>auto simp: CancelScope_nested_make\<close>)
  have "?par (tab s\<lparr>freeHead := h\<rparr>) = p" using p by (simp add: ResolveCancelSlot_def)
  then have par: "parent (slot T' i) = p" using m(3) by simp
  have w: "IsWithin T' r p"
    using par p(3) assms(4) m(1,2,4) by (intro IsWithin_parent) (auto simp: cinv_with_def)
  have "cinv T' (r # live s)" using m(4) by (auto simp: cinv_def)
  note p' = live_index [OF this, of p]
  have "Cancelled (Cancel p T') r"
    using cancelled_walk_Cancel [of p T' kMaxScopeDepth r] p' assms(2) w by (simp add: Cancelled_def IsWithin_def Valid_def)
  with w show ?thesis by blast
qed

lemma inherit_run_ends:
  "case crun [New] csys_init of None \<Rightarrow> False
   | Some s \<Rightarrow> live s = [0] \<and> fst (CancelScope_nested 0 (tab s)) = 1"
  by (simp add: cancel_eval)

lemma nested_scope_inherits_witness:
  "\<exists>(s :: csys) T'. CancelScope_nested 0 (tab s) = (1, T') \<and> Cancelled (Cancel 0 T') 1"
proof -
  obtain s where s: "crun [New] csys_init = Some s" "live s = [0]" "fst (CancelScope_nested 0 (tab s)) = 1"
    using crun_obtain [OF inherit_run_ends] by blast
  obtain T' where T': "CancelScope_nested 0 (tab s) = (1, T')" using s(3) by (metis prod.collapse)
  have "0 \<in> set (live s)" "(1 :: u32) \<noteq> kNone" using s(2) by (simp_all add: kNone_def)
  from nested_scope_inherits [OF s(1) this(1) T' this(2)] T' show ?thesis by blast
qed

end
