(* ===== verification/Wait_Group.thy ===== *)
theory Wait_Group
  imports Sched_Prelude
begin

text \<open>
  The completion counter of \<^verbatim>\<open>include/WaitGroup.h\<close>, \<^verbatim>\<open>src/WaitGroup.cpp\<close> and \<^verbatim>\<open>TaskScheduler::WaitFor\<close>: one
  word packing the number of outstanding tasks and a bit saying that somebody has parked, the
  intrusive stack of parked fibers, the decrement of a task that ends, and the wait of a fiber, all
  interleaved at their atomic accesses. Tasks are counted and finish in any order while fibers come to
  wait, and a group that has finished can be used again.

  The other membership, \<^verbatim>\<open>waiters\<close>, is filled by the second branch of \<^verbatim>\<open>WaitFor\<close> only, whose condition
  repeats that of the first and is never reached; it stays empty.
\<close>

section \<open>The packed word\<close>

definition WAITER_BIT :: nat where
  "WAITER_BIT = 0x40000000"

definition COUNT_MASK :: nat where
  "COUNT_MASK = WAITER_BIT - 1"

definition clear_bit :: "nat \<Rightarrow> nat" where
  "clear_bit n = n - (n AND WAITER_BIT)"   \<comment> \<open>\<^verbatim>\<open>n & ~WAITER_BIT\<close>\<close>

section \<open>State\<close>

datatype wait_pc =
    Out      \<comment> \<open>not waiting\<close>
  | Pub      \<comment> \<open>pushed onto the stack; about to set the bit\<close>
  | Waiting  \<comment> \<open>armed; suspended, or about to be\<close>

text \<open>A drain in progress: about to exchange the stack (\<^verbatim>\<open>WakeAllDirect\<close> returns at once on an empty one,
  \<^verbatim>\<open>WakeAll\<close> goes on), about to clear the bit, then resuming the fibers it took.\<close>

datatype waker =
    Exch bool            \<comment> \<open>\<open>True\<close> for \<^verbatim>\<open>WakeAllDirect\<close>\<close>
  | Clear "nat list"
  | Resuming "nat list"

record wait_group =
  wg_n :: nat
  directWaiters :: "nat list"     \<comment> \<open>the intrusive stack, top first\<close>
  wpc :: "nat \<Rightarrow> wait_pc"
  signaled :: "nat \<Rightarrow> bool"         \<comment> \<open>the fiber has been resumed since it became parkable\<close>
  wakers :: "waker list"

definition wg_init :: wait_group where
  "wg_init = \<lparr>wg_n = 0, directWaiters = [], wpc = (\<lambda>_. Out), signaled = (\<lambda>_. False), wakers = []\<rparr>"

section \<open>Operations\<close>

text \<open>Tasks are counted, before they are pushed (\<^verbatim>\<open>RunCounted\<close>, the split of a parallel range, a batch).\<close>

definition wg_add :: "nat \<Rightarrow> wait_group \<Rightarrow> wait_group option" where
  "wg_add m g = Some (g\<lparr>wg_n := wg_n g + m\<rparr>)"

text \<open>The count of a task that could not be pushed is taken back, with no look at the bit.\<close>

definition wg_undo :: "wait_group \<Rightarrow> wait_group option" where
  "wg_undo g = (if wg_n g AND COUNT_MASK = 0 then None else Some (g\<lparr>wg_n := wg_n g - 1\<rparr>))"

text \<open>A task of the group ends (the same four lines at each of its call sites).\<close>

definition wg_done :: "wait_group \<Rightarrow> wait_group option" where
  "wg_done g =
     (let old = wg_n g in
      if old AND COUNT_MASK = 0 then None
      else Some (g\<lparr>wg_n := old - 1,
                   wakers := (if old AND COUNT_MASK = 1 \<and> old AND WAITER_BIT \<noteq> 0
                              then wakers g @ [Exch False] else wakers g)\<rparr>))"

text \<open>\<^verbatim>\<open>WaitFor\<close> on a fiber: become parkable and push onto the stack.\<close>

definition wait_publish :: "nat \<Rightarrow> wait_group \<Rightarrow> wait_group option" where
  "wait_publish f g =
     (if wpc g f = Out
      then Some (g\<lparr>wpc := (wpc g)(f := Pub), signaled := (signaled g)(f := False),
                   directWaiters := f # directWaiters g\<rparr>)
      else None)"

text \<open>Arm: set the bit, and drain the stack oneself if the group had already finished.\<close>

definition wait_arm :: "nat \<Rightarrow> wait_group \<Rightarrow> wait_group option" where
  "wait_arm f g =
     (if wpc g f = Pub
      then (let old = wg_n g in
            Some (g\<lparr>wpc := (wpc g)(f := Waiting), wg_n := old OR WAITER_BIT,
                    wakers := (if old AND COUNT_MASK = 0 then wakers g @ [Exch True] else wakers g)\<rparr>))
      else None)"

text \<open>The fiber runs again and leaves \<^verbatim>\<open>WaitFor\<close>.\<close>

definition wait_return :: "nat \<Rightarrow> wait_group \<Rightarrow> wait_group option" where
  "wait_return f g =
     (if wpc g f = Waiting \<and> signaled g f then Some (g\<lparr>wpc := (wpc g)(f := Out)\<rparr>) else None)"

text \<open>The next access of the \<open>i\<close>-th drain: \<^verbatim>\<open>WakeAll\<close> or \<^verbatim>\<open>WakeAllDirect\<close>.\<close>

definition waker_step :: "nat \<Rightarrow> wait_group \<Rightarrow> wait_group option" where
  "waker_step i g =
     (if i < length (wakers g)
      then Some (case wakers g ! i of
          Exch direct \<Rightarrow>
            (if direct \<and> directWaiters g = []
             then g\<lparr>wakers := take i (wakers g) @ drop (i + 1) (wakers g)\<rparr>
             else g\<lparr>directWaiters := [], wakers := (wakers g)[i := Clear (directWaiters g)]\<rparr>)
        | Clear fs \<Rightarrow> g\<lparr>wg_n := clear_bit (wg_n g), wakers := (wakers g)[i := Resuming fs]\<rparr>
        | Resuming [] \<Rightarrow> g\<lparr>wakers := take i (wakers g) @ drop (i + 1) (wakers g)\<rparr>
        | Resuming (f # fs) \<Rightarrow>
            g\<lparr>signaled := (signaled g)(f := True), wakers := (wakers g)[i := Resuming fs]\<rparr>)
      else None)"

text \<open>The test of a waiter that is not a fiber (\<^verbatim>\<open>WaitFor\<close> off a fiber and \<^verbatim>\<open>WaitForMain\<close>): it waits while
  this is true.\<close>

definition bare_wait_again :: "wait_group \<Rightarrow> bool" where
  "bare_wait_again g \<longleftrightarrow> wg_n g > 0"

section \<open>Interleaved runs\<close>

datatype wg_act = Add nat | Undo | TaskDone | Publish nat | Arm nat | Return nat | Waker nat

fun wg_step :: "wg_act \<Rightarrow> wait_group \<Rightarrow> wait_group option" where
  "wg_step (Add m) g = wg_add m g"
| "wg_step Undo g = wg_undo g"
| "wg_step TaskDone g = wg_done g"
| "wg_step (Publish f) g = wait_publish f g"
| "wg_step (Arm f) g = wait_arm f g"
| "wg_step (Return f) g = wait_return f g"
| "wg_step (Waker i) g = waker_step i g"

text \<open>
  An orderly use of a group: the count stays below the waiter bit; a group whose count is zero is used again only when no drain of the previous round is in progress; and a
  count is taken back only while another task is outstanding.
\<close>

fun orderly :: "wg_act \<Rightarrow> wait_group \<Rightarrow> bool" where
  "orderly (Add m) g = ((wg_n g AND COUNT_MASK) + m < WAITER_BIT \<and> (wg_n g AND COUNT_MASK = 0 \<longrightarrow> wakers g = []))"
| "orderly Undo g = (wg_n g AND COUNT_MASK > 1)"
| "orderly _ g = True"

definition orderly_step :: "wg_act \<Rightarrow> wait_group \<Rightarrow> wait_group option" where
  "orderly_step a g = (if orderly a g then wg_step a g else None)"

section \<open>Arithmetic of the packed word\<close>

definition wg_word :: "nat \<Rightarrow> bool \<Rightarrow> nat" where
  "wg_word c w = c + (if w then WAITER_BIT else 0)"

lemma WAITER_BIT_exp: "WAITER_BIT = 2 ^ 30"
  by (simp add: WAITER_BIT_def)

lemma bit_WAITER_BIT [simp]: "bit WAITER_BIT j \<longleftrightarrow> j = 30"
  unfolding WAITER_BIT_exp bit_exp_iff by auto

lemma bit_count: "c < WAITER_BIT \<Longrightarrow> bit c j \<Longrightarrow> j < 30"
  unfolding WAITER_BIT_exp by (metis bit_take_bit_iff take_bit_nat_eq_self)

lemma and_COUNT_MASK: "n AND COUNT_MASK = n mod WAITER_BIT"
proof -
  have m: "COUNT_MASK = mask 30" unfolding COUNT_MASK_def WAITER_BIT_exp mask_eq_exp_minus_1 by (rule refl)
  show ?thesis unfolding m take_bit_eq_mask [symmetric] take_bit_eq_mod WAITER_BIT_exp by (rule refl)
qed

lemma wg_word_count: "c < WAITER_BIT \<Longrightarrow> wg_word c w AND COUNT_MASK = c"
  by (simp add: wg_word_def and_COUNT_MASK)

lemma wg_word_or: "c < WAITER_BIT \<Longrightarrow> wg_word c w = c OR (if w then WAITER_BIT else 0)"
  unfolding wg_word_def by (auto intro!: disjunctive_add dest: bit_count)

lemma wg_word_bit: "c < WAITER_BIT \<Longrightarrow> wg_word c w AND WAITER_BIT = (if w then WAITER_BIT else 0)"
  by (rule bit_eqI) (auto simp: wg_word_or bit_simps dest: bit_count)

lemma wg_word_set: "c < WAITER_BIT \<Longrightarrow> wg_word c w OR WAITER_BIT = wg_word c True"
  by (rule bit_eqI) (auto simp: wg_word_or bit_simps)

lemma wg_word_clear: "c < WAITER_BIT \<Longrightarrow> clear_bit (wg_word c w) = wg_word c False"
  unfolding clear_bit_def wg_word_bit by (simp add: wg_word_def)

lemmas wg_word_simps = wg_word_count wg_word_bit wg_word_set wg_word_clear

lemma WAITER_BIT_pos [simp]: "WAITER_BIT \<noteq> 0" "0 < WAITER_BIT"
  by (simp_all add: WAITER_BIT_exp)

section \<open>No lost wakeup\<close>

fun waker_holds :: "waker \<Rightarrow> nat list" where
  "waker_holds (Exch d) = []"
| "waker_holds (Clear fs) = fs"
| "waker_holds (Resuming fs) = fs"

definition held :: "wait_group \<Rightarrow> nat set" where
  "held g = (\<Union>w \<in> set (wakers g). set (waker_holds w))"

definition draining :: "wait_group \<Rightarrow> bool" where
  "draining g \<longleftrightarrow> (\<exists>d. Exch d \<in> set (wakers g))"

text \<open>While tasks are outstanding nobody drains and the bit of an armed fiber stays; afterwards an armed
  fiber still on the stack has a drain coming.\<close>

definition wg_inv_at :: "nat \<Rightarrow> bool \<Rightarrow> wait_group \<Rightarrow> bool" where
  "wg_inv_at c w g \<longleftrightarrow> wg_n g = wg_word c w \<and> c < WAITER_BIT \<and> (c > 0 \<longrightarrow> wakers g = [])
     \<and> (\<forall>f. wpc g f \<noteq> Out \<longrightarrow> \<not> signaled g f \<longrightarrow> f \<in> held g \<or> f \<in> set (directWaiters g))
     \<and> (\<forall>f. wpc g f = Waiting \<longrightarrow> \<not> signaled g f \<longrightarrow> f \<in> held g \<or> (if c > 0 then w else draining g))"

definition wg_inv :: "wait_group \<Rightarrow> bool" where
  "wg_inv g \<longleftrightarrow> (\<exists>c w. wg_inv_at c w g)"

lemma wg_inv_init: "wg_inv wg_init"
  unfolding wg_inv_def
  by (rule exI [of _ 0], rule exI [of _ False]) (simp add: wg_inv_at_def wg_init_def wg_word_def)

lemma held_empty [simp]: "wakers g = [] \<Longrightarrow> held g = {}"
  by (simp add: held_def)

lemma inv_done:
  assumes inv: "wg_inv_at c w g" and step: "wg_done g = Some g'"
  shows "wg_inv g'"
proof -
  have n: "wg_n g = wg_word c w" "c < WAITER_BIT" using inv by (auto simp: wg_inv_at_def)
  have c: "0 < c" and g': "g' = g\<lparr>wg_n := wg_word c w - 1, wakers := (if c = 1 \<and> w then wakers g @ [Exch False] else wakers g)\<rparr>"
    using step n by (auto simp: wg_done_def Let_def wg_word_simps split: if_splits)
  have word: "wg_word c w - Suc 0 = wg_word (c - Suc 0) w" using c by (simp add: wg_word_def)
  have wk: "wakers g = []" using inv c by (simp add: wg_inv_at_def)
  have "wg_inv_at (c - 1) w g'"
    using inv c wk by (auto simp: wg_inv_at_def g' word draining_def held_def)
  then show ?thesis by (auto simp: wg_inv_def)
qed

lemma inv_add:
  assumes inv: "wg_inv_at c w g" and o: "orderly (Add m) g" and step: "wg_add m g = Some g'"
  shows "wg_inv g'"
proof -
  have n: "wg_n g = wg_word c w" "c < WAITER_BIT" using inv by (auto simp: wg_inv_at_def)
  then have m: "c + m < WAITER_BIT" "c = 0 \<longrightarrow> wakers g = []" using o by (simp_all add: wg_word_simps)
  have g': "g' = g\<lparr>wg_n := wg_word (c + m) w\<rparr>" using step n by (cases w) (simp_all add: wg_add_def wg_word_def add.commute add.left_commute)
  have h: "held g' = held g" "draining g' = draining g" by (simp_all add: g' held_def draining_def)
  have nd: "\<not> draining g" "held g = {}" if "c = 0" using m(2) that by (simp_all add: draining_def held_def)
  have "wg_inv_at (c + m) w g'"
    using inv m nd unfolding wg_inv_at_def h by (cases "c = 0") (auto simp: g')
  then show ?thesis by (auto simp: wg_inv_def)
qed

lemma inv_undo:
  assumes inv: "wg_inv_at c w g" and o: "orderly Undo g" and step: "wg_undo g = Some g'"
  shows "wg_inv g'"
proof -
  have n: "wg_n g = wg_word c w" "c < WAITER_BIT" using inv by (auto simp: wg_inv_at_def)
  then have c: "1 < c" using o by (simp add: wg_word_simps)
  then have g': "g' = g\<lparr>wg_n := wg_word (c - 1) w\<rparr>" using step n by (simp add: wg_undo_def wg_word_simps) (simp add: wg_word_def)
  have h: "held g' = held g" "draining g' = draining g" by (simp_all add: g' held_def draining_def)
  have "wg_inv_at (c - 1) w g'" using inv c unfolding wg_inv_at_def h by (auto simp: g')
  then show ?thesis by (auto simp: wg_inv_def)
qed

lemma inv_publish:
  assumes inv: "wg_inv_at c w g" and step: "wait_publish f g = Some g'"
  shows "wg_inv g'"
proof -
  have g': "g' = g\<lparr>wpc := (wpc g)(f := Pub), signaled := (signaled g)(f := False), directWaiters := f # directWaiters g\<rparr>"
    using step by (auto simp: wait_publish_def split: if_splits)
  have "held g' = held g" "draining g' = draining g" by (simp_all add: g' held_def draining_def)
  then have "wg_inv_at c w g'" using inv unfolding wg_inv_at_def by (auto simp: g')
  then show ?thesis by (auto simp: wg_inv_def)
qed

lemma inv_arm:
  assumes inv: "wg_inv_at c w g" and step: "wait_arm f g = Some g'"
  shows "wg_inv g'"
proof -
  have n: "wg_n g = wg_word c w" "c < WAITER_BIT" using inv by (auto simp: wg_inv_at_def)
  have g': "g' = g\<lparr>wpc := (wpc g)(f := Waiting), wg_n := wg_word c True,
                   wakers := (if c = 0 then wakers g @ [Exch True] else wakers g)\<rparr>" and f: "wpc g f = Pub"
    using step n by (auto simp: wait_arm_def Let_def wg_word_simps split: if_splits)
  have "held g' = held g" by (auto simp: held_def g')
  moreover have "c = 0 \<Longrightarrow> draining g'" by (auto simp: draining_def g')
  ultimately have "wg_inv_at c True g'" using inv f unfolding wg_inv_at_def by (auto simp: g')
  then show ?thesis by (auto simp: wg_inv_def)
qed

lemma inv_return:
  assumes inv: "wg_inv_at c w g" and step: "wait_return f g = Some g'"
  shows "wg_inv g'"
proof -
  have g': "g' = g\<lparr>wpc := (wpc g)(f := Out)\<rparr>" using step by (auto simp: wait_return_def split: if_splits)
  have "held g' = held g" "draining g' = draining g" by (simp_all add: g' held_def draining_def)
  then have "wg_inv_at c w g'" using inv unfolding wg_inv_at_def by (auto simp: g')
  then show ?thesis by (auto simp: wg_inv_def)
qed

text \<open>A drain's step: what it takes off the stack it holds, what it lets go of is resumed.\<close>

lemma held_update:
  assumes "f \<in> held g" and "wakers g' = (wakers g)[i := w']" and "i < length (wakers g)"
  shows "f \<in> held g' \<or> f \<in> set (waker_holds (wakers g ! i)) - set (waker_holds w')"
  using assms in_set_update [of _ "wakers g" i w'] set_update_memI [of i "wakers g" w']
  unfolding held_def by fastforce

lemma inv_waker:
  assumes inv: "wg_inv_at c w g" and step: "waker_step i g = Some g'"
  shows "wg_inv g'"
proof -
  have i: "i < length (wakers g)" using step by (auto simp: waker_step_def split: if_splits)
  then have c: "c = 0" using inv by (auto simp: wg_inv_at_def)
  have n: "wg_n g = wg_word 0 w" using inv c by (simp add: wg_inv_at_def)
  have A: "\<And>f. wpc g f \<noteq> Out \<Longrightarrow> \<not> signaled g f \<Longrightarrow> f \<in> held g \<or> f \<in> set (directWaiters g)"
    and B: "\<And>f. wpc g f = Waiting \<Longrightarrow> \<not> signaled g f \<Longrightarrow> f \<in> held g \<or> draining g"
    using inv c by (auto simp: wg_inv_at_def)
  have goal: "wg_inv g'"
    if "wg_n g' = wg_word 0 w'" "wpc g' = wpc g"
      "\<And>f. signaled g f \<Longrightarrow> signaled g' f"
      "\<And>f. f \<in> held g \<Longrightarrow> f \<in> held g' \<or> signaled g' f"
      "\<And>f. f \<in> set (directWaiters g) \<Longrightarrow> f \<in> set (directWaiters g') \<or> f \<in> held g'"
      "draining g \<Longrightarrow> draining g' \<or> set (directWaiters g') = {}" for w'
  proof -
    have "wg_inv_at 0 w' g'"
    proof -
      have 1: "f \<in> held g' \<or> f \<in> set (directWaiters g')" if "wpc g f \<noteq> Out" "\<not> signaled g' f" for f
        using that \<open>\<And>f. signaled g f \<Longrightarrow> signaled g' f\<close> A [of f]
          \<open>\<And>f. f \<in> held g \<Longrightarrow> f \<in> held g' \<or> signaled g' f\<close>
          \<open>\<And>f. f \<in> set (directWaiters g) \<Longrightarrow> f \<in> set (directWaiters g') \<or> f \<in> held g'\<close> by blast
      have "f \<in> held g' \<or> draining g'" if "wpc g f = Waiting" "\<not> signaled g' f" for f
        using that 1 [of f] \<open>\<And>f. signaled g f \<Longrightarrow> signaled g' f\<close> B [of f]
          \<open>\<And>f. f \<in> held g \<Longrightarrow> f \<in> held g' \<or> signaled g' f\<close>
          \<open>draining g \<Longrightarrow> draining g' \<or> set (directWaiters g') = {}\<close>
        by (metis empty_iff wait_pc.distinct(3))
      with 1 that(1,2) show ?thesis by (simp add: wg_inv_at_def)
    qed
    then show ?thesis by (auto simp: wg_inv_def)
  qed
  show ?thesis
  proof (cases "wakers g ! i")
    case (Exch d)
    show ?thesis
    proof (cases "d \<and> directWaiters g = []")
      case True
      then have g': "g' = g\<lparr>wakers := take i (wakers g) @ drop (i + 1) (wakers g)\<rparr>"
        using step Exch i by (simp add: waker_step_def)
      have "f \<in> held g'" if "f \<in> held g" for f
        using that in_set_remove_nth [OF _ i] Exch unfolding held_def g' by fastforce
      then show ?thesis using True n by (intro goal [of w]) (auto simp: g')
    next
      case False
      then have g': "g' = g\<lparr>directWaiters := [], wakers := (wakers g)[i := Clear (directWaiters g)]\<rparr>"
        using step Exch i by (auto simp: waker_step_def)
      have "f \<in> held g'" if "f \<in> held g" for f using held_update [OF that, of g' i "Clear (directWaiters g)"] g' i Exch by auto
      moreover have "f \<in> held g'" if "f \<in> set (directWaiters g)" for f
        using that set_update_memI [OF i, of "Clear (directWaiters g)"] unfolding held_def g' by force
      ultimately show ?thesis using n by (intro goal [of w]) (auto simp: g')
    qed
  next
    case (Clear fs)
    then have g': "g' = g\<lparr>wg_n := clear_bit (wg_n g), wakers := (wakers g)[i := Resuming fs]\<rparr>"
      using step i by (simp add: waker_step_def)
    have "f \<in> held g'" if "f \<in> held g" for f using held_update [OF that, of g' i "Resuming fs"] g' i Clear by auto
    moreover have "draining g'" if "draining g"
      using that in_set_update [of _ "wakers g" i "Resuming fs"] Clear unfolding draining_def g' by fastforce
    ultimately show ?thesis using n by (intro goal [of False]) (auto simp: g' wg_word_clear)
  next
    case (Resuming fs)
    show ?thesis
    proof (cases fs)
      case Nil
      then have g': "g' = g\<lparr>wakers := take i (wakers g) @ drop (i + 1) (wakers g)\<rparr>"
        using step Resuming i by (simp add: waker_step_def)
      have "f \<in> held g'" if "f \<in> held g" for f
        using that in_set_remove_nth [OF _ i] Resuming Nil unfolding held_def g' by fastforce
      moreover have "draining g'" if "draining g"
        using that in_set_remove_nth [OF _ i] Resuming unfolding draining_def g' by fastforce
      ultimately show ?thesis using n by (intro goal [of w]) (auto simp: g')
    next
      case (Cons x xs)
      then have g': "g' = g\<lparr>signaled := (signaled g)(x := True), wakers := (wakers g)[i := Resuming xs]\<rparr>"
        using step Resuming i by (simp add: waker_step_def)
      have "f \<in> held g' \<or> signaled g' f" if "f \<in> held g" for f
        using held_update [OF that, of g' i "Resuming xs"] g' i Resuming Cons by auto
      moreover have "draining g'" if "draining g"
        using that in_set_update [of _ "wakers g" i "Resuming xs"] Resuming unfolding draining_def g' by fastforce
      ultimately show ?thesis using n by (intro goal [of w]) (auto simp: g')
    qed
  qed
qed

lemma wg_inv_step:
  assumes "wg_inv g" "orderly_step a g = Some g'"
  shows "wg_inv g'"
proof -
  obtain c w where "wg_inv_at c w g" using assms(1) by (auto simp: wg_inv_def)
  moreover have "orderly a g" "wg_step a g = Some g'" using assms(2) by (auto simp: orderly_step_def split: if_splits)
  ultimately show ?thesis
    by (cases a) (auto simp del: orderly.simps intro: inv_add inv_undo inv_done inv_publish inv_arm inv_return inv_waker)
qed

interpretation wg: step_invariant orderly_step wg_init wg_inv
  by unfold_locales (rule wg_inv_init, rule wg_inv_step)

text \<open>C11: No wakeup is lost in an orderly use of a group, over any number of rounds: once the count is zero and every drain in progress has finished, each fiber
  waiting on the group has been resumed, however the parking steps interleaved with the increments, the decrements, the arms and the drains. Orderly means that the count stays
  below the waiter bit, that a finished group is counted up again only when no drain is in progress, and that a count is taken back only while another task is outstanding.\<close>

theorem wait_group_no_lost_wakeup:
  assumes "exec orderly_step as wg_init = Some g" and "wg_n g AND COUNT_MASK = 0" and "wakers g = []" and "wpc g f = Waiting"
  shows "signaled g f"
proof (rule ccontr)
  assume ns: "\<not> signaled g f"
  obtain c w where inv: "wg_inv_at c w g" using wg.inv_exec [OF assms(1)] by (auto simp: wg_inv_def)
  then have "c < WAITER_BIT" "wg_n g = wg_word c w" by (auto simp: wg_inv_at_def)
  then have "c = 0" using assms(2) by (simp add: wg_word_simps)
  then show False using inv assms(3,4) ns by (auto simp: wg_inv_at_def draining_def)
qed

text \<open>Two rounds; in the second a task counts another one while the fiber waits.\<close>

definition wait_run :: "wg_act list" where
  "wait_run = [Add 2, Publish 7, TaskDone, Arm 7, TaskDone, Waker 0, Waker 0, Waker 0, Waker 0, Return 7,
     Add 1, Publish 7, Arm 7, Add 2, Undo, TaskDone, TaskDone, Waker 0, Waker 0, Waker 0, Waker 0]"

lemmas wg_eval = wg_add_def wg_undo_def wg_done_def wait_publish_def wait_arm_def wait_return_def waker_step_def wg_init_def
  COUNT_MASK_def WAITER_BIT_def clear_bit_def Let_def

lemma orderly_step_simps:
  "orderly_step (Add m) g = (if (wg_n g AND COUNT_MASK) + m < WAITER_BIT \<and> (wg_n g AND COUNT_MASK = 0 \<longrightarrow> wakers g = []) then wg_add m g else None)"
  "orderly_step Undo g = (if wg_n g AND COUNT_MASK > 1 then wg_undo g else None)"
  "orderly_step TaskDone g = wg_done g" "orderly_step (Publish f) g = wait_publish f g" "orderly_step (Arm f) g = wait_arm f g"
  "orderly_step (Return f) g = wait_return f g" "orderly_step (Waker i) g = waker_step i g"
  by (auto simp: orderly_step_def)

lemma wait_run_ends:
  "case exec orderly_step wait_run wg_init of None \<Rightarrow> False
   | Some g \<Rightarrow> wg_n g AND COUNT_MASK = 0 \<and> wakers g = [] \<and> wpc g 7 = Waiting"
  by (simp add: wait_run_def wg_eval orderly_step_simps del: add_2_eq_Suc add_2_eq_Suc')

theorem wait_group_no_lost_wakeup_witness:
  "\<exists>g. exec orderly_step wait_run wg_init = Some g \<and> wpc g 7 = Waiting \<and> signaled g 7"
proof -
  obtain g where g: "exec orderly_step wait_run wg_init = Some g" "wg_n g AND COUNT_MASK = 0" "wakers g = []" "wpc g 7 = Waiting"
    using exec_ex [OF wait_run_ends] by blast
  from wait_group_no_lost_wakeup [OF g] g show ?thesis by blast
qed

section \<open>The bit that stays\<close>

text \<open>Two fibers come to a group that is about to finish. Both publish; the first arms, drains both and clears
  the bit; the second arms after that, finds the stack empty and returns without clearing.\<close>

definition stuck_run :: "wg_act list" where
  "stuck_run = [Add 1, Publish 1, Publish 2, TaskDone, Arm 1, Waker 0, Waker 0, Waker 0, Waker 0, Waker 0, Arm 2, Waker 0,
     Return 1, Return 2]"

lemma stuck_run_ends:
  "case exec orderly_step stuck_run wg_init of None \<Rightarrow> False
   | Some g \<Rightarrow> wg_n g AND COUNT_MASK = 0 \<and> wakers g = [] \<and> wpc g 1 = Out \<and> wpc g 2 = Out
             \<and> directWaiters g = [] \<and> bare_wait_again g"
  by (simp add: stuck_run_def wg_eval orderly_step_simps bare_wait_again_def)

text \<open>The group can be left finished with the bit still set: no task outstanding, no drain running, every
  fiber gone. A waiter that is not a fiber compares the raw word with zero, so it waits although the
  group is done; and nothing that happens afterwards short of another fiber's wait clears the bit.\<close>

lemma finished_group_keeps_bit:
  "\<exists>as g. exec orderly_step as wg_init = Some g \<and> wg_n g AND COUNT_MASK = 0 \<and> wakers g = [] \<and> wpc g 1 = Out \<and> wpc g 2 = Out
     \<and> directWaiters g = [] \<and> bare_wait_again g"
  using exec_ex [OF stuck_run_ends] by blast

section \<open>Counting up during a drain\<close>

text \<open>
  The drain of the first round has taken the stack and not yet cleared the bit; a new task is counted, another fiber parks and finds the bit set; the drain clears it.
\<close>

definition overlap_run :: "wg_act list" where
  "overlap_run = [Add 1, Publish 1, Arm 1, TaskDone, Waker 0, Add 1, Publish 2, Arm 2, Waker 0, Waker 0, Waker 0, Return 1, TaskDone]"

lemma overlap_run_ends:
  "case exec wg_step overlap_run wg_init of None \<Rightarrow> False
   | Some g \<Rightarrow> wg_n g = 0 \<and> wakers g = [] \<and> wpc g 2 = Waiting \<and> \<not> signaled g 2"
  by (simp add: overlap_run_def wg_eval)

text \<open>Without the restriction to orderly use a wakeup can be lost: there is an execution in which a task is counted while the drain of the previous round is between taking
  the stack and clearing the bit, and which ends with the count at zero, no drain in progress and a fiber that waits and has not been resumed.\<close>

lemma wait_group_overlap_loses_wakeup:
  "\<exists>as g f. exec wg_step as wg_init = Some g \<and> wg_n g = 0 \<and> wakers g = [] \<and> wpc g f = Waiting \<and> \<not> signaled g f"
  using exec_ex [OF overlap_run_ends] by blast

end
