(* ===== verification/Task_Dag.thy ===== *)
theory Task_Dag
  imports Cancel_Token "HOL-Library.Multiset"
begin

text \<open>
  Task graphs (\<^verbatim>\<open>src/TaskDAG.cpp\<close>, \<^verbatim>\<open>include/TaskDAG.h\<close>, \<^verbatim>\<open>include/TaskNode.h\<close>): construction of nodes, gates, external
  nodes and edges, the cycle check, submission, and the execution of an accepted graph by any
  interleaving of firing threads, workers, external signals and a cancel.

  Nodes are named by numbers in creation order. What the slab allocator answers is an argument of the
  operations that allocate. At run time every call of \<^verbatim>\<open>Fire\<close> and every visit of a dependent is an entry
  of the \<open>agenda\<close>; a step performs any one of them, so a thread's own calls may be performed in any
  order as well, which includes the order the code has.
\<close>

section \<open>Nodes and graphs\<close>

datatype logic_type = LAnd | LOr

datatype outcome = Completed | Canceled

datatype dag_task_type = NativeT | FiberT

record dag_task =
  dt_type :: dag_task_type
  dt_group :: "nat option"      \<comment> \<open>\<^verbatim>\<open>waitGroup\<close>\<close>
  dt_token :: u32               \<comment> \<open>\<^verbatim>\<open>cancelToken\<close>\<close>

record dag_node =
  nd_task :: "dag_task option"
  gateType :: logic_type
  isGate :: bool
  isExternal :: bool
  ext_armed :: bool             \<comment> \<open>bit \<^verbatim>\<open>EXT_ARMED\<close> of \<^verbatim>\<open>extBits\<close>\<close>
  ext_signalled :: bool         \<comment> \<open>bit \<^verbatim>\<open>EXT_SIGNALLED\<close>\<close>
  firstEdge :: "nat list"       \<comment> \<open>the dependents, in list order\<close>
  dependencies_left :: int
  submitted :: bool
  cpuID :: nat
  priority :: nat
  isLocal :: bool
  isFork :: bool
  isMain :: bool
  wrapped :: bool               \<comment> \<open>\<^verbatim>\<open>task->fn == OnTaskFinishedWrapper\<close>\<close>

definition TaskNode :: "dag_task option \<Rightarrow> dag_node" where
  "TaskNode t = \<lparr>nd_task = t, gateType = LAnd, isGate = False, isExternal = False, ext_armed = False,
     ext_signalled = False, firstEdge = [], dependencies_left = 0, submitted = False, cpuID = 0, priority = 0,
     isLocal = True, isFork = False, isMain = False, wrapped = False\<rparr>"

datatype push_target = ToMain | ToAny | ToCpu nat

datatype dact =
    FireA nat outcome      \<comment> \<open>a call of \<^verbatim>\<open>Fire\<close>\<close>
  | NotifyA nat outcome    \<comment> \<open>the body of \<^verbatim>\<open>ForEachDependent\<close> in \<^verbatim>\<open>OnTaskFinished\<close>, for one dependent\<close>

datatype dag_error = MainNodeIsFiber   \<comment> \<open>the process aborts\<close>

record dag =
  node :: "nat \<Rightarrow> dag_node"
  next_node :: nat
  tracked :: "nat list"         \<comment> \<open>\<^verbatim>\<open>nodes\<close>, cleared by \<^verbatim>\<open>Submit\<close>\<close>
  g_cancelled :: bool
  scope_raw :: u32              \<comment> \<open>the token of \<^verbatim>\<open>scope\<close>\<close>
  edgeChunks :: nat
  edgeCursor :: nat
  agenda :: "dact list"
  dispatched :: "(nat \<times> push_target) list"  \<comment> \<open>tasks pushed and not yet run or discarded\<close>
  executed :: "nat list"             \<comment> \<open>nodes whose payload was executed\<close>
  finished :: "(nat \<times> outcome) list"  \<comment> \<open>calls of \<^verbatim>\<open>OnTaskFinished\<close>, in order\<close>
  released :: "nat list"        \<comment> \<open>wait groups decremented here\<close>
  freed :: "nat list"           \<comment> \<open>nodes whose task was disposed of unexecuted\<close>
  crashed :: bool               \<comment> \<open>a null task was dereferenced\<close>

definition NONE :: nat where
  "NONE = 255"

text \<open>16 edges of 16 bytes fill one slab slot.\<close>

definition kEdgeChunk :: nat where
  "kEdgeChunk = 256 div 16"

definition TaskDAG :: "u32 \<Rightarrow> dag" where
  "TaskDAG scope = \<lparr>node = (\<lambda>_. TaskNode None), next_node = 0, tracked = [], g_cancelled = False, scope_raw = scope,
     edgeChunks = 0, edgeCursor = kEdgeChunk, agenda = [], dispatched = [], executed = [], finished = [],
     released = [], freed = [], crashed = False\<rparr>"

definition upd :: "nat \<Rightarrow> (dag_node \<Rightarrow> dag_node) \<Rightarrow> dag \<Rightarrow> dag" where
  "upd n f d = d\<lparr>node := (node d)(n := f (node d n))\<rparr>"

section \<open>Construction\<close>

definition add_node :: "bool \<Rightarrow> dag_node \<Rightarrow> dag \<Rightarrow> nat option \<times> dag" where
  "add_node mem nd d =
     (if \<not> mem then (None, d)
      else (Some (next_node d),
            d\<lparr>node := (node d)(next_node d := nd), next_node := next_node d + 1,
              tracked := tracked d @ [next_node d]\<rparr>))"

definition stamp :: "u32 \<Rightarrow> dag_task \<Rightarrow> dag_task" where
  "stamp scope t = (if dt_token t = kNone then t\<lparr>dt_token := scope\<rparr> else t)"

definition CreateNode :: "bool \<Rightarrow> dag_task option \<Rightarrow> nat \<Rightarrow> nat \<Rightarrow> dag \<Rightarrow> nat option \<times> dag" where
  "CreateNode mem t prio cpu d =
     (let t' = map_option (stamp (scope_raw d)) t in
      add_node mem ((TaskNode t')\<lparr>isLocal := (prio = NONE), priority := (if prio = NONE then 0 else prio),
                                  cpuID := cpu\<rparr>) d)"

definition CreateMainNode :: "bool \<Rightarrow> dag_task option \<Rightarrow> nat \<Rightarrow> dag \<Rightarrow> dag_error + (nat option \<times> dag)" where
  "CreateMainNode mem t prio d =
     (if (case t of None \<Rightarrow> False | Some x \<Rightarrow> dt_type x = FiberT) then Inl MainNodeIsFiber
      else Inr (case CreateNode mem t prio NONE d of
                  (None, d') \<Rightarrow> (None, d')
                | (Some n, d') \<Rightarrow> (Some n, upd n (isMain_update (\<lambda>_. True)) d')))"

definition CreateGate :: "bool \<Rightarrow> logic_type \<Rightarrow> dag \<Rightarrow> nat option \<times> dag" where
  "CreateGate mem ty d = add_node mem ((TaskNode None)\<lparr>isGate := True, gateType := ty\<rparr>) d"

definition CreateExternalNode :: "bool \<Rightarrow> dag \<Rightarrow> nat option \<times> dag" where
  "CreateExternalNode mem d = add_node mem ((TaskNode None)\<lparr>isExternal := True\<rparr>) d"

text \<open>Whether an edge cell could be had.\<close>

definition AllocEdge :: "bool \<Rightarrow> dag \<Rightarrow> bool \<times> dag" where
  "AllocEdge mem d =
     (if edgeCursor d = kEdgeChunk
      then (if \<not> mem then (False, d)
            else (True, d\<lparr>edgeChunks := edgeChunks d + 1, edgeCursor := 1\<rparr>))
      else (True, d\<lparr>edgeCursor := edgeCursor d + 1\<rparr>))"

definition AddDependency :: "bool \<Rightarrow> nat option \<Rightarrow> nat option \<Rightarrow> dag \<Rightarrow> dag" where
  "AddDependency mem dependent dependency d =
     (case (dependent, dependency) of
        (Some a, Some b) \<Rightarrow>
          (case AllocEdge mem d of
             (False, d') \<Rightarrow> d'
           | (True, d') \<Rightarrow>
               upd a (dependencies_left_update (\<lambda>k. k + 1)) (upd b (firstEdge_update (\<lambda>es. a # es)) d'))
      | _ \<Rightarrow> d)"

section \<open>The cycle check\<close>

text \<open>The inner loop over the edges of one node: decrement, push what reaches zero (the stack's top is the
  head of the list).\<close>

fun relax :: "nat list \<Rightarrow> (nat \<Rightarrow> int) \<Rightarrow> nat list \<Rightarrow> (nat \<Rightarrow> int) \<times> nat list" where
  "relax [] indeg ready = (indeg, ready)"
| "relax (e # es) indeg ready =
     (let indeg' = indeg(e := indeg e - 1) in
      relax es indeg' (if indeg' e = 0 then e # ready else ready))"

partial_function (option) kahn :: "(nat \<Rightarrow> nat list) \<Rightarrow> (nat \<Rightarrow> int) \<Rightarrow> nat list \<Rightarrow> nat \<Rightarrow> nat option" where
  "kahn E indeg ready processed =
     (case ready of
        [] \<Rightarrow> Some processed
      | n # rest \<Rightarrow> (case relax (E n) indeg rest of (indeg', ready') \<Rightarrow> kahn E indeg' ready' (processed + 1)))"

declare kahn.simps [code]

definition HasCycle :: "dag \<Rightarrow> bool option" where
  "HasCycle d =
     (let indeg = (\<lambda>n. dependencies_left (node d n));
          ready = rev (filter (\<lambda>n. indeg n = 0) (tracked d))
      in map_option (\<lambda>processed. processed \<noteq> length (tracked d))
           (kahn (\<lambda>n. firstEdge (node d n)) indeg ready 0))"

section \<open>Submission\<close>

text \<open>A task destroyed unexecuted still decrements its wait group.\<close>

definition release_task :: "nat \<Rightarrow> dag \<Rightarrow> dag" where
  "release_task n d =
     (case nd_task (node d n) of
        None \<Rightarrow> d
      | Some t \<Rightarrow> d\<lparr>released := released d @ (case dt_group t of None \<Rightarrow> [] | Some g \<Rightarrow> [g]), freed := freed d @ [n]\<rparr>)"

definition Submit :: "dag \<Rightarrow> (bool \<times> dag) option" where
  "Submit d =
     (case HasCycle d of
        None \<Rightarrow> None
      | Some True \<Rightarrow> Some (False, (fold release_task (tracked d) d)\<lparr>tracked := []\<rparr>)
      | Some False \<Rightarrow>
          (let roots = filter (\<lambda>n. dependencies_left (node d n) = 0) (tracked d) in
           Some (True, d\<lparr>tracked := [], agenda := map (\<lambda>n. FireA n Completed) roots\<rparr>)))"

section \<open>Execution\<close>

text \<open>Walk the dependents, then retire the node (its memory is not modelled here).\<close>

definition OnTaskFinished :: "nat \<Rightarrow> outcome \<Rightarrow> dag \<Rightarrow> dag" where
  "OnTaskFinished n o' d =
     d\<lparr>finished := finished d @ [(n, o')], agenda := agenda d @ map (\<lambda>m. NotifyA m o') (firstEdge (node d n))\<rparr>"

definition notify_dep :: "nat \<Rightarrow> outcome \<Rightarrow> dag \<Rightarrow> dag" where
  "notify_dep m o' d =
     (if o' = Canceled then d\<lparr>agenda := agenda d @ [FireA m Canceled]\<rparr>
      else if gateType (node d m) = LOr then d\<lparr>agenda := agenda d @ [FireA m Completed]\<rparr>
      else (let left = dependencies_left (node d m) - 1;
                d' = upd m (dependencies_left_update (\<lambda>_. left)) d
            in if left = 0 then d'\<lparr>agenda := agenda d' @ [FireA m Completed]\<rparr> else d'))"

definition DisposeUnexecutedTask :: "nat \<Rightarrow> dag \<Rightarrow> dag" where
  "DisposeUnexecutedTask n d = upd n (nd_task_update (\<lambda>_. None)) (release_task n d)"

definition push_of :: "dag_node \<Rightarrow> push_target" where
  "push_of nd =
     (if isMain nd then ToMain
      else if isFork nd then ToCpu (cpuID nd)
      else if isLocal nd then (if cpuID nd = 0 then ToAny else ToCpu (cpuID nd))
      else ToAny)"

definition Fire :: "nat \<Rightarrow> outcome \<Rightarrow> dag \<Rightarrow> dag" where
  "Fire n o' d =
     (if submitted (node d n) then d
      else
        (let d = upd n (submitted_update (\<lambda>_. True)) d;
             o' = (if g_cancelled d then Canceled else o')
         in if o' = Canceled then OnTaskFinished n Canceled (DisposeUnexecutedTask n d)
            else if isGate (node d n) then OnTaskFinished n Completed d
            else if isExternal (node d n) then
              (let prev = ext_signalled (node d n);
                   d = upd n (ext_armed_update (\<lambda>_. True)) d
               in if prev then OnTaskFinished n Completed d else d)
            else if nd_task (node d n) = None then d\<lparr>crashed := True\<rparr>
            else (upd n (wrapped_update (\<lambda>_. True)) d)\<lparr>dispatched := dispatched d @ [(n, push_of (node d n))]\<rparr>))"

definition SignalExternal :: "nat \<Rightarrow> dag \<Rightarrow> dag" where
  "SignalExternal n d =
     (if ext_signalled (node d n) then d
      else (let prev = ext_armed (node d n);
                d = upd n (ext_signalled_update (\<lambda>_. True)) d
            in if prev then OnTaskFinished n Completed d else d))"

definition Cancel :: "dag \<Rightarrow> dag" where
  "Cancel d = d\<lparr>g_cancelled := True\<rparr>"

text \<open>A worker takes a pushed task and executes the trampoline: the payload, then the completion.\<close>

definition OnTaskFinishedWrapper :: "nat \<Rightarrow> push_target \<Rightarrow> dag \<Rightarrow> dag" where
  "OnTaskFinishedWrapper n tg d =
     OnTaskFinished n Completed (d\<lparr>dispatched := remove1 (n, tg) (dispatched d), executed := executed d @ [n]\<rparr>)"

text \<open>Or it discards the task because its scope was cancelled.\<close>

definition OnTaskDiscarded :: "nat \<Rightarrow> push_target \<Rightarrow> dag \<Rightarrow> dag" where
  "OnTaskDiscarded n tg d =
     (let d = d\<lparr>dispatched := remove1 (n, tg) (dispatched d)\<rparr> in
      if \<not> wrapped (node d n) then d else OnTaskFinished n Canceled d)"

datatype dstep = Perform nat | Run nat push_target | Discard nat push_target | Signal nat | CancelAll

fun perform :: "dact \<Rightarrow> dag \<Rightarrow> dag" where
  "perform (FireA n o') d = Fire n o' d"
| "perform (NotifyA n o') d = notify_dep n o' d"

fun dag_step :: "dstep \<Rightarrow> dag \<Rightarrow> dag option" where
  "dag_step (Perform i) d =
     (if i < length (agenda d)
      then Some (perform (agenda d ! i) (d\<lparr>agenda := take i (agenda d) @ drop (i + 1) (agenda d)\<rparr>)) else None)"
| "dag_step (Run n tg) d = (if (n, tg) \<in> set (dispatched d) then Some (OnTaskFinishedWrapper n tg d) else None)"
| "dag_step (Discard n tg) d = (if (n, tg) \<in> set (dispatched d) then Some (OnTaskDiscarded n tg d) else None)"
| "dag_step (Signal n) d = (if n < next_node d \<and> isExternal (node d n) then Some (SignalExternal n d) else None)"
| "dag_step CancelAll d = Some (Cancel d)"

fun dag_run :: "dstep list \<Rightarrow> dag \<Rightarrow> dag option" where
  "dag_run [] d = Some d"
| "dag_run (a # as) d = (case dag_step a d of None \<Rightarrow> None | Some d' \<Rightarrow> dag_run as d')"

section \<open>The cycle check is exact\<close>

lemma relax_spec:
  assumes "\<forall>n. int (count_list es n) \<le> indeg n" and "distinct ready" and "set ready \<inter> set es = {}"
    and "relax es indeg ready = (indeg', ready')"
  shows "indeg' = (\<lambda>n. indeg n - int (count_list es n)) \<and> distinct ready'
       \<and> set ready' = set ready \<union> {n \<in> set es. indeg' n = 0}"
  using assms
proof (induction es arbitrary: indeg ready)
  case Nil
  then show ?case by auto
next
  case (Cons e es)
  let ?indeg = "indeg(e := indeg e - 1)"
  let ?ready = "if indeg e - 1 = 0 then e # ready else ready"
  have le: "\<forall>n. int (count_list es n) \<le> ?indeg n"
    using Cons.prems(1) by (auto simp: fun_upd_def dest: spec [of _ e] split: if_splits)
  have ne: "indeg e - 1 = 0 \<Longrightarrow> e \<notin> set es" using le by (auto simp: count_list_0_iff dest: spec [of _ e])
  have rd: "distinct ?ready" "set ?ready \<inter> set es = {}" using Cons.prems(2,3) ne by auto
  have "relax es ?indeg ?ready = (indeg', ready')" using Cons.prems(4) by (simp add: Let_def)
  from Cons.IH [OF le rd this]
  have IH: "indeg' = (\<lambda>n. ?indeg n - int (count_list es n))" "distinct ready'"
    "set ready' = set ?ready \<union> {n \<in> set es. indeg' n = 0}" by blast+
  have "indeg' = (\<lambda>n. indeg n - int (count_list (e # es) n))" using IH(1) by (auto simp: fun_eq_iff)
  moreover have e: "indeg' e = 0 \<longleftrightarrow> e \<in> set ready'"
  proof -
    have "e \<notin> set ready" using Cons.prems(3) by auto
    moreover have "e \<notin> set es \<Longrightarrow> indeg' e = indeg e - 1" using IH(1) by simp
    ultimately show ?thesis using IH(3) ne by auto
  qed
  moreover have "set ready' = set ready \<union> {n \<in> set (e # es). indeg' n = 0}"
  proof (rule set_eqI)
    show "x \<in> set ready' \<longleftrightarrow> x \<in> set ready \<union> {n \<in> set (e # es). indeg' n = 0}" for x
      using e Cons.prems(3) unfolding IH(3) by (cases "x = e") simp_all
  qed
  ultimately show ?case using IH(2) by blast
qed

text \<open>The loop's invariant: \<open>P\<close> is what has been processed, in order, a topological order of itself.\<close>

definition in_from :: "(nat \<Rightarrow> nat list) \<Rightarrow> nat set \<Rightarrow> nat \<Rightarrow> int" where
  "in_from E S n = int (\<Sum>p \<in> S. count_list (E p) n)"

definition topo :: "(nat \<Rightarrow> nat list) \<Rightarrow> nat \<Rightarrow> nat list \<Rightarrow> bool" where
  "topo E N P \<longleftrightarrow> (\<forall>i < length P. \<forall>p < N. P ! i \<in> set (E p) \<longrightarrow> p \<in> set (take i P))"

definition kahn_inv :: "(nat \<Rightarrow> nat list) \<Rightarrow> nat \<Rightarrow> (nat \<Rightarrow> int) \<Rightarrow> nat list \<Rightarrow> nat list \<Rightarrow> bool" where
  "kahn_inv E N indeg ready P \<longleftrightarrow>
     distinct P \<and> distinct ready \<and> set P \<subseteq> {..<N} \<and> topo E N P
   \<and> (\<forall>n < N. indeg n = in_from E ({..<N} - set P) n)
   \<and> set ready = {n. n < N \<and> n \<notin> set P \<and> indeg n = 0}"

lemma in_from_diff: "finite S \<Longrightarrow> p \<in> S \<Longrightarrow> in_from E (S - {p}) n = in_from E S n - int (count_list (E p) n)"
  by (simp add: in_from_def sum.remove of_nat_diff)

lemma in_from_0: "finite S \<Longrightarrow> in_from E S n = 0 \<longleftrightarrow> (\<forall>p \<in> S. n \<notin> set (E p))"
  by (simp add: in_from_def count_list_0_iff del: of_nat_sum)

lemma kahn_step:
  assumes inv: "kahn_inv E N indeg (n # rest) P" and E: "\<forall>p < N. set (E p) \<subseteq> {..<N}"
    and r: "relax (E n) indeg rest = (indeg', ready')"
    and out: "\<forall>m \<ge> N. 0 \<le> indeg m"
  shows "kahn_inv E N indeg' ready' (P @ [n]) \<and> (\<forall>m \<ge> N. 0 \<le> indeg' m)"
proof -
  have n: "n < N" "n \<notin> set P" "indeg n = 0" "n \<notin> set rest" "distinct rest"
    using inv by (auto simp: kahn_inv_def)
  have deg: "\<And>m. m < N \<Longrightarrow> indeg m = in_from E ({..<N} - set P) m" using inv by (simp add: kahn_inv_def)
  have nn: "n \<in> {..<N} - set P" using n by simp
  have le: "\<forall>m. int (count_list (E n) m) \<le> indeg m"
  proof
    fix m
    show "int (count_list (E n) m) \<le> indeg m"
    proof (cases "m < N")
      case True
      have "0 \<le> in_from E ({..<N} - set P - {n}) m" by (simp add: in_from_def del: of_nat_sum)
      then show ?thesis using in_from_diff [OF _ nn, of E m] deg [OF True] by simp
    next
      case False
      then have "count_list (E n) m = 0" using E n(1) by (auto simp: count_list_0_iff)
      then show ?thesis using out False by simp
    qed
  qed
  have pos: "0 < indeg m" if "m \<in> set (E n)" for m
  proof -
    have "count_list (E n) m \<noteq> 0" using that by (simp add: count_list_0_iff)
    then show ?thesis using le [rule_format, of m] by linarith
  qed
  have "indeg m = 0" if "m \<in> set rest" for m using inv that by (auto simp: kahn_inv_def)
  then have "set rest \<inter> set (E n) = {}" using pos by fastforce
  from relax_spec [OF le n(5) this r]
  have sp: "indeg' = (\<lambda>m. indeg m - int (count_list (E n) m))" "distinct ready'"
    "set ready' = set rest \<union> {m \<in> set (E n). indeg' m = 0}" by blast+
  have deg': "indeg' m = in_from E ({..<N} - set (P @ [n])) m" if "m < N" for m
  proof -
    have "{..<N} - set (P @ [n]) = {..<N} - set P - {n}" by auto
    then show ?thesis using in_from_diff [OF _ nn, of E m] deg [OF that] sp(1) by simp
  qed
  have preds: "p \<in> set P" if "p < N" "n \<in> set (E p)" for p
    using deg [OF n(1)] n(3) in_from_0 [of "{..<N} - set P" E n] that by auto
  have "topo E N (P @ [n])"
    using inv preds by (auto simp: topo_def kahn_inv_def nth_append less_Suc_eq)
  moreover have "set ready' = {m. m < N \<and> m \<notin> set (P @ [n]) \<and> indeg' m = 0}"
  proof -
    have "set rest = {m. m < N \<and> m \<notin> set (P @ [n]) \<and> indeg m = 0}"
      using inv by (auto simp: kahn_inv_def)
    moreover have "m \<notin> set P" if "m \<in> set (E n)" "m < N" for m
    proof
      assume "m \<in> set P"
      then obtain i where i: "i < length P" "m = P ! i" by (auto simp: in_set_conv_nth)
      have "topo E N P" using inv by (simp add: kahn_inv_def)
      then have "n \<in> set (take i P)" using i that(1) n(1) by (auto simp: topo_def)
      then show False using n(2) in_set_takeD by fast
    qed
    moreover have "m < N" if "m \<in> set (E n)" for m using that E n(1) by auto
    moreover have "indeg' m = indeg m" if "m \<notin> set (E n)" for m using that sp(1) by (simp add: count_list_0_iff)
    moreover have "n \<notin> set (E n)" using preds n by auto
    moreover have "indeg m \<noteq> 0" if "m \<in> set (E n)" for m using pos [OF that] by simp
    ultimately have "m \<in> set rest \<union> {m \<in> set (E n). indeg' m = 0} \<longleftrightarrow> m < N \<and> m \<notin> set (P @ [n]) \<and> indeg' m = 0" for m
      by (cases "m \<in> set (E n)") auto
    then show ?thesis unfolding sp(3) by blast
  qed
  moreover have "\<forall>m \<ge> N. 0 \<le> indeg' m" using sp(1) le by simp
  ultimately show ?thesis using inv n deg' sp(2) by (auto simp: kahn_inv_def)
qed

lemma kahn_run:
  assumes "kahn_inv E N indeg ready P" and "\<forall>p < N. set (E p) \<subseteq> {..<N}" and "\<forall>m \<ge> N. 0 \<le> indeg m"
  shows "\<exists>P' indeg'. kahn E indeg ready (length P) = Some (length P') \<and> kahn_inv E N indeg' [] P'"
  using assms
proof (induction "N - length P" arbitrary: indeg ready P rule: less_induct)
  case less
  show ?case
  proof (cases ready)
    case Nil
    then show ?thesis using less.prems(1) by (subst kahn.simps) auto
  next
    case (Cons n rest)
    obtain indeg' ready' where r: "relax (E n) indeg rest = (indeg', ready')" by force
    have st: "kahn_inv E N indeg' ready' (P @ [n])" "\<forall>m \<ge> N. 0 \<le> indeg' m"
      using kahn_step [OF less.prems(1) [unfolded Cons] less.prems(2) r less.prems(3)] by auto
    have "distinct (P @ [n])" "set (P @ [n]) \<subseteq> {..<N}" using st(1) by (simp_all add: kahn_inv_def)
    then have "length (P @ [n]) \<le> N" by (metis card_lessThan card_mono distinct_card finite_lessThan)
    then have "N - length (P @ [n]) < N - length P" by simp
    from less.hyps [OF this st(1) less.prems(2) st(2)] show ?thesis
      by (subst kahn.simps) (simp add: Cons r)
  qed
qed

definition dag_edges :: "dag \<Rightarrow> (nat \<times> nat) set" where
  "dag_edges d = {(p, m). p < next_node d \<and> m \<in> set (firstEdge (node d p))}"

text \<open>What construction leaves: every node tracked, edges among the nodes, the counters the in-degrees.\<close>

definition edges_built :: "dag \<Rightarrow> bool" where
  "edges_built d \<longleftrightarrow>
     tracked d = [0..<next_node d]
   \<and> (\<forall>n < next_node d. set (firstEdge (node d n)) \<subseteq> {..<next_node d})
   \<and> (\<forall>n < next_node d. dependencies_left (node d n) = in_from (\<lambda>p. firstEdge (node d p)) {..<next_node d} n)
   \<and> (\<forall>n \<ge> next_node d. dependencies_left (node d n) = 0)"

lemma topo_acyclic:
  assumes t: "topo E N P" and P: "distinct P" "set P = {..<N}" and E: "\<forall>p < N. set (E p) \<subseteq> {..<N}"
  shows "acyclic {(p, m). p < N \<and> m \<in> set (E p)}"
proof -
  define pos where "pos m = (THE i. i < length P \<and> P ! i = m)" for m
  have pos: "pos (P ! i) = i" if "i < length P" for i
    unfolding pos_def using that P(1) by (intro the_equality) (auto simp: nth_eq_iff_index_eq)
  have "{(p, m). p < N \<and> m \<in> set (E p)} \<subseteq> measure pos"
  proof clarify
    fix p m assume pm: "p < N" "m \<in> set (E p)"
    then have "m \<in> set P" using E P(2) by auto
    then obtain i where i: "i < length P" "m = P ! i" by (auto simp: in_set_conv_nth)
    then have "p \<in> set (take i P)" using t pm by (auto simp: topo_def)
    then obtain j where j: "j < i" "p = P ! j" using i(1) by (auto simp: in_set_conv_nth)
    then have "pos p = j" "pos m = i" using pos i by auto
    then show "(p, m) \<in> measure pos" using j(1) by simp
  qed
  then show ?thesis using wf_acyclic wf_measure acyclic_subset by blast
qed

lemma stuck_cyclic:
  assumes inv: "kahn_inv E N indeg [] P" and ne: "set P \<noteq> {..<N}"
  shows "\<not> acyclic {(p, m). p < N \<and> m \<in> set (E p)}"
proof
  let ?R = "{(p, m). p < N \<and> m \<in> set (E p)}"
  assume ac: "acyclic ?R"
  have "?R \<subseteq> (\<Union>p < N. {p} \<times> set (E p))" by auto
  then have "finite ?R" by (rule finite_subset) auto
  then have wf: "wf ?R" using ac by (rule finite_acyclic_wf)
  have "{..<N} - set P \<noteq> {}" using ne inv by (auto simp: kahn_inv_def)
  then obtain x where x: "x \<in> {..<N} - set P" "\<And>y. (y, x) \<in> ?R \<Longrightarrow> y \<notin> {..<N} - set P"
    using wfE_min [OF wf] by (metis (no_types, lifting) ex_in_conv)
  then have "in_from E ({..<N} - set P) x = 0" by (subst in_from_0) auto
  then have "x \<in> set []" using inv x(1) by (auto simp: kahn_inv_def)
  then show False by simp
qed

lemma HasCycle_decides:
  assumes "edges_built d"
  shows "\<exists>b. HasCycle d = Some b \<and> (b \<longleftrightarrow> \<not> acyclic (dag_edges d))"
proof -
  let ?E = "\<lambda>p. firstEdge (node d p)" and ?N = "next_node d"
  let ?indeg = "\<lambda>n. dependencies_left (node d n)"
  have E: "\<forall>p < ?N. set (?E p) \<subseteq> {..<?N}" using assms by (simp add: edges_built_def)
  have tr: "tracked d = [0..<?N]" using assms by (simp add: edges_built_def)
  have "kahn_inv ?E ?N ?indeg (rev (filter (\<lambda>n. ?indeg n = 0) (tracked d))) []"
    using assms by (auto simp: kahn_inv_def edges_built_def topo_def)
  from kahn_run [OF this E] assms obtain P indeg' where P:
    "kahn ?E ?indeg (rev (filter (\<lambda>n. ?indeg n = 0) (tracked d))) 0 = Some (length P)" "kahn_inv ?E ?N indeg' [] P"
    by (auto simp: edges_built_def)
  have dP: "distinct P" "set P \<subseteq> {..<?N}" using P(2) by (simp_all add: kahn_inv_def)
  have "length P = ?N \<longleftrightarrow> set P = {..<?N}"
    using dP by (metis card_lessThan card_subset_eq distinct_card finite_lessThan)
  moreover have "set P = {..<?N} \<Longrightarrow> acyclic (dag_edges d)"
    using topo_acyclic [OF _ dP(1) _ E] P(2) by (simp add: kahn_inv_def dag_edges_def)
  moreover have "set P \<noteq> {..<?N} \<Longrightarrow> \<not> acyclic (dag_edges d)"
    using stuck_cyclic [OF P(2)] by (simp add: dag_edges_def)
  ultimately show ?thesis using P(1) tr by (auto simp: HasCycle_def Let_def)
qed

section \<open>Construction keeps the counters exact\<close>

datatype build_op =
    BNode bool "dag_task option" nat nat     \<comment> \<open>the task may be null\<close>
  | BMain bool "dag_task option" nat
  | BGate bool logic_type
  | BExternal bool
  | BEdge bool nat nat     \<comment> \<open>dependent, dependency\<close>

fun build_step :: "build_op \<Rightarrow> dag \<Rightarrow> dag option" where
  "build_step (BNode mem t prio cpu) d = Some (snd (CreateNode mem t prio cpu d))"
| "build_step (BMain mem t prio) d =
     (case CreateMainNode mem t prio d of Inl _ \<Rightarrow> None | Inr (_, d') \<Rightarrow> Some d')"
| "build_step (BGate mem ty) d = Some (snd (CreateGate mem ty d))"
| "build_step (BExternal mem) d = Some (snd (CreateExternalNode mem d))"
| "build_step (BEdge mem a b) d =
     (if a < next_node d \<and> b < next_node d then Some (AddDependency mem (Some a) (Some b) d) else None)"

fun build :: "build_op list \<Rightarrow> dag \<Rightarrow> dag option" where
  "build [] d = Some d"
| "build (a # as) d = (case build_step a d of None \<Rightarrow> None | Some d' \<Rightarrow> build as d')"

definition fresh_node :: "dag_node \<Rightarrow> bool" where
  "fresh_node nd \<longleftrightarrow> \<not> submitted nd \<and> \<not> ext_armed nd \<and> \<not> ext_signalled nd \<and> \<not> wrapped nd
     \<and> (isGate nd \<longrightarrow> \<not> isExternal nd) \<and> (isGate nd \<or> isExternal nd \<longrightarrow> nd_task nd = None)
     \<and> (gateType nd = LOr \<longrightarrow> isGate nd)"

definition built :: "dag \<Rightarrow> bool" where
  "built d \<longleftrightarrow> edges_built d \<and> (\<forall>n < next_node d. fresh_node (node d n))
     \<and> agenda d = [] \<and> dispatched d = [] \<and> executed d = [] \<and> finished d = [] \<and> released d = [] \<and> freed d = [] \<and> \<not> crashed d
     \<and> \<not> g_cancelled d"

lemma built_TaskDAG: "built (TaskDAG scope)"
  by (simp add: built_def TaskDAG_def edges_built_def TaskNode_def)

lemma in_from_cong: "(\<And>p. p \<in> S \<Longrightarrow> E' p = E p) \<Longrightarrow> in_from E' S n = in_from E S n"
  by (simp add: in_from_def)

lemma built_add_node:
  assumes b: "built d" and nd: "fresh_node nd" "firstEdge nd = []" "dependencies_left nd = 0"
  shows "built (snd (add_node mem nd d))"
proof (cases mem)
  case True
  let ?N = "next_node d" and ?d' = "snd (add_node mem nd d)"
  have eb: "edges_built d" using b by (simp add: built_def)
  have d': "?d' = d\<lparr>node := (node d)(?N := nd), next_node := ?N + 1, tracked := tracked d @ [?N]\<rparr>"
    using True by (simp add: add_node_def)
  have split: "{..<Suc ?N} = insert ?N {..<?N}" by auto
  have inf: "in_from (\<lambda>p. firstEdge (if p = ?N then nd else node d p)) {..<Suc ?N} n
          = in_from (\<lambda>p. firstEdge (node d p)) {..<?N} n" for n
  proof -
    have "in_from (\<lambda>p. firstEdge (if p = ?N then nd else node d p)) {..<Suc ?N} n
        = in_from (\<lambda>p. firstEdge (if p = ?N then nd else node d p)) {..<?N} n"
      by (simp add: in_from_def split nd(2))
    also have "\<dots> = in_from (\<lambda>p. firstEdge (node d p)) {..<?N} n" by (rule in_from_cong) simp
    finally show ?thesis .
  qed
  have none: "in_from (\<lambda>p. firstEdge (node d p)) {..<?N} ?N = 0"
    using eb by (subst in_from_0) (auto simp: edges_built_def)
  have "edges_built ?d'"
    using eb nd none unfolding edges_built_def d' by (auto simp: inf less_Suc_eq subset_iff)
  then show ?thesis using b nd(1) by (auto simp: built_def d' less_Suc_eq)
qed (use b in \<open>simp add: add_node_def\<close>)

lemma built_upd:
  assumes b: "built d" and n: "n < next_node d"
    and f: "\<And>nd. fresh_node nd \<Longrightarrow> fresh_node (f nd)" "\<And>nd. firstEdge (f nd) = firstEdge nd"
      "\<And>nd. dependencies_left (f nd) = dependencies_left nd"
  shows "built (upd n f d)"
proof -
  have fe: "firstEdge (node (upd n f d) p) = firstEdge (node d p)"
    "dependencies_left (node (upd n f d) p) = dependencies_left (node d p)" for p
    by (simp_all add: upd_def f(2,3))
  then have "edges_built (upd n f d)"
    using b unfolding built_def edges_built_def fe by (simp add: upd_def)
  then show ?thesis using b f(1) by (auto simp: built_def upd_def)
qed

lemma built_AddDependency:
  assumes b: "built d" and ab: "a < next_node d" "c < next_node d"
  shows "built (AddDependency mem (Some a) (Some c) d)"
proof -
  let ?N = "next_node d"
  obtain ok d1 where al: "AllocEdge mem d = (ok, d1)" by force
  have "d1 = d\<lparr>edgeChunks := edgeChunks d1, edgeCursor := edgeCursor d1\<rparr>"
    using al by (auto simp: AllocEdge_def split: if_splits)
  then obtain x y where "d1 = d\<lparr>edgeChunks := x, edgeCursor := y\<rparr>" by blast
  then have d1: "node d1 = node d" "next_node d1 = ?N" "built d1"
    using b by (auto simp: built_def edges_built_def subset_iff)
  show ?thesis
  proof (cases ok)
    case False
    then show ?thesis using d1 al by (simp add: AddDependency_def)
  next
    case True
    let ?d' = "upd a (dependencies_left_update (\<lambda>k. k + 1)) (upd c (firstEdge_update (\<lambda>es. a # es)) d1)"
    have E: "firstEdge (node ?d' p) = (if p = c then a # firstEdge (node d p) else firstEdge (node d p))"
      "dependencies_left (node ?d' p) = dependencies_left (node d p) + (if p = a then 1 else 0)"
      "fresh_node (node ?d' p) = fresh_node (node d p)" for p
      by (simp_all add: upd_def d1 fresh_node_def)
    have inf: "in_from (\<lambda>p. firstEdge (node ?d' p)) {..<?N} n
            = in_from (\<lambda>p. firstEdge (node d p)) {..<?N} n + (if n = a then 1 else 0)" for n
    proof -
      have c: "c \<in> {..<?N}" using ab by simp
      have "in_from (\<lambda>p. firstEdge (node ?d' p)) ({..<?N} - {c}) n = in_from (\<lambda>p. firstEdge (node d p)) ({..<?N} - {c}) n"
        by (rule in_from_cong) (simp add: E)
      then show ?thesis
        using in_from_diff [OF _ c, of "\<lambda>p. firstEdge (node ?d' p)" n] in_from_diff [OF _ c, of "\<lambda>p. firstEdge (node d p)" n]
        by (simp add: E split: if_splits)
    qed
    have eb: "edges_built d1" and N: "next_node ?d' = ?N" "tracked ?d' = tracked d1"
      using d1 by (simp_all add: built_def upd_def)
    have "edges_built ?d'"
      using eb ab unfolding edges_built_def N E inf [unfolded E] d1 by (auto simp: subset_iff)
    moreover have "AddDependency mem (Some a) (Some c) d = ?d'" using True al by (simp add: AddDependency_def)
    ultimately show ?thesis using d1 E(3) by (simp add: built_def) (simp add: upd_def d1)
  qed
qed

lemma built_CreateNode: "built d \<Longrightarrow> built (snd (CreateNode mem t prio cpu d))"
proof -
  assume b: "built d"
  let ?nd = "(TaskNode (map_option (stamp (scope_raw d)) t))
    \<lparr>isLocal := (prio = NONE), priority := (if prio = NONE then 0 else prio), cpuID := cpu\<rparr>"
  have "fresh_node ?nd" by (simp add: fresh_node_def TaskNode_def)
  from built_add_node [OF b this] show ?thesis by (simp add: CreateNode_def TaskNode_def)
qed

lemma built_build_step:
  assumes b: "built d" and s: "build_step op d = Some d'"
  shows "built d'"
proof (cases op)
  case (BMain mem t prio)
  then obtain x d1 where c: "CreateNode mem t prio NONE d = (x, d1)"
    and d': "d' = (case x of None \<Rightarrow> d1 | Some n \<Rightarrow> upd n (isMain_update (\<lambda>_. True)) d1)"
    using s by (auto simp: CreateMainNode_def split: if_splits prod.splits option.splits)
  have b1: "built d1" using built_CreateNode [OF b, of mem t prio NONE] c by simp
  have "x = Some n \<Longrightarrow> n < next_node d1" for n using c by (auto simp: CreateNode_def add_node_def Let_def split: if_splits)
  then show ?thesis using b1 d' by (auto intro!: built_upd simp: fresh_node_def split: option.splits)
next
  case (BNode mem t prio cpu)
  then show ?thesis using s built_CreateNode [OF b] by auto
next
  case (BGate mem ty)
  have "fresh_node ((TaskNode None)\<lparr>isGate := True, gateType := ty\<rparr>)" by (simp add: fresh_node_def TaskNode_def)
  from built_add_node [OF b this] BGate s show ?thesis by (auto simp: CreateGate_def TaskNode_def)
next
  case (BExternal mem)
  have "fresh_node ((TaskNode None)\<lparr>isExternal := True\<rparr>)" by (simp add: fresh_node_def TaskNode_def)
  from built_add_node [OF b this] BExternal s show ?thesis by (auto simp: CreateExternalNode_def TaskNode_def)
next
  case (BEdge mem a c)
  then show ?thesis using s built_AddDependency [OF b] by (auto split: if_splits)
qed

lemma built_build: "built d \<Longrightarrow> build ops d = Some d' \<Longrightarrow> built d'"
  by (induction ops arbitrary: d) (auto split: option.splits intro: built_build_step)

text \<open>Construction calls that are given a task; then every node that is neither gate nor external has one.\<close>

fun has_task :: "build_op \<Rightarrow> bool" where
  "has_task (BNode mem t prio cpu) = (t \<noteq> None)"
| "has_task (BMain mem t prio) = (t \<noteq> None)"
| "has_task _ = True"

definition payloads :: "dag \<Rightarrow> bool" where
  "payloads d = (\<forall>n < next_node d. \<not> isGate (node d n) \<longrightarrow> \<not> isExternal (node d n) \<longrightarrow> nd_task (node d n) \<noteq> None)"

lemma payloads_add_node:
  "payloads d \<Longrightarrow> isGate nd \<or> isExternal nd \<or> nd_task nd \<noteq> None \<Longrightarrow> payloads (snd (add_node mem nd d))"
  by (auto simp: payloads_def add_node_def less_Suc_eq)

lemma payloads_build_step:
  assumes p: "payloads d" and t: "has_task op" and s: "build_step op d = Some d'"
  shows "payloads d'"
proof (cases op)
  case (BMain mem t' prio)
  then obtain x d1 where c: "CreateNode mem t' prio NONE d = (x, d1)"
    and d': "d' = (case x of None \<Rightarrow> d1 | Some n \<Rightarrow> upd n (isMain_update (\<lambda>_. True)) d1)"
    using s by (auto simp: CreateMainNode_def split: if_splits prod.splits option.splits)
  have "payloads (snd (CreateNode mem t' prio NONE d))"
    unfolding CreateNode_def Let_def by (rule payloads_add_node [OF p]) (use t BMain in \<open>simp add: TaskNode_def\<close>)
  then show ?thesis using c d' by (auto simp: payloads_def upd_def split: option.splits)
next
  case (BNode mem t' prio cpu)
  then have "payloads (snd (CreateNode mem t' prio cpu d))"
    unfolding CreateNode_def Let_def by (intro payloads_add_node [OF p]) (use t BNode in \<open>simp add: TaskNode_def\<close>)
  then show ?thesis using s BNode by simp
next
  case (BGate mem ty)
  then show ?thesis using s payloads_add_node [OF p] by (auto simp: CreateGate_def)
next
  case (BExternal mem)
  then show ?thesis using s payloads_add_node [OF p] by (auto simp: CreateExternalNode_def)
next
  case (BEdge mem a c)
  then show ?thesis using s p by (auto simp: payloads_def AddDependency_def AllocEdge_def upd_def split: if_splits)
qed

lemma payloads_build: "payloads d \<Longrightarrow> list_all has_task ops \<Longrightarrow> build ops d = Some d' \<Longrightarrow> payloads d'"
  by (induction ops arbitrary: d) (auto split: option.splits intro: payloads_build_step)

text \<open>C8: \<^verbatim>\<open>HasCycle\<close> always returns, and on every graph that construction calls can build it answers true exactly
  when the graph has a cycle, repeated edges and self-dependencies included.\<close>

theorem HasCycle_exact:
  assumes "build ops (TaskDAG scope) = Some d"
  shows "\<exists>b. HasCycle d = Some b \<and> (b \<longleftrightarrow> \<not> acyclic (dag_edges d))"
  using HasCycle_decides built_build [OF built_TaskDAG assms] by (simp add: built_def)

definition two_node_cycle :: "build_op list" where
  "two_node_cycle = [BGate True LAnd, BGate True LAnd, BEdge True 0 1, BEdge True 1 0]"

theorem HasCycle_exact_witness:
  "\<exists>d. build two_node_cycle (TaskDAG 0) = Some d \<and> HasCycle d = Some True \<and> \<not> acyclic (dag_edges d)"
proof -
  have ev: "case build two_node_cycle (TaskDAG 0) of None \<Rightarrow> False | Some d \<Rightarrow> HasCycle d = Some True" by code_simp
  then obtain d where d: "build two_node_cycle (TaskDAG 0) = Some d" by (cases "build two_node_cycle (TaskDAG 0)") simp_all
  then have "HasCycle d = Some True" using ev by (simp only: option.case)
  then show ?thesis using HasCycle_exact [OF d] d by auto
qed

end
