(* ===== verification/Dag_Execution.thy ===== *)
theory Dag_Execution
  imports Task_Dag
begin

text \<open>
  Task graphs at run time (\<^verbatim>\<open>src/TaskDAG.cpp\<close>): the invariant that every interleaving of firing threads, workers,
  discards, external signals and a cancel keeps, and what follows from it: each node completes at
  most once, never before its inputs, and an execution that has come to rest has completed every node.
\<close>

section \<open>The invariant of execution\<close>

definition fin :: "dag \<Rightarrow> nat \<Rightarrow> bool" where
  "fin d n \<longleftrightarrow> n \<in> fst ` set (finished d)"

definition fout :: "dag \<Rightarrow> nat \<Rightarrow> outcome \<Rightarrow> bool" where
  "fout d n x \<longleftrightarrow> (n, x) \<in> set (finished d)"

lemma fout_fin: "fout d n x \<Longrightarrow> fin d n"
  by (force simp: fout_def fin_def)

definition disp :: "dag \<Rightarrow> nat \<Rightarrow> bool" where
  "disp d n \<longleftrightarrow> n \<in> fst ` set (dispatched d)"

abbreviation succs :: "dag \<Rightarrow> nat \<Rightarrow> nat list" where
  "succs d p \<equiv> firstEdge (node d p)"

text \<open>When a node may run: an AND node when every predecessor completed, an OR gate when one did (or it has
  none).\<close>

definition enabled :: "dag \<Rightarrow> nat \<Rightarrow> bool" where
  "enabled d n \<longleftrightarrow>
     (if gateType (node d n) = LAnd then \<forall>p < next_node d. n \<in> set (succs d p) \<longrightarrow> fout d p Completed
      else (\<forall>p < next_node d. n \<notin> set (succs d p)) \<or> (\<exists>p < next_node d. n \<in> set (succs d p) \<and> fout d p Completed))"

text \<open>\<open>X\<close> holds a node that has been claimed for completion and whose \<^verbatim>\<open>OnTaskFinished\<close> is about to run.\<close>

definition state_ok :: "dag_node \<Rightarrow> bool \<Rightarrow> bool \<Rightarrow> bool \<Rightarrow> bool" where
  "state_ok nd done pushed claimed \<longleftrightarrow>
     (pushed \<longrightarrow> submitted nd \<and> \<not> done \<and> \<not> isGate nd \<and> \<not> isExternal nd \<and> wrapped nd)
   \<and> (done \<longrightarrow> submitted nd)
   \<and> (ext_armed nd \<longrightarrow> submitted nd \<and> isExternal nd)
   \<and> (ext_armed nd \<and> \<not> ext_signalled nd \<longrightarrow> \<not> done \<and> \<not> claimed)
   \<and> (\<not> submitted nd \<longrightarrow> (nd_task nd = None \<longleftrightarrow> isGate nd \<or> isExternal nd))
   \<and> (submitted nd \<longrightarrow> done \<or> pushed \<or> claimed \<or> (ext_armed nd \<and> \<not> ext_signalled nd))
   \<and> (claimed \<longrightarrow> submitted nd \<and> \<not> done \<and> \<not> pushed)"

definition states_ok :: "nat set \<Rightarrow> dag \<Rightarrow> bool" where
  "states_ok X d \<longleftrightarrow> (\<forall>n < next_node d. state_ok (node d n) (fin d n) (disp d n) (n \<in> X))"

definition shape_ok :: "dag \<Rightarrow> bool" where
  "shape_ok d \<longleftrightarrow>
     (\<forall>n < next_node d. set (succs d n) \<subseteq> {..<next_node d})
   \<and> (\<forall>n x. FireA n x \<in> set (agenda d) \<or> NotifyA n x \<in> set (agenda d) \<longrightarrow> n < next_node d)
   \<and> (\<forall>n. fin d n \<longrightarrow> n < next_node d) \<and> (\<forall>n. disp d n \<longrightarrow> n < next_node d)
   \<and> distinct (map fst (finished d)) \<and> distinct (map fst (dispatched d)) \<and> \<not> crashed d
   \<and> (\<forall>n \<in> set (executed d). fout d n Completed) \<and> distinct (executed d)"

definition counts_ok :: "dag \<Rightarrow> bool" where
  "counts_ok d \<longleftrightarrow> (\<forall>n < next_node d. gateType (node d n) = LAnd \<longrightarrow>
     dependencies_left (node d n) = in_from (succs d) {p. p < next_node d \<and> \<not> fout d p Completed} n
       + int (count_list (agenda d) (NotifyA n Completed)))"

definition causes_ok :: "dag \<Rightarrow> bool" where
  "causes_ok d \<longleftrightarrow>
     (\<forall>n. FireA n Completed \<in> set (agenda d) \<longrightarrow> enabled d n)
   \<and> (\<forall>n x. NotifyA n x \<in> set (agenda d) \<longrightarrow> (\<exists>p < next_node d. n \<in> set (succs d p) \<and> fout d p x))
   \<and> (\<forall>n < next_node d. disp d n \<or> fout d n Completed \<or> ext_armed (node d n) \<longrightarrow> enabled d n)"

definition pending :: "dag \<Rightarrow> nat \<Rightarrow> bool" where
  "pending d n \<longleftrightarrow> (\<exists>x. FireA n x \<in> set (agenda d))"

definition progress_ok :: "dag \<Rightarrow> bool" where
  "progress_ok d \<longleftrightarrow> (\<forall>n < next_node d. \<not> submitted (node d n) \<longrightarrow>
     ((\<forall>p < next_node d. n \<notin> set (succs d p)) \<longrightarrow> pending d n)
   \<and> (\<forall>p < next_node d. \<forall>x. n \<in> set (succs d p) \<longrightarrow> fout d p x \<longrightarrow>
        pending d n \<or> NotifyA n x \<in> set (agenda d) \<or> (gateType (node d n) = LAnd \<and> x = Completed))
   \<and> (gateType (node d n) = LAnd \<and> dependencies_left (node d n) = 0 \<longrightarrow> pending d n))"

definition run_inv :: "nat set \<Rightarrow> dag \<Rightarrow> bool" where
  "run_inv X d \<longleftrightarrow> shape_ok d \<and> states_ok X d \<and> counts_ok d \<and> causes_ok d \<and> progress_ok d"

lemma run_invD:
  assumes "run_inv X d"
  shows "shape_ok d" "states_ok X d" "counts_ok d" "causes_ok d" "progress_ok d"
  using assms by (simp_all add: run_inv_def)

text \<open>An accepted graph starts in the invariant.\<close>

lemma run_inv_Submit:
  assumes b: "built d" and t: "payloads d" and s: "Submit d = Some (True, d')"
  shows "run_inv {} d'"
proof -
  let ?N = "next_node d"
  have eb: "edges_built d" using b by (simp add: built_def)
  have d': "d' = d\<lparr>tracked := [], agenda := map (\<lambda>n. FireA n Completed) (filter (\<lambda>n. dependencies_left (node d n) = 0) [0..<?N])\<rparr>"
    using s eb by (auto simp: Submit_def Let_def edges_built_def split: option.splits bool.splits)
  have same: "node d' = node d" "next_node d' = ?N" "finished d' = []" "dispatched d' = []" "executed d' = []" "\<not> crashed d'"
    using b by (simp_all add: d' built_def)
  have ag: "FireA n x \<in> set (agenda d') \<longleftrightarrow> x = Completed \<and> n < ?N \<and> dependencies_left (node d n) = 0"
    "NotifyA n x \<notin> set (agenda d')" for n x by (auto simp: d')
  have zero: "dependencies_left (node d n) = 0 \<longleftrightarrow> (\<forall>p < ?N. n \<notin> set (succs d p))" if "n < ?N" for n
    using eb that by (simp add: edges_built_def in_from_0 Ball_def)
  have cl: "count_list (agenda d') (NotifyA n x) = 0" for n x using ag(2) by (simp add: count_list_0_iff)
  have all: "{p. p < ?N} = {..<?N}" by auto
  have fresh: "fresh_node (node d n)" if "n < ?N" for n using b that by (simp add: built_def)
  show ?thesis
  proof (unfold run_inv_def, intro conjI)
    show "shape_ok d'" using eb ag by (auto simp: shape_ok_def same fin_def disp_def edges_built_def)
    show "states_ok {} d'" using fresh t by (auto simp: states_ok_def state_ok_def same fin_def disp_def fresh_node_def payloads_def)
    show "counts_ok d'" using eb by (simp add: counts_ok_def same fout_def cl all edges_built_def)
    show "causes_ok d'" using ag zero fresh by (auto simp: causes_ok_def enabled_def same fout_def disp_def fresh_node_def)
    show "progress_ok d'" using ag zero by (auto simp: progress_ok_def same fout_def pending_def)
  qed
qed

text \<open>\<^verbatim>\<open>OnTaskFinished\<close> on a claimed node restores the invariant.\<close>

lemma enabled_mono:
  assumes "enabled d n" and "node d' = node d" and "next_node d' = next_node d"
    and "\<And>p. fout d p Completed \<Longrightarrow> fout d' p Completed"
  shows "enabled d' n"
  using assms unfolding enabled_def by (auto split: if_splits)

lemma count_notify: "count_list (map (\<lambda>m. NotifyA m x) es) (NotifyA n y) = (if x = y then count_list es n else 0)"
  by (induction es) auto

lemma OnTaskFinished_inv:
  assumes inv: "run_inv X d" and X: "X = {n}" and n: "n < next_node d" and en: "x = Completed \<Longrightarrow> enabled d n"
  shows "run_inv {} (OnTaskFinished n x d)"
proof -
  let ?d' = "OnTaskFinished n x d" and ?N = "next_node d"
  have f: "node ?d' = node d" "next_node ?d' = ?N" "dispatched ?d' = dispatched d" "executed ?d' = executed d"
    "crashed ?d' = crashed d" "finished ?d' = finished d @ [(n, x)]"
    "agenda ?d' = agenda d @ map (\<lambda>m. NotifyA m x) (succs d n)"
    by (simp_all add: OnTaskFinished_def)
  have nf: "state_ok (node d n) (fin d n) (disp d n) True" using run_invD(2) [OF inv] n X by (auto simp: states_ok_def)
  then have nf': "\<not> fin d n" "\<not> disp d n" by (simp_all add: state_ok_def)
  have fo: "fout ?d' p y \<longleftrightarrow> fout d p y \<or> (p = n \<and> y = x)" "fin ?d' p \<longleftrightarrow> fin d p \<or> p = n" "disp ?d' p = disp d p" for p y
    by (auto simp: fout_def fin_def disp_def f)
  have ag: "FireA m y \<in> set (agenda ?d') \<longleftrightarrow> FireA m y \<in> set (agenda d)"
    "NotifyA m y \<in> set (agenda ?d') \<longleftrightarrow> NotifyA m y \<in> set (agenda d) \<or> (m \<in> set (succs d n) \<and> y = x)" for m y
    by (auto simp: f)
  have mono: "enabled d m \<Longrightarrow> enabled ?d' m" for m by (rule enabled_mono) (auto simp: f fo)
  show ?thesis
  proof (unfold run_inv_def, intro conjI)
    have "\<forall>m \<in> set (succs d n). m < ?N" using run_invD(1) [OF inv] n by (auto simp: shape_ok_def)
    moreover have "distinct (map fst (finished ?d'))"
      using run_invD(1) [OF inv] nf'(1) by (auto simp: f fin_def shape_ok_def)
    ultimately show "shape_ok ?d'"
      using run_invD(1) [OF inv] n unfolding shape_ok_def ag fo by (auto simp: f)
    have "state_ok (node d n) True (disp d n) False" using nf by (simp add: state_ok_def)
    then have "state_ok (node d m) (fin d m \<or> m = n) (disp d m) False" if "m < ?N" for m
      using run_invD(2) [OF inv] that by (cases "m = n") (auto simp: states_ok_def X)
    then show "states_ok {} ?d'" unfolding states_ok_def fo by (simp add: f)
    show "counts_ok ?d'"
    proof (unfold counts_ok_def, intro allI impI)
      fix m assume m: "m < next_node ?d'" "gateType (node ?d' m) = LAnd"
      let ?S = "{p. p < ?N \<and> \<not> fout d p Completed}"
      have old: "dependencies_left (node d m) = in_from (succs d) ?S m + int (count_list (agenda d) (NotifyA m Completed))"
        using run_invD(3) [OF inv] m by (simp add: counts_ok_def f)
      have nS: "n \<in> ?S" using n nf'(1) by (auto simp: fout_def fin_def image_iff)
      have S': "{p. p < next_node ?d' \<and> \<not> fout ?d' p Completed} = (if x = Completed then ?S - {n} else ?S)"
        by (auto simp: fo f)
      have "succs ?d' = succs d" by (simp add: f)
      moreover have "count_list (agenda ?d') (NotifyA m Completed)
          = count_list (agenda d) (NotifyA m Completed) + (if x = Completed then count_list (succs d n) m else 0)"
        by (simp add: f count_notify)
      ultimately show "dependencies_left (node ?d' m) = in_from (succs ?d') {p. p < next_node ?d' \<and> \<not> fout ?d' p Completed} m
          + int (count_list (agenda ?d') (NotifyA m Completed))"
        using old in_from_diff [OF _ nS, of "succs d" m] unfolding S' by (auto simp: f)
    qed
    show "causes_ok ?d'"
      unfolding causes_ok_def ag fo
    proof (intro conjI allI impI)
      show "enabled ?d' m" if "FireA m Completed \<in> set (agenda d)" for m
        using run_invD(4) [OF inv] that mono by (auto simp: causes_ok_def)
      show "\<exists>p < next_node ?d'. m \<in> set (succs ?d' p) \<and> (fout d p y \<or> p = n \<and> y = x)"
        if "NotifyA m y \<in> set (agenda d) \<or> m \<in> set (succs d n) \<and> y = x" for m y
        using run_invD(4) [OF inv] that n unfolding causes_ok_def f by blast
      show "enabled ?d' m" if "m < next_node ?d'" "disp d m \<or> (fout d m Completed \<or> m = n \<and> Completed = x) \<or> ext_armed (node ?d' m)" for m
        using run_invD(4) [OF inv] that mono en by (auto simp: causes_ok_def f)
    qed
    have pd: "pending ?d' m = pending d m" for m by (simp add: pending_def ag)
    show "progress_ok ?d'"
      using run_invD(5) [OF inv] unfolding progress_ok_def pd ag fo by (auto simp: f)
  qed
qed

text \<open>A change of one node that leaves its edges, gate type and counter alone.\<close>

lemma run_inv_node:
  assumes inv: "run_inv X d" and n: "n < next_node d"
    and nd: "node d' = (node d)(n := nd')" "firstEdge nd' = succs d n" "gateType nd' = gateType (node d n)"
      "dependencies_left nd' = dependencies_left (node d n)" "submitted (node d n) \<Longrightarrow> submitted nd'"
    and same: "next_node d' = next_node d" "agenda d' = agenda d" "finished d' = finished d" "executed d' = executed d"
      "crashed d' = crashed d"
    and ds: "dispatched d' = dispatched d \<or> (\<not> disp d n \<and> (\<exists>tg. dispatched d' = dispatched d @ [(n, tg)]))"
    and st: "state_ok nd' (fin d n) (disp d' n) (n \<in> X')" and X: "\<And>m. m \<noteq> n \<Longrightarrow> m \<in> X' \<longleftrightarrow> m \<in> X"
    and en: "disp d' n \<or> ext_armed nd' \<Longrightarrow> enabled d n"
  shows "run_inv X' d'"
proof -
  have f: "\<And>m. succs d' m = succs d m" "\<And>m. gateType (node d' m) = gateType (node d m)"
    "\<And>m. dependencies_left (node d' m) = dependencies_left (node d m)"
    by (auto simp: nd)
  have fo: "fout d' = fout d" "fin d' = fin d" "pending d' = pending d"
    by (auto simp: fout_def fin_def pending_def same fun_eq_iff)
  have dm: "m \<noteq> n \<Longrightarrow> disp d' m = disp d m" for m using ds by (auto simp: disp_def)
  have e: "enabled d' m = enabled d m" for m unfolding enabled_def f fo same by (rule refl)
  show ?thesis
  proof (unfold run_inv_def, intro conjI)
    have "distinct (map fst (dispatched d'))" using run_invD(1) [OF inv] ds by (auto simp: shape_ok_def disp_def)
    moreover have "disp d' m \<Longrightarrow> m < next_node d" for m
      using run_invD(1) [OF inv] n dm [of m] by (cases "m = n") (auto simp: shape_ok_def)
    ultimately show "shape_ok d'" using run_invD(1) [OF inv] unfolding shape_ok_def f fo same by blast
    show "states_ok X' d'"
      unfolding states_ok_def
    proof (intro allI impI)
      fix m assume "m < next_node d'"
      then show "state_ok (node d' m) (fin d' m) (disp d' m) (m \<in> X')"
        using run_invD(2) [OF inv] st X dm by (cases "m = n") (auto simp: states_ok_def nd fo same)
    qed
    show "counts_ok d'" using run_invD(3) [OF inv] unfolding counts_ok_def f fo same by blast
    show "causes_ok d'"
      unfolding causes_ok_def e f fo same
    proof (intro conjI allI impI)
      show "enabled d m" if "m < next_node d" "disp d' m \<or> fout d m Completed \<or> ext_armed (node d' m)" for m
        using that run_invD(4) [OF inv] en dm [of m] by (cases "m = n") (auto simp: causes_ok_def nd)
    qed (use run_invD(4) [OF inv] in \<open>auto simp: causes_ok_def\<close>)
    have "submitted (node d' m) \<or> \<not> submitted (node d m)" for m using nd(5) by (auto simp: nd(1))
    then show "progress_ok d'" using run_invD(5) [OF inv] unfolding progress_ok_def f fo same by blast
  qed
qed

text \<open>Taking a \<^verbatim>\<open>Fire\<close> off the agenda: the node is already submitted, or is submitted now and claimed.\<close>

lemma count_list_remove: "agenda d = A @ a # B \<Longrightarrow> a \<noteq> b \<Longrightarrow> count_list (A @ B) b = count_list (agenda d) b"
  by simp

lemma run_inv_pop_fire:
  assumes inv: "run_inv X d" and ag: "agenda d = A @ FireA n x # B" and sub: "submitted (node d n)"
  shows "run_inv X (d\<lparr>agenda := A @ B\<rparr>)" (is "run_inv X ?d'")
proof -
  have f: "node ?d' = node d" "next_node ?d' = next_node d" "fout ?d' = fout d" "fin ?d' = fin d" "disp ?d' = disp d"
    "finished ?d' = finished d" "dispatched ?d' = dispatched d" "executed ?d' = executed d" "crashed ?d' = crashed d"
    by (simp_all add: fout_def fin_def disp_def fun_eq_iff)
  have sub': "FireA m y \<in> set (agenda ?d') \<Longrightarrow> FireA m y \<in> set (agenda d)" "NotifyA m y \<in> set (agenda ?d') = (NotifyA m y \<in> set (agenda d))" for m y
    by (auto simp: ag)
  have pd: "pending d m \<Longrightarrow> m \<noteq> n \<Longrightarrow> pending ?d' m" for m by (auto simp: pending_def ag)
  have e: "enabled ?d' m = enabled d m" for m unfolding enabled_def f by (rule refl)
  have cl: "count_list (agenda ?d') (NotifyA m Completed) = count_list (agenda d) (NotifyA m Completed)" for m by (simp add: ag)
  show ?thesis
  proof (unfold run_inv_def, intro conjI)
    show "shape_ok ?d'" using run_invD(1) [OF inv] sub' unfolding shape_ok_def f by blast
    show "states_ok X ?d'" using run_invD(2) [OF inv] unfolding states_ok_def f .
    show "counts_ok ?d'" using run_invD(3) [OF inv] unfolding counts_ok_def f cl .
    show "causes_ok ?d'" using run_invD(4) [OF inv] sub' unfolding causes_ok_def f e by blast
    show "progress_ok ?d'" using run_invD(5) [OF inv] sub pd unfolding progress_ok_def f sub'(2) by metis
  qed
qed

lemma enabled_cong:
  "node d' = node d \<Longrightarrow> next_node d' = next_node d \<Longrightarrow> finished d' = finished d \<Longrightarrow> enabled d' n = enabled d n"
  by (simp add: enabled_def fout_def)

lemma enabled_upd:
  "(\<And>nd. firstEdge (f nd) = firstEdge nd) \<Longrightarrow> (\<And>nd. gateType (f nd) = gateType nd) \<Longrightarrow>
   enabled (upd m f d) n = enabled d n"
proof -
  assume f: "\<And>nd. firstEdge (f nd) = firstEdge nd" "\<And>nd. gateType (f nd) = gateType nd"
  have "succs (upd m f d) p = succs d p" "gateType (node (upd m f d) p) = gateType (node d p)"
    "next_node (upd m f d) = next_node d" "fout (upd m f d) p y = fout d p y" for p y
    by (simp_all add: upd_def f fout_def)
  then show ?thesis unfolding enabled_def by simp
qed

lemma upd_sel [simp]:
  "next_node (upd n f d) = next_node d" "agenda (upd n f d) = agenda d" "finished (upd n f d) = finished d"
  "executed (upd n f d) = executed d" "crashed (upd n f d) = crashed d" "dispatched (upd n f d) = dispatched d"
  "g_cancelled (upd n f d) = g_cancelled d" "node (upd n f d) m = (if m = n then f (node d n) else node d m)"
  by (simp_all add: upd_def)

lemma node_upd: "node (upd n f d) = (node d)(n := f (node d n))"
  by (simp add: upd_def)

lemma disp_upd [simp]: "disp (upd n f d) = disp d" "fin (upd n f d) = fin d"
  by (simp_all add: disp_def fin_def fun_eq_iff)

lemma run_inv_claim:
  assumes inv: "run_inv {} d" and n: "n < next_node d" and ns: "\<not> submitted (node d n)"
  shows "run_inv {n} (upd n (submitted_update (\<lambda>_. True)) d)"
proof -
  have st: "state_ok (node d n) (fin d n) (disp d n) False" using run_invD(2) [OF inv] n by (auto simp: states_ok_def)
  show ?thesis
    by (rule run_inv_node [OF inv n node_upd]) (use st ns in \<open>auto simp: state_ok_def\<close>)
qed

lemma release_task_sel [simp]:
  "node (release_task n d) = node d" "next_node (release_task n d) = next_node d" "agenda (release_task n d) = agenda d"
  "finished (release_task n d) = finished d" "executed (release_task n d) = executed d"
  "crashed (release_task n d) = crashed d" "dispatched (release_task n d) = dispatched d"
  by (simp_all add: release_task_def split: option.split)

lemma disp_release [simp]: "disp (release_task n d) = disp d" "fin (release_task n d) = fin d"
  by (simp_all add: disp_def fin_def fun_eq_iff)

lemma run_inv_dispose:
  assumes inv: "run_inv {n} d" and n: "n < next_node d"
  shows "run_inv {n} (DisposeUnexecutedTask n d)"
proof -
  have st: "state_ok (node d n) (fin d n) (disp d n) True" using run_invD(2) [OF inv] n by (auto simp: states_ok_def)
  then have en: "ext_armed (node d n) \<Longrightarrow> enabled d n" using run_invD(4) [OF inv] n by (auto simp: causes_ok_def)
  have nd: "node (DisposeUnexecutedTask n d) = (node d)(n := (node d n)\<lparr>nd_task := None\<rparr>)"
    by (simp add: DisposeUnexecutedTask_def node_upd)
  show ?thesis
    by (rule run_inv_node [OF inv n nd])
       (use st en in \<open>simp_all add: state_ok_def DisposeUnexecutedTask_def\<close>)
qed

lemma Fire_inv:
  assumes inv: "run_inv {} d" and ag: "agenda d = A @ FireA n x # B"
  shows "run_inv {} (Fire n x (d\<lparr>agenda := A @ B\<rparr>))"
proof (cases "submitted (node d n)")
  case True
  then show ?thesis using run_inv_pop_fire [OF inv ag] by (simp add: Fire_def)
next
  case ns: False
  have n: "n < next_node d" using run_invD(1) [OF inv] ag by (auto simp: shape_ok_def)
  have en0: "x = Completed \<Longrightarrow> enabled d n" using run_invD(4) [OF inv] ag by (auto simp: causes_ok_def)
  let ?d2 = "upd n (submitted_update (\<lambda>_. True)) (d\<lparr>agenda := A @ B\<rparr>)"
  have inv2: "run_inv {n} ?d2"
  proof -
    have "run_inv {n} (upd n (submitted_update (\<lambda>_. True)) d)" by (rule run_inv_claim [OF inv n ns])
    moreover have "?d2 = (upd n (submitted_update (\<lambda>_. True)) d)\<lparr>agenda := A @ B\<rparr>"
      by (rule dag.equality) (simp_all add: upd_def)
    ultimately show ?thesis using run_inv_pop_fire [of "{n}" "upd n (submitted_update (\<lambda>_. True)) d" A n x B] by (simp add: ag)
  qed
  have n2: "n < next_node ?d2" using n by simp
  have st: "state_ok (node d n) (fin d n) (disp d n) False" using run_invD(2) [OF inv] n by (auto simp: states_ok_def)
  then have un: "\<not> fin d n" "\<not> disp d n" "\<not> ext_armed (node d n)"
    "nd_task (node d n) = None \<longleftrightarrow> isGate (node d n) \<or> isExternal (node d n)" using ns by (auto simp: state_ok_def)
  have un2: "\<not> fin ?d2 n" "\<not> disp ?d2 n" using un by (simp_all add: fin_def disp_def)
  have en: "x = Completed \<Longrightarrow> enabled ?d2 n"
    using en0 enabled_cong [of "d\<lparr>agenda := A @ B\<rparr>" d n] by (subst enabled_upd) simp_all
  show ?thesis
  proof (cases "g_cancelled d \<or> x = Canceled")
    case True
    have "run_inv {} (OnTaskFinished n Canceled (DisposeUnexecutedTask n ?d2))"
      by (rule OnTaskFinished_inv [OF run_inv_dispose [OF inv2 n2] refl]) (use n in \<open>simp_all add: DisposeUnexecutedTask_def\<close>)
    then show ?thesis using ns True by (auto simp: Fire_def Let_def)
  next
    case False
    then have x: "x = Completed" "\<not> g_cancelled d" by (cases x, auto)
    consider (gate) "isGate (node d n)" | (ext) "\<not> isGate (node d n)" "isExternal (node d n)"
      | (tsk) "\<not> isGate (node d n)" "\<not> isExternal (node d n)" by blast
    then show ?thesis
    proof cases
      case gate
      then show ?thesis using ns x OnTaskFinished_inv [OF inv2 refl n2 en] by (simp add: Fire_def Let_def)
    next
      case ext
      let ?d3 = "upd n (ext_armed_update (\<lambda>_. True)) ?d2"
      have inv3: "run_inv (if ext_signalled (node d n) then {n} else {}) ?d3"
        by (rule run_inv_node [OF inv2 n2 node_upd]) (use un2 ext en x in \<open>auto simp: state_ok_def\<close>)
      have en3: "enabled ?d3 n" using en x by (subst enabled_upd) simp_all
      show ?thesis
      proof (cases "ext_signalled (node d n)")
        case True
        have "run_inv {} (OnTaskFinished n Completed ?d3)"
          by (rule OnTaskFinished_inv [OF inv3 [unfolded if_P [OF True]] refl]) (use n en3 in simp_all)
        then show ?thesis using ns x ext True by (simp add: Fire_def Let_def)
      next
        case False
        then show ?thesis using ns x ext inv3 by (simp add: Fire_def Let_def)
      qed
    next
      case tsk
      let ?d3 = "(upd n (wrapped_update (\<lambda>_. True)) ?d2)\<lparr>dispatched := dispatched ?d2 @ [(n, push_of (node ?d2 n))]\<rparr>"
      have dp: "disp ?d3 n" by (simp add: disp_def)
      have nd: "node ?d3 = (node ?d2)(n := (node ?d2 n)\<lparr>wrapped := True\<rparr>)" by (simp add: upd_def)
      have "run_inv {} ?d3"
        by (rule run_inv_node [OF inv2 n2 nd]) (use un un2 tsk en x dp in \<open>auto simp: state_ok_def\<close>)
      then show ?thesis using ns x tsk un(4) by (auto simp: Fire_def Let_def)
    qed
  qed
qed

text \<open>Visiting a dependent.\<close>

lemma notify_fire_inv:
  assumes inv: "run_inv {} d" and ag: "agenda d = A @ NotifyA m x # B"
    and c: "x = Canceled \<or> gateType (node d m) = LOr"
  shows "run_inv {} (d\<lparr>agenda := A @ B @ [FireA m x]\<rparr>)" (is "run_inv {} ?d'")
proof -
  have f: "node ?d' = node d" "next_node ?d' = next_node d" "fout ?d' = fout d" "fin ?d' = fin d" "disp ?d' = disp d"
    "finished ?d' = finished d" "dispatched ?d' = dispatched d" "executed ?d' = executed d" "crashed ?d' = crashed d"
    by (simp_all add: fout_def fin_def disp_def fun_eq_iff)
  have fire: "FireA n y \<in> set (agenda ?d') \<longleftrightarrow> FireA n y \<in> set (agenda d) \<or> (n = m \<and> y = x)" for n y by (auto simp: ag)
  have ntf: "NotifyA n y \<in> set (agenda ?d') \<Longrightarrow> NotifyA n y \<in> set (agenda d)"
    "n \<noteq> m \<Longrightarrow> NotifyA n y \<in> set (agenda d) \<Longrightarrow> NotifyA n y \<in> set (agenda ?d')" for n y by (auto simp: ag)
  have pd: "pending ?d' n \<longleftrightarrow> pending d n \<or> n = m" for n unfolding pending_def fire by auto
  have e: "enabled ?d' n = enabled d n" for n unfolding enabled_def f by (rule refl)
  have cl: "count_list (agenda ?d') (NotifyA n Completed) = count_list (agenda d) (NotifyA n Completed)"
    if "gateType (node d n) = LAnd" for n using that c by (auto simp: ag)
  have m: "m < next_node d" using run_invD(1) [OF inv] ag by (auto simp: shape_ok_def)
  have "NotifyA m x \<in> set (agenda d)" by (simp add: ag)
  then obtain p where p: "p < next_node d" "m \<in> set (succs d p)" "fout d p x"
    using run_invD(4) [OF inv] unfolding causes_ok_def by blast
  have en: "x = Completed \<Longrightarrow> enabled d m" using p c by (auto simp: enabled_def)
  show ?thesis
  proof (unfold run_inv_def, intro conjI)
    show "shape_ok ?d'" using run_invD(1) [OF inv] m ntf(1) unfolding shape_ok_def f fire by blast
    show "states_ok {} ?d'" using run_invD(2) [OF inv] unfolding states_ok_def f .
    show "counts_ok ?d'" using run_invD(3) [OF inv] cl unfolding counts_ok_def f by auto
    show "causes_ok ?d'" using run_invD(4) [OF inv] ntf(1) en unfolding causes_ok_def f e fire by blast
    show "progress_ok ?d'" using run_invD(5) [OF inv] ntf(2) unfolding progress_ok_def f pd by blast
  qed
qed

lemma notify_count_inv:
  assumes inv: "run_inv {} d" and ag: "agenda d = A @ NotifyA m Completed # B" and g: "gateType (node d m) = LAnd"
    and left: "left = dependencies_left (node d m) - 1"
    and d': "d' = (upd m (dependencies_left_update (\<lambda>_. left)) d)\<lparr>agenda := A @ B @ (if left = 0 then [FireA m Completed] else [])\<rparr>"
  shows "run_inv {} d'"
proof -
  have f: "\<And>n. succs d' n = succs d n" "\<And>n. gateType (node d' n) = gateType (node d n)" "next_node d' = next_node d"
    "fout d' = fout d" "fin d' = fin d" "disp d' = disp d" "\<And>n. submitted (node d' n) = submitted (node d n)"
    "\<And>n. ext_armed (node d' n) = ext_armed (node d n)"
    "finished d' = finished d" "dispatched d' = dispatched d" "executed d' = executed d" "crashed d' = crashed d"
    by (auto simp: d' upd_def fout_def fin_def disp_def fun_eq_iff)
  have dl: "dependencies_left (node d' n) = dependencies_left (node d n) - (if n = m then 1 else 0)" for n
    by (simp add: d' left)
  have st: "state_ok (node d' n) = state_ok (node d n)" for n by (simp add: d' state_ok_def fun_eq_iff)
  have fire: "FireA n y \<in> set (agenda d') \<longleftrightarrow> FireA n y \<in> set (agenda d) \<or> (n = m \<and> y = Completed \<and> left = 0)" for n y
    by (auto simp: ag d')
  have ntf: "NotifyA n y \<in> set (agenda d') \<Longrightarrow> NotifyA n y \<in> set (agenda d)"
    "n \<noteq> m \<or> y = Canceled \<Longrightarrow> NotifyA n y \<in> set (agenda d) \<Longrightarrow> NotifyA n y \<in> set (agenda d')" for n y
    by (auto simp: ag d')
  have pd: "pending d' n \<longleftrightarrow> pending d n \<or> (n = m \<and> left = 0)" for n unfolding pending_def fire by auto
  have e: "enabled d' n = enabled d n" for n unfolding enabled_def f by (rule refl)
  have cl: "int (count_list (agenda d') (NotifyA n Completed)) = int (count_list (agenda d) (NotifyA n Completed)) - (if n = m then 1 else 0)" for n
    by (auto simp: ag d')
  have m: "m < next_node d" using run_invD(1) [OF inv] ag by (auto simp: shape_ok_def)
  have cnt: "dependencies_left (node d m) = in_from (succs d) {p. p < next_node d \<and> \<not> fout d p Completed} m
       + int (count_list (agenda d) (NotifyA m Completed))" using run_invD(3) [OF inv] m g by (simp add: counts_ok_def)
  have en: "enabled d m" if "left = 0"
  proof -
    have "0 \<le> in_from (succs d) {p. p < next_node d \<and> \<not> fout d p Completed} m" by (simp add: in_from_def del: of_nat_sum)
    then have "in_from (succs d) {p. p < next_node d \<and> \<not> fout d p Completed} m = 0"
      using cnt that by (simp add: left ag)
    then show ?thesis using g by (auto simp: in_from_0 enabled_def)
  qed
  show ?thesis
  proof (unfold run_inv_def, intro conjI)
    show "shape_ok d'" using run_invD(1) [OF inv] m ntf(1) unfolding shape_ok_def f fire by blast
    show "states_ok {} d'" using run_invD(2) [OF inv] unfolding states_ok_def f st .
    show "counts_ok d'" using run_invD(3) [OF inv] unfolding counts_ok_def f dl cl by auto
    show "causes_ok d'" using run_invD(4) [OF inv] ntf(1) en unfolding causes_ok_def f e fire by blast
    show "progress_ok d'"
      unfolding progress_ok_def f pd
    proof (intro allI impI conjI)
      fix n p x assume n: "n < next_node d" "\<not> submitted (node d n)" "p < next_node d" "n \<in> set (succs d p)" "fout d p x"
      then have "pending d n \<or> NotifyA n x \<in> set (agenda d) \<or> (gateType (node d n) = LAnd \<and> x = Completed)"
        using run_invD(5) [OF inv] unfolding progress_ok_def by blast
      then show "(pending d n \<or> n = m \<and> left = 0) \<or> NotifyA n x \<in> set (agenda d') \<or> (gateType (node d n) = LAnd \<and> x = Completed)"
        using ntf(2) [of n x] g by (cases x) auto
    qed (use run_invD(5) [OF inv] g in \<open>auto simp: progress_ok_def dl left split: if_splits\<close>)
  qed
qed

lemma notify_inv:
  assumes inv: "run_inv {} d" and ag: "agenda d = A @ NotifyA m x # B"
  shows "run_inv {} (notify_dep m x (d\<lparr>agenda := A @ B\<rparr>))"
proof (cases "x = Canceled \<or> gateType (node d m) = LOr")
  case True
  have "notify_dep m x (d\<lparr>agenda := A @ B\<rparr>) = d\<lparr>agenda := A @ B @ [FireA m x]\<rparr>"
    using True by (cases x) (auto simp: notify_dep_def)
  then show ?thesis using notify_fire_inv [OF inv ag True] by simp
next
  case False
  then have x: "x = Completed" "gateType (node d m) = LAnd" by (cases x, auto) (cases "gateType (node d m)", auto)
  let ?left = "dependencies_left (node d m) - 1"
  have "notify_dep m x (d\<lparr>agenda := A @ B\<rparr>)
      = (upd m (dependencies_left_update (\<lambda>_. ?left)) d)\<lparr>agenda := A @ B @ (if ?left = 0 then [FireA m Completed] else [])\<rparr>"
    using x by (intro dag.equality) (simp_all add: notify_dep_def Let_def upd_def)
  then show ?thesis using notify_count_inv [OF inv ag [unfolded x(1)] x(2) refl refl] by simp
qed

text \<open>A worker takes a pushed task.\<close>

lemma run_inv_take:
  assumes inv: "run_inv {} d" and t: "(n, tg) \<in> set (dispatched d)"
  shows "run_inv {n} (d\<lparr>dispatched := remove1 (n, tg) (dispatched d)\<rparr>)" (is "run_inv {n} ?d'")
    and "n < next_node d" and "enabled d n" and "wrapped (node d n)"
proof -
  have dn: "disp d n" using t by (force simp: disp_def)
  then show n: "n < next_node d" using run_invD(1) [OF inv] by (simp add: shape_ok_def)
  have st: "state_ok (node d n) (fin d n) True False" using run_invD(2) [OF inv] n dn by (auto simp: states_ok_def)
  then show "wrapped (node d n)" by (simp add: state_ok_def)
  show "enabled d n" using run_invD(4) [OF inv] n dn by (simp add: causes_ok_def)
  have ds: "distinct (map fst (dispatched d))" using run_invD(1) [OF inv] by (simp add: shape_ok_def)
  have dp: "disp ?d' m \<longleftrightarrow> disp d m \<and> m \<noteq> n" for m
    using set_remove1_map [OF ds t] by (auto simp: disp_def)
  have f: "node ?d' = node d" "next_node ?d' = next_node d" "fout ?d' = fout d" "fin ?d' = fin d" "agenda ?d' = agenda d"
    "pending ?d' = pending d" "finished ?d' = finished d" "executed ?d' = executed d" "crashed ?d' = crashed d"
    by (simp_all add: fout_def fin_def pending_def fun_eq_iff)
  have e: "enabled ?d' m = enabled d m" for m by (rule enabled_cong) simp_all
  show "run_inv {n} ?d'"
  proof (unfold run_inv_def, intro conjI)
    have "distinct (map fst (dispatched ?d'))" using distinct_map_remove1 [OF ds] by simp
    then show "shape_ok ?d'" using run_invD(1) [OF inv] unfolding shape_ok_def f dp by blast
    have "state_ok (node d n) (fin d n) False True" using st by (auto simp: state_ok_def)
    then have "state_ok (node d m) (fin d m) (disp d m \<and> m \<noteq> n) (m \<in> {n})" if "m < next_node d" for m
      using run_invD(2) [OF inv] that by (cases "m = n") (auto simp: states_ok_def)
    then show "states_ok {n} ?d'" unfolding states_ok_def f dp by blast
    show "counts_ok ?d'" using run_invD(3) [OF inv] unfolding counts_ok_def f .
    show "causes_ok ?d'" using run_invD(4) [OF inv] unfolding causes_ok_def f dp e by blast
    show "progress_ok ?d'" using run_invD(5) [OF inv] unfolding progress_ok_def f .
  qed
qed

lemma Run_inv:
  assumes inv: "run_inv {} d" and t: "(n, tg) \<in> set (dispatched d)"
  shows "run_inv {} (OnTaskFinishedWrapper n tg d)"
proof -
  let ?d1 = "d\<lparr>dispatched := remove1 (n, tg) (dispatched d)\<rparr>"
  let ?d2 = "OnTaskFinished n Completed ?d1" and ?d3 = "OnTaskFinishedWrapper n tg d"
  note tk = run_inv_take [OF inv t]
  have "enabled ?d1 n" using tk(3) enabled_cong [of ?d1 d n] by simp
  then have inv2: "run_inv {} ?d2" using OnTaskFinished_inv [OF tk(1) refl] tk(2) by simp
  have f: "node ?d3 = node ?d2" "next_node ?d3 = next_node ?d2" "agenda ?d3 = agenda ?d2" "dispatched ?d3 = dispatched ?d2"
    "finished ?d3 = finished ?d2" "crashed ?d3 = crashed ?d2" "executed ?d3 = executed ?d2 @ [n]"
    by (simp_all add: OnTaskFinishedWrapper_def OnTaskFinished_def)
  have g: "fout ?d3 = fout ?d2" "fin ?d3 = fin ?d2" "disp ?d3 = disp ?d2" "pending ?d3 = pending ?d2"
    by (simp_all add: fout_def fin_def disp_def pending_def f fun_eq_iff)
  have e: "enabled ?d3 m = enabled ?d2 m" for m by (rule enabled_cong) (simp_all add: f)
  have "state_ok (node ?d1 n) (fin ?d1 n) (disp ?d1 n) True"
    using run_invD(2) [OF tk(1)] tk(2) unfolding states_ok_def by auto
  then have "\<not> fin ?d1 n" by (simp add: state_ok_def)
  then have "\<not> fin d n" by (simp add: fin_def)
  then have "n \<notin> set (executed d)" using run_invD(1) [OF inv] fout_fin unfolding shape_ok_def by blast
  then have "n \<notin> set (executed ?d2)" by (simp add: OnTaskFinished_def)
  moreover have "fout ?d2 n Completed" by (simp add: fout_def OnTaskFinished_def)
  ultimately have "shape_ok ?d3" using run_invD(1) [OF inv2] unfolding shape_ok_def f g by auto
  moreover have "states_ok {} ?d3" using run_invD(2) [OF inv2] unfolding states_ok_def f g .
  moreover have "counts_ok ?d3" using run_invD(3) [OF inv2] unfolding counts_ok_def f g .
  moreover have "causes_ok ?d3" using run_invD(4) [OF inv2] unfolding causes_ok_def f g e .
  moreover have "progress_ok ?d3" using run_invD(5) [OF inv2] unfolding progress_ok_def f g .
  ultimately show ?thesis by (simp add: run_inv_def)
qed

lemma Discard_inv:
  assumes inv: "run_inv {} d" and t: "(n, tg) \<in> set (dispatched d)"
  shows "run_inv {} (OnTaskDiscarded n tg d)"
  using run_inv_take [OF inv t] OnTaskFinished_inv [OF run_inv_take(1) [OF inv t] refl, of Canceled]
  by (simp add: OnTaskDiscarded_def Let_def)

lemma Signal_inv:
  assumes inv: "run_inv {} d" and n: "n < next_node d" and ext: "isExternal (node d n)"
  shows "run_inv {} (SignalExternal n d)"
proof (cases "ext_signalled (node d n)")
  case True
  then show ?thesis using inv by (simp add: SignalExternal_def)
next
  case False
  let ?d1 = "upd n (ext_signalled_update (\<lambda>_. True)) d"
  have st: "state_ok (node d n) (fin d n) (disp d n) False" using run_invD(2) [OF inv] n by (auto simp: states_ok_def)
  have en: "ext_armed (node d n) \<Longrightarrow> enabled d n" "disp d n \<Longrightarrow> enabled d n" using run_invD(4) [OF inv] n by (auto simp: causes_ok_def)
  have "state_ok ((node d n)\<lparr>ext_signalled := True\<rparr>) (fin d n) (disp d n) (n \<in> (if ext_armed (node d n) then {n} else {}))"
    using st False ext by (auto simp: state_ok_def)
  then have inv1: "run_inv (if ext_armed (node d n) then {n} else {}) ?d1"
    by (intro run_inv_node [OF inv n node_upd]) (use en in auto)
  show ?thesis
  proof (cases "ext_armed (node d n)")
    case True
    have "enabled ?d1 n" using en(1) [OF True] by (subst enabled_upd) simp_all
    then have "run_inv {} (OnTaskFinished n Completed ?d1)"
      using OnTaskFinished_inv [OF inv1 [unfolded if_P [OF True]] refl] n by simp
    then show ?thesis using True False by (simp add: SignalExternal_def Let_def)
  next
    case na: False
    then show ?thesis using inv1 False by (simp add: SignalExternal_def Let_def)
  qed
qed

lemma Cancel_inv: "run_inv X d \<Longrightarrow> run_inv X (Cancel d)"
proof -
  assume inv: "run_inv X d"
  have f: "node (Cancel d) = node d" "next_node (Cancel d) = next_node d" "agenda (Cancel d) = agenda d" "dispatched (Cancel d) = dispatched d"
    "finished (Cancel d) = finished d" "crashed (Cancel d) = crashed d" "executed (Cancel d) = executed d"
    by (simp_all add: Cancel_def)
  have g: "fout (Cancel d) = fout d" "fin (Cancel d) = fin d" "disp (Cancel d) = disp d" "pending (Cancel d) = pending d"
    by (simp_all add: fout_def fin_def disp_def pending_def f fun_eq_iff)
  have e: "enabled (Cancel d) m = enabled d m" for m by (rule enabled_cong) (simp_all add: f)
  show ?thesis using inv unfolding run_inv_def shape_ok_def states_ok_def counts_ok_def causes_ok_def progress_ok_def f g e .
qed

lemma run_inv_step:
  assumes inv: "run_inv {} d" and st: "dag_step a d = Some d'"
  shows "run_inv {} d'"
proof (cases a)
  case (Perform i)
  then have i: "i < length (agenda d)" and d': "d' = perform (agenda d ! i) (d\<lparr>agenda := take i (agenda d) @ drop (i + 1) (agenda d)\<rparr>)"
    using st by (auto split: if_splits)
  have ag: "agenda d = take i (agenda d) @ agenda d ! i # drop (i + 1) (agenda d)" using id_take_nth_drop [OF i] by simp
  show ?thesis
  proof (cases "agenda d ! i")
    case (FireA n x)
    then show ?thesis using Fire_inv [OF inv, of "take i (agenda d)" n x] ag d' by simp
  next
    case (NotifyA m x)
    then show ?thesis using notify_inv [OF inv, of "take i (agenda d)" m x] ag d' by simp
  qed
next
  case (Run n tg)
  then show ?thesis using st Run_inv [OF inv] by (auto split: if_splits)
next
  case (Discard n tg)
  then show ?thesis using st Discard_inv [OF inv] by (auto split: if_splits)
next
  case (Signal n)
  then show ?thesis using st Signal_inv [OF inv] by (auto split: if_splits)
next
  case CancelAll
  then show ?thesis using st Cancel_inv [OF inv] by auto
qed

lemma run_inv_run: "run_inv {} d \<Longrightarrow> dag_run as d = Some d' \<Longrightarrow> run_inv {} d'"
  by (induction as arbitrary: d) (auto split: option.splits intro: run_inv_step)

section \<open>What the graph runtime guarantees\<close>

text \<open>
  An execution: a graph built by any sequence of construction calls that give every payload node a task, accepted by \<^verbatim>\<open>Submit\<close>, and run. (A node created with a null task crashes
  the program when it fires, see below.)
\<close>

definition execution :: "u32 \<Rightarrow> build_op list \<Rightarrow> dstep list \<Rightarrow> dag \<Rightarrow> bool" where
  "execution scope ops as d \<longleftrightarrow> list_all has_task ops \<and>
     (case build ops (TaskDAG scope) of None \<Rightarrow> False | Some d0 \<Rightarrow>
      (case Submit d0 of Some (True, d1) \<Rightarrow> dag_run as d1 = Some d | _ \<Rightarrow> False))"

lemma executionE:
  assumes "execution scope ops as d"
  obtains d0 d1 where "build ops (TaskDAG scope) = Some d0" "built d0" "payloads d0" "Submit d0 = Some (True, d1)" "dag_run as d1 = Some d"
proof (cases "build ops (TaskDAG scope)")
  case None
  with assms show ?thesis unfolding execution_def by (simp only: option.case simp_thms)
next
  case b: (Some d0)
  have s: "case Submit d0 of Some (True, d1) \<Rightarrow> dag_run as d1 = Some d | _ \<Rightarrow> False"
    using assms unfolding execution_def b option.case by blast
  show ?thesis
  proof (cases "Submit d0")
    case None
    with s show ?thesis by (simp only: option.case)
  next
    case (Some r)
    obtain ok d1 where r: "r = (ok, d1)" by (cases r)
    have "ok \<and> dag_run as d1 = Some d" using s unfolding Some r by (cases ok) (simp_all only: option.case prod.case bool.case simp_thms)
    then have "Submit d0 = Some (True, d1)" "dag_run as d1 = Some d" using Some r by simp_all
    moreover have "payloads d0"
      by (rule payloads_build [OF _ _ b]) (use assms in \<open>simp_all add: payloads_def TaskDAG_def execution_def\<close>)
    ultimately show ?thesis by (intro that [OF b built_build [OF built_TaskDAG b]])
  qed
qed

lemma execution_inv: "execution scope ops as d \<Longrightarrow> run_inv {} d"
  by (erule executionE) (blast intro: run_inv_run run_inv_Submit)

text \<open>C3: Exactly one completion. In every execution of a graph whose payload nodes were all created with a task, each node reaches \<^verbatim>\<open>OnTaskFinished\<close> at most once, each
  payload runs at most once and only in a node that completes, whatever races there are between predecessors of an OR gate, an early external signal, discarded
  tasks and a cancel; and the task of no node is found to be null when it fires.\<close>

theorem dag_completes_once:
  assumes "execution scope ops as d"
  shows "distinct (map fst (finished d)) \<and> distinct (executed d) \<and> set (executed d) \<subseteq> fst ` set (finished d) \<and> \<not> crashed d"
proof -
  have sh: "shape_ok d" by (rule run_invD(1) [OF execution_inv [OF assms]])
  then have ex: "\<forall>n \<in> set (executed d). fout d n Completed" by (simp add: shape_ok_def)
  have "set (executed d) \<subseteq> fst ` set (finished d)"
  proof
    fix n assume "n \<in> set (executed d)"
    with ex have "fout d n Completed" by blast
    then show "n \<in> fst ` set (finished d)" using fout_fin unfolding fin_def by simp
  qed
  moreover have "distinct (map fst (finished d))" "distinct (executed d)" "\<not> crashed d" using sh by (simp_all add: shape_ok_def)
  ultimately show ?thesis by simp
qed

text \<open>C4: Order. A node is pushed, run or completed only after its inputs: every predecessor of an AND node has
  completed uncancelled, and an OR gate has at least one such predecessor unless it has none at all.\<close>

theorem dag_respects_dependencies:
  assumes "execution scope ops as d" and "n < next_node d"
    and "n \<in> fst ` set (dispatched d) \<or> n \<in> set (executed d) \<or> (n, Completed) \<in> set (finished d)"
  shows "if gateType (node d n) = LAnd
         then \<forall>p. (p, n) \<in> dag_edges d \<longrightarrow> (p, Completed) \<in> set (finished d)
         else (\<exists>p. (p, n) \<in> dag_edges d) \<longrightarrow> (\<exists>p. (p, n) \<in> dag_edges d \<and> (p, Completed) \<in> set (finished d))"
proof -
  note inv = execution_inv [OF assms(1)]
  have "disp d n \<or> fout d n Completed"
    using assms(3) run_invD(1) [OF inv] by (auto simp: disp_def fout_def shape_ok_def)
  then have "enabled d n" using run_invD(4) [OF inv] assms(2) by (auto simp: causes_ok_def)
  then show ?thesis by (auto simp: enabled_def dag_edges_def fout_def split: if_splits)
qed

section \<open>Edges are fixed at run time\<close>

lemma upd_graph [simp]:
  "next_node (upd n f d) = next_node d"
  "(\<And>nd. firstEdge (f nd) = firstEdge nd) \<Longrightarrow> succs (upd n f d) = succs d"
  by (simp_all add: upd_def fun_eq_iff)

lemma OnTaskFinished_graph [simp]:
  "next_node (OnTaskFinished n x d) = next_node d" "node (OnTaskFinished n x d) = node d"
  by (simp_all add: OnTaskFinished_def)

lemma Fire_graph [simp]: "next_node (Fire n x d) = next_node d" "succs (Fire n x d) p = succs d p"
  by (simp_all add: Fire_def Let_def DisposeUnexecutedTask_def upd_def)

lemma notify_graph [simp]: "next_node (notify_dep n x d) = next_node d" "succs (notify_dep n x d) p = succs d p"
  by (simp_all add: notify_dep_def Let_def upd_def)

lemma perform_graph [simp]: "next_node (perform a d) = next_node d" "succs (perform a d) p = succs d p"
  by (cases a; simp)+

lemma dag_step_graph:
  assumes "dag_step a d = Some d'"
  shows "next_node d' = next_node d \<and> succs d' p = succs d p"
  using assms
  by (cases a) (auto simp: OnTaskFinishedWrapper_def OnTaskDiscarded_def SignalExternal_def Cancel_def upd_def Let_def split: if_splits)

lemma dag_run_graph: "dag_run as d = Some d' \<Longrightarrow> next_node d' = next_node d \<and> succs d' p = succs d p"
proof (induction as arbitrary: d)
  case (Cons a as)
  then obtain d1 where "dag_step a d = Some d1" "dag_run as d1 = Some d'" by (cases "dag_step a d") simp_all
  then show ?case using Cons.IH [of d1] dag_step_graph [of a d d1] by simp
qed simp

lemma execution_acyclic:
  assumes "execution scope ops as d"
  shows "acyclic (dag_edges d)"
proof -
  obtain d0 d1 where e: "built d0" "Submit d0 = Some (True, d1)" "dag_run as d1 = Some d"
    using assms by (rule executionE)
  have "edges_built d0" using e(1) by (simp add: built_def)
  then obtain b where b: "HasCycle d0 = Some b" "b \<longleftrightarrow> \<not> acyclic (dag_edges d0)" using HasCycle_decides by blast
  then have "\<not> b" using e(2) by (cases b) (simp_all add: Submit_def)
  moreover have "next_node d1 = next_node d0 \<and> node d1 = node d0"
    using e(2) b(1) \<open>\<not> b\<close> by (auto simp: Submit_def Let_def)
  then have "dag_edges d = dag_edges d0" using dag_run_graph [OF e(3)] by (simp add: dag_edges_def)
  ultimately show ?thesis using b(2) by simp
qed


section \<open>Coming to rest\<close>

lemma rest_submitted:
  assumes inv: "run_inv {} d" and rest: "agenda d = []" and n: "n < next_node d"
    and preds: "\<And>p. p < next_node d \<Longrightarrow> n \<in> set (succs d p) \<Longrightarrow> fin d p"
  shows "submitted (node d n)"
proof (rule ccontr)
  assume ns: "\<not> submitted (node d n)"
  have np: "\<not> pending d n" by (simp add: pending_def rest)
  have pr: "(\<forall>p < next_node d. n \<notin> set (succs d p)) \<longrightarrow> pending d n"
    "\<forall>p < next_node d. \<forall>x. n \<in> set (succs d p) \<longrightarrow> fout d p x \<longrightarrow>
        pending d n \<or> NotifyA n x \<in> set (agenda d) \<or> (gateType (node d n) = LAnd \<and> x = Completed)"
    "gateType (node d n) = LAnd \<and> dependencies_left (node d n) = 0 \<longrightarrow> pending d n"
    using run_invD(5) [OF inv] n ns unfolding progress_ok_def by blast+
  obtain p0 where p0: "p0 < next_node d" "n \<in> set (succs d p0)" using pr(1) np by blast
  have all: "gateType (node d n) = LAnd \<and> fout d p Completed" if p: "p < next_node d" "n \<in> set (succs d p)" for p
  proof -
    obtain x where x: "fout d p x" using preds [OF p] by (auto simp: fin_def fout_def)
    then show ?thesis using pr(2) p np rest by auto
  qed
  then have la: "gateType (node d n) = LAnd" using p0 by blast
  have "in_from (succs d) {p. p < next_node d \<and> \<not> fout d p Completed} n = 0"
    using all by (subst in_from_0) auto
  then have "dependencies_left (node d n) = 0"
    using run_invD(3) [OF inv] n la by (simp add: counts_ok_def rest)
  then show False using pr(3) la np by blast
qed

lemma rest_finished:
  assumes inv: "run_inv {} d" and rest: "agenda d = []" "dispatched d = []" and n: "n < next_node d"
    and ext: "isExternal (node d n) \<Longrightarrow> ext_signalled (node d n)" and sub: "submitted (node d n)"
  shows "fin d n"
proof -
  have "state_ok (node d n) (fin d n) (disp d n) False" using run_invD(2) [OF inv] n by (auto simp: states_ok_def)
  moreover have "\<not> disp d n" by (simp add: disp_def rest)
  ultimately show ?thesis using ext sub by (auto simp: state_ok_def)
qed

lemma dag_edges_wf: "shape_ok d \<Longrightarrow> acyclic (dag_edges d) \<Longrightarrow> wf (dag_edges d)"
proof (rule finite_acyclic_wf)
  have "dag_edges d \<subseteq> (\<Union>p < next_node d. {p} \<times> set (succs d p))" by (auto simp: dag_edges_def)
  then show "finite (dag_edges d)" by (rule finite_subset) auto
qed

text \<open>C5: Nothing is stranded. When an execution has no call left to perform and no pushed task left to run, and every
  external node has been signalled, every node of the graph has completed (or was cancelled): no
  dependent is left waiting for a decrement that went missing.\<close>

theorem dag_quiescent_complete:
  assumes "execution scope ops as d" and "agenda d = []" and "dispatched d = []"
    and "\<forall>n < next_node d. isExternal (node d n) \<longrightarrow> ext_signalled (node d n)"
  shows "\<forall>n < next_node d. n \<in> fst ` set (finished d)"
proof -
  note inv = execution_inv [OF assms(1)]
  have wf: "wf (dag_edges d)" by (rule dag_edges_wf [OF run_invD(1) [OF inv] execution_acyclic [OF assms(1)]])
  have "n < next_node d \<longrightarrow> fin d n" for n
  proof (induction n rule: wf_induct [OF wf])
    case (1 n)
    show ?case
    proof
      assume n: "n < next_node d"
      have "submitted (node d n)"
        by (rule rest_submitted [OF inv assms(2) n]) (use 1 in \<open>simp add: dag_edges_def\<close>)
      then show "fin d n" using rest_finished [OF inv assms(2,3) n] assms(4) n by blast
    qed
  qed
  then show ?thesis by (simp add: fin_def)
qed

section \<open>Every execution comes to rest\<close>

fun is_work :: "dstep \<Rightarrow> bool" where
  "is_work (Signal _) = False"
| "is_work CancelAll = False"
| "is_work _ = True"

fun act_cost :: "dact \<Rightarrow> nat" where
  "act_cost (FireA _ _) = 1"
| "act_cost (NotifyA _ _) = 2"

definition potential :: "dag \<Rightarrow> nat" where
  "potential d = sum_list (map act_cost (agenda d))
     + (\<Sum>n \<in> {n. n < next_node d \<and> \<not> fin d n}. 2 * length (succs d n) + 1)"

lemma sum_list_notify: "sum_list (map (act_cost \<circ> (\<lambda>m. NotifyA m x)) es) = 2 * length es"
  by (induction es) simp_all

lemma potential_OnTaskFinished:
  assumes "n < next_node d" and "\<not> fin d n"
  shows "potential (OnTaskFinished n x d) + 1 = potential d"
proof -
  let ?S = "{m. m < next_node d \<and> \<not> fin d m}"
  have "{m. m < next_node d \<and> \<not> fin (OnTaskFinished n x d) m} = ?S - {n}" by (auto simp: fin_def OnTaskFinished_def)
  moreover have "sum f ?S = f n + sum f (?S - {n})" for f :: "nat \<Rightarrow> nat" using assms by (intro sum.remove) auto
  moreover have "agenda (OnTaskFinished n x d) = agenda d @ map (\<lambda>m. NotifyA m x) (succs d n)"
    by (simp add: OnTaskFinished_def)
  ultimately show ?thesis by (simp add: potential_def sum_list_notify)
qed

lemma potential_cong:
  assumes "agenda d' = agenda d" "next_node d' = next_node d" "\<And>n. succs d' n = succs d n" "finished d' = finished d"
  shows "potential d' = potential d"
  using assms by (simp add: potential_def fin_def)

lemma potential_upd [simp]: "(\<And>nd. firstEdge (f nd) = firstEdge nd) \<Longrightarrow> potential (upd n f d) = potential d"
  by (rule potential_cong) (simp_all add: upd_def)

lemma potential_fin_upd: "(\<And>nd. firstEdge (f nd) = firstEdge nd) \<Longrightarrow> fin (upd n f d) = fin d"
  by (simp add: fin_def upd_def fun_eq_iff)

lemma potential_agenda: "agenda d = A @ a # B \<Longrightarrow> potential (d\<lparr>agenda := A @ B\<rparr>) + act_cost a = potential d"
  by (simp add: potential_def fin_def)

lemma potential_push: "potential (d\<lparr>agenda := agenda d @ [a]\<rparr>) = potential d + act_cost a"
  by (simp add: potential_def fin_def)

lemma potential_Fire:
  assumes "n < next_node d" and "\<not> submitted (node d n) \<Longrightarrow> \<not> fin d n"
  shows "potential (Fire n x d) \<le> potential d"
proof (cases "submitted (node d n)")
  case False
  let ?d1 = "upd n (submitted_update (\<lambda>_. True)) d"
  have p1: "potential ?d1 = potential d" "fin ?d1 = fin d" "next_node ?d1 = next_node d" by (simp_all add: potential_fin_upd)
  let ?d2 = "DisposeUnexecutedTask n ?d1" and ?d3 = "upd n (ext_armed_update (\<lambda>_. True)) ?d1"
  have p2: "potential ?d2 = potential d" "fin ?d2 = fin d" "next_node ?d2 = next_node d"
    using potential_cong [of "release_task n ?d1" ?d1] p1
    by (simp_all add: DisposeUnexecutedTask_def potential_fin_upd)
  have p3: "potential ?d3 = potential d" "fin ?d3 = fin d" "next_node ?d3 = next_node d"
    by (simp_all add: potential_fin_upd)
  have p4: "potential (?d1\<lparr>crashed := True\<rparr>) = potential d" by (subst potential_cong [of _ d]) (simp_all add: upd_def)
  have p5: "potential ((upd n (wrapped_update (\<lambda>_. True)) ?d1)\<lparr>dispatched := ds\<rparr>) = potential d" for ds
    by (subst potential_cong [of _ d]) (simp_all add: upd_def)
  have "potential (OnTaskFinished n y d') \<le> potential d" if "potential d' = potential d" "fin d' = fin d" "next_node d' = next_node d" for y d'
    using potential_OnTaskFinished [of n d' y] assms False that by simp
  note fo = this [OF p1] this [OF p2] this [OF p3]
  show ?thesis using False p3(1) p4 p5 fo by (simp add: Fire_def Let_def)
qed (simp add: Fire_def)

lemma potential_notify: "potential (notify_dep m x d) \<le> potential d + 1"
  using potential_push [of d] potential_push [of "upd m (dependencies_left_update (\<lambda>_. 0)) d"]
  by (simp add: notify_dep_def Let_def)

lemma dispatched_unfinished:
  assumes "run_inv {} d" and "(n, tg) \<in> set (dispatched d)"
  shows "n < next_node d" "\<not> fin d n"
proof -
  have dn: "disp d n" using assms(2) by (force simp: disp_def)
  then show n: "n < next_node d" using run_invD(1) [OF assms(1)] by (simp add: shape_ok_def)
  have "state_ok (node d n) (fin d n) True False" using run_invD(2) [OF assms(1)] n dn by (auto simp: states_ok_def)
  then show "\<not> fin d n" by (simp add: state_ok_def)
qed

lemma work_step_decreases:
  assumes inv: "run_inv {} d" and st: "dag_step a d = Some d'"
  shows "potential d' + (if is_work a then 1 else 0) \<le> potential d"
proof (cases a)
  case (Perform i)
  then have i: "i < length (agenda d)" and d': "d' = perform (agenda d ! i) (d\<lparr>agenda := take i (agenda d) @ drop (i + 1) (agenda d)\<rparr>)"
    using st by (auto split: if_splits)
  let ?d1 = "d\<lparr>agenda := take i (agenda d) @ drop (i + 1) (agenda d)\<rparr>"
  have ag: "agenda d = take i (agenda d) @ agenda d ! i # drop (i + 1) (agenda d)" using id_take_nth_drop [OF i] by simp
  have p: "potential ?d1 + act_cost (agenda d ! i) = potential d" using potential_agenda [OF ag] .
  show ?thesis
  proof (cases "agenda d ! i")
    case (FireA n x)
    then have n: "n < next_node d" using run_invD(1) [OF inv] i nth_mem [OF i] unfolding shape_ok_def by metis
    then have "state_ok (node d n) (fin d n) (disp d n) False" using run_invD(2) [OF inv] by (auto simp: states_ok_def)
    then have "potential (Fire n x ?d1) \<le> potential ?d1"
      using n by (intro potential_Fire) (auto simp: state_ok_def fin_def)
    then show ?thesis using p FireA Perform d' by simp
  next
    case (NotifyA m x)
    then show ?thesis using p potential_notify [of m x ?d1] Perform d' by simp
  qed
next
  case (Run n tg)
  let ?d1 = "d\<lparr>dispatched := remove1 (n, tg) (dispatched d), executed := executed d @ [n]\<rparr>"
  have t: "(n, tg) \<in> set (dispatched d)" and d': "d' = OnTaskFinished n Completed ?d1"
    using st Run by (auto simp: OnTaskFinishedWrapper_def split: if_splits)
  have "potential ?d1 = potential d" by (rule potential_cong) simp_all
  moreover have "n < next_node d" "\<not> fin ?d1 n" using dispatched_unfinished [OF inv t] by (simp_all add: fin_def)
  ultimately show ?thesis using potential_OnTaskFinished [of n ?d1 Completed] d' Run by simp
next
  case (Discard n tg)
  let ?d1 = "d\<lparr>dispatched := remove1 (n, tg) (dispatched d)\<rparr>"
  have t: "(n, tg) \<in> set (dispatched d)" using st Discard by (auto split: if_splits)
  have d': "d' = OnTaskFinished n Canceled ?d1"
    using st Discard t run_inv_take(4) [OF inv t] by (simp add: OnTaskDiscarded_def Let_def)
  have "potential ?d1 = potential d" by (rule potential_cong) simp_all
  moreover have "n < next_node d" "\<not> fin ?d1 n" using dispatched_unfinished [OF inv t] by (simp_all add: fin_def)
  ultimately show ?thesis using potential_OnTaskFinished [of n ?d1 Canceled] d' Discard by simp
next
  case (Signal n)
  let ?d1 = "upd n (ext_signalled_update (\<lambda>_. True)) d"
  have n: "n < next_node d" and d': "d' = SignalExternal n d" using st Signal by (auto split: if_splits)
  have "state_ok (node d n) (fin d n) (disp d n) False" using run_invD(2) [OF inv] n by (auto simp: states_ok_def)
  then have "potential (OnTaskFinished n Completed ?d1) \<le> potential d" if "ext_armed (node d n)" "\<not> ext_signalled (node d n)"
    using potential_OnTaskFinished [of n ?d1 Completed] n that by (simp add: state_ok_def potential_fin_upd)
  then show ?thesis using Signal by (simp add: d' SignalExternal_def Let_def)
next
  case CancelAll
  then have "d' = Cancel d" using st by simp
  then have "potential d' = potential d" by (intro potential_cong) (simp_all add: Cancel_def)
  then show ?thesis using CancelAll by simp
qed

lemma work_bounded:
  "run_inv {} d \<Longrightarrow> dag_run as d = Some d' \<Longrightarrow> length (filter is_work as) + potential d' \<le> potential d"
proof (induction as arbitrary: d)
  case (Cons a as)
  then obtain d1 where d1: "dag_step a d = Some d1" "dag_run as d1 = Some d'" by (cases "dag_step a d") simp_all
  have "length (filter is_work as) + potential d' \<le> potential d1"
    by (rule Cons.IH [OF run_inv_step [OF Cons.prems(1) d1(1)] d1(2)])
  then show ?case using work_step_decreases [OF Cons.prems(1) d1(1)] by (cases "is_work a") simp_all
qed simp

lemma potential_Submit:
  assumes b: "built d0" and s: "Submit d0 = Some (True, d1)"
  shows "potential d1 \<le> 2 * (next_node d1 + (\<Sum>n < next_node d1. length (succs d1 n)))"
proof -
  let ?roots = "filter (\<lambda>n. dependencies_left (node d0 n) = 0) (tracked d0)"
  have d1: "d1 = d0\<lparr>tracked := [], agenda := map (\<lambda>n. FireA n Completed) ?roots\<rparr>"
    using s by (auto simp: Submit_def Let_def split: option.splits bool.splits)
  have tr: "tracked d0 = [0..<next_node d0]" using b by (simp add: built_def edges_built_def)
  have "sum_list (map act_cost (map (\<lambda>n. FireA n Completed) xs)) = length xs" for xs by (induction xs) simp_all
  moreover have "length ?roots \<le> next_node d0" using length_filter_le [of _ "tracked d0"] by (simp add: tr)
  moreover have "{n. n < next_node d1 \<and> \<not> fin d1 n} = {..<next_node d0}" using b by (auto simp: d1 fin_def built_def)
  moreover have "(\<Sum>n < next_node d0. 2 * length (succs d1 n) + 1) = 2 * (\<Sum>n < next_node d0. length (succs d1 n)) + next_node d0"
    by (simp only: sum.distrib sum_distrib_left [symmetric]) simp
  ultimately show ?thesis by (simp add: potential_def d1)
qed

text \<open>C6: Termination with a bound. Not counting external signals and cancels, an execution of a graph with \<open>N\<close>
  nodes and \<open>E\<close> edges performs at most \<open>2 (N + E)\<close> steps (calls of \<^verbatim>\<open>Fire\<close>, visits of dependents, runs and discards),
  however they are interleaved: no node is fired for ever.\<close>

theorem dag_work_bounded:
  assumes "execution scope ops as d"
  shows "length (filter is_work as) \<le> 2 * (next_node d + (\<Sum>n < next_node d. length (firstEdge (node d n))))"
proof -
  obtain d0 d1 where e: "built d0" "Submit d0 = Some (True, d1)" "dag_run as d1 = Some d" and t: "payloads d0" using assms by (rule executionE)
  have "length (filter is_work as) \<le> potential d1" using work_bounded [OF run_inv_Submit [OF e(1) t e(2)] e(3)] by simp
  also have "\<dots> \<le> 2 * (next_node d + (\<Sum>n < next_node d. length (succs d n)))"
    using potential_Submit [OF e(1,2)] dag_run_graph [OF e(3)] by simp
  finally show ?thesis .
qed


section \<open>Cancel and rejection\<close>

lemma cancel_step:
  assumes "g_cancelled d" and "dag_step a d = Some d'"
  shows "g_cancelled d' \<and> set (dispatched d') \<subseteq> set (dispatched d)
       \<and> set (executed d') \<union> fst ` set (dispatched d') \<subseteq> set (executed d) \<union> fst ` set (dispatched d)"
proof (cases a)
  case (Perform i)
  let ?d1 = "d\<lparr>agenda := take i (agenda d) @ drop (i + 1) (agenda d)\<rparr>"
  have "g_cancelled (perform x ?d1) \<and> dispatched (perform x ?d1) = dispatched d \<and> executed (perform x ?d1) = executed d" for x
    using assms(1)
    by (cases x) (simp_all add: Fire_def notify_dep_def DisposeUnexecutedTask_def OnTaskFinished_def upd_def release_task_def Let_def
        split: option.split)
  then show ?thesis using assms(2) Perform by (auto split: if_splits)
next
  case (Run n tg)
  have t: "(n, tg) \<in> set (dispatched d)" and d': "d' = OnTaskFinishedWrapper n tg d"
    using assms(2) Run by (auto split: if_splits)
  have "n \<in> fst ` set (dispatched d)" using t by force
  moreover have "set (remove1 (n, tg) (dispatched d)) \<subseteq> set (dispatched d)" by (rule set_remove1_subset)
  ultimately show ?thesis using assms(1) by (auto simp: d' OnTaskFinishedWrapper_def OnTaskFinished_def)
next
  case (Discard n tg)
  then have "d' = OnTaskDiscarded n tg d" using assms(2) by (simp split: if_splits)
  moreover have "set (remove1 (n, tg) (dispatched d)) \<subseteq> set (dispatched d)" by (rule set_remove1_subset)
  ultimately show ?thesis using assms(1) by (auto simp: OnTaskDiscarded_def OnTaskFinished_def Let_def)
next
  case (Signal n)
  then show ?thesis using assms by (auto simp: SignalExternal_def OnTaskFinished_def upd_def Let_def split: if_splits)
next
  case CancelAll
  then show ?thesis using assms by (auto simp: Cancel_def)
qed

lemma cancel_run:
  "g_cancelled d \<Longrightarrow> dag_run as d = Some d' \<Longrightarrow>
     set (executed d') \<union> fst ` set (dispatched d') \<subseteq> set (executed d) \<union> fst ` set (dispatched d)"
proof (induction as arbitrary: d)
  case (Cons a as)
  then obtain d1 where d1: "dag_step a d = Some d1" "dag_run as d1 = Some d'" by (cases "dag_step a d") simp_all
  note st = cancel_step [OF Cons.prems(1) d1(1)]
  then show ?case using Cons.IH [of d1] d1(2) by blast
qed simp

text \<open>After \<^verbatim>\<open>Cancel\<close> no further task of the graph is pushed: from then on only tasks that had been pushed before it
  can still run, whatever the interleaving.\<close>

lemma cancel_stops_dispatch:
  assumes "dag_run (CancelAll # as) d = Some d'"
  shows "set (executed d') \<union> fst ` set (dispatched d') \<subseteq> set (executed d) \<union> fst ` set (dispatched d)"
  using cancel_run [of "Cancel d" as d'] assms by (simp add: Cancel_def)

definition groups_of :: "dag \<Rightarrow> nat list" where
  "groups_of d = concat (map (\<lambda>n. case nd_task (node d n) of None \<Rightarrow> []
     | Some t \<Rightarrow> (case dt_group t of None \<Rightarrow> [] | Some g \<Rightarrow> [g])) [0..<next_node d])"

lemma fold_release_task:
  "released (fold release_task ns d) = released d @ concat (map (\<lambda>n. case nd_task (node d n) of None \<Rightarrow> []
     | Some t \<Rightarrow> (case dt_group t of None \<Rightarrow> [] | Some g \<Rightarrow> [g])) ns)
   \<and> freed (fold release_task ns d) = freed d @ filter (\<lambda>n. nd_task (node d n) \<noteq> None) ns
   \<and> agenda (fold release_task ns d) = agenda d \<and> dispatched (fold release_task ns d) = dispatched d
   \<and> executed (fold release_task ns d) = executed d \<and> finished (fold release_task ns d) = finished d"
proof (induction ns arbitrary: d)
  case (Cons n ns)
  show ?case using Cons.IH [of "release_task n d"] by (simp add: release_task_def split: option.split)
qed simp

text \<open>A graph with a cycle is refused by \<^verbatim>\<open>Submit\<close>, nothing of it is fired or run, and every wait group that counted one
  of its tasks is decremented exactly once per task, so no waiter hangs on a task that will not run.\<close>

lemma cyclic_submit_releases:
  assumes "build ops (TaskDAG scope) = Some d" and "\<not> acyclic (dag_edges d)"
  shows "\<exists>d'. Submit d = Some (False, d') \<and> released d' = groups_of d
      \<and> freed d' = filter (\<lambda>n. nd_task (node d n) \<noteq> None) [0..<next_node d]
      \<and> agenda d' = [] \<and> dispatched d' = [] \<and> executed d' = [] \<and> finished d' = [] \<and> tracked d' = []"
proof -
  have b: "built d" by (rule built_build [OF built_TaskDAG assms(1)])
  then have tr: "tracked d = [0..<next_node d]" by (simp add: built_def edges_built_def)
  have "HasCycle d = Some True" using HasCycle_decides [of d] b assms(2) by (auto simp: built_def)
  then have s: "Submit d = Some (False, (fold release_task (tracked d) d)\<lparr>tracked := []\<rparr>)" by (simp add: Submit_def)
  have "released d = []" "freed d = []" "agenda d = []" "dispatched d = []" "executed d = []" "finished d = []"
    using b by (simp_all add: built_def)
  then show ?thesis unfolding s using fold_release_task [of "[0..<next_node d]" d] by (simp add: tr groups_of_def)
qed

section \<open>Witnesses\<close>

text \<open>A diamond: node 0 feeds 1 and 2, an external node; the OR gate 3 waits for both.\<close>

definition diamond :: "build_op list" where
  "diamond =
     [BNode True (Some \<lparr>dt_type = NativeT, dt_group = Some 7, dt_token = 0\<rparr>) 255 0, BNode True (Some \<lparr>dt_type = FiberT, dt_group = None, dt_token = 0\<rparr>) 1 0,
      BExternal True, BGate True LOr, BEdge True 1 0, BEdge True 2 0, BEdge True 3 1, BEdge True 3 2]"

definition diamond_run :: "dstep list" where
  "diamond_run =
     [Signal 2, Perform 0, Run 0 ToAny, Perform 0, Perform 0, Perform 0, Perform 0, Run 1 ToAny, Perform 0, Perform 0, Perform 0, Perform 0]"

lemma execution_ex:
  assumes t: "list_all has_task ops" and e: "case build ops (TaskDAG scope) of None \<Rightarrow> False | Some d0 \<Rightarrow>
      (case Submit d0 of Some (True, d1) \<Rightarrow> (case dag_run as d1 of None \<Rightarrow> False | Some d \<Rightarrow> P d) | _ \<Rightarrow> False)"
  shows "\<exists>d. execution scope ops as d \<and> P d"
proof (cases "build ops (TaskDAG scope)")
  case None
  with e show ?thesis by (simp only: option.case)
next
  case b: (Some d0)
  show ?thesis
  proof (cases "Submit d0")
    case None
    with e b show ?thesis by (simp only: option.case)
  next
    case s: (Some r)
    obtain ok d1 where r: "r = (ok, d1)" by (cases r)
    have "ok \<and> (case dag_run as d1 of None \<Rightarrow> False | Some d \<Rightarrow> P d)"
      using e unfolding b option.case s r by (cases ok) (simp_all only: prod.case bool.case simp_thms)
    then have ok: "r = (True, d1)" and "case dag_run as d1 of None \<Rightarrow> False | Some d \<Rightarrow> P d" using r by simp_all
    then obtain d where "dag_run as d1 = Some d" "P d" by (cases "dag_run as d1") simp_all
    then show ?thesis unfolding execution_def b option.case s ok prod.case bool.case using t by blast
  qed
qed

lemma diamond_completes:
  "\<exists>d. execution 5 diamond diamond_run d \<and>
     (agenda d = [] \<and> dispatched d = [] \<and> list_all (\<lambda>n. isExternal (node d n) \<longrightarrow> ext_signalled (node d n)) [0..<next_node d]
      \<and> next_node d = 4 \<and> executed d = [0, 1] \<and> gateType (node d 3) = LOr \<and> (3, Completed) \<in> set (finished d))"
  by (rule execution_ex) code_simp+

theorem dag_completes_once_witness:
  "\<exists>d. execution 5 diamond diamond_run d \<and> distinct (map fst (finished d)) \<and> executed d = [0, 1] \<and> \<not> crashed d"
  using diamond_completes dag_completes_once by blast

theorem dag_respects_dependencies_witness:
  "\<exists>d. execution 5 diamond diamond_run d \<and> (3, Completed) \<in> set (finished d)
     \<and> ((\<exists>p. (p, 3) \<in> dag_edges d) \<longrightarrow> (\<exists>p. (p, 3) \<in> dag_edges d \<and> (p, Completed) \<in> set (finished d)))"
proof -
  obtain d where d: "execution 5 diamond diamond_run d" "next_node d = 4" "gateType (node d 3) = LOr" "(3, Completed) \<in> set (finished d)"
    using diamond_completes by blast
  have "(\<exists>p. (p, 3) \<in> dag_edges d) \<longrightarrow> (\<exists>p. (p, 3) \<in> dag_edges d \<and> (p, Completed) \<in> set (finished d))"
    using dag_respects_dependencies [OF d(1), of 3] d(2-4) by simp
  then show ?thesis using d by blast
qed

theorem dag_quiescent_complete_witness:
  "\<exists>d. execution 5 diamond diamond_run d \<and> next_node d = 4 \<and> (\<forall>n < 4. n \<in> fst ` set (finished d))"
proof -
  obtain d where d: "execution 5 diamond diamond_run d" "agenda d = []" "dispatched d = []" "next_node d = 4"
    "list_all (\<lambda>n. isExternal (node d n) \<longrightarrow> ext_signalled (node d n)) [0..<next_node d]"
    using diamond_completes by blast
  have "\<forall>n < next_node d. isExternal (node d n) \<longrightarrow> ext_signalled (node d n)" using d(5) by (simp add: list_all_iff)
  from dag_quiescent_complete [OF d(1-3) this] show ?thesis using d(1,4) by auto
qed

theorem dag_work_bounded_witness:
  "\<exists>d. execution 5 diamond diamond_run d
     \<and> length (filter is_work diamond_run) \<le> 2 * (next_node d + (\<Sum>n < next_node d. length (firstEdge (node d n))))"
  using diamond_completes dag_work_bounded by blast

lemma diamond_cancelled:
  "\<exists>d. execution 5 diamond [Perform 0] d \<and>
     (dispatched d = [(0, ToAny)] \<and> executed d = []
      \<and> (case dag_run [CancelAll, Run 0 ToAny, Perform 0, Perform 0, Perform 0] d of None \<Rightarrow> False | Some d' \<Rightarrow> executed d' = [0]))"
  by (rule execution_ex) code_simp+

lemma cancel_stops_dispatch_example:
  "\<exists>d d'. dispatched d = [(0, ToAny)] \<and> dag_run [CancelAll, Run 0 ToAny, Perform 0, Perform 0, Perform 0] d = Some d'
     \<and> executed d' = [0] \<and> fst ` set (dispatched d') \<subseteq> {0}"
proof -
  obtain d where d: "dispatched d = [(0, ToAny)]" "executed d = []"
    "case dag_run [CancelAll, Run 0 ToAny, Perform 0, Perform 0, Perform 0] d of None \<Rightarrow> False | Some d' \<Rightarrow> executed d' = [0]"
    using diamond_cancelled by blast
  then obtain d' where d': "dag_run [CancelAll, Run 0 ToAny, Perform 0, Perform 0, Perform 0] d = Some d'" "executed d' = [0]"
    by (cases "dag_run [CancelAll, Run 0 ToAny, Perform 0, Perform 0, Perform 0] d") (simp_all only: option.case)
  have "fst ` set (dispatched d') \<subseteq> {0}" using cancel_stops_dispatch [OF d'(1)] d(1,2) by simp
  then show ?thesis using d(1) d' by blast
qed

definition self_loop :: "build_op list" where
  "self_loop = [BNode True (Some \<lparr>dt_type = NativeT, dt_group = Some 7, dt_token = 0\<rparr>) 255 0, BEdge True 0 0]"

lemma cyclic_submit_releases_example:
  "\<exists>d d'. build self_loop (TaskDAG 5) = Some d \<and> Submit d = Some (False, d') \<and> released d' = [7] \<and> freed d' = [0] \<and> agenda d' = []"
proof -
  have ev: "case build self_loop (TaskDAG 5) of None \<Rightarrow> False | Some d \<Rightarrow>
      0 \<in> set (firstEdge (node d 0)) \<and> next_node d = 1 \<and> groups_of d = [7] \<and> nd_task (node d 0) \<noteq> None" by code_simp
  then obtain d where d: "build self_loop (TaskDAG 5) = Some d" by (cases "build self_loop (TaskDAG 5)") simp_all
  have e: "0 \<in> set (firstEdge (node d 0))" "next_node d = 1" "groups_of d = [7]" "nd_task (node d 0) \<noteq> None"
    using ev unfolding d option.case by blast+
  have "(0, 0) \<in> dag_edges d" using e(1,2) by (simp add: dag_edges_def)
  then have "\<not> acyclic (dag_edges d)" unfolding acyclic_def by blast
  from cyclic_submit_releases [OF d this] show ?thesis using d e by auto
qed

text \<open>A node created with a null task: accepted by the construction and by \<^verbatim>\<open>Submit\<close>, and dereferenced when it fires.\<close>

lemma null_task_crashes:
  "\<exists>d0 d1 d. build [BNode True None 255 0] (TaskDAG 5) = Some d0 \<and> Submit d0 = Some (True, d1) \<and> dag_run [Perform 0] d1 = Some d \<and> crashed d"
proof -
  have "case build [BNode True None 255 0] (TaskDAG 5) of None \<Rightarrow> False | Some d0 \<Rightarrow> (case Submit d0 of Some (True, d1) \<Rightarrow>
     (case dag_run [Perform 0] d1 of None \<Rightarrow> False | Some d \<Rightarrow> crashed d) | _ \<Rightarrow> False)" by code_simp
  then show ?thesis by (auto simp del: build.simps dag_run.simps split: option.splits bool.splits)
qed

end
