(* ===== verification/Timer_Wheel.thy ===== *)
theory Timer_Wheel
  imports Cancel_Token
begin

text \<open>
  The timer queue (\<^verbatim>\<open>src/Timer.cpp\<close>, \<^verbatim>\<open>include/Timer.h\<close>): a wheel of four levels of 256 slots with occupancy bitmaps,
  entries in doubly linked slot lists and a free list, handles with a generation, and the loop of the
  worker thread. Every operation runs under the mutex \<^verbatim>\<open>m\<close>, so the operations are the steps.

  Ticks are naturals: the sources compute them in \<^verbatim>\<open>int64_t\<close> from a monotonic clock, far from overflow. What the
  clock shows is an argument. The vector of entries is a function with its length; an index into it
  is below \<open>2 ^ 32 - 1\<close>, the bound of the sources' \<^verbatim>\<open>uint32_t\<close> with \<^verbatim>\<open>kNil\<close> reserved.
\<close>

section \<open>State\<close>

definition kLevels :: nat where
  "kLevels = 4"

definition kSlots :: nat where
  "kSlots = 256"

definition kOccWords :: nat where
  "kOccWords = 4"

definition kMaxTicks :: nat where
  "kMaxTicks = 2 ^ 32"

definition LevelGranularity :: "nat \<Rightarrow> nat" where
  "LevelGranularity l = 2 ^ (8 * l)"

record tentry =
  deadlineTick :: nat
  te_token :: u32
  te_eject :: "nat option"        \<comment> \<open>\<^verbatim>\<open>nullptr\<close> is \<open>None\<close>\<close>
  te_ctx :: nat
  te_prev :: "nat option"         \<comment> \<open>\<^verbatim>\<open>kNil\<close> is \<open>None\<close>\<close>
  te_next :: "nat option"
  te_gen :: u32
  te_nextFree :: nat              \<comment> \<open>index plus one; 0 ends the free list\<close>
  te_level :: "nat option"        \<comment> \<open>\<open>-1\<close> is \<open>None\<close>\<close>
  te_slot :: nat

definition new_entry :: tentry where
  "new_entry = \<lparr>deadlineTick = 0, te_token = kNone, te_eject = None, te_ctx = 0, te_prev = None, te_next = None,
     te_gen = 0, te_nextFree = 0, te_level = None, te_slot = 0\<rparr>"

text \<open>Where the worker thread is: not started, running (it holds or wants the mutex), in the untimed wait, in
  a wait until a tick, or returned.\<close>

datatype worker_mode = WNone | WRun | WWait | WWaitUntil nat | WDone

record wheel =
  ent :: "nat \<Rightarrow> tentry"          \<comment> \<open>\<^verbatim>\<open>entries\<close>\<close>
  ent_count :: nat                \<comment> \<open>\<^verbatim>\<open>entries.size()\<close>\<close>
  tw_freeHead :: nat
  heads :: "nat \<Rightarrow> nat \<Rightarrow> nat option"
  occ :: "nat \<Rightarrow> nat \<Rightarrow> u64"
  currentTick :: nat
  armedCount :: nat
  running :: bool
  stopping :: bool
  wmode :: worker_mode

definition wheel_init :: wheel where
  "wheel_init = \<lparr>ent = (\<lambda>_. new_entry), ent_count = 0, tw_freeHead = 0, heads = (\<lambda>_ _. None), occ = (\<lambda>_ _. 0),
     currentTick = 0, armedCount = 0, running = False, stopping = False, wmode = WNone\<rparr>"

definition set_ent :: "nat \<Rightarrow> (tentry \<Rightarrow> tentry) \<Rightarrow> wheel \<Rightarrow> wheel" where
  "set_ent i f W = W\<lparr>ent := (ent W)(i := f (ent W i))\<rparr>"

definition set_head :: "nat \<Rightarrow> nat \<Rightarrow> nat option \<Rightarrow> wheel \<Rightarrow> wheel" where
  "set_head l s h W = W\<lparr>heads := (heads W)(l := (heads W l)(s := h))\<rparr>"

section \<open>Occupancy bitmaps\<close>

definition set_occ :: "nat \<Rightarrow> nat \<Rightarrow> (u64 \<Rightarrow> u64) \<Rightarrow> wheel \<Rightarrow> wheel" where
  "set_occ l w f W = W\<lparr>occ := (occ W)(l := (occ W l)(w := f (occ W l w)))\<rparr>"

definition MarkOccupied :: "nat \<Rightarrow> nat \<Rightarrow> wheel \<Rightarrow> wheel" where
  "MarkOccupied l s = set_occ l (s div 64) (\<lambda>w. w OR push_bit (s mod 64) 1)"

definition MarkEmpty :: "nat \<Rightarrow> nat \<Rightarrow> wheel \<Rightarrow> wheel" where
  "MarkEmpty l s = set_occ l (s div 64) (\<lambda>w. w AND NOT (push_bit (s mod 64) 1))"

definition LevelEmpty :: "nat \<Rightarrow> wheel \<Rightarrow> bool" where
  "LevelEmpty l W \<longleftrightarrow> list_all (\<lambda>w. occ W l w = 0) [0..<kOccWords]"

text \<open>\<^verbatim>\<open>platform::CountTrailingZeros64\<close>, called on non-zero words only.\<close>

definition CountTrailingZeros64 :: "u64 \<Rightarrow> nat" where
  "CountTrailingZeros64 w = (case find (bit w) [0..<64] of Some b \<Rightarrow> b | None \<Rightarrow> 64)"

definition word_from :: "u64 \<Rightarrow> nat \<Rightarrow> u64" where
  "word_from w startBit = w AND push_bit startBit (NOT 0)"

definition word_below :: "u64 \<Rightarrow> nat \<Rightarrow> u64" where
  "word_below w startBit = w AND NOT (push_bit startBit (NOT 0))"

fun scan_words :: "(nat \<Rightarrow> u64) \<Rightarrow> nat list \<Rightarrow> nat option" where
  "scan_words o' [] = None"
| "scan_words o' (wi # ws) = (if o' wi \<noteq> 0 then Some (wi * 64 + CountTrailingZeros64 (o' wi)) else scan_words o' ws)"

definition NextOccupied :: "nat \<Rightarrow> nat \<Rightarrow> wheel \<Rightarrow> nat" where
  "NextOccupied l from W =
     (let startWord = from div 64; startBit = from mod 64;
          w = word_from (occ W l startWord) startBit
      in if w \<noteq> 0 then startWord * 64 + CountTrailingZeros64 w
         else (case scan_words (occ W l) (map (\<lambda>i. (startWord + i) mod kOccWords) [1..<kOccWords]) of
                 Some s \<Rightarrow> s
               | None \<Rightarrow>
                   (let w = word_below (occ W l startWord) startBit in
                    if w \<noteq> 0 then startWord * 64 + CountTrailingZeros64 w else kSlots)))"

section \<open>Slot lists\<close>

definition Link :: "nat \<Rightarrow> nat \<Rightarrow> nat \<Rightarrow> wheel \<Rightarrow> wheel" where
  "Link i l s W =
     (let h = heads W l s;
          W1 = set_ent i (\<lambda>e. e\<lparr>te_level := Some l, te_slot := s, te_prev := None, te_next := h\<rparr>) W;
          W2 = (case h of None \<Rightarrow> W1 | Some n \<Rightarrow> set_ent n (te_prev_update (\<lambda>_. Some i)) W1)
      in MarkOccupied l s (set_head l s (Some i) W2))"

definition Unlink :: "nat \<Rightarrow> wheel \<Rightarrow> wheel" where
  "Unlink i W =
     (let e = ent W i in
      case te_level e of
        None \<Rightarrow> W
      | Some l \<Rightarrow>
          (let s = te_slot e;
               W1 = (case te_prev e of
                       Some p \<Rightarrow> set_ent p (te_next_update (\<lambda>_. te_next e)) W
                     | None \<Rightarrow> set_head l s (te_next e) W);
               W2 = (case te_next e of
                       Some n \<Rightarrow> set_ent n (te_prev_update (\<lambda>_. te_prev e)) W1
                     | None \<Rightarrow> W1);
               W3 = set_ent i (\<lambda>e. e\<lparr>te_prev := None, te_next := None, te_level := None\<rparr>) W2
           in if heads W3 l s = None then MarkEmpty l s W3 else W3))"

text \<open>The level and slot for a deadline, seen from the current tick.\<close>

definition place_at :: "nat \<Rightarrow> nat \<Rightarrow> nat \<times> nat" where
  "place_at cur deadline =
     (if deadline \<le> cur then (0, cur mod kSlots)
      else (case find (\<lambda>l. deadline - cur < LevelGranularity (l + 1)) [0..<kLevels] of
              Some l \<Rightarrow> (l, (deadline div LevelGranularity l) mod kSlots)
            | None \<Rightarrow> (kLevels - 1, ((cur + kMaxTicks - 1) div LevelGranularity (kLevels - 1)) mod kSlots)))"

definition Place :: "nat \<Rightarrow> nat \<Rightarrow> wheel \<Rightarrow> wheel" where
  "Place i deadline W = (case place_at (currentTick W) deadline of (l, s) \<Rightarrow> Link i l s W)"

partial_function (option) cascade_loop :: "nat option \<Rightarrow> wheel \<Rightarrow> wheel option" where
  "cascade_loop io W =
     (case io of
        None \<Rightarrow> Some W
      | Some i \<Rightarrow>
          (let nextIdx = te_next (ent W i);
               W1 = set_ent i (\<lambda>e. e\<lparr>te_prev := None, te_next := None, te_level := None\<rparr>) W
           in cascade_loop nextIdx (Place i (deadlineTick (ent W1 i)) W1)))"

declare cascade_loop.simps [code]

definition Cascade :: "nat \<Rightarrow> nat \<Rightarrow> wheel \<Rightarrow> wheel option" where
  "Cascade l s W = cascade_loop (heads W l s) (MarkEmpty l s (set_head l s None W))"

section \<open>Entries\<close>

definition AcquireEntry :: "wheel \<Rightarrow> nat \<times> wheel" where
  "AcquireEntry W =
     (if tw_freeHead W \<noteq> 0
      then (let i = tw_freeHead W - 1 in (i, W\<lparr>tw_freeHead := te_nextFree (ent W i)\<rparr>))
      else (ent_count W, W\<lparr>ent := (ent W)(ent_count W := new_entry), ent_count := ent_count W + 1\<rparr>))"

definition ReleaseEntry :: "nat \<Rightarrow> wheel \<Rightarrow> wheel" where
  "ReleaseEntry i W =
     (set_ent i (\<lambda>e. e\<lparr>te_eject := None, te_ctx := 0, te_token := kNone, te_level := None,
                       te_nextFree := tw_freeHead W\<rparr>) W)\<lparr>tw_freeHead := i + 1\<rparr>"

text \<open>The end of an armed timer, when it fires and when it is disarmed.\<close>

definition retire :: "nat \<Rightarrow> wheel \<Rightarrow> wheel" where
  "retire i W = (ReleaseEntry i (set_ent i (te_gen_update (\<lambda>g. g + 1)) (Unlink i W)))\<lparr>armedCount := armedCount W - 1\<rparr>"

section \<open>Time\<close>

text \<open>When the next occupied slot of a level comes up, if the level has one.\<close>

definition level_event :: "nat \<Rightarrow> wheel \<Rightarrow> nat option" where
  "level_event l W =
     (if LevelEmpty l W then None
      else (let gran = LevelGranularity l;
                cur = (currentTick W div gran) mod kSlots;
                from = (if l = 0 then cur else (cur + 1) mod kSlots);
                s = NextOccupied l from W
            in if s = kSlots then None
               else (let ahead = (s + kSlots - from) mod kSlots;
                         base = (if l = 0 then currentTick W else (currentTick W div gran + 1) * gran)
                     in Some (base + ahead * gran))))"

definition sooner :: "nat option \<Rightarrow> nat option \<Rightarrow> nat option" where
  "sooner best w = (case w of None \<Rightarrow> best | Some x \<Rightarrow> (case best of None \<Rightarrow> Some x | Some b \<Rightarrow> if x < b then Some x else Some b))"

definition NextEventTick :: "wheel \<Rightarrow> nat option" where
  "NextEventTick W = foldl (\<lambda>best l. sooner best (level_event l W)) None [0..<kLevels]"

fun sweep :: "nat \<Rightarrow> nat list \<Rightarrow> wheel \<Rightarrow> wheel option" where
  "sweep l [] W = Some W"
| "sweep l (s # ss) W =
     (if heads W l s \<noteq> None
      then (case Cascade l s W of None \<Rightarrow> None | Some W' \<Rightarrow> sweep l ss W')
      else sweep l ss W)"

text \<open>The slots of a level that a jump passes.\<close>

definition passed :: "nat \<Rightarrow> nat \<Rightarrow> nat list" where
  "passed from to =
     (if to - from \<ge> kSlots then [0..<kSlots] else map (\<lambda>k. (from + k) mod kSlots) [1..<to - from + 1])"

fun advance_levels :: "nat \<Rightarrow> nat \<Rightarrow> nat list \<Rightarrow> wheel \<Rightarrow> wheel option" where
  "advance_levels from0 target [] W = Some W"
| "advance_levels from0 target (l # ls) W =
     (let from = from0 div LevelGranularity l; to = target div LevelGranularity l in
      if from = to then Some W
      else (case sweep l (passed from to) W of None \<Rightarrow> None | Some W' \<Rightarrow> advance_levels from0 target ls W'))"

definition AdvanceTo :: "nat \<Rightarrow> wheel \<Rightarrow> wheel option" where
  "AdvanceTo target W =
     (if target \<le> currentTick W then Some W
      else advance_levels (currentTick W) target [1..<kLevels] (W\<lparr>currentTick := target\<rparr>))"

section \<open>The worker thread\<close>

definition kBatch :: nat where
  "kBatch = 64"

type_synonym fired = "nat \<times> u32 \<times> nat option \<times> nat"   \<comment> \<open>entry, token, eject, ctx\<close>

partial_function (option) collect :: "nat option \<Rightarrow> fired list \<Rightarrow> wheel \<Rightarrow> (fired list \<times> wheel) option" where
  "collect io out W =
     (case io of
        None \<Rightarrow> Some (out, W)
      | Some i \<Rightarrow>
          (if length out < kBatch
           then (let e = ent W i; nextIdx = te_next e in
                 if deadlineTick e \<le> currentTick W
                 then collect nextIdx (out @ [(i, te_token e, te_eject e, te_ctx e)]) (retire i W)
                 else collect nextIdx out W)
           else Some (out, W)))"

declare collect.simps [code]

text \<open>One pass of the loop of \<^verbatim>\<open>Run\<close> with the clock showing \<open>now\<close>: what it fires outside the lock.\<close>

definition Run :: "nat \<Rightarrow> wheel \<Rightarrow> (fired list \<times> wheel) option" where
  "Run now W =
     (if stopping W then Some ([], W\<lparr>wmode := WDone\<rparr>)
      else (case NextEventTick W of
              None \<Rightarrow> Some ([], W\<lparr>currentTick := now, wmode := WWait\<rparr>)
            | Some nxt \<Rightarrow>
                (if nxt > now then Some ([], W\<lparr>wmode := WWaitUntil nxt\<rparr>)
                 else (case AdvanceTo nxt W of
                         None \<Rightarrow> None
                       | Some W1 \<Rightarrow>
                           (case collect (heads W1 0 (currentTick W1 mod kSlots)) [] W1 of
                              None \<Rightarrow> None
                            | Some ([], W2) \<Rightarrow> Some ([], W2\<lparr>currentTick := currentTick W2 + 1\<rparr>)
                            | Some (out, W2) \<Rightarrow> Some (out, W2))))))"

text \<open>
  The batch, fired outside the lock: cancel the scope, then call what was armed with it. A call is recorded with the cancellation table it is made on, which is what the tasks it
  wakes will look at.
\<close>

fun fire_batch :: "fired list \<Rightarrow> cancel_table \<Rightarrow> (nat \<times> nat \<times> u32 \<times> cancel_table) list \<times> cancel_table" where
  "fire_batch [] T = ([], T)"
| "fire_batch ((i, tok, ej, ctx) # fs) T =
     (case CancelVia tok T of
        (ok, T1) \<Rightarrow>
          (case fire_batch fs T1 of
             (calls, T2) \<Rightarrow> ((case ej of Some f \<Rightarrow> (if ok then [(f, ctx, tok, T1)] else []) | None \<Rightarrow> []) @ calls, T2)))"

section \<open>Clients\<close>

definition handle :: "nat \<Rightarrow> u32 \<Rightarrow> u64" where
  "handle i g = push_bit 32 (ucast g) OR word_of_nat i"

definition tickNs :: int where
  "tickNs = 1000000"

definition delay_ticks :: "int \<Rightarrow> nat" where
  "delay_ticks delayNs = (if delayNs > 0 then nat ((delayNs + tickNs - 1) div tickNs) else 0)"

definition notify_one :: "wheel \<Rightarrow> wheel" where
  "notify_one W = W\<lparr>wmode := (case wmode W of WWait \<Rightarrow> WRun | WWaitUntil _ \<Rightarrow> WRun | m \<Rightarrow> m)\<rparr>"

definition start_worker :: "wheel \<Rightarrow> wheel" where
  "start_worker W = (if \<not> running W then W\<lparr>running := True, wmode := WRun\<rparr> else W)"

definition fill :: "nat \<Rightarrow> u32 \<Rightarrow> nat option \<Rightarrow> nat \<Rightarrow> tentry \<Rightarrow> tentry" where
  "fill deadline tok eject ctx e =
     e\<lparr>te_gen := te_gen e + 1, deadlineTick := deadline, te_token := tok, te_eject := eject, te_ctx := ctx\<rparr>"

text \<open>Wake the thread if the new deadline looks like the soonest event.\<close>

definition wake_if_soonest :: "nat \<Rightarrow> wheel \<Rightarrow> wheel" where
  "wake_if_soonest deadline W =
     (case NextEventTick W of None \<Rightarrow> notify_one W | Some nxt \<Rightarrow> if nxt \<ge> deadline then notify_one W else W)"

text \<open>\<open>enabled\<close> is false when the scheduler was initialised without the timer layer. The invalid handle is 0.\<close>

definition Arm :: "bool \<Rightarrow> nat \<Rightarrow> int \<Rightarrow> u32 \<Rightarrow> nat option \<Rightarrow> nat \<Rightarrow> wheel \<Rightarrow> (u64 \<times> wheel) option" where
  "Arm enabled now delayNs tok eject ctx W =
     (if \<not> Valid tok \<or> stopping W \<or> \<not> enabled then Some (0, W)
      else (let deadline = now + delay_ticks delayNs in
            case AdvanceTo now (start_worker W) of
              None \<Rightarrow> None
            | Some W1 \<Rightarrow>
                (case AcquireEntry W1 of
                   (i, W2) \<Rightarrow>
                     (let W3 = set_ent i (fill deadline tok eject ctx) W2;
                          W4 = (Place i deadline W3)\<lparr>armedCount := armedCount W3 + 1\<rparr>
                      in Some (handle i (te_gen (ent W4 i)), wake_if_soonest deadline W4)))))"

definition Disarm :: "u64 \<Rightarrow> wheel \<Rightarrow> bool \<times> wheel" where
  "Disarm h W =
     (if h = 0 then (False, W)
      else (let i = unat (h AND 0xFFFFFFFF); g = ucast (drop_bit 32 h) :: u32 in
            if i \<ge> ent_count W then (False, W)
            else if te_gen (ent W i) \<noteq> g \<or> g AND 1 = 0 then (False, W)
            else (True, retire i W)))"

definition PendingCount :: "wheel \<Rightarrow> nat" where
  "PendingCount W = armedCount W"

definition Start :: "wheel \<Rightarrow> wheel" where
  "Start W = W\<lparr>stopping := False\<rparr>"

text \<open>\<^verbatim>\<open>Stop\<close> notifies the worker, which returns, and joins it.\<close>

definition Stop :: "wheel \<Rightarrow> wheel" where
  "Stop W = (if stopping W then W else W\<lparr>stopping := True, wmode := (if wmode W = WNone then WNone else WDone)\<rparr>)"

section \<open>The lowest bit\<close>

lemma ctz_props:
  assumes "w \<noteq> (0 :: u64)"
  shows "CountTrailingZeros64 w < 64" "bit w (CountTrailingZeros64 w)" "b < CountTrailingZeros64 w \<Longrightarrow> \<not> bit w b"
proof -
  obtain n where "bit w n" using assms by (metis bit_0_eq bit_eq_iff bot_apply bot_bool_def)
  then have "n < 64" "bit w n" using bit_imp_le_length by fastforce+
  then obtain c where c: "find (bit w) [0..<64] = Some c" by (cases "find (bit w) [0..<64]") (auto simp: find_None_iff)
  then have "c < 64" "bit w c" "\<forall>j < c. \<not> bit w j" by (auto simp: find_Some_iff)
  then show "CountTrailingZeros64 w < 64" "bit w (CountTrailingZeros64 w)" "b < CountTrailingZeros64 w \<Longrightarrow> \<not> bit w b"
    using c by (auto simp: CountTrailingZeros64_def)
qed

text \<open>The lowest bit and the rest of a word.\<close>

lemma bit_clear_lowest:
  assumes "w \<noteq> (0 :: u64)"
  shows "bit (w AND (w - 1)) n \<longleftrightarrow> bit w n \<and> n \<noteq> CountTrailingZeros64 w"
proof -
  let ?c = "CountTrailingZeros64 w"
  define u where "u = w AND NOT (push_bit ?c 1)"
  note c = ctz_props [OF assms]
  have one: "bit (push_bit ?c 1 :: u64) m \<longleftrightarrow> m = ?c" for m
    using c(1) by (auto simp: bit_push_bit_iff bit_1_iff simp del: push_bit_of_1)
  have bu: "bit u m \<longleftrightarrow> bit w m \<and> m \<noteq> ?c" for m
    using bit_imp_le_length [of w m] by (auto simp: u_def bit_and_iff bit_not_iff one simp del: push_bit_of_1)
  have low: "bit u m \<Longrightarrow> ?c < m" for m using bu [of m] c(3) [of m] by (cases "m < ?c") auto
  have "bit w m \<longleftrightarrow> bit (u OR push_bit ?c 1) m" for m using bu [of m] c(2) by (auto simp: bit_or_iff one simp del: push_bit_of_1)
  then have "w = u OR push_bit ?c 1" by (metis bit_eqI)
  also have "\<dots> = u + push_bit ?c 1"
    by (rule disjunctive_add_eq_or [symmetric], rule bit_eqI) (use bu in \<open>simp add: bit_and_iff one del: push_bit_of_1\<close>)
  finally have "w - 1 = u + mask ?c" by (simp add: mask_eq_exp_minus_1 push_bit_eq_mult)
  also have "\<dots> = u OR mask ?c"
    by (rule disjunctive_add_eq_or, rule bit_eqI) (use low in \<open>fastforce simp: bit_and_iff bit_mask_iff\<close>)
  finally have d: "w - 1 = u OR mask ?c" .
  show ?thesis using c(3) [of n] bu [of n] low [of n] by (auto simp: d bit_and_iff bit_or_iff bit_mask_iff)
qed

section \<open>The slot lists\<close>

definition opt_hd :: "nat list \<Rightarrow> nat option" where
  "opt_hd xs = (case xs of [] \<Rightarrow> None | x # _ \<Rightarrow> Some x)"

lemma opt_hd_simps [simp]: "opt_hd [] = None" "opt_hd (x # xs) = Some x" "opt_hd xs = None \<longleftrightarrow> xs = []"
  by (auto simp: opt_hd_def split: list.splits)

fun dlist :: "(nat \<Rightarrow> tentry) \<Rightarrow> nat option \<Rightarrow> nat list \<Rightarrow> bool" where
  "dlist E p [] = True"
| "dlist E p (x # xs) = (te_prev (E x) = p \<and> te_next (E x) = opt_hd xs \<and> dlist E (Some x) xs)"

lemma dlist_cong:
  "(\<And>x. x \<in> set xs \<Longrightarrow> te_prev (E' x) = te_prev (E x) \<and> te_next (E' x) = te_next (E x)) \<Longrightarrow> dlist E' p xs = dlist E p xs"
  by (induction xs arbitrary: p) auto

text \<open>What linking and unlinking leave of an entry and of the rest of the wheel.\<close>

definition core :: "tentry \<Rightarrow> tentry" where
  "core e = e\<lparr>te_prev := None, te_next := None, te_level := None, te_slot := 0\<rparr>"

definition pos :: "tentry \<Rightarrow> nat option \<times> nat" where
  "pos e = (te_level e, te_slot e)"

definition same_rest :: "wheel \<Rightarrow> wheel \<Rightarrow> bool" where
  "same_rest W' W \<longleftrightarrow> W'\<lparr>ent := ent W, heads := heads W, occ := occ W\<rparr> = W"

lemma same_rest_sel:
  assumes "same_rest W' W"
  shows "ent_count W' = ent_count W" "tw_freeHead W' = tw_freeHead W" "currentTick W' = currentTick W"
    "armedCount W' = armedCount W" "running W' = running W" "stopping W' = stopping W" "wmode W' = wmode W"
proof -
  have e: "W = W'\<lparr>ent := ent W, heads := heads W, occ := occ W\<rparr>" using assms by (simp add: same_rest_def)
  show "ent_count W' = ent_count W" "tw_freeHead W' = tw_freeHead W" "currentTick W' = currentTick W"
    "armedCount W' = armedCount W" "running W' = running W" "stopping W' = stopping W" "wmode W' = wmode W"
    by (subst e; simp)+
qed

lemma same_rest_refl [simp]: "same_rest W W"
  by (simp add: same_rest_def)

lemma same_rest_trans: "same_rest W'' W' \<Longrightarrow> same_rest W' W \<Longrightarrow> same_rest W'' W"
  using same_rest_sel [of W'' W'] same_rest_sel [of W' W] unfolding same_rest_def by (intro wheel.equality) simp_all

lemma core_sel:
  assumes "core e' = core e"
  shows "deadlineTick e' = deadlineTick e" "te_token e' = te_token e" "te_eject e' = te_eject e" "te_ctx e' = te_ctx e"
    "te_gen e' = te_gen e" "te_nextFree e' = te_nextFree e"
proof -
  have "f (core e') = f (core e)" for f :: "tentry \<Rightarrow> 'b" using assms by simp
  from this [of deadlineTick] show "deadlineTick e' = deadlineTick e" by (simp add: core_def)
  have "te_token (core e') = te_token (core e)" "te_eject (core e') = te_eject (core e)" "te_ctx (core e') = te_ctx (core e)"
    "te_gen (core e') = te_gen (core e)" "te_nextFree (core e') = te_nextFree (core e)" using assms by simp_all
  then show "te_token e' = te_token e" "te_eject e' = te_eject e" "te_ctx e' = te_ctx e"
    "te_gen e' = te_gen e" "te_nextFree e' = te_nextFree e" by (simp_all add: core_def)
qed

text \<open>\<open>C l s\<close> is the list of slot \<open>s\<close> of level \<open>l\<close>; \<open>X\<close> holds entries taken out of their list and not placed again yet.\<close>

definition occupied :: "wheel \<Rightarrow> nat \<Rightarrow> nat \<Rightarrow> bool" where
  "occupied W l s \<longleftrightarrow> bit (occ W l (s div 64)) (s mod 64)"

definition chains_ok :: "nat set \<Rightarrow> (nat \<Rightarrow> nat \<Rightarrow> nat list) \<Rightarrow> wheel \<Rightarrow> bool" where
  "chains_ok X C W \<longleftrightarrow>
     (\<forall>l s. heads W l s = opt_hd (C l s) \<and> dlist (ent W) None (C l s) \<and> distinct (C l s))
   \<and> (\<forall>l s i. i \<in> set (C l s) \<longleftrightarrow> i < ent_count W \<and> i \<notin> X \<and> pos (ent W i) = (Some l, s))
   \<and> (\<forall>i l. i < ent_count W \<longrightarrow> te_level (ent W i) = Some l \<longrightarrow> l < kLevels \<and> te_slot (ent W i) < kSlots)
   \<and> (\<forall>l s. s < kSlots \<longrightarrow> (occupied W l s \<longleftrightarrow> C l s \<noteq> []))"

definition upd_chain :: "nat \<Rightarrow> nat \<Rightarrow> nat list \<Rightarrow> (nat \<Rightarrow> nat \<Rightarrow> nat list) \<Rightarrow> nat \<Rightarrow> nat \<Rightarrow> nat list" where
  "upd_chain l s xs C = C(l := (C l)(s := xs))"

lemma upd_chain_app [simp]: "upd_chain l s xs C l' s' = (if l' = l \<and> s' = s then xs else C l' s')"
  by (simp add: upd_chain_def)

lemma chains_okD:
  assumes "chains_ok X C W"
  shows "heads W l s = opt_hd (C l s)" "dlist (ent W) None (C l s)" "distinct (C l s)"
    "i \<in> set (C l s) \<longleftrightarrow> i < ent_count W \<and> i \<notin> X \<and> pos (ent W i) = (Some l, s)"
    "i < ent_count W \<Longrightarrow> te_level (ent W i) = Some l \<Longrightarrow> l < kLevels \<and> te_slot (ent W i) < kSlots"
    "s < kSlots \<Longrightarrow> occupied W l s \<longleftrightarrow> C l s \<noteq> []"
  using assms unfolding chains_ok_def by blast+

text \<open>Two slots share a bit of the bitmap only if they are the same slot.\<close>

lemma bit_pos_inj: "s div 64 = s' div 64 \<Longrightarrow> s mod 64 = s' mod 64 \<Longrightarrow> s = s'" for s s' :: nat
  by (metis div_mult_mod_eq)

lemma bit_one_at: "k < 64 \<Longrightarrow> n < 64 \<Longrightarrow> bit (push_bit k 1 :: u64) n \<longleftrightarrow> n = k"
  by (auto simp: bit_exp_iff)

lemma occupied_MarkOccupied:
  "occupied (MarkOccupied l s W) l' s' \<longleftrightarrow> (l' = l \<and> s' = s) \<or> occupied W l' s'"
proof (cases "l' = l \<and> s' div 64 = s div 64")
  case True
  then show ?thesis using bit_pos_inj [of s' s] bit_one_at [of "s mod 64" "s' mod 64"]
    by (auto simp: occupied_def MarkOccupied_def set_occ_def bit_or_iff)
next
  case False
  then show ?thesis by (auto simp: occupied_def MarkOccupied_def set_occ_def)
qed

lemma occupied_MarkEmpty:
  "occupied (MarkEmpty l s W) l' s' \<longleftrightarrow> \<not> (l' = l \<and> s' = s) \<and> occupied W l' s'"
proof (cases "l' = l \<and> s' div 64 = s div 64")
  case True
  then show ?thesis using bit_pos_inj [of s' s] bit_one_at [of "s mod 64" "s' mod 64"]
    by (auto simp: occupied_def MarkEmpty_def set_occ_def bit_and_iff bit_not_iff)
next
  case False
  then show ?thesis by (auto simp: occupied_def MarkEmpty_def set_occ_def)
qed

lemma marks_sel [simp]:
  "ent (MarkOccupied l s W) = ent W" "heads (MarkOccupied l s W) = heads W" "ent_count (MarkOccupied l s W) = ent_count W"
  "ent (MarkEmpty l s W) = ent W" "heads (MarkEmpty l s W) = heads W" "ent_count (MarkEmpty l s W) = ent_count W"
  by (simp_all add: MarkOccupied_def MarkEmpty_def set_occ_def)

lemma same_rest_marks [simp]:
  "same_rest (MarkOccupied l s W') W \<longleftrightarrow> same_rest W' W" "same_rest (MarkEmpty l s W') W \<longleftrightarrow> same_rest W' W"
  "same_rest (set_head l s h W') W \<longleftrightarrow> same_rest W' W" "same_rest (set_ent i f W') W \<longleftrightarrow> same_rest W' W"
  by (simp_all add: same_rest_def MarkOccupied_def MarkEmpty_def set_occ_def set_head_def set_ent_def)

lemma set_ent_sel [simp]:
  "ent (set_ent i f W) = (ent W)(i := f (ent W i))" "heads (set_ent i f W) = heads W" "ent_count (set_ent i f W) = ent_count W"
  "occupied (set_ent i f W) = occupied W"
  by (simp_all add: set_ent_def occupied_def fun_eq_iff)

lemma set_head_sel [simp]:
  "ent (set_head l s h W) = ent W" "heads (set_head l s h W) l' s' = (if l' = l \<and> s' = s then h else heads W l' s')"
  "ent_count (set_head l s h W) = ent_count W" "occupied (set_head l s h W) = occupied W"
  by (simp_all add: set_head_def occupied_def fun_eq_iff)

lemma Link_sel:
  "same_rest (Link i l s W) W" "core (ent (Link i l s W) j) = core (ent W j)"
  "pos (ent (Link i l s W) j) = (if j = i then (Some l, s) else pos (ent W j))"
  "j \<noteq> i \<Longrightarrow> te_next (ent (Link i l s W) j) = te_next (ent W j)"
  by (simp_all add: Link_def Let_def core_def pos_def split: option.split)

lemma Link_chains:
  assumes ok: "chains_ok X C W" and i: "i < ent_count W" "i \<in> X \<or> te_level (ent W i) = None"
    and ls: "l < kLevels" "s < kSlots"
  shows "chains_ok (X - {i}) (upd_chain l s (i # C l s) C) (Link i l s W)"
proof -
  let ?W = "Link i l s W" and ?C = "upd_chain l s (i # C l s) C"
  have iC: "i \<notin> set (C l' s')" for l' s' using chains_okD(4) [OF ok] i(2) by (auto simp: pos_def)
  have hi: "heads W l s \<noteq> Some i"
    using iC [of l s] chains_okD(1) [OF ok, of l s] by (cases "C l s") auto
  have prev: "te_prev (ent ?W j) = (if j = i then None else if heads W l s = Some j then Some i else te_prev (ent W j))"
    and nxt: "te_next (ent ?W j) = (if j = i then heads W l s else te_next (ent W j))" for j
    using hi by (auto simp: Link_def Let_def split: option.splits)
  have h: "heads ?W l' s' = opt_hd (?C l' s')" for l' s'
    using chains_okD(1) [OF ok] by (auto simp: Link_def Let_def split: option.split)
  have other: "dlist (ent ?W) None (C l' s')" if ne: "\<not> (l' = l \<and> s' = s)" for l' s'
  proof -
    have "heads W l s \<noteq> Some x" if "x \<in> set (C l' s')" for x
    proof
      assume "heads W l s = Some x"
      then have "x \<in> set (C l s)" using chains_okD(1) [OF ok, of l s] by (auto simp: opt_hd_def split: list.splits)
      then show False using that ne chains_okD(4) [OF ok] by auto
    qed
    then show ?thesis using iC chains_okD(2) [OF ok, of l' s'] by (subst dlist_cong [of _ _ "ent W"]) (auto simp: prev nxt)
  qed
  have this': "dlist (ent ?W) None (i # C l s)"
  proof (cases "C l s")
    case Nil
    then show ?thesis using chains_okD(1) [OF ok, of l s] by (simp add: prev nxt)
  next
    case (Cons h hs)
    have hh: "heads W l s = Some h" using chains_okD(1) [OF ok, of l s] Cons by simp
    have "dlist (ent W) None (h # hs)" "distinct (h # hs)" using chains_okD(2,3) [OF ok, of l s] Cons by simp_all
    moreover have "dlist (ent ?W) (Some h) hs = dlist (ent W) (Some h) hs"
      using calculation(2) iC [of l s] Cons hh by (intro dlist_cong) (auto simp: prev nxt)
    ultimately have "dlist (ent ?W) (Some h) hs" "te_next (ent W h) = opt_hd hs" by simp_all
    then show ?thesis using Cons hh iC [of l s] by (simp add: prev nxt)
  qed
  have oc: "occupied ?W l' s' \<longleftrightarrow> (l' = l \<and> s' = s) \<or> occupied W l' s'" for l' s'
    by (simp add: Link_def Let_def occupied_MarkOccupied split: option.split)
  have cnt: "ent_count ?W = ent_count W" by (rule same_rest_sel(1) [OF Link_sel(1)])
  show ?thesis
  proof (unfold chains_ok_def cnt, intro conjI allI impI)
    show "heads ?W l' s' = opt_hd (?C l' s')" for l' s' by (rule h)
    show "dlist (ent ?W) None (?C l' s')" for l' s' using this' other by simp
    show "distinct (?C l' s')" for l' s' using iC chains_okD(3) [OF ok] by simp
    show "j \<in> set (?C l' s') \<longleftrightarrow> j < ent_count W \<and> j \<notin> X - {i} \<and> pos (ent ?W j) = (Some l', s')" for l' s' j
      using i(1) iC chains_okD(4) [OF ok] by (auto simp: Link_sel(3))
    show "l' < kLevels" "te_slot (ent ?W j) < kSlots" if "j < ent_count W" "te_level (ent ?W j) = Some l'" for j l'
      using that ls chains_okD(5) [OF ok, of j l'] Link_sel(3) [of i l s W j] by (auto simp: pos_def split: if_splits)
    show "occupied ?W l' s' \<longleftrightarrow> ?C l' s' \<noteq> []" if "s' < kSlots" for l' s'
      using chains_okD(6) [OF ok that] by (auto simp: oc)
  qed
qed

text \<open>Taking an entry out of the middle of a list.\<close>

fun dseg :: "(nat \<Rightarrow> tentry) \<Rightarrow> nat option \<Rightarrow> nat list \<Rightarrow> nat option \<Rightarrow> bool" where
  "dseg E p [] q = True"
| "dseg E p (x # xs) q = (te_prev (E x) = p \<and> te_next (E x) = (case xs of [] \<Rightarrow> q | y # _ \<Rightarrow> Some y) \<and> dseg E (Some x) xs q)"

definition opt_last :: "nat list \<Rightarrow> nat option" where
  "opt_last xs = (if xs = [] then None else Some (last xs))"

lemma dlist_app:
  "dlist E p (xs @ ys) \<longleftrightarrow> dseg E p xs (opt_hd ys) \<and> dlist E (if xs = [] then p else Some (last xs)) ys"
proof (induction xs arbitrary: p)
  case (Cons x xs)
  then show ?case by (cases xs) auto
qed simp

lemma dseg_retarget:
  assumes "dseg E p xs q" and "distinct xs" and "\<And>x. x \<in> set xs \<Longrightarrow> te_prev (E' x) = te_prev (E x)"
    and "\<And>x. x \<in> set xs \<Longrightarrow> x \<noteq> last xs \<Longrightarrow> te_next (E' x) = te_next (E x)"
    and "xs \<noteq> [] \<Longrightarrow> te_next (E' (last xs)) = q'"
  shows "dseg E' p xs q'"
  using assms
proof (induction xs arbitrary: p)
  case (Cons x xs)
  have "dseg E' (Some x) xs q'"
    by (rule Cons.IH) (use Cons.prems in \<open>auto split: if_splits\<close>)
  moreover have "te_next (E' x) = (case xs of [] \<Rightarrow> q' | y # _ \<Rightarrow> Some y)"
  proof (cases xs)
    case (Cons y ys)
    then have "x \<noteq> last (x # xs)" using Cons.prems(2) by (metis distinct.simps(2) last_ConsR last_in_set list.distinct(1))
    then show ?thesis using Cons.prems(1) Cons.prems(4) [of x] Cons by simp
  qed (use Cons.prems(5) in simp)
  ultimately show ?case using Cons.prems(1) Cons.prems(3) [of x] by simp
qed simp

lemma dlist_rehead:
  assumes "dlist E p ys" and "distinct ys" and "\<And>x. x \<in> set ys \<Longrightarrow> te_next (E' x) = te_next (E x)"
    and "\<And>x. x \<in> set ys \<Longrightarrow> x \<noteq> hd ys \<Longrightarrow> te_prev (E' x) = te_prev (E x)" and "ys \<noteq> [] \<Longrightarrow> te_prev (E' (hd ys)) = p'"
  shows "dlist E' p' ys"
proof (cases ys)
  case (Cons y zs)
  have "dlist E' (Some y) zs = dlist E (Some y) zs" by (rule dlist_cong) (use assms Cons in auto)
  then show ?thesis using assms Cons by auto
qed simp

lemma Unlink_sel:
  "same_rest (Unlink i W) W" "core (ent (Unlink i W) j) = core (ent W j)"
  "pos (ent (Unlink i W) j) = (if j = i then (None, te_slot (ent W i)) else pos (ent W j))"
  by (auto simp: Unlink_def Let_def core_def pos_def split: option.split)

lemma Unlink_ptrs:
  assumes "te_level (ent W i) = Some l" and "j \<noteq> i"
  shows "te_next (ent (Unlink i W) j) = (if te_prev (ent W i) = Some j then te_next (ent W i) else te_next (ent W j))"
    and "te_prev (ent (Unlink i W) j) = (if te_next (ent W i) = Some j then te_prev (ent W i) else te_prev (ent W j))"
  using assms by (auto simp: Unlink_def Let_def split: option.split)

lemma Unlink_heads:
  assumes "te_level (ent W i) = Some l"
  shows "heads (Unlink i W) l' s' =
    (if l' = l \<and> s' = te_slot (ent W i) \<and> te_prev (ent W i) = None then te_next (ent W i) else heads W l' s')"
  using assms by (auto simp: Unlink_def Let_def split: option.split)

lemma Unlink_occupied:
  assumes "te_level (ent W i) = Some l"
  shows "occupied (Unlink i W) l' s' \<longleftrightarrow>
    occupied W l' s' \<and> \<not> (l' = l \<and> s' = te_slot (ent W i) \<and> heads (Unlink i W) l' s' = None)"
  using assms by (auto simp: Unlink_def Let_def occupied_MarkEmpty split: option.split)

lemma Unlink_chains:
  assumes ok: "chains_ok X C W" and i: "i \<in> set (C l s)"
  shows "chains_ok X (upd_chain l s (remove1 i (C l s)) C) (Unlink i W)"
proof -
  let ?W = "Unlink i W" and ?C = "upd_chain l s (remove1 i (C l s)) C"
  have lv: "te_level (ent W i) = Some l" "te_slot (ent W i) = s" "i < ent_count W" "i \<notin> X"
    using chains_okD(4) [OF ok, of i l s] i by (auto simp: pos_def)
  obtain xs ys where xy: "C l s = xs @ i # ys" using i by (meson split_list)
  have dist: "distinct (xs @ i # ys)" using chains_okD(3) [OF ok, of l s] xy by simp
  then have rem: "remove1 i (C l s) = xs @ ys" by (simp add: xy remove1_append)
  have dl: "dlist (ent W) None (xs @ i # ys)" using chains_okD(2) [OF ok, of l s] xy by simp
  then have pi: "te_prev (ent W i) = opt_last xs" "te_next (ent W i) = opt_hd ys"
    and dx: "dseg (ent W) None xs (Some i)" and dy: "dlist (ent W) (Some i) ys"
    by (simp_all add: dlist_app opt_last_def)
  note ptr = Unlink_ptrs [OF lv(1)]
  have px: "te_prev (ent W i) = Some x \<Longrightarrow> x \<in> set (C l s)" "te_next (ent W i) = Some x \<Longrightarrow> x \<in> set (C l s)" for x
    using pi xy by (auto simp: opt_last_def opt_hd_def split: if_splits list.splits)
  have same: "j \<notin> set (C l s) \<Longrightarrow> te_next (ent ?W j) = te_next (ent W j) \<and> te_prev (ent ?W j) = te_prev (ent W j)" for j
    using ptr [of j] px i by metis
  have xi: "x \<noteq> i" if "x \<in> set xs \<union> set ys" for x using that dist by auto
  have nx: "te_next (ent ?W x) = (if opt_last xs = Some x then opt_hd ys else te_next (ent W x))"
    and pv: "te_prev (ent ?W x) = (if opt_hd ys = Some x then opt_last xs else te_prev (ent W x))"
    if "x \<in> set xs \<union> set ys" for x
    using ptr [of x] pi xi [OF that] by simp_all
  have el: "opt_last xs = Some x \<Longrightarrow> xs \<noteq> [] \<and> x = last xs" "opt_hd ys = Some x \<Longrightarrow> ys \<noteq> [] \<and> x = hd ys" for x
    by (auto simp: opt_last_def opt_hd_def split: if_splits list.splits)
  have new: "dlist (ent ?W) None (xs @ ys)"
  proof (subst dlist_app, intro conjI)
    show "dseg (ent ?W) None xs (opt_hd ys)"
    proof (rule dseg_retarget [OF dx])
      show "te_prev (ent ?W x) = te_prev (ent W x)" if "x \<in> set xs" for x
        using pv [of x] el(2) [of x] that dist hd_in_set [of ys] by auto
      show "te_next (ent ?W x) = te_next (ent W x)" if "x \<in> set xs" "x \<noteq> last xs" for x
        using nx [of x] el(1) [of x] that by auto
      show "te_next (ent ?W (last xs)) = opt_hd ys" if "xs \<noteq> []"
        using nx [of "last xs"] that by (simp add: opt_last_def)
    qed (use dist in simp)
    show "dlist (ent ?W) (if xs = [] then None else Some (last xs)) ys"
    proof (rule dlist_rehead [OF dy])
      show "te_next (ent ?W x) = te_next (ent W x)" if "x \<in> set ys" for x
      proof -
        have "opt_last xs = Some x \<Longrightarrow> x \<in> set xs" using el(1) [of x] by auto
        then have "opt_last xs \<noteq> Some x" using that dist by auto
        then show ?thesis using nx [of x] that by simp
      qed
      show "te_prev (ent ?W x) = te_prev (ent W x)" if "x \<in> set ys" "x \<noteq> hd ys" for x
        using pv [of x] el(2) [of x] that by auto
      show "te_prev (ent ?W (hd ys)) = (if xs = [] then None else Some (last xs))" if "ys \<noteq> []"
        using pv [of "hd ys"] that by (cases ys) (simp_all add: opt_last_def)
    qed (use dist in simp)
  qed
  have disj: "x \<notin> set (C l s)" if "x \<in> set (C l' s')" "\<not> (l' = l \<and> s' = s)" for x l' s'
    using that chains_okD(4) [OF ok] by auto
  have h: "heads ?W l' s' = opt_hd (?C l' s')" for l' s'
    using Unlink_heads [OF lv(1), of l' s'] pi chains_okD(1) [OF ok, of l' s'] rem xy lv(2)
    by (cases xs) (auto simp: opt_last_def split: if_splits)
  have cnt: "ent_count ?W = ent_count W" by (rule same_rest_sel(1) [OF Unlink_sel(1)])
  show ?thesis
  proof (unfold chains_ok_def cnt, intro conjI allI impI)
    show "heads ?W l' s' = opt_hd (?C l' s')" for l' s' by (rule h)
    show "dlist (ent ?W) None (?C l' s')" for l' s'
      using new rem chains_okD(2) [OF ok, of l' s'] same disj
      by (cases "l' = l \<and> s' = s") (simp, subst dlist_cong [of _ _ "ent W"], auto)
    show "distinct (?C l' s')" for l' s' using chains_okD(3) [OF ok] by simp
    show "j \<in> set (?C l' s') \<longleftrightarrow> j < ent_count W \<and> j \<notin> X \<and> pos (ent ?W j) = (Some l', s')" for l' s' j
      using chains_okD(4) [OF ok, of j l' s'] chains_okD(4) [OF ok, of i l' s'] chains_okD(4) [OF ok, of i l s] chains_okD(3) [OF ok, of l s] i
      unfolding Unlink_sel(3) by (cases "j = i") auto
    show "l' < kLevels" "te_slot (ent ?W j) < kSlots" if "j < ent_count W" "te_level (ent ?W j) = Some l'" for j l'
      using that chains_okD(5) [OF ok, of j l'] Unlink_sel(3) [of i W j] by (auto simp: pos_def split: if_splits)
    show "occupied ?W l' s' \<longleftrightarrow> ?C l' s' \<noteq> []" if "s' < kSlots" for l' s'
      using chains_okD(6) [OF ok that, of l'] Unlink_occupied [OF lv(1), of l' s'] h [of l' s'] lv(2) i by auto
  qed
qed

section \<open>Cascading\<close>

text \<open>The entries still to be placed are reachable through their \<^verbatim>\<open>next\<close> fields.\<close>

fun nchain :: "(nat \<Rightarrow> tentry) \<Rightarrow> nat list \<Rightarrow> bool" where
  "nchain E [] = True"
| "nchain E (x # xs) = (te_next (E x) = opt_hd xs \<and> nchain E xs)"

lemma nchain_cong: "(\<And>x. x \<in> set xs \<Longrightarrow> te_next (E' x) = te_next (E x)) \<Longrightarrow> nchain E' xs = nchain E xs"
  by (induction xs) auto

lemma dlist_nchain: "dlist E p xs \<Longrightarrow> nchain E xs"
  by (induction xs arbitrary: p) auto

definition target_pos :: "nat \<Rightarrow> nat \<Rightarrow> nat option \<times> nat" where
  "target_pos cur d = (case place_at cur d of (l, s) \<Rightarrow> (Some l, s))"

lemma place_at_range: "fst (place_at cur d) < kLevels" "snd (place_at cur d) < kSlots"
  by (auto simp: place_at_def kLevels_def kSlots_def find_Some_iff split: option.split)

lemma Place_sel:
  "same_rest (Place i d W) W" "core (ent (Place i d W) j) = core (ent W j)"
  "pos (ent (Place i d W) j) = (if j = i then target_pos (currentTick W) d else pos (ent W j))"
  "j \<noteq> i \<Longrightarrow> te_next (ent (Place i d W) j) = te_next (ent W j)"
  by (simp_all add: Place_def target_pos_def Link_sel split: prod.split)

lemma Place_chains:
  assumes "chains_ok X C W" and "i < ent_count W" and "i \<in> X \<or> te_level (ent W i) = None"
  shows "\<exists>C'. chains_ok (X - {i}) C' (Place i d W)"
proof -
  obtain l s where p: "place_at (currentTick W) d = (l, s)" by force
  then have "l < kLevels" "s < kSlots" using place_at_range [of "currentTick W" d] by auto
  then show ?thesis using Link_chains [OF assms] p by (auto simp: Place_def)
qed

text \<open>An entry outside the lists may change its links.\<close>

lemma chains_ok_detach:
  assumes ok: "chains_ok X C W" and i: "i \<in> X"
    and f: "te_level (f (ent W i)) = None"
  shows "chains_ok X C (set_ent i f W)"
proof -
  have iC: "i \<notin> set (C l s)" for l s using chains_okD(4) [OF ok] i by auto
  have d: "dlist ((ent W)(i := f (ent W i))) None (C l s)" for l s
    using chains_okD(2) [OF ok, of l s] iC [of l s] by (subst dlist_cong [of _ _ "ent W"]) auto
  show ?thesis
    unfolding chains_ok_def set_ent_sel
  proof (intro conjI allI impI)
    show "j \<in> set (C l s) \<longleftrightarrow> j < ent_count W \<and> j \<notin> X \<and> pos (((ent W)(i := f (ent W i))) j) = (Some l, s)" for l s j
      using chains_okD(4) [OF ok, of j l s] i by auto
  qed (use chains_okD [OF ok] d f in \<open>auto split: if_splits\<close>)
qed

lemma cascade_loop_spec:
  assumes "chains_ok (set xs) C W" and "nchain (ent W) xs" and "distinct xs" and "set xs \<subseteq> {..<ent_count W}"
  shows "\<exists>W' C'. cascade_loop (opt_hd xs) W = Some W' \<and> chains_ok {} C' W' \<and> same_rest W' W
      \<and> (\<forall>j. core (ent W' j) = core (ent W j))
      \<and> (\<forall>j. pos (ent W' j) = (if j \<in> set xs then target_pos (currentTick W) (deadlineTick (ent W j)) else pos (ent W j)))"
  using assms
proof (induction xs arbitrary: C W)
  case Nil
  then show ?case by (auto simp: cascade_loop.simps [of None])
next
  case (Cons x xs)
  let ?W1 = "set_ent x (\<lambda>e. e\<lparr>te_prev := None, te_next := None, te_level := None\<rparr>) W"
  let ?W2 = "Place x (deadlineTick (ent W x)) ?W1"
  have ok1: "chains_ok (set (x # xs)) C ?W1" by (rule chains_ok_detach [OF Cons.prems(1)]) auto
  have x: "x < ent_count ?W1" using Cons.prems(4) by simp
  obtain C2 where C2: "chains_ok (set (x # xs) - {x}) C2 ?W2" using Place_chains [OF ok1 x, of "deadlineTick (ent W x)"] by auto
  have ct: "currentTick ?W1 = currentTick W" by (simp add: set_ent_def)
  have p2: "pos (ent ?W2 j) = (if j = x then target_pos (currentTick W) (deadlineTick (ent W x)) else pos (ent W j))"
    "core (ent ?W2 j) = core (ent W j)" "j \<noteq> x \<Longrightarrow> te_next (ent ?W2 j) = te_next (ent W j)" for j
  proof -
    show "pos (ent ?W2 j) = (if j = x then target_pos (currentTick W) (deadlineTick (ent W x)) else pos (ent W j))"
      by (simp add: Place_sel(3) ct)
    have "core (ent ?W1 j) = core (ent W j)" by (simp add: core_def)
    then show "core (ent ?W2 j) = core (ent W j)" using Place_sel(2) by simp
    show "j \<noteq> x \<Longrightarrow> te_next (ent ?W2 j) = te_next (ent W j)" by (simp add: Place_sel(4))
  qed
  have sr2: "same_rest ?W2 W" using same_rest_trans [OF Place_sel(1)] by simp
  have ok2: "chains_ok (set xs) C2 ?W2" using C2 Cons.prems(3) by simp
  have "nchain (ent ?W2) xs = nchain (ent W) xs" by (rule nchain_cong, rule p2(3)) (use Cons.prems(3) in auto)
  then have n2: "nchain (ent ?W2) xs" using Cons.prems(2) by simp
  have "set xs \<subseteq> {..<ent_count ?W2}" using Cons.prems(4) same_rest_sel(1) [OF sr2] by auto
  from Cons.IH [OF ok2 n2 _ this] Cons.prems(3) obtain W' C' where IH:
    "cascade_loop (opt_hd xs) ?W2 = Some W'" "chains_ok {} C' W'" "same_rest W' ?W2"
    "\<forall>j. core (ent W' j) = core (ent ?W2 j)"
    "\<forall>j. pos (ent W' j) = (if j \<in> set xs then target_pos (currentTick ?W2) (deadlineTick (ent ?W2 j)) else pos (ent ?W2 j))"
    by auto
  have "cascade_loop (opt_hd (x # xs)) W = Some W'"
    using IH(1) Cons.prems(2) by (subst cascade_loop.simps) (simp add: Let_def)
  moreover have "pos (ent W' j) = (if j \<in> set (x # xs) then target_pos (currentTick W) (deadlineTick (ent W j)) else pos (ent W j))" for j
    using IH(5) p2(1) [of j] Cons.prems(3) core_sel(1) [OF p2(2)] same_rest_sel(3) [OF sr2] by auto
  ultimately show ?case using IH(2) same_rest_trans [OF IH(3) sr2] IH(4) p2(2) by (metis (no_types, lifting))
qed

lemma Cascade_spec:
  assumes ok: "chains_ok {} C W" and s: "s < kSlots"
  shows "\<exists>W' C'. Cascade l s W = Some W' \<and> chains_ok {} C' W' \<and> same_rest W' W
      \<and> (\<forall>j. core (ent W' j) = core (ent W j))
      \<and> (\<forall>j. pos (ent W' j) = (if j \<in> set (C l s) then target_pos (currentTick W) (deadlineTick (ent W j)) else pos (ent W j)))"
proof -
  let ?W1 = "MarkEmpty l s (set_head l s None W)"
  have ct: "currentTick ?W1 = currentTick W" by (simp add: MarkEmpty_def set_occ_def set_head_def)
  have ok1: "chains_ok (set (C l s)) (upd_chain l s [] C) ?W1"
    unfolding chains_ok_def
  proof (intro conjI allI impI)
    show "j \<in> set (upd_chain l s [] C l' s') \<longleftrightarrow> j < ent_count ?W1 \<and> j \<notin> set (C l s) \<and> pos (ent ?W1 j) = (Some l', s')" for l' s' j
      using chains_okD(4) [OF ok, of j l' s'] chains_okD(4) [OF ok, of j l s] by auto
    show "occupied ?W1 l' s' \<longleftrightarrow> upd_chain l s [] C l' s' \<noteq> []" if "s' < kSlots" for l' s'
      using chains_okD(6) [OF ok that] by (auto simp: occupied_MarkEmpty)
  qed (use chains_okD [OF ok] in auto)
  have n: "nchain (ent ?W1) (C l s)" "distinct (C l s)" "set (C l s) \<subseteq> {..<ent_count ?W1}"
    using dlist_nchain [OF chains_okD(2) [OF ok, of l s]] chains_okD(3) [OF ok] chains_okD(4) [OF ok, of _ l s] by auto
  have "same_rest ?W1 W" by simp
  then show ?thesis
    using cascade_loop_spec [OF ok1 n] same_rest_trans [of _ ?W1 W] chains_okD(1) [OF ok, of l s] ct
    by (auto simp: Cascade_def)
qed

section \<open>Advancing\<close>

text \<open>What a cascade does to the positions: each entry stays where it was, outside the slots given, or sits where
  its deadline belongs as seen from the new tick.\<close>

definition moved :: "wheel \<Rightarrow> wheel \<Rightarrow> (nat option \<times> nat) set \<Rightarrow> bool" where
  "moved W' W S \<longleftrightarrow> (\<forall>j < ent_count W. pos (ent W' j) = target_pos (currentTick W) (deadlineTick (ent W j))
         \<and> te_level (ent W j) \<noteq> None
     \<or> pos (ent W' j) = pos (ent W j) \<and> pos (ent W j) \<notin> S)"

lemma moved_trans:
  assumes "moved W'' W' S'" and "moved W' W S" and "same_rest W' W" and "\<And>j. core (ent W' j) = core (ent W j)"
  shows "moved W'' W (S \<union> S')"
  unfolding moved_def
proof (intro allI impI)
  fix j assume j: "j < ent_count W"
  let ?t = "target_pos (currentTick W) (deadlineTick (ent W j))"
  have "pos (ent W'' j) = ?t \<and> te_level (ent W' j) \<noteq> None \<or> pos (ent W'' j) = pos (ent W' j) \<and> pos (ent W' j) \<notin> S'"
    using assms(1) j unfolding moved_def same_rest_sel(1,3) [OF assms(3)] core_sel(1) [OF assms(4)] by blast
  moreover have "pos (ent W' j) = ?t \<and> te_level (ent W j) \<noteq> None \<or> pos (ent W' j) = pos (ent W j) \<and> pos (ent W j) \<notin> S"
    using assms(2) j unfolding moved_def by blast
  moreover have "pos (ent W' j) = pos (ent W j) \<Longrightarrow> te_level (ent W' j) = te_level (ent W j)" by (simp add: pos_def)
  ultimately show "pos (ent W'' j) = ?t \<and> te_level (ent W j) \<noteq> None
      \<or> pos (ent W'' j) = pos (ent W j) \<and> pos (ent W j) \<notin> S \<union> S'" by (elim disjE conjE) simp_all
qed

definition shifted :: "(nat option \<times> nat) set \<Rightarrow> wheel \<Rightarrow> wheel \<Rightarrow> bool" where
  "shifted S W' W \<longleftrightarrow>
     (\<exists>C'. chains_ok {} C' W') \<and> same_rest W' W \<and> (\<forall>j. core (ent W' j) = core (ent W j)) \<and> moved W' W S"

lemma shifted_trans: "shifted S' W'' W' \<Longrightarrow> shifted S W' W \<Longrightarrow> shifted (S \<union> S') W'' W"
  unfolding shifted_def using moved_trans [of W'' W' S' W S] same_rest_trans [of W'' W' W] by simp

lemma shifted_refl: "chains_ok {} C W \<Longrightarrow> (\<And>j. j < ent_count W \<Longrightarrow> pos (ent W j) \<notin> S) \<Longrightarrow> shifted S W W"
  unfolding shifted_def moved_def by auto

lemma Cascade_shifted:
  assumes ok: "chains_ok {} C W" and s: "s < kSlots"
  shows "\<exists>W'. Cascade l s W = Some W' \<and> shifted {(Some l, s)} W' W"
proof -
  obtain W1 C1 where W1: "Cascade l s W = Some W1" "chains_ok {} C1 W1" "same_rest W1 W" "\<forall>j. core (ent W1 j) = core (ent W j)"
    "\<forall>j. pos (ent W1 j) = (if j \<in> set (C l s) then target_pos (currentTick W) (deadlineTick (ent W j)) else pos (ent W j))"
    using Cascade_spec [OF ok s] by metis
  have "moved W1 W {(Some l, s)}"
    unfolding moved_def using W1(5) chains_okD(4) [OF ok, of _ l s] by (simp add: pos_def)
  then show ?thesis using W1(1-4) unfolding shifted_def by blast
qed

lemma sweep_spec:
  assumes "chains_ok {} C W" and "set ss \<subseteq> {..<kSlots}"
  shows "\<exists>W'. sweep l ss W = Some W' \<and> shifted (Pair (Some l) ` set ss) W' W"
  using assms
proof (induction ss arbitrary: C W)
  case Nil
  then show ?case using shifted_refl [of C W "{}"] by simp
next
  case (Cons s ss)
  have "\<exists>W1. (if heads W l s \<noteq> None then Cascade l s W else Some W) = Some W1 \<and> shifted {(Some l, s)} W1 W"
  proof (cases "heads W l s")
    case None
    then have "C l s = []" using chains_okD(1) [OF Cons.prems(1), of l s] by simp
    then have "shifted {(Some l, s)} W W"
      using shifted_refl [OF Cons.prems(1), of "{(Some l, s)}"] chains_okD(4) [OF Cons.prems(1), of _ l s] by simp
    then show ?thesis using None by simp
  next
    case (Some h)
    then show ?thesis using Cascade_shifted [OF Cons.prems(1)] Cons.prems(2) by simp
  qed
  then obtain W1 where W1: "(if heads W l s \<noteq> None then Cascade l s W else Some W) = Some W1" "shifted {(Some l, s)} W1 W" by blast
  then obtain C1 where "chains_ok {} C1 W1" unfolding shifted_def by blast
  with Cons.IH Cons.prems(2) obtain W' where IH: "sweep l ss W1 = Some W'" "shifted (Pair (Some l) ` set ss) W' W1" by fastforce
  have "sweep l (s # ss) W = Some W'" using W1(1) IH(1) by (simp split: if_splits)
  moreover have "shifted (Pair (Some l) ` set (s # ss)) W' W"
    using shifted_trans [OF IH(2) W1(2)] by simp
  ultimately show ?case by blast
qed

lemma passed_slots: "set (passed from to) \<subseteq> {..<kSlots}"
  by (auto simp: passed_def kSlots_def)

lemma gran_dvd: "l \<le> l' \<Longrightarrow> LevelGranularity l dvd LevelGranularity l'"
  by (simp add: LevelGranularity_def le_imp_power_dvd)

lemma div_gran_eq:
  assumes "a div LevelGranularity l = b div LevelGranularity l" and "l \<le> l'"
  shows "a div LevelGranularity l' = b div LevelGranularity l'"
proof -
  obtain k where k: "LevelGranularity l' = LevelGranularity l * k" using gran_dvd [OF assms(2)] by (auto elim: dvdE)
  show ?thesis using assms(1) by (simp add: k div_mult2_eq)
qed

definition passed_pos :: "nat \<Rightarrow> nat \<Rightarrow> nat set \<Rightarrow> (nat option \<times> nat) set" where
  "passed_pos from0 target L =
     {(Some l, s) | l s. l \<in> L \<and> from0 div LevelGranularity l \<noteq> target div LevelGranularity l
        \<and> s \<in> set (passed (from0 div LevelGranularity l) (target div LevelGranularity l))}"

lemma advance_levels_spec:
  assumes "chains_ok {} C W" and "sorted ls"
  shows "\<exists>W'. advance_levels from0 target ls W = Some W' \<and> shifted (passed_pos from0 target (set ls)) W' W"
  using assms
proof (induction ls arbitrary: C W)
  case Nil
  then show ?case using shifted_refl [of C W "passed_pos from0 target {}"] by (simp add: passed_pos_def)
next
  case (Cons l ls)
  let ?f = "from0 div LevelGranularity l" and ?t = "target div LevelGranularity l"
  show ?case
  proof (cases "?f = ?t")
    case True
    then have "from0 div LevelGranularity l' = target div LevelGranularity l'" if "l' \<in> set (l # ls)" for l'
      using div_gran_eq [OF True, of l'] that Cons.prems(2) by auto
    then have "passed_pos from0 target (set (l # ls)) = {}" unfolding passed_pos_def by blast
    then show ?thesis using True shifted_refl [OF Cons.prems(1), of "{}"] by simp
  next
    case False
    obtain W1 where W1: "sweep l (passed ?f ?t) W = Some W1" "shifted (Pair (Some l) ` set (passed ?f ?t)) W1 W"
      using sweep_spec [OF Cons.prems(1) passed_slots] by blast
    then obtain C1 where "chains_ok {} C1 W1" unfolding shifted_def by blast
    with Cons.IH Cons.prems(2) obtain W' where IH: "advance_levels from0 target ls W1 = Some W'"
      "shifted (passed_pos from0 target (set ls)) W' W1" by fastforce
    have "passed_pos from0 target (set (l # ls)) = Pair (Some l) ` set (passed ?f ?t) \<union> passed_pos from0 target (set ls)"
      using False unfolding passed_pos_def by auto
    then have "shifted (passed_pos from0 target (set (l # ls))) W' W" using shifted_trans [OF IH(2) W1(2)] by simp
    then show ?thesis using False W1(1) IH(1) by simp
  qed
qed

lemma chains_ok_tick: "chains_ok X C (W\<lparr>currentTick := t\<rparr>) \<longleftrightarrow> chains_ok X C W"
  by (simp add: chains_ok_def occupied_def)

text \<open>\<^verbatim>\<open>AdvanceTo\<close> always returns and moves entries without losing or changing one.\<close>

lemma AdvanceTo_spec:
  assumes ok: "chains_ok {} C W"
  shows "\<exists>W'. AdvanceTo t W = Some W' \<and> (if t \<le> currentTick W then W' = W
      else shifted (passed_pos (currentTick W) t {1..<kLevels}) W' (W\<lparr>currentTick := t\<rparr>))"
  using advance_levels_spec [of C "W\<lparr>currentTick := t\<rparr>" "[1..<kLevels]" "currentTick W" t] ok
  by (simp add: AdvanceTo_def chains_ok_tick)

end
