(* ===== verification/Timer_Queue.thy ===== *)
theory Timer_Queue
  imports Timer_Wheel
begin

text \<open>
  The timer queue as its clients see it (\<^verbatim>\<open>src/Timer.cpp\<close>, \<^verbatim>\<open>include/Timer.h\<close>): a map from handles to armed timers that
  \<^verbatim>\<open>Arm\<close>, \<^verbatim>\<open>Disarm\<close> and the worker's loop update, refined by the wheel; when timers fire; and two ways in which the
  code fires them late or never.
\<close>

section \<open>The invariant of the whole queue\<close>

fun fchain :: "(nat \<Rightarrow> tentry) \<Rightarrow> nat \<Rightarrow> nat list \<Rightarrow> bool" where
  "fchain E h [] \<longleftrightarrow> h = 0"
| "fchain E h (i # is') \<longleftrightarrow> h = i + 1 \<and> fchain E (te_nextFree (E i)) is'"

lemma fchain_cong: "(\<And>i. i \<in> set F \<Longrightarrow> te_nextFree (E' i) = te_nextFree (E i)) \<Longrightarrow> fchain E' h F = fchain E h F"
  by (induction F arbitrary: h) auto

definition armed_idx :: "wheel \<Rightarrow> nat set" where
  "armed_idx W = {i. i < ent_count W \<and> odd (te_gen (ent W i))}"

definition tinv :: "(nat \<Rightarrow> nat \<Rightarrow> nat list) \<Rightarrow> nat list \<Rightarrow> wheel \<Rightarrow> bool" where
  "tinv C F W \<longleftrightarrow>
     chains_ok {} C W \<and> fchain (ent W) (tw_freeHead W) F \<and> distinct F
   \<and> set F = {i. i < ent_count W \<and> even (te_gen (ent W i))}
   \<and> (\<forall>i < ent_count W. te_level (ent W i) \<noteq> None \<longleftrightarrow> odd (te_gen (ent W i)))
   \<and> armedCount W = card (armed_idx W) \<and> ent_count W < 2 ^ 32"

definition timer_inv :: "wheel \<Rightarrow> bool" where
  "timer_inv W \<longleftrightarrow> (\<exists>C F. tinv C F W)"

lemma finite_armed_idx [simp]: "finite (armed_idx W)"
  by (simp add: armed_idx_def)

lemma tinv_init: "tinv (\<lambda>_ _. []) [] wheel_init"
  by (simp add: tinv_def wheel_init_def chains_ok_def occupied_def armed_idx_def)

text \<open>Moving entries between slots keeps it.\<close>

lemma shifted_count: "shifted S W' W \<Longrightarrow> ent_count W' = ent_count W \<and> currentTick W' = currentTick W
    \<and> core (ent W' j) = core (ent W j)"
  using same_rest_sel [of W' W] by (simp add: shifted_def)

lemma pos_level: "te_level e = fst (pos e)"
  by (simp add: pos_def)

lemma shifted_level:
  assumes "shifted S W' W" and "i < ent_count W"
  shows "te_level (ent W' i) = None \<longleftrightarrow> te_level (ent W i) = None"
proof -
  have "pos (ent W' i) = target_pos (currentTick W) (deadlineTick (ent W i)) \<and> te_level (ent W i) \<noteq> None
      \<or> pos (ent W' i) = pos (ent W i)"
    using assms by (auto simp: shifted_def moved_def)
  then show ?thesis by (auto simp: pos_level target_pos_def split: prod.splits)
qed

lemma tinv_shifted:
  assumes inv: "tinv C F W" and sh: "shifted S W' W"
  shows "\<exists>C'. tinv C' F W'"
proof -
  obtain C' where C': "chains_ok {} C' W'" using sh by (auto simp: shifted_def)
  have sr: "same_rest W' W" and co: "\<And>j. core (ent W' j) = core (ent W j)" using sh by (auto simp: shifted_def)
  note s = same_rest_sel [OF sr] and c = core_sel [OF co]
  have "armed_idx W' = armed_idx W" by (simp add: armed_idx_def s c)
  moreover have "fchain (ent W') (tw_freeHead W) F = fchain (ent W) (tw_freeHead W) F" by (rule fchain_cong) (simp add: c)
  ultimately have "tinv C' F W'"
    using inv C' shifted_level [OF sh] unfolding tinv_def s c by simp
  then show ?thesis by blast
qed

lemma tinv_tick: "tinv C F (W\<lparr>currentTick := t\<rparr>) \<longleftrightarrow> tinv C F W"
  by (simp add: tinv_def chains_ok_tick armed_idx_def)

lemma tinv_mode: "tinv C F (W\<lparr>wmode := m\<rparr>) \<longleftrightarrow> tinv C F W"
  by (simp add: tinv_def chains_ok_def occupied_def armed_idx_def)

lemma AdvanceTo_returns:
  assumes "tinv C F W"
  obtains W' C' where "AdvanceTo t W = Some W'" "tinv C' F W'" "currentTick W' = max t (currentTick W)"
    "\<And>j. core (ent W' j) = core (ent W j)" "ent_count W' = ent_count W"
    "t \<le> currentTick W \<Longrightarrow> W' = W"
    "currentTick W < t \<Longrightarrow> shifted (passed_pos (currentTick W) t {1..<kLevels}) W' (W\<lparr>currentTick := t\<rparr>)"
    "stopping W' = stopping W" "wmode W' = wmode W"
proof -
  have "chains_ok {} C W" using assms by (simp add: tinv_def)
  from AdvanceTo_spec [OF this, of t] obtain W' where W': "AdvanceTo t W = Some W'"
    "if t \<le> currentTick W then W' = W else shifted (passed_pos (currentTick W) t {1..<kLevels}) W' (W\<lparr>currentTick := t\<rparr>)" by blast
  show thesis
  proof (cases "t \<le> currentTick W")
    case True
    then show thesis using that [of W' C] W' assms by (simp add: max_def)
  next
    case False
    then have sh: "shifted (passed_pos (currentTick W) t {1..<kLevels}) W' (W\<lparr>currentTick := t\<rparr>)" using W'(2) by simp
    obtain C' where "tinv C' F W'" using tinv_shifted [OF _ sh] assms by (auto simp: tinv_tick)
    moreover have "same_rest W' (W\<lparr>currentTick := t\<rparr>)" using sh by (simp add: shifted_def)
    ultimately show thesis
      using that [of W' C'] W'(1) False sh shifted_count [OF sh] same_rest_sel [of W' "W\<lparr>currentTick := t\<rparr>"] by simp
  qed
qed

section \<open>Retiring an entry\<close>

lemma retire_sel:
  "ent_count (retire i W) = ent_count W" "currentTick (retire i W) = currentTick W" "armedCount (retire i W) = armedCount W - 1"
  "tw_freeHead (retire i W) = i + 1" "stopping (retire i W) = stopping W" "wmode (retire i W) = wmode W"
  using same_rest_sel [OF Unlink_sel(1), of i W] by (simp_all add: retire_def ReleaseEntry_def set_ent_def)

lemma retire_ent:
  "te_gen (ent (retire i W) j) = te_gen (ent W j) + (if j = i then 1 else 0)"
  "j \<noteq> i \<Longrightarrow> core (ent (retire i W) j) = core (ent W j) \<and> pos (ent (retire i W) j) = pos (ent W j)"
  "te_level (ent (retire i W) i) = None" "te_nextFree (ent (retire i W) i) = tw_freeHead W"
  "j \<noteq> i \<Longrightarrow> te_next (ent (retire i W) j) = te_next (ent (Unlink i W) j)"
  using Unlink_sel(2) [of i W j] Unlink_sel(3) [of i W j] same_rest_sel [OF Unlink_sel(1), of i W]
    core_sel [OF Unlink_sel(2) [of i W j]] core_sel [OF Unlink_sel(2) [of i W i]]
  by (simp_all add: retire_def ReleaseEntry_def set_ent_def)

lemma chains_ok_free_upd:
  assumes ok: "chains_ok X C W" and i: "te_level (ent W i) = None"
    and f: "te_level (f (ent W i)) = None"
  shows "chains_ok X C (set_ent i f W)"
proof -
  have iC: "i \<notin> set (C l s)" for l s using chains_okD(4) [OF ok] i by (auto simp: pos_def)
  have d: "dlist ((ent W)(i := f (ent W i))) None (C l s)" for l s
    using chains_okD(2) [OF ok, of l s] iC [of l s] by (subst dlist_cong [of _ _ "ent W"]) auto
  show ?thesis
    unfolding chains_ok_def set_ent_sel
  proof (intro conjI allI impI)
    show "j \<in> set (C l s) \<longleftrightarrow> j < ent_count W \<and> j \<notin> X \<and> pos (((ent W)(i := f (ent W i))) j) = (Some l, s)" for l s j
      using chains_okD(4) [OF ok, of j l s] i f by (auto simp: pos_def)
  qed (use chains_okD [OF ok] d f in \<open>auto split: if_splits\<close>)
qed

lemma chains_ok_scalar:
  "chains_ok X C (W\<lparr>tw_freeHead := h\<rparr>) \<longleftrightarrow> chains_ok X C W" "chains_ok X C (W\<lparr>armedCount := n\<rparr>) \<longleftrightarrow> chains_ok X C W"
  by (simp_all add: chains_ok_def occupied_def)

lemma retire_inv:
  assumes inv: "tinv C F W" and i: "i \<in> set (C l s)"
  shows "tinv (upd_chain l s (remove1 i (C l s)) C) (i # F) (retire i W)"
proof -
  have ok: "chains_ok {} C W" using inv by (simp add: tinv_def)
  have ic: "i < ent_count W" "te_level (ent W i) = Some l" using chains_okD(4) [OF ok, of i l s] i by (auto simp: pos_def)
  have lv: "\<forall>j < ent_count W. te_level (ent W j) \<noteq> None \<longleftrightarrow> odd (te_gen (ent W j))" using inv by (simp add: tinv_def)
  then have odd: "odd (te_gen (ent W i))" using ic by force
  then have iF: "i \<notin> set F" using inv by (auto simp: tinv_def)
  let ?W1 = "Unlink i W" and ?W2 = "set_ent i (te_gen_update (\<lambda>g. g + 1)) (Unlink i W)"
  have "chains_ok {} (upd_chain l s (remove1 i (C l s)) C) ?W1" by (rule Unlink_chains [OF ok i])
  moreover have lv1: "te_level (ent ?W1 i) = None" using Unlink_sel(3) [of i W i] by (simp add: pos_def)
  ultimately have "chains_ok {} (upd_chain l s (remove1 i (C l s)) C) ?W2" by (intro chains_ok_free_upd) simp_all
  then have ch: "chains_ok {} (upd_chain l s (remove1 i (C l s)) C) (retire i W)"
    using chains_ok_free_upd [of "{}" _ ?W2 i "\<lambda>e. e\<lparr>te_eject := None, te_ctx := 0, te_token := kNone, te_level := None,
                       te_nextFree := tw_freeHead ?W2\<rparr>"] lv1
    unfolding retire_def ReleaseEntry_def chains_ok_scalar by simp
  have g: "odd (te_gen (ent (retire i W) j)) \<longleftrightarrow> odd (te_gen (ent W j)) \<and> j \<noteq> i" for j
    using odd by (auto simp: retire_ent(1))
  have ai: "armed_idx (retire i W) = armed_idx W - {i}" by (auto simp: armed_idx_def retire_sel g)
  have lv2: "te_level (ent (retire i W) j) = (if j = i then None else te_level (ent W j))" for j
    using retire_ent(2) [of j i W] retire_ent(3) [of i W] by (simp add: pos_def)
  have nf: "te_nextFree (ent (retire i W) j) = (if j = i then tw_freeHead W else te_nextFree (ent W j))" for j
    using retire_ent(2) [of j i W] core_sel(6) [of "ent (retire i W) j" "ent W j"] retire_ent(4) [of i W] by simp
  have "fchain (ent (retire i W)) (tw_freeHead W) F"
    using inv iF by (subst fchain_cong [of _ _ "ent W"]) (auto simp: nf tinv_def)
  moreover have "card (armed_idx W - {i}) = card (armed_idx W) - 1"
    using ic(1) odd by (intro card_Diff_singleton) (simp add: armed_idx_def)
  moreover have "set (i # F) = {j. j < ent_count W \<and> even (te_gen (ent (retire i W) j))}"
    using inv ic(1) g by (auto simp: tinv_def)
  moreover have "\<forall>j < ent_count W. te_level (ent (retire i W) j) \<noteq> None \<longleftrightarrow> odd (te_gen (ent (retire i W) j))"
    using lv unfolding lv2 g by simp
  moreover have "distinct (i # F)" "armedCount W = card (armed_idx W)" "ent_count W < 2 ^ 32" using inv iF by (simp_all add: tinv_def)
  ultimately show ?thesis
    using ch unfolding tinv_def retire_sel ai by (simp add: nf)
qed

section \<open>Handles\<close>

lemma mask32: "(0xFFFFFFFF :: u64) = mask 32"
  by (simp add: mask_eq_exp_minus_1)

lemma small64: "i < 2 ^ 32 \<Longrightarrow> take_bit 32 (word_of_nat i :: u64) = word_of_nat i"
  unfolding word_unat_eq_iff by (simp add: take_bit_eq_mod unat_mod_distrib unat_of_nat)

lemma handle_idx:
  assumes "i < 2 ^ 32"
  shows "unat (handle i g AND 0xFFFFFFFF) = i"
proof -
  have "take_bit 32 (push_bit 32 (ucast g) OR take_bit 32 (word_of_nat i)) = take_bit 32 (word_of_nat i :: u64)"
    by (rule bit_word_eqI) (auto simp: bit_simps)
  then have "handle i g AND 0xFFFFFFFF = word_of_nat i"
    unfolding handle_def mask32 take_bit_eq_mask [symmetric] small64 [OF assms] .
  then show ?thesis using assms by (simp add: unat_of_nat)
qed

lemma handle_gen32:
  assumes "i < 2 ^ 32"
  shows "ucast (drop_bit 32 (handle i g)) = g"
proof -
  have "ucast (drop_bit 32 (push_bit 32 (ucast g) OR take_bit 32 (word_of_nat i) :: u64)) = g"
    by (rule bit_word_eqI) (auto simp: bit_simps)
  then show ?thesis unfolding handle_def small64 [OF assms] .
qed

lemma handle_split: "handle (unat (h AND 0xFFFFFFFF)) (ucast (drop_bit 32 h)) = h"
proof -
  have "push_bit 32 (ucast (ucast (drop_bit 32 h) :: u32)) OR take_bit 32 h = h" for h :: u64
    by (rule bit_word_eqI) (auto simp: bit_simps)
  then show ?thesis unfolding handle_def mask32 take_bit_eq_mask [symmetric] by (simp add: unsigned_of_nat)
qed

lemma handle_nonzero: "i < 2 ^ 32 \<Longrightarrow> odd g \<Longrightarrow> handle i g \<noteq> 0"
  using handle_gen32 [of i g] by auto

lemma handle_eq_iff: "i < 2 ^ 32 \<Longrightarrow> j < 2 ^ 32 \<Longrightarrow> handle i g = handle j g' \<longleftrightarrow> i = j \<and> g = g'"
  by (metis handle_idx handle_gen32)

text \<open>What a client sees: the timers armed now, by handle.\<close>

type_synonym timer = "nat \<times> u32 \<times> nat option \<times> nat"   \<comment> \<open>deadline, token, eject, ctx\<close>

definition timer_of :: "tentry \<Rightarrow> timer" where
  "timer_of e = (deadlineTick e, te_token e, te_eject e, te_ctx e)"

definition armed :: "wheel \<Rightarrow> u64 \<Rightarrow> timer option" where
  "armed W h =
     (let i = unat (h AND 0xFFFFFFFF); g = ucast (drop_bit 32 h) :: u32 in
      if i < ent_count W \<and> te_gen (ent W i) = g \<and> bit g 0 then Some (timer_of (ent W i)) else None)"

lemma armed_alt:
  "armed W h =
     (let i = unat (h AND 0xFFFFFFFF); g = ucast (drop_bit 32 h) :: u32 in
      if i < ent_count W \<and> te_gen (ent W i) = g \<and> odd g then Some (timer_of (ent W i)) else None)"
  unfolding armed_def bit_0 ..

lemma armed_handle:
  "i < 2 ^ 32 \<Longrightarrow> armed W (handle i g) = (if i < ent_count W \<and> te_gen (ent W i) = g \<and> odd g then Some (timer_of (ent W i)) else None)"
  by (simp add: armed_alt Let_def handle_idx handle_gen32)

lemma all_handles: "(\<And>i g. i < 2 ^ 32 \<Longrightarrow> P (handle i g)) \<Longrightarrow> P h"
proof -
  assume "\<And>i g. i < 2 ^ 32 \<Longrightarrow> P (handle i g)"
  moreover have "unat (h AND 0xFFFFFFFF) < 2 ^ 32"
    unfolding mask32 take_bit_eq_mask [symmetric] by (simp add: take_bit_eq_mod unat_mod_distrib)
  ultimately show "P h" using handle_split [of h] by metis
qed

lemma armed_cong:
  assumes "ent_count W' = ent_count W" and "\<And>j. core (ent W' j) = core (ent W j)"
  shows "armed W' = armed W"
proof -
  have "timer_of (ent W' j) = timer_of (ent W j)" for j by (simp add: timer_of_def core_sel [OF assms(2)])
  then show ?thesis by (intro ext) (simp add: armed_alt Let_def assms(1) core_sel [OF assms(2)])
qed

lemma armed_retire:
  assumes "tinv C F W" and "i \<in> armed_idx W"
  shows "armed (retire i W) = (armed W)(handle i (te_gen (ent W i)) := None)"
proof
  fix h
  show "armed (retire i W) h = ((armed W)(handle i (te_gen (ent W i)) := None)) h"
  proof (rule all_handles [of _ h])
    fix j g assume j: "j < (2 :: nat) ^ 32"
    have "i < 2 ^ 32" "odd (te_gen (ent W i))" using assms by (auto simp: tinv_def armed_idx_def)
    then show "armed (retire i W) (handle j g) = ((armed W)(handle i (te_gen (ent W i)) := None)) (handle j g)"
      using j retire_ent(1) [of i W j] retire_ent(2) [of j i W] core_sel [of "ent (retire i W) j" "ent W j"]
      by (cases "j = i") (auto simp: armed_handle handle_eq_iff retire_sel timer_of_def)
  qed
qed

section \<open>Reading the lists\<close>

text \<open>What the links say: the entries met on the way from a slot's head, and from the head of the free list. A list has at most as many entries as there are.\<close>

fun walk_next :: "nat \<Rightarrow> (nat \<Rightarrow> tentry) \<Rightarrow> nat option \<Rightarrow> nat list" where
  "walk_next 0 E p = []"
| "walk_next (Suc k) E p = (case p of None \<Rightarrow> [] | Some i \<Rightarrow> i # walk_next k E (te_next (E i)))"

fun walk_free :: "nat \<Rightarrow> (nat \<Rightarrow> tentry) \<Rightarrow> nat \<Rightarrow> nat list" where
  "walk_free 0 E h = []"
| "walk_free (Suc k) E h = (if h = 0 then [] else (h - 1) # walk_free k E (te_nextFree (E (h - 1))))"

definition slot_list :: "wheel \<Rightarrow> nat \<Rightarrow> nat \<Rightarrow> nat list" where
  "slot_list W l s = walk_next (ent_count W) (ent W) (heads W l s)"

definition free_list :: "wheel \<Rightarrow> nat list" where
  "free_list W = walk_free (ent_count W) (ent W) (tw_freeHead W)"

lemma walk_dlist: "dlist E p xs \<Longrightarrow> length xs \<le> k \<Longrightarrow> walk_next k E (opt_hd xs) = xs"
proof (induction xs arbitrary: p k)
  case Nil
  then show ?case by (cases k) simp_all
next
  case (Cons x xs)
  then show ?case by (cases k) auto
qed

lemma walk_fchain: "fchain E h F \<Longrightarrow> length F \<le> k \<Longrightarrow> walk_free k E h = F"
proof (induction F arbitrary: h k)
  case Nil
  then show ?case by (cases k) simp_all
next
  case (Cons x F)
  then show ?case by (cases k) auto
qed

lemma distinct_below: "distinct xs \<Longrightarrow> (\<And>x. x \<in> set xs \<Longrightarrow> x < n) \<Longrightarrow> length xs \<le> n"
  using card_mono [of "{..<n}" "set xs"] distinct_card [of xs] by auto

lemma lists_read:
  assumes inv: "tinv C F W"
  shows "slot_list W l s = C l s" "free_list W = F"
proof -
  have ok: "chains_ok {} C W" using inv by (simp add: tinv_def)
  have "length (C l s) \<le> ent_count W" by (rule distinct_below [OF chains_okD(3) [OF ok]]) (simp add: chains_okD(4) [OF ok])
  then show "slot_list W l s = C l s" unfolding slot_list_def chains_okD(1) [OF ok] by (rule walk_dlist [OF chains_okD(2) [OF ok]])
  have "fchain (ent W) (tw_freeHead W) F" "length F \<le> ent_count W" using inv distinct_below [of F "ent_count W"] by (auto simp: tinv_def)
  then show "free_list W = F" unfolding free_list_def by (rule walk_fchain)
qed

section \<open>Disarm\<close>

lemma linked_armed:
  assumes "tinv C F W"
  shows "i \<in> armed_idx W \<longleftrightarrow> (\<exists>l s. i \<in> set (C l s))"
proof -
  have ok: "chains_ok {} C W" and lv: "\<forall>i < ent_count W. te_level (ent W i) \<noteq> None \<longleftrightarrow> odd (te_gen (ent W i))"
    using assms by (simp_all add: tinv_def)
  show ?thesis using lv unfolding chains_okD(4) [OF ok] by (auto simp: armed_idx_def pos_def)
qed

lemma Disarm_correct:
  assumes "timer_inv W" and "Disarm h W = (ok, W')"
  shows "(ok \<longleftrightarrow> armed W h \<noteq> None) \<and> armed W' = (armed W)(h := None) \<and> timer_inv W'
      \<and> PendingCount W' = PendingCount W - (if ok then 1 else 0)"
proof -
  obtain C F where inv: "tinv C F W" using assms(1) by (auto simp: timer_inv_def)
  let ?i = "unat (h AND 0xFFFFFFFF)" and ?g = "ucast (drop_bit 32 h) :: u32"
  have nz: "armed W h \<noteq> None \<Longrightarrow> h \<noteq> 0" by (auto simp: armed_alt Let_def split: if_splits)
  show ?thesis
  proof (cases "armed W h = None")
    case True
    then have "ok = False" "W' = W"
      using assms(2) by (auto simp: Disarm_def armed_alt Let_def and_one_eq mod2_eq_if split: if_splits)
    then show ?thesis using True assms(1) by (auto simp: fun_eq_iff)
  next
    case False
    then have i: "?i \<in> armed_idx W" "te_gen (ent W ?i) = ?g" "odd ?g"
      by (auto simp: armed_alt Let_def armed_idx_def split: if_splits)
    then have r: "ok = True" "W' = retire ?i W"
      using assms(2) nz False by (auto simp: Disarm_def Let_def armed_idx_def and_one_eq mod2_eq_if split: if_splits)
    obtain l s where "?i \<in> set (C l s)" using linked_armed [OF inv] i(1) by blast
    from retire_inv [OF inv this] have "timer_inv W'" using r(2) by (auto simp: timer_inv_def)
    moreover have "armed W' = (armed W)(h := None)" using armed_retire [OF inv i(1)] r(2) i(2) handle_split [of h] by simp
    ultimately show ?thesis using False r by (simp add: PendingCount_def retire_sel)
  qed
qed

lemma Disarm_lists:
  assumes inv: "tinv C F W" and a: "armed W h \<noteq> None" and d: "Disarm h W = (ok, W')" and i: "i = unat (h AND 0xFFFFFFFF)"
  shows "\<exists>l < kLevels. \<exists>s < kSlots. i \<in> set (slot_list W l s)" "slot_list W' l s = remove1 i (slot_list W l s)" "i \<notin> set (slot_list W' l s)"
    "free_list W' = i # free_list W" "s < kSlots \<Longrightarrow> occupied W' l s \<longleftrightarrow> slot_list W' l s \<noteq> []"
proof -
  let ?g = "ucast (drop_bit 32 h) :: u32"
  have g: "i \<in> armed_idx W" "te_gen (ent W i) = ?g" "odd ?g" "h \<noteq> 0" using a by (auto simp: armed_alt Let_def armed_idx_def i split: if_splits)
  then have W': "W' = retire i W" using d by (auto simp: Disarm_def Let_def armed_idx_def i and_one_eq mod2_eq_if split: if_splits)
  obtain l' s' where m: "i \<in> set (C l' s')" using linked_armed [OF inv] g(1) by blast
  have ok: "chains_ok {} C W" using inv by (simp add: tinv_def)
  have p: "i < ent_count W" "pos (ent W i) = (Some l', s')" using m chains_okD(4) [OF ok] by auto
  then show "\<exists>l < kLevels. \<exists>s < kSlots. i \<in> set (slot_list W l s)"
    using chains_okD(5) [OF ok, of i l'] m by (auto simp: lists_read [OF inv] pos_def)
  have inv': "tinv (upd_chain l' s' (remove1 i (C l' s')) C) (i # F) W'" unfolding W' by (rule retire_inv [OF inv m])
  have n: "i \<notin> set (C l s)" if "\<not> (l = l' \<and> s = s')" using that p(2) chains_okD(4) [OF ok, of i l s] by auto
  then show r: "slot_list W' l s = remove1 i (slot_list W l s)" by (auto simp: lists_read [OF inv] lists_read [OF inv'] remove1_idem)
  show "i \<notin> set (slot_list W' l s)" unfolding r lists_read [OF inv] using chains_okD(3) [OF ok, of l s] by simp
  show "free_list W' = i # free_list W" by (simp add: lists_read [OF inv] lists_read [OF inv'])
  show "occupied W' l s \<longleftrightarrow> slot_list W' l s \<noteq> []" if "s < kSlots"
  proof -
    have "chains_ok {} (upd_chain l' s' (remove1 i (C l' s')) C) W'" using inv' by (simp add: tinv_def)
    from chains_okD(6) [OF this that] show ?thesis unfolding lists_read(1) [OF inv'] .
  qed
qed

section \<open>Arm\<close>

definition pool_rest :: "nat \<Rightarrow> nat list \<Rightarrow> wheel \<Rightarrow> bool" where
  "pool_rest i F W \<longleftrightarrow> fchain (ent W) (tw_freeHead W) F \<and> distinct (i # F)
     \<and> set (i # F) = {j. j < ent_count W \<and> even (te_gen (ent W j))}"

lemma AcquireEntry_spec:
  assumes inv: "tinv C F W" and lt: "ent_count W + 1 < 2 ^ 32" and a: "AcquireEntry W = (i, W')"
  shows "\<exists>F'. pool_rest i F' W' \<and> chains_ok {} C W' \<and> te_level (ent W' i) = None
      \<and> armed_idx W' = armed_idx W \<and> (\<forall>j < ent_count W'. te_level (ent W' j) \<noteq> None \<longleftrightarrow> odd (te_gen (ent W' j)))
      \<and> ent_count W' < 2 ^ 32 \<and> armedCount W' = armedCount W \<and> currentTick W' = currentTick W \<and> armed W' = armed W
      \<and> wmode W' = wmode W \<and> (\<forall>j \<in> armed_idx W. ent W' j = ent W j)"
proof (cases F)
  case Nil
  then have f: "tw_freeHead W = 0" and ev: "\<forall>j < ent_count W. odd (te_gen (ent W j))" using inv by (auto simp: tinv_def)
  have i: "i = ent_count W" "W' = W\<lparr>ent := (ent W)(ent_count W := new_entry), ent_count := ent_count W + 1\<rparr>"
    using a f by (auto simp: AcquireEntry_def)
  have ok: "chains_ok {} C W" using inv by (simp add: tinv_def)
  have iC: "i \<notin> set (C l s)" for l s using chains_okD(4) [OF ok, of i l s] i by simp
  have d: "dlist ((ent W)(i := new_entry)) None (C l s)" for l s
    using chains_okD(2) [OF ok, of l s] iC [of l s] by (subst dlist_cong [of _ _ "ent W"]) auto
  have "chains_ok {} C W'"
    unfolding chains_ok_def
  proof (intro conjI allI impI)
    show "j \<in> set (C l s) \<longleftrightarrow> j < ent_count W' \<and> j \<notin> {} \<and> pos (ent W' j) = (Some l, s)" for l s j
      using chains_okD(4) [OF ok, of j l s] by (auto simp: i pos_def new_entry_def less_Suc_eq)
    show "occupied W' l s \<longleftrightarrow> C l s \<noteq> []" if "s < kSlots" for l s
      using chains_okD(6) [OF ok that, of l] by (simp add: i occupied_def)
  qed (use chains_okD [OF ok] d in \<open>auto simp: i new_entry_def less_Suc_eq split: if_splits\<close>)
  moreover have "pool_rest i [] W'" using ev f by (auto simp: pool_rest_def i new_entry_def less_Suc_eq)
  moreover have "armed_idx W' = armed_idx W" by (auto simp: armed_idx_def i new_entry_def less_Suc_eq)
  moreover have "armed W' h = armed W h" for h
    by (rule all_handles [of _ h]) (auto simp: armed_handle i new_entry_def less_Suc_eq)
  moreover have "\<forall>j < ent_count W'. te_level (ent W' j) \<noteq> None \<longleftrightarrow> odd (te_gen (ent W' j))"
    using inv by (simp add: tinv_def i new_entry_def less_Suc_eq)
  ultimately show ?thesis using lt by (auto simp: i new_entry_def fun_eq_iff armed_idx_def)
next
  case (Cons k F')
  then have f: "tw_freeHead W = k + 1" "fchain (ent W) (te_nextFree (ent W k)) F'" "distinct (k # F')"
    "set (k # F') = {j. j < ent_count W \<and> even (te_gen (ent W j))}" using inv by (auto simp: tinv_def)
  have i: "i = k" "W' = W\<lparr>tw_freeHead := te_nextFree (ent W k)\<rparr>" using a f(1) by (auto simp: AcquireEntry_def Let_def)
  have lv: "\<forall>j < ent_count W. te_level (ent W j) \<noteq> None \<longleftrightarrow> odd (te_gen (ent W j))" using inv by (simp add: tinv_def)
  moreover have "k < ent_count W" "even (te_gen (ent W k))" using f(4) by auto
  ultimately have "te_level (ent W k) = None" by force
  moreover have "pool_rest k F' W'" using f by (simp add: pool_rest_def i)
  moreover have "chains_ok {} C W'" using inv by (simp add: i chains_ok_scalar tinv_def)
  moreover have "armed W' = armed W" by (rule armed_cong) (simp_all add: i)
  ultimately show ?thesis using inv lv by (auto simp: i armed_idx_def tinv_def)
qed

text \<open>Filling the entry and placing it.\<close>

lemma place_inv:
  assumes pool: "pool_rest i F W" and ok: "chains_ok {} C W" and lv: "te_level (ent W i) = None"
    and lvs: "\<forall>j < ent_count W. te_level (ent W j) \<noteq> None \<longleftrightarrow> odd (te_gen (ent W j))"
    and cnt: "armedCount W = card (armed_idx W)" "ent_count W < 2 ^ 32"
    and W3_def: "W3 = set_ent i (fill dl tok eject ctx) W"
    and W4_def: "W4 = (Place i dl W3)\<lparr>armedCount := armedCount W3 + 1\<rparr>"
  shows "\<exists>C'. tinv C' F W4" "armed_idx W4 = insert i (armed_idx W)"
    "armed W4 = (armed W)(handle i (te_gen (ent W4 i)) \<mapsto> (dl, tok, eject, ctx))" "armed W (handle i (te_gen (ent W4 i))) = None"
    "odd (te_gen (ent W4 i))" "i < ent_count W4" "currentTick W4 = currentTick W"
    "pos (ent W4 j) = (if j = i then target_pos (currentTick W) dl else pos (ent W j))"
    "j \<noteq> i \<Longrightarrow> deadlineTick (ent W4 j) = deadlineTick (ent W j)" "deadlineTick (ent W4 i) = dl"
    "armedCount W4 = armedCount W + 1" "ent_count W4 = ent_count W"
proof -
  have i: "i < ent_count W" "even (te_gen (ent W i))" using pool by (auto simp: pool_rest_def)
  have c3: "currentTick W3 = currentTick W" "ent_count W3 = ent_count W" "armedCount W3 = armedCount W" "tw_freeHead W3 = tw_freeHead W"
    by (simp_all add: W3_def set_ent_def)
  note sr = same_rest_sel [OF Place_sel(1), of i dl W3]
  have e4: "ent W4 = ent (Place i dl W3)" by (simp add: W4_def)
  have co: "core (ent W4 j) = core (ent W3 j)" for j unfolding e4 by (rule Place_sel(2))
  have g: "te_gen (ent W4 j) = (if j = i then te_gen (ent W i) + 1 else te_gen (ent W j))" for j
    using core_sel(5) [OF co, of j] by (simp add: W3_def fill_def)
  have nf: "te_nextFree (ent W4 j) = te_nextFree (ent W j)" for j using core_sel(6) [OF co, of j] by (simp add: W3_def fill_def)
  have tm: "timer_of (ent W4 j) = (if j = i then (dl, tok, eject, ctx) else timer_of (ent W j))" for j
    using core_sel [OF co, of j] by (simp add: timer_of_def W3_def fill_def)
  show n4: "ent_count W4 = ent_count W" "currentTick W4 = currentTick W" "armedCount W4 = armedCount W + 1"
    using sr c3 by (simp_all add: W4_def)
  have "chains_ok {} C W3" unfolding W3_def by (rule chains_ok_free_upd [OF ok lv]) (simp add: fill_def lv)
  moreover have "te_level (ent W3 i) = None" by (simp add: W3_def fill_def lv)
  ultimately obtain C' where C': "chains_ok {} C' (Place i dl W3)" using Place_chains [of "{}" C W3 i dl] i(1) c3 by auto
  show ps: "pos (ent W4 j) = (if j = i then target_pos (currentTick W) dl else pos (ent W j))" for j
    unfolding e4 Place_sel(3) c3 by (simp add: W3_def fill_def)
  show od: "odd (te_gen (ent W4 i))" using i(2) by (simp add: g)
  show "i < ent_count W4" using i n4 by simp
  show ai: "armed_idx W4 = insert i (armed_idx W)" using i by (auto simp: armed_idx_def n4 g)
  show "j \<noteq> i \<Longrightarrow> deadlineTick (ent W4 j) = deadlineTick (ent W j)" "deadlineTick (ent W4 i) = dl" for j
    using core_sel(1) [OF co, of j] core_sel(1) [OF co, of i] by (simp_all add: W3_def fill_def)
  have lv4: "te_level (ent W4 j) = (if j = i then fst (target_pos (currentTick W) dl) else te_level (ent W j))" for j
    using ps [of j] by (simp add: pos_level split: if_splits)
  have "fst (target_pos (currentTick W) dl) \<noteq> None" by (simp add: target_pos_def split: prod.split)
  then have "\<forall>j < ent_count W. te_level (ent W4 j) \<noteq> None \<longleftrightarrow> odd (te_gen (ent W4 j))" using lvs od by (simp add: lv4 g)
  moreover have "fchain (ent W4) (tw_freeHead W) F" using pool by (subst fchain_cong [of _ _ "ent W"]) (auto simp: nf pool_rest_def)
  moreover have "set F = {j. j < ent_count W \<and> even (te_gen (ent W4 j))}"
    using pool i unfolding pool_rest_def by (auto simp: g)
  moreover have "card (insert i (armed_idx W)) = card (armed_idx W) + 1" using i(2) by (simp add: armed_idx_def)
  moreover have "chains_ok {} C' W4" using C' by (simp add: W4_def chains_ok_scalar)
  moreover have "tw_freeHead W4 = tw_freeHead W" using sr c3 by (simp add: W4_def)
  ultimately show "\<exists>C'. tinv C' F W4" using pool cnt unfolding tinv_def n4 ai by (auto simp: pool_rest_def)
  show "armed W (handle i (te_gen (ent W4 i))) = None" using i cnt(2) by (subst armed_handle) (auto simp: g)
  show "armed W4 = (armed W)(handle i (te_gen (ent W4 i)) \<mapsto> (dl, tok, eject, ctx))"
  proof
    fix h
    show "armed W4 h = ((armed W)(handle i (te_gen (ent W4 i)) \<mapsto> (dl, tok, eject, ctx))) h"
      by (rule all_handles [of _ h]) (use i cnt(2) in \<open>auto simp: armed_handle handle_eq_iff n4 g tm\<close>)
  qed
qed

lemma tinv_running: "tinv C F (start_worker W) \<longleftrightarrow> tinv C F W" "armed (start_worker W) = armed W"
  "currentTick (start_worker W) = currentTick W" "ent_count (start_worker W) = ent_count W" "armedCount (start_worker W) = armedCount W"
  "ent (start_worker W) = ent W"
proof -
  show "tinv C F (start_worker W) \<longleftrightarrow> tinv C F W"
    by (simp add: start_worker_def tinv_def chains_ok_def occupied_def armed_idx_def)
  show "armed (start_worker W) = armed W" by (rule armed_cong) (simp_all add: start_worker_def)
qed (simp_all add: start_worker_def)

lemma tinv_notify: "tinv C F (notify_one W) \<longleftrightarrow> tinv C F W" "armed (notify_one W) = armed W" "ent (notify_one W) = ent W"
  "armedCount (notify_one W) = armedCount W"
  using armed_cong [of "notify_one W" W] by (simp_all add: notify_one_def tinv_mode)

lemma tinv_wake: "tinv C F (wake_if_soonest dl W) \<longleftrightarrow> tinv C F W" "armed (wake_if_soonest dl W) = armed W"
  "ent (wake_if_soonest dl W) = ent W" "armedCount (wake_if_soonest dl W) = armedCount W"
  by (simp_all add: wake_if_soonest_def tinv_notify split: option.split)

text \<open>The successful path of \<^verbatim>\<open>Arm\<close>, up to the notification.\<close>

lemma Arm_path:
  assumes inv: "tinv C F W" and ok: "Valid tok" "\<not> stopping W" "enabled" and lt: "ent_count W + 1 < 2 ^ 32"
    and dl: "dl = now + delay_ticks delayNs"
  shows "\<exists>W1 i W4 C1 C4 F4. AdvanceTo now (start_worker W) = Some W1 \<and> tinv C1 F W1 \<and> tinv C4 F4 W4
    \<and> Arm enabled now delayNs tok eject ctx W = Some (handle i (te_gen (ent W4 i)), wake_if_soonest dl W4)
    \<and> armed W4 = (armed W)(handle i (te_gen (ent W4 i)) \<mapsto> (dl, tok, eject, ctx)) \<and> armed W (handle i (te_gen (ent W4 i))) = None
    \<and> odd (te_gen (ent W4 i)) \<and> i < 2 ^ 32 \<and> currentTick W4 = currentTick W1 \<and> armedCount W4 = armedCount W + 1
    \<and> armed_idx W4 = insert i (armed_idx W1) \<and> pos (ent W4 i) = target_pos (currentTick W1) dl \<and> deadlineTick (ent W4 i) = dl
    \<and> (\<forall>j \<in> armed_idx W1. j \<noteq> i \<longrightarrow> pos (ent W4 j) = pos (ent W1 j) \<and> deadlineTick (ent W4 j) = deadlineTick (ent W1 j))"
proof -
  have "tinv C F (start_worker W)" using inv by (simp add: tinv_running)
  then obtain W1 C1 where W1: "AdvanceTo now (start_worker W) = Some W1" "tinv C1 F W1"
    "\<And>j. core (ent W1 j) = core (ent (start_worker W) j)" "ent_count W1 = ent_count (start_worker W)"
    by (rule AdvanceTo_returns [where t = now]) blast
  obtain i W2 where W2: "AcquireEntry W1 = (i, W2)" by force
  have a1: "armed W1 = armed W" using armed_cong [OF W1(4,3)] by (simp add: tinv_running)
  have n1: "armedCount W1 = armedCount W"
    using W1(2,4) inv core_sel(5) [OF W1(3)] by (simp add: tinv_def armed_idx_def tinv_running)
  have "ent_count W1 + 1 < 2 ^ 32" using lt W1(4) by (simp add: tinv_running)
  from AcquireEntry_spec [OF W1(2) this W2] obtain F' where
    q: "pool_rest i F' W2" "chains_ok {} C1 W2" "te_level (ent W2 i) = None"
    "\<forall>j < ent_count W2. te_level (ent W2 j) \<noteq> None \<longleftrightarrow> odd (te_gen (ent W2 j))"
    and r: "armed_idx W2 = armed_idx W1" "ent_count W2 < 2 ^ 32"
    "armedCount W2 = armedCount W1" "currentTick W2 = currentTick W1" "armed W2 = armed W1" "\<forall>j \<in> armed_idx W1. ent W2 j = ent W1 j"
    by blast
  let ?W3 = "set_ent i (fill dl tok eject ctx) W2"
  let ?W4 = "(Place i dl ?W3)\<lparr>armedCount := armedCount ?W3 + 1\<rparr>"
  have cnt: "armedCount W2 = card (armed_idx W2)" using r W1(2) by (simp add: tinv_def)
  note pl = place_inv [where dl = dl and tok = tok and eject = eject and ctx = ctx, OF q cnt r(2) refl refl]
  have arm: "Arm enabled now delayNs tok eject ctx W = Some (handle i (te_gen (ent ?W4 i)), wake_if_soonest dl ?W4)"
    using ok W1(1) W2 unfolding Arm_def dl Let_def by simp
  have old: "\<forall>j \<in> armed_idx W1. j \<noteq> i \<longrightarrow> pos (ent ?W4 j) = pos (ent W1 j) \<and> deadlineTick (ent ?W4 j) = deadlineTick (ent W1 j)"
    using pl(8,9) r(6) by simp
  obtain C4 where c4: "tinv C4 F' ?W4" using pl(1) by blast
  have "i < 2 ^ 32" using pl(6) pl(12) r(2) by simp
  then show ?thesis
    using W1(1,2) c4 arm old pl(2-7,10,11) pl(8) [of i] a1 n1 r(1,3,4,5) by (metis (no_types, lifting))
qed

lemma Arm_correct:
  assumes "timer_inv W" and "ent_count W + 1 < 2 ^ 32"
  shows "\<exists>h W'. Arm enabled now delayNs tok eject ctx W = Some (h, W') \<and> timer_inv W'
      \<and> (if Valid tok \<and> \<not> stopping W \<and> enabled
         then h \<noteq> 0 \<and> armed W h = None \<and> armed W' = (armed W)(h \<mapsto> (now + delay_ticks delayNs, tok, eject, ctx))
              \<and> PendingCount W' = PendingCount W + 1
         else h = 0 \<and> W' = W)"
proof (cases "Valid tok \<and> \<not> stopping W \<and> enabled")
  case False
  then show ?thesis using assms(1) by (auto simp: Arm_def)
next
  case True
  obtain C F where inv: "tinv C F W" using assms(1) by (auto simp: timer_inv_def)
  from Arm_path [OF inv _ _ _ assms(2) refl, of tok enabled now delayNs eject ctx] True
  obtain i W4 C4 F4 where p: "tinv C4 F4 W4"
    "Arm enabled now delayNs tok eject ctx W = Some (handle i (te_gen (ent W4 i)), wake_if_soonest (now + delay_ticks delayNs) W4)"
    "armed W4 = (armed W)(handle i (te_gen (ent W4 i)) \<mapsto> (now + delay_ticks delayNs, tok, eject, ctx))"
    "armed W (handle i (te_gen (ent W4 i))) = None" "odd (te_gen (ent W4 i))" "i < 2 ^ 32" "armedCount W4 = armedCount W + 1"
    by blast
  have "timer_inv (wake_if_soonest (now + delay_ticks delayNs) W4)" unfolding timer_inv_def tinv_wake using p(1) by blast
  then show ?thesis using True p(2-7) handle_nonzero [OF p(6,5)] by (simp add: tinv_wake PendingCount_def)
qed

section \<open>The next event\<close>

lemma gran_pos [simp]: "0 < LevelGranularity l"
  by (simp add: LevelGranularity_def)

lemma level_event_ge: "level_event l W = Some w \<Longrightarrow> currentTick W \<le> w"
proof -
  assume "level_event l W = Some w"
  then obtain a where w: "w = (if l = 0 then currentTick W else (currentTick W div LevelGranularity l + 1) * LevelGranularity l)
      + a * LevelGranularity l"
    by (auto simp: level_event_def Let_def split: if_splits)
  have "currentTick W < (currentTick W div LevelGranularity l + 1) * LevelGranularity l"
    using dividend_less_div_times [OF gran_pos] by (simp add: algebra_simps)
  then show ?thesis using w by (auto split: if_splits)
qed

lemma sooner_Some: "sooner b w = Some n \<longleftrightarrow>
    (b = Some n \<and> (\<forall>x. w = Some x \<longrightarrow> n \<le> x)) \<or> (w = Some n \<and> (\<forall>x. b = Some x \<longrightarrow> n < x))"
  by (auto simp: sooner_def split: option.splits)

lemma sooner_None: "sooner b w = None \<longleftrightarrow> b = None \<and> w = None"
  by (auto simp: sooner_def split: option.splits)

lemma levels_upt: "[0..<kLevels] = [0, 1, 2, 3]"
  by (simp add: kLevels_def upt_rec)

lemma NextEventTick_Some:
  assumes "NextEventTick W = Some n"
  shows "\<exists>l < kLevels. level_event l W = Some n" "l < kLevels \<Longrightarrow> level_event l W = Some w \<Longrightarrow> n \<le> w"
proof -
  have e: "sooner (sooner (sooner (sooner None (level_event 0 W)) (level_event 1 W)) (level_event 2 W)) (level_event 3 W) = Some n"
    using assms by (simp add: NextEventTick_def levels_upt)
  have "\<exists>l \<in> {0, 1, 2, 3}. level_event l W = Some n" using e unfolding sooner_Some by auto
  moreover have "{0, 1, 2, 3} \<subseteq> {..<kLevels}" by (simp add: kLevels_def)
  ultimately show "\<exists>l < kLevels. level_event l W = Some n" by blast
  have m: "\<forall>x. level_event 0 W = Some x \<longrightarrow> n \<le> x" "\<forall>x. level_event 1 W = Some x \<longrightarrow> n \<le> x"
    "\<forall>x. level_event 2 W = Some x \<longrightarrow> n \<le> x" "\<forall>x. level_event 3 W = Some x \<longrightarrow> n \<le> x"
    using e by (auto simp: sooner_def split: option.splits if_splits)
  assume "l < kLevels" "level_event l W = Some w"
  moreover from this have "l = 0 \<or> l = 1 \<or> l = 2 \<or> l = 3" by (auto simp: kLevels_def)
  ultimately show "n \<le> w" using m by auto
qed

lemma NextEventTick_None: "NextEventTick W = None \<Longrightarrow> l < kLevels \<Longrightarrow> level_event l W = None"
  using less_Suc_eq by (auto simp: NextEventTick_def levels_upt sooner_None kLevels_def numeral_eq_Suc)

lemma NextEventTick_ge: "NextEventTick W = Some n \<Longrightarrow> currentTick W \<le> n"
  using NextEventTick_Some(1) level_event_ge by blast

section \<open>Firing\<close>

text \<open>\<open>fs\<close> is what a pass of the worker took out of the wheel \<open>W\<close>, leaving \<open>W'\<close>.\<close>

definition fired_handles :: "wheel \<Rightarrow> fired list \<Rightarrow> u64 set" where
  "fired_handles W fs = (\<lambda>(i, _). handle i (te_gen (ent W i))) ` set fs"

definition fires :: "wheel \<Rightarrow> fired list \<Rightarrow> wheel \<Rightarrow> bool" where
  "fires W fs W' \<longleftrightarrow>
     timer_inv W' \<and> currentTick W' = currentTick W \<and> stopping W' = stopping W \<and> wmode W' = wmode W \<and> ent_count W' = ent_count W
   \<and> distinct (map fst fs)
   \<and> (\<forall>(i, tok, ej, ctx) \<in> set fs. i \<in> armed_idx W \<and> (\<exists>d \<le> currentTick W. timer_of (ent W i) = (d, tok, ej, ctx)))
   \<and> armed W' = (armed W) |` (- fired_handles W fs) \<and> armed_idx W' = armed_idx W - fst ` set fs
   \<and> (\<forall>j. j \<notin> fst ` set fs \<longrightarrow> core (ent W' j) = core (ent W j) \<and> pos (ent W' j) = pos (ent W j))"

lemma firesD:
  assumes "fires W fs W'"
  shows "timer_inv W'" "currentTick W' = currentTick W" "stopping W' = stopping W" "ent_count W' = ent_count W" "distinct (map fst fs)"
    "armed W' = (armed W) |` (- fired_handles W fs)" "armed_idx W' = armed_idx W - fst ` set fs"
    "j \<notin> fst ` set fs \<Longrightarrow> core (ent W' j) = core (ent W j)" "j \<notin> fst ` set fs \<Longrightarrow> pos (ent W' j) = pos (ent W j)"
    "\<forall>(i, tok, ej, ctx) \<in> set fs. i \<in> armed_idx W \<and> (\<exists>d \<le> currentTick W. timer_of (ent W i) = (d, tok, ej, ctx))"
  using assms unfolding fires_def by simp_all

lemma firesD_mode: "fires W fs W' \<Longrightarrow> wmode W' = wmode W"
  by (simp add: fires_def)

lemma fires_refl: "timer_inv W \<Longrightarrow> fires W [] W"
  by (simp add: fires_def fired_handles_def restrict_map_def)

lemma retire_other: "j \<noteq> i \<Longrightarrow> timer_of (ent (retire i W) j) = timer_of (ent W j) \<and> te_gen (ent (retire i W) j) = te_gen (ent W j)"
  using retire_ent(2) [of j i W] core_sel [of "ent (retire i W) j" "ent W j"] by (simp add: timer_of_def)

lemma retire_armed_idx:
  assumes "tinv C F W" and "i \<in> armed_idx W"
  shows "armed_idx (retire i W) = armed_idx W - {i}"
  using assms by (auto simp: armed_idx_def retire_sel retire_ent(1))

lemma fires_Cons:
  assumes inv: "tinv C F W" and i: "i \<in> armed_idx W" and due: "deadlineTick (ent W i) \<le> currentTick W"
    and f: "fires (retire i W) fs W'"
  shows "fires W ((i, te_token (ent W i), te_eject (ent W i), te_ctx (ent W i)) # fs) W'"
proof -
  have ai: "armed_idx (retire i W) = armed_idx W - {i}" by (rule retire_armed_idx [OF inv i])
  have fi: "fst ` set fs \<subseteq> armed_idx W - {i}" using f unfolding fires_def ai by force
  have data: "\<forall>(j, tok, ej, ctx) \<in> set fs. j \<in> armed_idx W \<and> (\<exists>d \<le> currentTick W. timer_of (ent W j) = (d, tok, ej, ctx))"
  proof (clarify, intro conjI)
    fix j tok ej ctx assume j: "(j, tok, ej, ctx) \<in> set fs"
    then show "j \<in> armed_idx W" using fi by force
    have "j \<noteq> i" using fi j by force
    then show "\<exists>d \<le> currentTick W. timer_of (ent W j) = (d, tok, ej, ctx)"
      using f j retire_other [of j i W] unfolding fires_def retire_sel by fastforce
  qed
  have "fired_handles (retire i W) fs = fired_handles W fs"
    unfolding fired_handles_def using fi retire_other [of _ i W] by (intro image_cong) (auto, force)
  then have "armed W' = (armed W) |` (- fired_handles W ((i, te_token (ent W i), te_eject (ent W i), te_ctx (ent W i)) # fs))"
    using f armed_retire [OF inv i] by (auto simp: fires_def fired_handles_def restrict_map_def fun_eq_iff)
  moreover have "\<forall>j. j \<notin> insert i (fst ` set fs) \<longrightarrow> core (ent W' j) = core (ent W j) \<and> pos (ent W' j) = pos (ent W j)"
    using f retire_ent(2) [of _ i W] unfolding fires_def by simp
  moreover have "i \<notin> fst ` set fs" using fi by auto
  ultimately show ?thesis using f data i due unfolding fires_def ai retire_sel by (auto simp: timer_of_def)
qed

lemma collect_spec:
  assumes "tinv C F W" and "C l s = ys @ xs" and "length out \<le> kBatch"
  shows "\<exists>fs W'. collect (opt_hd xs) out W = Some (out @ fs, W') \<and> fires W fs W' \<and> length (out @ fs) \<le> kBatch
      \<and> fst ` set fs \<subseteq> set xs
      \<and> (length (out @ fs) < kBatch \<longrightarrow> (\<forall>j \<in> set xs. deadlineTick (ent W j) \<le> currentTick W \<longrightarrow> j \<in> fst ` set fs))"
  using assms
proof (induction xs arbitrary: ys out C F W)
  case Nil
  then show ?case using fires_refl [of W] by (auto simp: collect.simps [of None] timer_inv_def)
next
  case (Cons x xs)
  have ok: "chains_ok {} C W" using Cons.prems(1) by (simp add: tinv_def)
  have nx: "te_next (ent W x) = opt_hd xs" and dist: "distinct (ys @ x # xs)"
    using chains_okD(2) [OF ok, of l s] chains_okD(3) [OF ok, of l s] Cons.prems(2) by (simp_all add: dlist_app)
  have xC: "x \<in> set (C l s)" using Cons.prems(2) by simp
  have xa: "x \<in> armed_idx W" using linked_armed [OF Cons.prems(1)] xC by blast
  show ?case
  proof (cases "length out < kBatch")
    case False
    then have "collect (opt_hd (x # xs)) out W = Some (out, W)" by (subst collect.simps) simp
    then show ?thesis using fires_refl [of W] Cons.prems(1,3) False
      by (intro exI [of _ "[]"] exI [of _ W]) (auto simp: timer_inv_def)
  next
    case lt: True
    show ?thesis
    proof (cases "deadlineTick (ent W x) \<le> currentTick W")
      case True
      let ?f = "(x, te_token (ent W x), te_eject (ent W x), te_ctx (ent W x))"
      have "remove1 x (C l s) = ys @ xs" using Cons.prems(2) dist by (simp add: remove1_append)
      then have C': "upd_chain l s (remove1 x (C l s)) C l s = ys @ xs" by simp
      from Cons.IH [OF retire_inv [OF Cons.prems(1) xC] C', of "out @ [?f]"] lt
      obtain fs W' where IH: "collect (opt_hd xs) (out @ [?f]) (retire x W) = Some ((out @ [?f]) @ fs, W')"
        "fires (retire x W) fs W'" "length ((out @ [?f]) @ fs) \<le> kBatch" "fst ` set fs \<subseteq> set xs"
        "length ((out @ [?f]) @ fs) < kBatch \<longrightarrow>
           (\<forall>j \<in> set xs. deadlineTick (ent (retire x W) j) \<le> currentTick (retire x W) \<longrightarrow> j \<in> fst ` set fs)" by auto
      have "collect (opt_hd (x # xs)) out W = Some (out @ ?f # fs, W')"
        using IH(1) lt True nx by (subst collect.simps) (simp add: Let_def)
      moreover have "fires W (?f # fs) W'" by (rule fires_Cons [OF Cons.prems(1) xa True IH(2)])
      moreover have "j \<in> fst ` set (?f # fs)"
        if "length (out @ ?f # fs) < kBatch" "j \<in> set (x # xs)" "deadlineTick (ent W j) \<le> currentTick W" for j
        using that IH(5) retire_other [of j x W] by (cases "j = x") (auto simp: retire_sel timer_of_def)
      ultimately show ?thesis using IH(3,4) by (intro exI [of _ "?f # fs"] exI [of _ W']) auto
    next
      case False
      from Cons.IH [OF Cons.prems(1), of "ys @ [x]" out] Cons.prems(2,3)
      obtain fs W' where IH: "collect (opt_hd xs) out W = Some (out @ fs, W')" "fires W fs W'" "length (out @ fs) \<le> kBatch"
        "fst ` set fs \<subseteq> set xs"
        "length (out @ fs) < kBatch \<longrightarrow> (\<forall>j \<in> set xs. deadlineTick (ent W j) \<le> currentTick W \<longrightarrow> j \<in> fst ` set fs)" by auto
      have "collect (opt_hd (x # xs)) out W = Some (out @ fs, W')"
        using IH(1) lt False nx by (subst collect.simps) (simp add: Let_def)
      then show ?thesis using IH(2-5) False by (intro exI [of _ fs] exI [of _ W']) auto
    qed
  qed
qed

lemma fires_tick: "fires W fs W' \<Longrightarrow> timer_inv (W'\<lparr>currentTick := t\<rparr>)" "armed (W'\<lparr>currentTick := t\<rparr>) = armed W'"
  using armed_cong [of "W'\<lparr>currentTick := t\<rparr>" W'] by (auto simp: fires_def timer_inv_def tinv_tick)

lemma Run_due:
  assumes inv: "tinv C F W" and go: "\<not> stopping W" "NextEventTick W = Some nxt" "nxt \<le> now"
  obtains W1 C1 out W2 where "AdvanceTo nxt W = Some W1" "tinv C1 F W1" "currentTick W1 = max nxt (currentTick W)"
    "\<And>j. core (ent W1 j) = core (ent W j)" "ent_count W1 = ent_count W"
    "fires W1 out W2" "length out \<le> kBatch"
    "length out < kBatch \<longrightarrow> (\<forall>j \<in> set (C1 0 (currentTick W1 mod kSlots)). deadlineTick (ent W1 j) \<le> currentTick W1 \<longrightarrow> j \<in> fst ` set out)"
    "Run now W = Some (out, if out = [] then W2\<lparr>currentTick := currentTick W2 + 1\<rparr> else W2)"
    "nxt \<le> currentTick W \<Longrightarrow> W1 = W"
    "currentTick W < nxt \<Longrightarrow> shifted (passed_pos (currentTick W) nxt {1..<kLevels}) W1 (W\<lparr>currentTick := nxt\<rparr>)"
proof (rule AdvanceTo_returns [OF inv, of nxt])
  fix W1 C1
  assume W1: "AdvanceTo nxt W = Some W1" "tinv C1 F W1" "currentTick W1 = max nxt (currentTick W)"
    "\<And>j. core (ent W1 j) = core (ent W j)" "ent_count W1 = ent_count W" "nxt \<le> currentTick W \<Longrightarrow> W1 = W"
    "currentTick W < nxt \<Longrightarrow> shifted (passed_pos (currentTick W) nxt {1..<kLevels}) W1 (W\<lparr>currentTick := nxt\<rparr>)"
  let ?s = "currentTick W1 mod kSlots"
  have "heads W1 0 ?s = opt_hd (C1 0 ?s)" using W1(2) chains_okD(1) by (auto simp: tinv_def)
  moreover obtain out W2 where c: "collect (opt_hd (C1 0 ?s)) [] W1 = Some (out, W2)" "fires W1 out W2" "length out \<le> kBatch"
    "length out < kBatch \<longrightarrow> (\<forall>j \<in> set (C1 0 ?s). deadlineTick (ent W1 j) \<le> currentTick W1 \<longrightarrow> j \<in> fst ` set out)"
    using collect_spec [OF W1(2), of 0 ?s "[]" "C1 0 ?s" "[]"] by auto
  ultimately have "Run now W = Some (out, if out = [] then W2\<lparr>currentTick := currentTick W2 + 1\<rparr> else W2)"
    using go W1(1) by (cases out) (simp_all add: Run_def)
  then show thesis using that [OF W1(1,2,3,4,5) c(2-4)] W1(6,7) by blast
qed

lemma fired_handles_cong: "(\<And>j. te_gen (ent W' j) = te_gen (ent W j)) \<Longrightarrow> fired_handles W' fs = fired_handles W fs"
  by (simp add: fired_handles_def)

lemma timer_inv_mode:
  assumes "timer_inv W"
  shows "timer_inv (W\<lparr>wmode := m\<rparr>)" "timer_inv (W\<lparr>currentTick := t, wmode := m\<rparr>)"
    "armed (W\<lparr>wmode := m\<rparr>) = armed W" "armed (W\<lparr>currentTick := t, wmode := m\<rparr>) = armed W"
proof -
  obtain C F where "tinv C F W" using assms by (auto simp: timer_inv_def)
  then have "tinv C F (W\<lparr>wmode := m\<rparr>)" "tinv C F (W\<lparr>currentTick := t, wmode := m\<rparr>)" by (simp_all add: tinv_tick tinv_mode)
  then show "timer_inv (W\<lparr>wmode := m\<rparr>)" "timer_inv (W\<lparr>currentTick := t, wmode := m\<rparr>)" unfolding timer_inv_def by blast+
qed (rule armed_cong; simp)+

lemma Run_correct:
  assumes "timer_inv W"
  shows "\<exists>out W'. Run now W = Some (out, W') \<and> timer_inv W' \<and> length out \<le> kBatch \<and> distinct (map fst out)
      \<and> armed W' = (armed W) |` (- fired_handles W out)
      \<and> (\<forall>(i, tok, ej, ctx) \<in> set out. \<exists>d \<le> now. armed W (handle i (te_gen (ent W i))) = Some (d, tok, ej, ctx))"
proof -
  obtain C F where inv: "tinv C F W" using assms by (auto simp: timer_inv_def)
  show ?thesis
  proof (cases "stopping W \<or> (case NextEventTick W of None \<Rightarrow> True | Some nxt \<Rightarrow> now < nxt)")
    case True
    then have "\<exists>W'. Run now W = Some ([], W') \<and> timer_inv W' \<and> armed W' = armed W"
      using timer_inv_mode [OF assms] by (auto simp: Run_def split: option.splits)
    then obtain W' where "Run now W = Some ([], W')" "timer_inv W'" "armed W' = armed W" by blast
    then show ?thesis by (intro exI [of _ "[]"] exI [of _ W']) (simp add: fired_handles_def restrict_map_def)
  next
    case False
    then obtain nxt where go: "\<not> stopping W" "NextEventTick W = Some nxt" "nxt \<le> now" by (auto split: option.splits)
    from inv go show ?thesis
    proof (rule Run_due)
      fix W1 C1 out W2
      assume W1: "tinv C1 F W1" "currentTick W1 = max nxt (currentTick W)" "\<And>j. core (ent W1 j) = core (ent W j)" "ent_count W1 = ent_count W"
        and out: "fires W1 out W2" "length out \<le> kBatch"
        and run: "Run now W = Some (out, if out = [] then W2\<lparr>currentTick := currentTick W2 + 1\<rparr> else W2)"
      have tick: "currentTick W1 \<le> now" using W1(2) NextEventTick_ge [OF go(2)] go(3) by simp
      have a1: "armed W1 = armed W" by (rule armed_cong [OF W1(4,3)])
      have g1: "te_gen (ent W1 j) = te_gen (ent W j)" for j by (rule core_sel(5) [OF W1(3)])
      have h1: "fired_handles W1 out = fired_handles W out" by (rule fired_handles_cong) (rule g1)
      have "\<exists>d \<le> now. armed W (handle i (te_gen (ent W i))) = Some (d, tok, ej, ctx)" if "(i, tok, ej, ctx) \<in> set out" for i tok ej ctx
      proof -
        have "i \<in> armed_idx W1 \<and> (\<exists>d \<le> currentTick W1. timer_of (ent W1 i) = (d, tok, ej, ctx))"
          using bspec [OF firesD(10) [OF out(1)] that] by simp
        then obtain d where d: "i \<in> armed_idx W1" "d \<le> currentTick W1" "timer_of (ent W1 i) = (d, tok, ej, ctx)" by blast
        have "i < 2 ^ 32" using d(1) W1(1) by (simp add: armed_idx_def tinv_def)
        then have "armed W1 (handle i (te_gen (ent W1 i))) = Some (d, tok, ej, ctx)"
          using d by (simp add: armed_handle armed_idx_def)
        then show ?thesis using d(2) tick unfolding a1 g1 by (intro exI [of _ d]) simp
      qed
      then have data: "\<forall>(i, tok, ej, ctx) \<in> set out. \<exists>d \<le> now. armed W (handle i (te_gen (ent W i))) = Some (d, tok, ej, ctx)"
        by clarify
      let ?W' = "if out = [] then W2\<lparr>currentTick := currentTick W2 + 1\<rparr> else W2"
      show ?thesis
      proof (intro exI conjI)
        show "Run now W = Some (out, ?W')" by (rule run)
        show "timer_inv ?W'" using fires_tick(1) [OF out(1)] firesD(1) [OF out(1)] by simp
        show "length out \<le> kBatch" by (rule out(2))
        show "distinct (map fst out)" by (rule firesD(5) [OF out(1)])
        have "armed ?W' = armed W2" using fires_tick(2) by simp
        then show "armed ?W' = (armed W) |` (- fired_handles W out)" using firesD(6) [OF out(1)] unfolding h1 a1 by simp
        show "\<forall>(i, tok, ej, ctx) \<in> set out. \<exists>d \<le> now. armed W (handle i (te_gen (ent W i))) = Some (d, tok, ej, ctx)" by (rule data)
      qed
    qed
  qed
qed

end
