(* ===== verification/Timer_Timing.thy ===== *)
theory Timer_Timing
  imports Timer_Queue
begin

text \<open>
  When timers fire (\<^verbatim>\<open>src/Timer.cpp\<close>): the bitmap scan finds the nearest occupied slot; every slot list is reached no later
  than the deadlines it holds, as long as no call of \<^verbatim>\<open>Arm\<close> overtakes a due timer; so the worker never
  oversleeps. The last section shows what \<^verbatim>\<open>Arm\<close> does otherwise.
\<close>

section \<open>The bitmap scan\<close>

lemma bit_word_from: "n < 64 \<Longrightarrow> bit (word_from w k) n \<longleftrightarrow> bit w n \<and> k \<le> n"
  by (auto simp: word_from_def bit_simps)

lemma bit_word_below: "n < 64 \<Longrightarrow> bit (word_below w k) n \<longleftrightarrow> bit w n \<and> n < k"
  by (auto simp: word_below_def bit_simps)

definition ahead :: "nat \<Rightarrow> nat \<Rightarrow> nat" where
  "ahead from s = (s + kSlots - from) mod kSlots"

lemma ahead_if: "from < 256 \<Longrightarrow> s < 256 \<Longrightarrow> ahead from s = (if from \<le> s then s - from else s + 256 - from)"
  by (auto simp: ahead_def kSlots_def mod_if)

lemma word_zero: "occ W l q = 0 \<Longrightarrow> s div 64 = q \<Longrightarrow> \<not> occupied W l s"
  by (simp add: occupied_def)

lemma word_first:
  assumes "occ W l q \<noteq> 0"
  shows "occupied W l (q * 64 + CountTrailingZeros64 (occ W l q))"
    "s div 64 = q \<Longrightarrow> occupied W l s \<Longrightarrow> q * 64 + CountTrailingZeros64 (occ W l q) \<le> s"
    "q * 64 + CountTrailingZeros64 (occ W l q) < q * 64 + 64"
proof -
  let ?c = "CountTrailingZeros64 (occ W l q)"
  note c = ctz_props [OF assms]
  show "occupied W l (q * 64 + ?c)" using c(1,2) by (simp add: occupied_def)
  show "q * 64 + ?c < q * 64 + 64" using c(1) by simp
  assume s: "s div 64 = q" "occupied W l s"
  then have "bit (occ W l q) (s mod 64)" by (simp add: occupied_def)
  then have "?c \<le> s mod 64" using c(3) [of "s mod 64"] by force
  then show "q * 64 + ?c \<le> s" using s(1) div_mult_mod_eq [of s 64] by linarith
qed

text \<open>What the scan is to find.\<close>

definition nearest :: "wheel \<Rightarrow> nat \<Rightarrow> nat \<Rightarrow> nat \<Rightarrow> bool" where
  "nearest W l from s \<longleftrightarrow> s < 256 \<and> occupied W l s \<and> (\<forall>s' < 256. occupied W l s' \<longrightarrow> ahead from s \<le> ahead from s')"

lemma nearestI:
  assumes "from < 256" "s < 256" "occupied W l s"
    and "\<And>s'. s' < 256 \<Longrightarrow> occupied W l s' \<Longrightarrow>
      (if from \<le> s then s - from else s + 256 - from) \<le> (if from \<le> s' then s' - from else s' + 256 - from)"
  shows "nearest W l from s"
  using assms by (auto simp: nearest_def ahead_if)

lemma scan3:
  "scan_words o' [a, b, c] = Some r \<Longrightarrow>
     (o' a \<noteq> 0 \<and> r = a * 64 + CountTrailingZeros64 (o' a))
   \<or> (o' a = 0 \<and> o' b \<noteq> 0 \<and> r = b * 64 + CountTrailingZeros64 (o' b))
   \<or> (o' a = 0 \<and> o' b = 0 \<and> o' c \<noteq> 0 \<and> r = c * 64 + CountTrailingZeros64 (o' c))"
  by (auto split: if_splits)

lemma cyc4:
  assumes "w < (4 :: nat)"
  shows "((w + 1) mod 4 + 4 - w) mod 4 = 1" "((w + 2) mod 4 + 4 - w) mod 4 = 2" "((w + 3) mod 4 + 4 - w) mod 4 = 3"
    "(w + 1) mod 4 \<noteq> w" "(w + 2) mod 4 \<noteq> w" "(w + 3) mod 4 \<noteq> w"
    "p < 4 \<Longrightarrow> p \<noteq> w \<Longrightarrow> p = (w + 1) mod 4 \<or> p = (w + 2) mod 4 \<or> p = (w + 3) mod 4"
proof -
  have "w = 0 \<or> w = 1 \<or> w = 2 \<or> w = 3" using assms by auto
  then show "((w + 1) mod 4 + 4 - w) mod 4 = 1" "((w + 2) mod 4 + 4 - w) mod 4 = 2" "((w + 3) mod 4 + 4 - w) mod 4 = 3"
    "(w + 1) mod 4 \<noteq> w" "(w + 2) mod 4 \<noteq> w" "(w + 3) mod 4 \<noteq> w"
    "p < 4 \<Longrightarrow> p \<noteq> w \<Longrightarrow> p = (w + 1) mod 4 \<or> p = (w + 2) mod 4 \<or> p = (w + 3) mod 4"
    by (elim disjE; simp; presburger?)+
qed

lemma scan_words_None: "scan_words (occ W l) ws = None \<Longrightarrow> q \<in> set ws \<Longrightarrow> occ W l q = 0"
  by (induction ws) (auto split: if_splits)

lemma ring_le:
  fixes f s s' :: nat
  assumes "f \<le> s" and "s < 256" and "f \<le> s' \<Longrightarrow> s \<le> s'"
  shows "(if f \<le> s then s - f else s + 256 - f) \<le> (if f \<le> s' then s' - f else s' + 256 - f)"
  using assms by (cases "f \<le> s'") auto

lemma word_order:
  fixes w q p :: nat
  assumes "(if w \<le> q then q - w else q + 4 - w) \<le> (if w \<le> p then p - w else p + 4 - w)"
    and "p \<noteq> w" "q \<noteq> w" "p \<noteq> q" "w < 4" "p < 4" "q < 4"
  shows "(w < q \<and> w < p \<and> q < p) \<or> (w < q \<and> p < w) \<or> (q < w \<and> p < w \<and> q < p)"
  using assms by (auto split: if_splits)

lemma from_word:
  assumes "from < 256" and "word_from (occ W l (from div 64)) (from mod 64) \<noteq> 0"
  shows "nearest W l from (from div 64 * 64 + CountTrailingZeros64 (word_from (occ W l (from div 64)) (from mod 64)))"
proof -
  let ?w = "word_from (occ W l (from div 64)) (from mod 64)" and ?c = "CountTrailingZeros64 (word_from (occ W l (from div 64)) (from mod 64))"
  note c = ctz_props [OF assms(2)]
  have cb: "bit (occ W l (from div 64)) ?c" "from mod 64 \<le> ?c" using c(1,2) bit_word_from [OF c(1)] by auto
  let ?s = "from div 64 * 64 + ?c"
  have "from div 64 \<le> 3" using assms(1) by auto
  then have lt: "?s < 256" using c(1) by linarith
  have ge: "from \<le> ?s" using cb(2) div_mult_mod_eq [of "from" 64] by linarith
  have oc: "occupied W l ?s" using cb(1) c(1) by (simp add: occupied_def)
  have min: "?s \<le> s'" if "from \<le> s'" "occupied W l s'" for s'
  proof (cases "s' div 64 = from div 64")
    case True
    have "from mod 64 \<le> s' mod 64" using that(1) True div_mult_mod_eq [of "from" 64] div_mult_mod_eq [of s' 64] by linarith
    moreover have "bit (occ W l (from div 64)) (s' mod 64)" using that(2) True by (simp add: occupied_def)
    ultimately have "bit ?w (s' mod 64)" by (simp add: bit_word_from)
    then have "?c \<le> s' mod 64" using c(3) [of "s' mod 64"] by force
    then show ?thesis using True div_mult_mod_eq [of s' 64] by linarith
  next
    case False
    then have "from div 64 < s' div 64" using that(1) div_le_mono [of "from" s' 64] by linarith
    then have "from div 64 * 64 + 64 \<le> s' div 64 * 64" by linarith
    then show ?thesis using c(1) div_mult_mod_eq [of s' 64] by linarith
  qed
  show ?thesis
    by (rule nearestI [OF assms(1) lt oc], rule ring_le [OF ge lt]) (rule min)
qed

lemma below_word:
  assumes "from < 256" and z: "word_from (occ W l (from div 64)) (from mod 64) = 0"
    and nz: "word_below (occ W l (from div 64)) (from mod 64) \<noteq> 0"
    and rest: "\<And>q. q < 4 \<Longrightarrow> q \<noteq> from div 64 \<Longrightarrow> occ W l q = 0"
  shows "nearest W l from (from div 64 * 64 + CountTrailingZeros64 (word_below (occ W l (from div 64)) (from mod 64)))"
proof -
  let ?w = "word_below (occ W l (from div 64)) (from mod 64)" and ?c = "CountTrailingZeros64 (word_below (occ W l (from div 64)) (from mod 64))"
  note c = ctz_props [OF nz]
  have cb: "bit (occ W l (from div 64)) ?c" "?c < from mod 64" using c(1,2) bit_word_below [OF c(1)] by auto
  let ?s = "from div 64 * 64 + ?c"
  have lt: "?s < from" using cb(2) div_mult_mod_eq [of "from" 64] by linarith
  have oc: "occupied W l ?s" using cb(1) c(1) by (simp add: occupied_def)
  have min: "?s \<le> s' \<and> s' < from" if s': "s' < 256" "occupied W l s'" for s'
  proof -
    have q: "s' div 64 = from div 64" using rest [of "s' div 64"] s' word_zero by force
    then have b: "bit (occ W l (from div 64)) (s' mod 64)" using s'(2) by (simp add: occupied_def)
    have "\<not> bit (word_from (occ W l (from div 64)) (from mod 64)) (s' mod 64)" using z by simp
    then have "s' mod 64 < from mod 64" using b by (simp add: bit_word_from)
    moreover from this have "bit ?w (s' mod 64)" using b by (simp add: bit_word_below)
    then have "?c \<le> s' mod 64" using c(3) [of "s' mod 64"] by force
    ultimately show ?thesis using q div_mult_mod_eq [of "from" 64] div_mult_mod_eq [of s' 64] by linarith
  qed
  show ?thesis
    by (rule nearestI [OF assms(1) _ oc]) (use min lt assms(1) in \<open>force+\<close>)
qed

text \<open>The other words, in cyclic order after the word of \<open>from\<close>.\<close>

lemma between_words:
  assumes f: "from < 256" "word_from (occ W l (from div 64)) (from mod 64) = 0"
    and q: "q < 4" "q \<noteq> from div 64" "occ W l q \<noteq> 0"
    and before: "\<And>p. p < 4 \<Longrightarrow> p \<noteq> from div 64 \<Longrightarrow> (p + 4 - from div 64) mod 4 < (q + 4 - from div 64) mod 4 \<Longrightarrow> occ W l p = 0"
  shows "nearest W l from (q * 64 + CountTrailingZeros64 (occ W l q))"
proof -
  let ?s = "q * 64 + CountTrailingZeros64 (occ W l q)" and ?w = "from div 64"
  note wf = word_first [OF q(3)]
  have fr: "?w * 64 \<le> from" "from < ?w * 64 + 64" "?w < 4" using f(1) by auto
  have mod4: "(p + 4 - ?w) mod 4 = (if ?w \<le> p then p - ?w else p + 4 - ?w)" if "p < 4" for p using fr(3) that by (auto simp: mod_if)
  have lt: "?s < 256" using wf(3) q(1) by linarith
  show ?thesis
  proof (rule nearestI [OF f(1) lt wf(1)])
    fix s' assume s': "s' < 256" "occupied W l s'"
    let ?p = "s' div 64"
    have p: "?p < 4" "?p * 64 \<le> s'" "s' < ?p * 64 + 64" using s'(1) by auto
    show "(if from \<le> ?s then ?s - from else ?s + 256 - from) \<le> (if from \<le> s' then s' - from else s' + 256 - from)"
    proof (cases "?p = ?w")
      case True
      have "\<not> bit (word_from (occ W l ?w) (from mod 64)) (s' mod 64)" using f(2) by simp
      then have "s' mod 64 < from mod 64" using s'(2) True by (simp add: bit_word_from occupied_def)
      then have "s' < from" using True div_mult_mod_eq [of "from" 64] div_mult_mod_eq [of s' 64] by linarith
      moreover have "q < ?w \<Longrightarrow> ?s < s'" using wf(3) p(2) True by linarith
      moreover have "?w < q \<Longrightarrow> from \<le> ?s" using fr(2) by linarith
      ultimately show ?thesis using lt q(2) by (cases "q < ?w") auto
    next
      case pw: False
      have "\<not> (?p + 4 - ?w) mod 4 < (q + 4 - ?w) mod 4" using before [OF p(1) pw] word_zero [of W l ?p s'] s'(2) by auto
      then have le: "(if ?w \<le> q then q - ?w else q + 4 - ?w) \<le> (if ?w \<le> ?p then ?p - ?w else ?p + 4 - ?w)"
        using mod4 [OF p(1)] mod4 [OF q(1)] by simp
      show ?thesis
      proof (cases "?p = q")
        case True
        then have "?s \<le> s'" using wf(2) s'(2) by blast
        moreover have "from \<le> ?s \<longleftrightarrow> from \<le> s'" using True q(2) fr p(2,3) wf(3) by (cases "q < ?w") linarith+
        ultimately show ?thesis by auto
      next
        case False
        then have "(?w < q \<and> ?w < ?p \<and> q < ?p) \<or> (?w < q \<and> ?p < ?w) \<or> (q < ?w \<and> ?p < ?w \<and> q < ?p)"
          using word_order [OF le pw q(2) False fr(3) p(1) q(1)] by blast
        then show ?thesis using fr p(2,3) wf(3) lt by (elim disjE conjE) auto
      qed
    qed
  qed
qed

text \<open>\<^verbatim>\<open>NextOccupied\<close> is the first occupied slot at or after \<open>from\<close>, cyclically, and \<^verbatim>\<open>kSlots\<close> only if there is none.\<close>

lemma NextOccupied_nearest:
  assumes "from < 256" and "s < 256" and "occupied W l s"
  shows "nearest W l from (NextOccupied l from W)"
proof -
  let ?w = "from div 64" and ?b = "from mod 64"
  let ?ws = "map (\<lambda>i. (?w + i) mod kOccWords) [1..<kOccWords]"
  have w4: "?w < 4" using assms(1) by auto
  have ws: "?ws = [(?w + 1) mod 4, (?w + 2) mod 4, (?w + 3) mod 4]" by (simp add: kOccWords_def upt_rec add.commute)
  have mem: "q \<in> set ?ws" if "q < 4" "q \<noteq> ?w" for q
    unfolding ws using cyc4(7) [OF w4 that] by simp
  show ?thesis
  proof (cases "word_from (occ W l ?w) ?b = 0")
    case False
    then show ?thesis using from_word [OF assms(1) False] by (simp add: NextOccupied_def Let_def)
  next
    case z: True
    show ?thesis
    proof (cases "scan_words (occ W l) ?ws")
      case None
      have rest: "occ W l q = 0" if "q < 4" "q \<noteq> ?w" for q using scan_words_None [OF None mem [OF that]] .
      have "s div 64 = ?w" using rest [of "s div 64"] assms(2,3) word_zero by force
      then have "bit (occ W l ?w) (s mod 64)" using assms(3) by (simp add: occupied_def)
      moreover have "\<not> bit (word_from (occ W l ?w) ?b) (s mod 64)" using z by simp
      ultimately have "bit (word_below (occ W l ?w) ?b) (s mod 64)" by (simp add: bit_word_from bit_word_below)
      then have nz: "word_below (occ W l ?w) ?b \<noteq> 0" by auto
      show ?thesis using below_word [OF assms(1) z nz rest] z None nz by (simp add: NextOccupied_def Let_def)
    next
      case (Some r)
      have "\<exists>q. q < 4 \<and> q \<noteq> ?w \<and> occ W l q \<noteq> 0 \<and> r = q * 64 + CountTrailingZeros64 (occ W l q)
          \<and> (\<forall>p < 4. p \<noteq> ?w \<longrightarrow> (p + 4 - ?w) mod 4 < (q + 4 - ?w) mod 4 \<longrightarrow> occ W l p = 0)"
      proof -
        have zero: "occ W l p = 0" if "p < 4" "p \<noteq> ?w" "(p + 4 - ?w) mod 4 < k"
          "1 < k \<Longrightarrow> occ W l ((?w + 1) mod 4) = 0" "2 < k \<Longrightarrow> occ W l ((?w + 2) mod 4) = 0" "k \<le> 3" for p k
          using cyc4(7) [OF w4 that(1,2)]
        proof (elim disjE)
          assume p: "p = (?w + 1) mod 4"
          then have "1 < k" using that(3) cyc4(1) [OF w4] by (simp only: p)
          then show ?thesis using that(4) by (simp only: p)
        next
          assume p: "p = (?w + 2) mod 4"
          then have "2 < k" using that(3) cyc4(2) [OF w4] by (simp only: p)
          then show ?thesis using that(5) by (simp only: p)
        next
          assume p: "p = (?w + 3) mod 4"
          then have "3 < k" using that(3) cyc4(3) [OF w4] by (simp only: p)
          then show ?thesis using that(6) by linarith
        qed
        have lt: "(?w + k) mod 4 < 4" for k by simp
        from scan3 [OF Some [unfolded ws]] show ?thesis
        proof (elim disjE conjE)
          assume a: "occ W l ((?w + 1) mod 4) \<noteq> 0" "r = (?w + 1) mod 4 * 64 + CountTrailingZeros64 (occ W l ((?w + 1) mod 4))"
          have "\<forall>p < 4. p \<noteq> ?w \<longrightarrow> (p + 4 - ?w) mod 4 < ((?w + 1) mod 4 + 4 - ?w) mod 4 \<longrightarrow> occ W l p = 0"
            unfolding cyc4(1) [OF w4] by (intro allI impI, rule zero [of _ 1]) (use a in simp_all)
          then show ?thesis using a lt [of 1] cyc4(4) [OF w4] by blast
        next
          assume a: "occ W l ((?w + 1) mod 4) = 0" "occ W l ((?w + 2) mod 4) \<noteq> 0"
            "r = (?w + 2) mod 4 * 64 + CountTrailingZeros64 (occ W l ((?w + 2) mod 4))"
          have "\<forall>p < 4. p \<noteq> ?w \<longrightarrow> (p + 4 - ?w) mod 4 < ((?w + 2) mod 4 + 4 - ?w) mod 4 \<longrightarrow> occ W l p = 0"
            unfolding cyc4(2) [OF w4] by (intro allI impI, rule zero [of _ 2]) (use a in simp_all)
          then show ?thesis using a lt [of 2] cyc4(5) [OF w4] by blast
        next
          assume a: "occ W l ((?w + 1) mod 4) = 0" "occ W l ((?w + 2) mod 4) = 0" "occ W l ((?w + 3) mod 4) \<noteq> 0"
            "r = (?w + 3) mod 4 * 64 + CountTrailingZeros64 (occ W l ((?w + 3) mod 4))"
          have "\<forall>p < 4. p \<noteq> ?w \<longrightarrow> (p + 4 - ?w) mod 4 < ((?w + 3) mod 4 + 4 - ?w) mod 4 \<longrightarrow> occ W l p = 0"
            unfolding cyc4(3) [OF w4] by (intro allI impI, rule zero [of _ 3]) (use a in simp_all)
          then show ?thesis using a lt [of 3] cyc4(6) [OF w4] by blast
        qed
      qed
      then obtain q where q: "q < 4" "q \<noteq> ?w" "occ W l q \<noteq> 0" "r = q * 64 + CountTrailingZeros64 (occ W l q)"
        "\<And>p. p < 4 \<Longrightarrow> p \<noteq> ?w \<Longrightarrow> (p + 4 - ?w) mod 4 < (q + 4 - ?w) mod 4 \<Longrightarrow> occ W l p = 0" by blast
      show ?thesis using between_words [OF assms(1) z q(1-3,5)] z Some q(4) by (simp add: NextOccupied_def Let_def)
    qed
  qed
qed

section \<open>Slots are reached in time\<close>

text \<open>An entry with deadline \<open>d\<close> sits well in slot \<open>s\<close> of level \<open>l\<close> when the wheel, moving on from tick \<open>cur\<close>, comes to that slot
  no later than \<open>d\<close> (or has it under the hand when it is due).\<close>

definition place_ok :: "nat \<Rightarrow> nat \<Rightarrow> nat \<Rightarrow> nat \<Rightarrow> bool" where
  "place_ok cur l s d \<longleftrightarrow>
     (if l = 0 then (d \<le> cur \<and> s = cur mod 256) \<or> (cur \<le> d \<and> d < cur + 256 \<and> s = d mod 256)
      else \<exists>P. cur div LevelGranularity l < P \<and> P \<le> cur div LevelGranularity l + 256 \<and> s = P mod 256
             \<and> P * LevelGranularity l \<le> d)"

lemma div_step:
  fixes cur d g :: nat
  assumes "0 < g"
  shows "cur + g \<le> d \<Longrightarrow> cur div g < d div g" "d < cur + 256 * g \<Longrightarrow> d div g \<le> cur div g + 256"
proof -
  assume "cur + g \<le> d"
  then have "(cur + g) div g \<le> d div g" by (rule div_le_mono)
  then show "cur div g < d div g" using div_add_self2 [of g cur] assms by linarith
next
  assume "d < cur + 256 * g"
  then have "d div g \<le> (cur + 256 * g) div g" by (intro div_le_mono) simp
  then show "d div g \<le> cur div g + 256" using assms by simp
qed

lemma gran_Suc: "LevelGranularity (l + 1) = 256 * LevelGranularity l"
  by (simp add: LevelGranularity_def power_add)

lemma place_at_ok:
  assumes "place_at cur d = (l, s)"
  shows "place_ok cur l s d"
proof (cases "d \<le> cur")
  case True
  then show ?thesis using assms by (simp add: place_at_def place_ok_def kSlots_def)
next
  case late: False
  show ?thesis
  proof (cases "find (\<lambda>l. d - cur < LevelGranularity (l + 1)) [0..<kLevels]")
    case None
    then have far: "\<not> d - cur < LevelGranularity (l + 1)" if "l < kLevels" for l using that by (auto simp: find_None_iff)
    have ls: "l = 3" "s = (cur + kMaxTicks - 1) div LevelGranularity 3 mod 256"
      using assms late None by (simp_all add: place_at_def kLevels_def kSlots_def)
    have g3: "LevelGranularity 3 = 2 ^ 24" "kMaxTicks = 256 * 2 ^ 24" by (simp_all add: LevelGranularity_def kMaxTicks_def)
    have "kMaxTicks \<le> d - cur" using far [of 3] by (simp add: kLevels_def LevelGranularity_def kMaxTicks_def)
    then have le: "cur + kMaxTicks - 1 \<le> d" using late by simp
    let ?P = "(cur + kMaxTicks - 1) div LevelGranularity 3"
    have "cur div LevelGranularity 3 < ?P" by (rule div_step(1)) (simp_all add: g3)
    moreover have "?P \<le> cur div LevelGranularity 3 + 256" by (rule div_step(2)) (simp_all add: g3)
    moreover have "?P * LevelGranularity 3 \<le> d" using le div_times_less_eq_dividend [of "cur + kMaxTicks - 1" "LevelGranularity 3"] by linarith
    ultimately show ?thesis using ls by (auto simp: place_ok_def)
  next
    case (Some k)
    then have k: "d - cur < LevelGranularity (k + 1)" "\<And>j. j < k \<Longrightarrow> \<not> d - cur < LevelGranularity (j + 1)"
      by (auto simp: find_Some_iff)
    have ls: "l = k" "s = d div LevelGranularity k mod 256" using assms late Some by (auto simp: place_at_def kSlots_def)
    show ?thesis
    proof (cases k)
      case 0
      then show ?thesis using k(1) ls late by (simp add: place_ok_def LevelGranularity_def)
    next
      case (Suc m)
      have "LevelGranularity k \<le> d - cur" using k(2) [of m] Suc by simp
      then have "cur div LevelGranularity k < d div LevelGranularity k" using late by (intro div_step(1)) simp_all
      moreover have "d div LevelGranularity k \<le> cur div LevelGranularity k + 256"
        using k(1) late unfolding gran_Suc by (intro div_step(2)) simp_all
      moreover have "d div LevelGranularity k * LevelGranularity k \<le> d" by (rule div_times_less_eq_dividend)
      ultimately show ?thesis using ls Suc by (auto simp: place_ok_def)
    qed
  qed
qed

text \<open>The wheel may move on from \<open>cur\<close> to \<open>t\<close> if it stops at no level-0 slot too late and takes along the slots it passes.\<close>

lemma place_ok_advance:
  assumes ok: "place_ok cur l s d" and t: "cur < t" and l0: "l = 0 \<Longrightarrow> t \<le> d"
    and np: "l \<noteq> 0 \<Longrightarrow> cur div LevelGranularity l \<noteq> t div LevelGranularity l \<Longrightarrow>
      s \<notin> set (passed (cur div LevelGranularity l) (t div LevelGranularity l))"
  shows "place_ok t l s d"
proof (cases "l = 0")
  case True
  then show ?thesis using ok t l0 by (auto simp: place_ok_def)
next
  case False
  let ?f = "cur div LevelGranularity l" and ?t = "t div LevelGranularity l"
  obtain P where P: "?f < P" "P \<le> ?f + 256" "s = P mod 256" "P * LevelGranularity l \<le> d" using ok False by (auto simp: place_ok_def)
  have ft: "?f \<le> ?t" using t by (intro div_le_mono) simp
  have "?t < P"
  proof (rule ccontr)
    assume le: "\<not> ?t < P"
    then have "?f \<noteq> ?t" using P(1) by linarith
    then have ns: "s \<notin> set (passed ?f ?t)" using np False by blast
    show False
    proof (cases "?t - ?f \<ge> 256")
      case True
      then show False using ns P(3) by (simp add: passed_def kSlots_def)
    next
      case short: False
      have "s = (?f + (P - ?f)) mod 256" "P - ?f \<in> {1..<?t - ?f + 1}" using P le by auto
      then show False using ns short unfolding passed_def kSlots_def by (simp only: if_False set_map set_upt) blast
    qed
  qed
  then show ?thesis using P ft False by (auto simp: place_ok_def intro!: exI [of _ P])
qed

definition timely :: "wheel \<Rightarrow> bool" where
  "timely W \<longleftrightarrow> (\<forall>i \<in> armed_idx W. \<forall>l s. pos (ent W i) = (Some l, s) \<longrightarrow> place_ok (currentTick W) l s (deadlineTick (ent W i)))"

lemma target_pos_ok: "target_pos cur d = (Some l, s) \<Longrightarrow> place_ok cur l s d"
  using place_at_ok [of cur d l s] by (simp add: target_pos_def split: prod.splits)

lemma AdvanceTo_timely:
  assumes inv: "tinv C F W" and tm: "timely W" and t: "currentTick W < t"
    and l0: "\<And>i s. i \<in> armed_idx W \<Longrightarrow> pos (ent W i) = (Some 0, s) \<Longrightarrow> t \<le> deadlineTick (ent W i)"
    and sh: "shifted (passed_pos (currentTick W) t {1..<kLevels}) W' (W\<lparr>currentTick := t\<rparr>)"
  shows "timely W'"
  unfolding timely_def
proof (intro ballI allI impI)
  fix i l s assume i: "i \<in> armed_idx W'" "pos (ent W' i) = (Some l, s)"
  have sc: "ent_count W' = ent_count W" "currentTick W' = t" "core (ent W' i) = core (ent W i)"
    using shifted_count [OF sh] by simp_all
  note c = core_sel [OF sc(3)]
  have ia: "i \<in> armed_idx W" "i < ent_count W" using i(1) by (auto simp: armed_idx_def sc c)
  have "pos (ent W' i) = target_pos t (deadlineTick (ent W i))
      \<or> pos (ent W' i) = pos (ent W i) \<and> pos (ent W i) \<notin> passed_pos (currentTick W) t {1..<kLevels}"
    using sh ia(2) unfolding shifted_def moved_def by auto
  then show "place_ok (currentTick W') l s (deadlineTick (ent W' i))"
  proof
    assume "pos (ent W' i) = target_pos t (deadlineTick (ent W i))"
    then show ?thesis using i(2) target_pos_ok sc(2) c(1) by simp
  next
    assume p: "pos (ent W' i) = pos (ent W i) \<and> pos (ent W i) \<notin> passed_pos (currentTick W) t {1..<kLevels}"
    then have pi: "pos (ent W i) = (Some l, s)" using i(2) by simp
    then have "l < kLevels" using inv ia(2) chains_okD(5) [of "{}" C W i l] by (auto simp: tinv_def pos_def)
    then have "s \<notin> set (passed (currentTick W div LevelGranularity l) (t div LevelGranularity l))"
      if "l \<noteq> 0" "currentTick W div LevelGranularity l \<noteq> t div LevelGranularity l"
      using p pi that by (auto simp: passed_pos_def)
    moreover have "place_ok (currentTick W) l s (deadlineTick (ent W i))" using tm ia(1) pi by (auto simp: timely_def)
    moreover have "l = 0 \<Longrightarrow> t \<le> deadlineTick (ent W i)" using l0 [OF ia(1)] pi by simp
    ultimately show ?thesis using place_ok_advance [OF _ t] sc(2) c(1) by simp
  qed
qed

section \<open>The worker never oversleeps\<close>

lemma ahead_window:
  assumes "a \<le> b" and "b < a + 256"
  shows "ahead (a mod 256) (b mod 256) = b - a"
proof -
  define k where "k = b - a"
  have b: "b = a + k" "k < 256" using assms by (simp_all add: k_def)
  have "b mod 256 = (a mod 256 + k) mod 256" by (simp add: b(1) mod_add_left_eq)
  also have "\<dots> = (if a mod 256 + k < 256 then a mod 256 + k else a mod 256 + k - 256)"
    using b(2) mod_less_divisor [of 256 a] by (auto simp: mod_if [of "a mod 256 + k"])
  finally show ?thesis using b(2) mod_less_divisor [of 256 a] by (auto simp: ahead_if k_def [symmetric])
qed

lemma level_event_in_time:
  assumes inv: "tinv C F W" and i: "i \<in> armed_idx W" "pos (ent W i) = (Some l, s)"
    and ok: "place_ok (currentTick W) l s (deadlineTick (ent W i))"
  shows "\<exists>w. level_event l W = Some w \<and> w \<le> max (currentTick W) (deadlineTick (ent W i))"
proof -
  let ?g = "LevelGranularity l" and ?q = "currentTick W div LevelGranularity l"
  let ?from = "if l = 0 then ?q mod 256 else (?q mod 256 + 1) mod 256"
  have chains: "chains_ok {} C W" using inv by (simp add: tinv_def)
  have ic: "i < ent_count W" using i(1) by (simp add: armed_idx_def)
  have s: "s < 256" using chains_okD(5) [OF chains ic, of l] i(2) by (simp add: pos_def kSlots_def)
  have "i \<in> set (C l s)" using chains_okD(4) [OF chains, of i l s] ic i(2) by simp
  then have oc: "occupied W l s" using chains_okD(6) [OF chains, of s l] s by (auto simp: kSlots_def)
  have f: "?from < 256" by simp
  let ?n = "NextOccupied l ?from W"
  have n: "nearest W l ?from ?n" by (rule NextOccupied_nearest [OF f s oc])
  then have n256: "?n < 256" and le: "ahead ?from ?n \<le> ahead ?from s" using s oc by (simp_all add: nearest_def)
  have "occ W l (s div 64) \<noteq> 0" using oc word_zero by blast
  moreover have "s div 64 < kOccWords" using s by (auto simp: kOccWords_def)
  ultimately have "\<not> LevelEmpty l W" by (auto simp: LevelEmpty_def list_all_iff)
  then have ev: "level_event l W = Some ((if l = 0 then currentTick W else (?q + 1) * ?g) + ahead ?from ?n * ?g)"
    using n256 by (cases "l = 0") (simp_all add: level_event_def Let_def kSlots_def ahead_def)
  show ?thesis
  proof (cases "l = 0")
    case True
    have "ahead (currentTick W mod 256) s \<le> max (currentTick W) (deadlineTick (ent W i)) - currentTick W"
      using ok ahead_window [of "currentTick W" "currentTick W"] ahead_window [of "currentTick W" "deadlineTick (ent W i)"] True
      by (auto simp: place_ok_def)
    then show ?thesis using ev le True by (simp add: LevelGranularity_def)
  next
    case False
    obtain P where P: "?q < P" "P \<le> ?q + 256" "s = P mod 256" "P * ?g \<le> deadlineTick (ent W i)" using ok False by (auto simp: place_ok_def)
    have "ahead ((?q + 1) mod 256) (P mod 256) = P - (?q + 1)" using P by (intro ahead_window) auto
    moreover have "?from = (?q + 1) mod 256" using False by (simp add: mod_Suc_eq)
    ultimately have "ahead ?from ?n \<le> P - (?q + 1)" using le P(3) by simp
    then have "(?q + 1 + ahead ?from ?n) * ?g \<le> P * ?g" using P(1) by (intro mult_le_mono1) linarith
    then show ?thesis using ev False P(4) by (simp add: add_mult_distrib)
  qed
qed

lemma next_in_time:
  assumes inv: "tinv C F W" and tm: "timely W" and i: "i \<in> armed_idx W"
  shows "\<exists>n. NextEventTick W = Some n \<and> n \<le> max (currentTick W) (deadlineTick (ent W i))"
proof -
  have "te_level (ent W i) \<noteq> None" "i < ent_count W" using inv i by (auto simp: tinv_def armed_idx_def)
  then obtain l where l: "te_level (ent W i) = Some l" by blast
  have "chains_ok {} C W" using inv by (simp add: tinv_def)
  then have l4: "l < kLevels" using chains_okD(5) l \<open>i < ent_count W\<close> by blast
  have p: "pos (ent W i) = (Some l, te_slot (ent W i))" by (simp add: pos_def l)
  then have "place_ok (currentTick W) l (te_slot (ent W i)) (deadlineTick (ent W i))" using tm i by (simp add: timely_def)
  from level_event_in_time [OF inv i p this] obtain w where w: "level_event l W = Some w" "w \<le> max (currentTick W) (deadlineTick (ent W i))" by blast
  then obtain n where n: "NextEventTick W = Some n" using NextEventTick_None [OF _ l4] by (cases "NextEventTick W") auto
  then show ?thesis using NextEventTick_Some(2) [OF n l4 w(1)] w(2) by auto
qed

lemma timely_sub:
  assumes "timely W" and "currentTick W' = currentTick W" and "armed_idx W' \<subseteq> armed_idx W"
    and "\<And>j. j \<in> armed_idx W' \<Longrightarrow> core (ent W' j) = core (ent W j) \<and> pos (ent W' j) = pos (ent W j)"
  shows "timely W'"
  unfolding timely_def
proof (intro ballI allI impI)
  fix i l s assume i: "i \<in> armed_idx W'" "pos (ent W' i) = (Some l, s)"
  then have "pos (ent W i) = (Some l, s)" "deadlineTick (ent W' i) = deadlineTick (ent W i)"
    using assms(4) [of i] core_sel(1) [of "ent W' i" "ent W i"] by auto
  then show "place_ok (currentTick W') l s (deadlineTick (ent W' i))" using assms(1-3) i(1) by (auto simp: timely_def)
qed

lemma fires_timely: "fires W fs W' \<Longrightarrow> timely W \<Longrightarrow> timely W'"
  by (rule timely_sub [of W]) (auto simp: firesD)

text \<open>What the next event is: a slot of level 0 with entries, or the start of a slot of a higher level.\<close>

lemma level_event_kind:
  assumes "level_event l W = Some w"
  shows "l \<noteq> 0 \<Longrightarrow> 256 dvd w" "l = 0 \<Longrightarrow> w < currentTick W + 256 \<and> currentTick W \<le> w \<and> occupied W 0 (w mod 256)"
proof -
  show "256 dvd w" if "l \<noteq> 0"
  proof -
    have "256 dvd LevelGranularity l" using that gran_dvd [of 1 l] by (simp add: LevelGranularity_def)
    then show ?thesis using assms that by (auto simp: level_event_def Let_def split: if_splits)
  qed
  assume "l = 0"
  let ?f = "currentTick W mod 256"
  let ?n = "NextOccupied 0 ?f W"
  have w: "w = currentTick W + ahead ?f ?n" "?n \<noteq> 256" "\<not> LevelEmpty 0 W"
    using assms \<open>l = 0\<close> by (auto simp: level_event_def Let_def ahead_def kSlots_def LevelGranularity_def split: if_splits)
  obtain q where q: "q < 4" "occ W 0 q \<noteq> 0" using w(3) by (auto simp: LevelEmpty_def list_all_iff kOccWords_def)
  have "q * 64 + CountTrailingZeros64 (occ W 0 q) < 256" using word_first(3) [OF q(2)] q(1) by linarith
  then have n: "?n < 256" "occupied W 0 ?n" using NextOccupied_nearest [of ?f _ W 0] word_first(1) [OF q(2)] by (auto simp: nearest_def)
  have "(currentTick W + ahead ?f ?n) mod 256 = (?f + ahead ?f ?n) mod 256" by (simp add: mod_add_left_eq)
  also have "\<dots> = ?n" using n(1) by (auto simp: ahead_if)
  finally show "w < currentTick W + 256 \<and> currentTick W \<le> w \<and> occupied W 0 (w mod 256)"
    using w(1) n(2) by (auto simp: ahead_def kSlots_def)
qed

lemma occupied_entry:
  assumes "tinv C F W" and "s < 256" and "occupied W l s"
  shows "\<exists>i \<in> armed_idx W. pos (ent W i) = (Some l, s)"
proof -
  have ok: "chains_ok {} C W" using assms(1) by (simp add: tinv_def)
  then have "C l s \<noteq> []" using chains_okD(6) [OF ok, of s l] assms(2,3) by (simp add: kSlots_def)
  then obtain i where "i \<in> set (C l s)" by (cases "C l s") auto
  then show ?thesis using linked_armed [OF assms(1), of i] chains_okD(4) [OF ok, of i l s] by auto
qed

lemma target_now: "d \<le> cur \<Longrightarrow> target_pos cur d = (Some 0, cur mod 256)"
  by (simp add: target_pos_def place_at_def kSlots_def)

lemma no_boundary: "\<not> 256 dvd c + 1 \<Longrightarrow> l \<noteq> 0 \<Longrightarrow> (c + 1) div LevelGranularity l = c div LevelGranularity l"
proof -
  assume nd: "\<not> 256 dvd c + 1" and l: "l \<noteq> 0"
  have "256 dvd LevelGranularity l" using l gran_dvd [of 1 l] by (simp add: LevelGranularity_def)
  then have "\<not> LevelGranularity l dvd Suc c" using nd by (auto dest: dvd_trans)
  then show ?thesis by (simp add: div_Suc dvd_eq_mod_eq_0)
qed

text \<open>If the slot at hand had nothing due, nothing was due: the step to the following tick loses no timer.\<close>

lemma empty_slot_step:
  assumes tm: "timely W" and nd: "\<not> 256 dvd currentTick W + 1"
    and none: "\<And>i. i \<in> armed_idx W \<Longrightarrow> pos (ent W i) = (Some 0, currentTick W mod 256) \<Longrightarrow> currentTick W < deadlineTick (ent W i)"
  shows "timely (W\<lparr>currentTick := currentTick W + 1\<rparr>)"
  unfolding timely_def
proof (intro ballI allI impI)
  fix i l s assume i: "i \<in> armed_idx (W\<lparr>currentTick := currentTick W + 1\<rparr>)" "pos (ent (W\<lparr>currentTick := currentTick W + 1\<rparr>) i) = (Some l, s)"
  then have ia: "i \<in> armed_idx W" "pos (ent W i) = (Some l, s)" by (simp_all add: armed_idx_def)
  then have ok: "place_ok (currentTick W) l s (deadlineTick (ent W i))" using tm by (auto simp: timely_def)
  have "place_ok (currentTick W + 1) l s (deadlineTick (ent W i))"
  proof (cases "l = 0")
    case True
    have "currentTick W < deadlineTick (ent W i)" if "s = currentTick W mod 256" using none [OF ia(1)] ia(2) True that by simp
    then show ?thesis using ok True unfolding place_ok_def by (cases "deadlineTick (ent W i) = currentTick W") auto
  next
    case False
    then show ?thesis using ok unfolding place_ok_def no_boundary [OF nd False] by simp
  qed
  then show "place_ok (currentTick (W\<lparr>currentTick := currentTick W + 1\<rparr>)) l s (deadlineTick (ent (W\<lparr>currentTick := currentTick W + 1\<rparr>) i))" by simp
qed

lemma at_hand:
  assumes inv: "tinv C F W" and tm: "timely W" and n: "NextEventTick W = Some nxt"
    and same: "nxt \<le> currentTick W \<Longrightarrow> W1 = W"
    and sh: "currentTick W < nxt \<Longrightarrow> shifted S W1 (W\<lparr>currentTick := nxt\<rparr>)"
  shows "256 dvd nxt \<or> (\<exists>i \<in> armed_idx W1. pos (ent W1 i) = (Some 0, nxt mod 256) \<and> deadlineTick (ent W1 i) \<le> nxt)"
proof (cases "level_event 0 W = Some nxt")
  case False
  obtain l where "level_event l W = Some nxt" using NextEventTick_Some(1) [OF n] by blast
  then show ?thesis using level_event_kind(1) [of l W nxt] False by (cases "l = 0") auto
next
  case True
  have w: "nxt < currentTick W + 256" "currentTick W \<le> nxt" "occupied W 0 (nxt mod 256)" using level_event_kind(2) [OF True] by auto
  obtain i where i: "i \<in> armed_idx W" "pos (ent W i) = (Some 0, nxt mod 256)" using occupied_entry [OF inv _ w(3)] by auto
  then have "place_ok (currentTick W) 0 (nxt mod 256) (deadlineTick (ent W i))" using tm by (auto simp: timely_def)
  then have d: "deadlineTick (ent W i) \<le> nxt"
    using w(1,2) mod_window_inj [of nxt 256 "deadlineTick (ent W i)" "currentTick W"] by (auto simp: place_ok_def)
  show ?thesis
  proof (cases "nxt \<le> currentTick W")
    case True
    then show ?thesis using same i d by auto
  next
    case False
    then have s1: "shifted S W1 (W\<lparr>currentTick := nxt\<rparr>)" using sh by simp
    have c: "ent_count W1 = ent_count W" "core (ent W1 i) = core (ent W i)" using shifted_count [OF s1] by simp_all
    have "pos (ent W1 i) = target_pos nxt (deadlineTick (ent W i)) \<or> pos (ent W1 i) = pos (ent W i)"
      using s1 i(1) unfolding shifted_def moved_def armed_idx_def by auto
    then have "pos (ent W1 i) = (Some 0, nxt mod 256)" using target_now [OF d] i(2) by auto
    then show ?thesis using i(1) d c core_sel [OF c(2)] by (auto simp: armed_idx_def)
  qed
qed

lemma tinv_pos_chain: "tinv C F W \<Longrightarrow> i \<in> armed_idx W \<Longrightarrow> pos (ent W i) = (Some l, s) \<Longrightarrow> i \<in> set (C l s)"
  using chains_okD(4) [of "{}" C W i l s] by (simp add: tinv_def armed_idx_def)

lemma Run_timely:
  assumes inv: "tinv C F W" and tm: "timely W" and run: "Run now W = Some (out, W')"
  shows "timely W'"
proof (cases "stopping W \<or> (case NextEventTick W of None \<Rightarrow> True | Some nxt \<Rightarrow> now < nxt)")
  case idle: True
  show ?thesis
  proof (cases "stopping W \<or> NextEventTick W \<noteq> None")
    case True
    then have "\<exists>m. W' = W\<lparr>wmode := m\<rparr>" using run idle by (auto simp: Run_def split: option.splits if_splits)
    then show ?thesis using timely_sub [OF tm, of W'] by (auto simp: armed_idx_def)
  next
    case False
    then have "armed_idx W = {}" using next_in_time [OF inv tm] by auto
    then show ?thesis using run False by (auto simp: Run_def timely_def armed_idx_def)
  qed
next
  case False
  then obtain nxt where go: "\<not> stopping W" "NextEventTick W = Some nxt" "nxt \<le> now" by (auto split: option.splits)
  from inv go show ?thesis
  proof (rule Run_due)
    fix W1 C1 out2 W2
    assume W1: "tinv C1 F W1" "currentTick W1 = max nxt (currentTick W)" and f: "fires W1 out2 W2"
      and all: "length out2 < kBatch \<longrightarrow>
        (\<forall>j \<in> set (C1 0 (currentTick W1 mod kSlots)). deadlineTick (ent W1 j) \<le> currentTick W1 \<longrightarrow> j \<in> fst ` set out2)"
      and r: "Run now W = Some (out2, if out2 = [] then W2\<lparr>currentTick := currentTick W2 + 1\<rparr> else W2)"
      and same: "nxt \<le> currentTick W \<Longrightarrow> W1 = W"
      and sh: "currentTick W < nxt \<Longrightarrow> shifted (passed_pos (currentTick W) nxt {1..<kLevels}) W1 (W\<lparr>currentTick := nxt\<rparr>)"
    have ct: "currentTick W1 = nxt" using W1(2) NextEventTick_ge [OF go(2)] by simp
    have late: "nxt \<le> deadlineTick (ent W i)" if "i \<in> armed_idx W" "currentTick W < nxt" for i
      using next_in_time [OF inv tm that(1)] go(2) that(2) by auto
    have "timely W1"
      using same tm AdvanceTo_timely [OF inv tm _ _ sh] late by (cases "nxt \<le> currentTick W") auto
    then have t2: "timely W2" by (rule fires_timely [OF f])
    show "timely W'"
    proof (cases "out2 = []")
      case False
      then show ?thesis using r run t2 by simp
    next
      case True
      then have same2: "armed_idx W2 = armed_idx W1" "currentTick W2 = nxt" "pos (ent W2 j) = pos (ent W1 j)"
        "deadlineTick (ent W2 j) = deadlineTick (ent W1 j)" for j
        using firesD(2,7) [OF f] firesD(8,9) [OF f, of j] ct core_sel(1) [of "ent W2 j" "ent W1 j"] by simp_all
      have nodue: "nxt < deadlineTick (ent W1 i)" if "i \<in> armed_idx W1" "pos (ent W1 i) = (Some 0, nxt mod 256)" for i
        using all True tinv_pos_chain [OF W1(1) that] ct by (force simp: kBatch_def kSlots_def)
      then have "256 dvd nxt" using at_hand [OF inv tm go(2) same sh] by (meson leD)
      then have "\<not> 256 dvd currentTick W2 + 1" unfolding same2(2) by (subst dvd_add_right_iff) simp_all
      from empty_slot_step [OF t2 this] have "timely (W2\<lparr>currentTick := currentTick W2 + 1\<rparr>)" using nodue same2 by simp
      then show ?thesis using r run True by simp
    qed
  qed
qed

text \<open>\<^verbatim>\<open>Arm\<close> keeps it only when the clock has not yet passed the next event.\<close>

definition punctual :: "nat \<Rightarrow> wheel \<Rightarrow> bool" where
  "punctual now W \<longleftrightarrow> (case NextEventTick W of None \<Rightarrow> True | Some nxt \<Rightarrow> now \<le> nxt)"

lemma level_event_cong:
  assumes "occ W' = occ W" and "currentTick W' = currentTick W"
  shows "level_event l W' = level_event l W"
  unfolding level_event_def LevelEmpty_def NextOccupied_def assms by (rule refl)

lemma start_worker_same:
  "NextEventTick (start_worker W) = NextEventTick W" "timely (start_worker W) = timely W" "armed_idx (start_worker W) = armed_idx W"
proof -
  have "level_event l (start_worker W) = level_event l W" for l
    by (rule level_event_cong) (simp_all add: start_worker_def)
  then show "NextEventTick (start_worker W) = NextEventTick W" by (simp add: NextEventTick_def)
  show ai: "armed_idx (start_worker W) = armed_idx W" by (simp add: armed_idx_def tinv_running)
  show "timely (start_worker W) = timely W" by (simp add: timely_def ai tinv_running)
qed

lemma Arm_timely:
  assumes inv: "tinv C F W" and tm: "timely W" and pn: "punctual now W" and lt: "ent_count W + 1 < 2 ^ 32"
    and arm: "Arm enabled now delayNs tok eject ctx W = Some (h, W')"
  shows "timely W'"
proof (cases "Valid tok \<and> \<not> stopping W \<and> enabled")
  case False
  then show ?thesis using arm tm by (auto simp: Arm_def)
next
  case True
  let ?S = "start_worker W"
  have invS: "tinv C F ?S" and tmS: "timely ?S" using inv tm by (simp_all add: tinv_running start_worker_same)
  from Arm_path [OF inv _ _ _ lt refl, of tok enabled now delayNs eject ctx] True
  obtain W1 i W4 where p: "AdvanceTo now ?S = Some W1"
    "Arm enabled now delayNs tok eject ctx W = Some (handle i (te_gen (ent W4 i)), wake_if_soonest (now + delay_ticks delayNs) W4)"
    "currentTick W4 = currentTick W1" "armed_idx W4 = insert i (armed_idx W1)"
    "pos (ent W4 i) = target_pos (currentTick W1) (now + delay_ticks delayNs)" "deadlineTick (ent W4 i) = now + delay_ticks delayNs"
    "\<forall>j \<in> armed_idx W1. j \<noteq> i \<longrightarrow> pos (ent W4 j) = pos (ent W1 j) \<and> deadlineTick (ent W4 j) = deadlineTick (ent W1 j)" by blast
  have late: "now \<le> deadlineTick (ent ?S j)" if "j \<in> armed_idx ?S" "currentTick ?S < now" for j
  proof -
    from next_in_time [OF invS tmS that(1)] have "\<exists>n. NextEventTick W = Some n \<and> n \<le> max (currentTick ?S) (deadlineTick (ent ?S j))"
      unfolding start_worker_same .
    then show ?thesis using pn that(2) by (auto simp: punctual_def)
  qed
  have t1: "timely W1"
  proof (rule AdvanceTo_returns [OF invS, of now])
    fix W1' C'
    assume "AdvanceTo now ?S = Some W1'" "now \<le> currentTick ?S \<Longrightarrow> W1' = ?S"
      "currentTick ?S < now \<Longrightarrow> shifted (passed_pos (currentTick ?S) now {1..<kLevels}) W1' (?S\<lparr>currentTick := now\<rparr>)"
    then show ?thesis using p(1) tmS late AdvanceTo_timely [OF invS tmS, of now W1] by (cases "now \<le> currentTick ?S") auto
  qed
  have "timely W4"
    unfolding timely_def
  proof (intro ballI allI impI)
    fix j l s assume j: "j \<in> armed_idx W4" "pos (ent W4 j) = (Some l, s)"
    show "place_ok (currentTick W4) l s (deadlineTick (ent W4 j))"
    proof (cases "j = i")
      case True
      then show ?thesis using j(2) p(3,5,6) target_pos_ok by simp
    next
      case False
      then show ?thesis using j p(3,4,7) t1 by (auto simp: timely_def)
    qed
  qed
  moreover have "timely (wake_if_soonest dl W4) = timely W4" for dl
    by (simp add: timely_def tinv_wake armed_idx_def wake_if_soonest_def notify_one_def split: option.split)
  ultimately show ?thesis using arm p(2) by auto
qed

lemma Disarm_timely:
  assumes inv: "tinv C F W" and tm: "timely W" and d: "Disarm h W = (ok, W')"
  shows "timely W'"
proof -
  consider "W' = W" | i where "W' = retire i W" "i \<in> armed_idx W"
    using d by (auto simp: Disarm_def Let_def armed_idx_def and_one_eq mod2_eq_if split: if_splits)
  then show ?thesis
  proof cases
    case 2
    then show ?thesis using retire_armed_idx [OF inv 2(2)] retire_ent(2) [of _ i W]
      by (intro timely_sub [OF tm]) (auto simp: retire_sel)
  qed (use tm in simp)
qed

end
