(* ===== verification/Timer_Service.thy ===== *)
theory Timer_Service
  imports Timer_Timing
begin

text \<open>
  The timer queue in use (\<^verbatim>\<open>src/Timer.cpp\<close>): runs of its operations in any order, what they guarantee to a client, and
  two findings: timers that fire a turn of the wheel late, and timers with no worker to fire them.
\<close>

section \<open>Runs of the queue\<close>

datatype tq_op = OArm bool nat int u32 "nat option" nat | ODisarm u64 | ORun nat | OStart | OStop

text \<open>The worker passes through its loop when it is awake; a wait may also end by itself.\<close>

fun tq_step :: "tq_op \<Rightarrow> wheel \<Rightarrow> wheel option" where
  "tq_step (OArm en now delayNs tok eject ctx) W =
     (if int (ent_count W) + 1 < 2 ^ 32 then map_option snd (Arm en now delayNs tok eject ctx W) else None)"
| "tq_step (ODisarm h) W = Some (snd (Disarm h W))"
| "tq_step (ORun now) W =
     (if wmode W = WNone \<or> wmode W = WDone then None else map_option snd (Run now (W\<lparr>wmode := WRun\<rparr>)))"
| "tq_step OStart W = Some (Start W)"
| "tq_step OStop W = Some (Stop W)"

lemma room: "int n + 1 < 2 ^ 32 \<longleftrightarrow> n + 1 < 2 ^ 32"
  using of_nat_less_iff [of "n + 1" "2 ^ 32", where 'a = int] by simp

lemma timer_inv_flags:
  "timer_inv (W\<lparr>stopping := b\<rparr>) \<longleftrightarrow> timer_inv W" "timer_inv (W\<lparr>wmode := m\<rparr>) \<longleftrightarrow> timer_inv W"
  "timely (W\<lparr>stopping := b\<rparr>) \<longleftrightarrow> timely W" "timely (W\<lparr>wmode := m\<rparr>) \<longleftrightarrow> timely W"
  by (simp_all add: timer_inv_def tinv_def chains_ok_def occupied_def armed_idx_def timely_def)

lemma Start_Stop_inv: "timer_inv (Start W) = timer_inv W" "timer_inv (Stop W) = timer_inv W"
  "timely (Start W) = timely W" "timely (Stop W) = timely W"
  unfolding Start_def Stop_def by (simp_all add: timer_inv_flags)

lemma tq_step_inv:
  assumes "timer_inv W" and "tq_step op W = Some W'"
  shows "timer_inv W'"
proof (cases op)
  case (OArm en now delayNs tok eject ctx)
  then have "ent_count W + 1 < 2 ^ 32" using assms(2) room by (auto split: if_splits)
  from Arm_correct [OF assms(1) this, of en now delayNs tok eject ctx] show ?thesis using assms(2) OArm by (auto split: if_splits)
next
  case (ODisarm h)
  then show ?thesis using assms Disarm_correct [OF assms(1), of h "fst (Disarm h W)" "snd (Disarm h W)"] by auto
next
  case (ORun now)
  have "timer_inv (W\<lparr>wmode := WRun\<rparr>)" using assms(1) by (simp add: timer_inv_flags)
  from Run_correct [OF this, of now] show ?thesis using assms(2) ORun by (auto split: if_splits)
qed (use assms in \<open>auto simp: Start_Stop_inv\<close>)

lemma timer_inv_init: "timer_inv wheel_init"
  using tinv_init by (auto simp: timer_inv_def)

interpretation tq: step_invariant tq_step wheel_init timer_inv
  by unfold_locales (auto simp: timer_inv_init intro: tq_step_inv)

text \<open>Runs in which no \<^verbatim>\<open>Arm\<close> comes after the tick of the next event.\<close>

definition tq_step_punctual :: "tq_op \<Rightarrow> wheel \<Rightarrow> wheel option" where
  "tq_step_punctual op W =
     (case op of OArm en now _ _ _ _ \<Rightarrow> if punctual now W then tq_step op W else None | _ \<Rightarrow> tq_step op W)"

lemma tq_step_timely:
  assumes inv: "timer_inv W" and tm: "timely W" and st: "tq_step_punctual op W = Some W'"
  shows "timely W'"
proof -
  obtain C F where C: "tinv C F W" using inv by (auto simp: timer_inv_def)
  show ?thesis
  proof (cases op)
    case (OArm en now delayNs tok eject ctx)
    then have pn: "punctual now W" and r: "ent_count W + 1 < 2 ^ 32" and a: "map_option snd (Arm en now delayNs tok eject ctx W) = Some W'"
      using st room by (auto simp: tq_step_punctual_def split: if_splits)
    then obtain h where "Arm en now delayNs tok eject ctx W = Some (h, W')" by auto
    then show ?thesis by (rule Arm_timely [OF C tm pn r])
  next
    case (ODisarm h)
    then show ?thesis using st Disarm_timely [OF C tm, of h "fst (Disarm h W)" "snd (Disarm h W)"] by (auto simp: tq_step_punctual_def)
  next
    case (ORun now)
    then obtain out where "Run now (W\<lparr>wmode := WRun\<rparr>) = Some (out, W')" using st by (auto simp: tq_step_punctual_def split: if_splits)
    moreover have "tinv C F (W\<lparr>wmode := WRun\<rparr>)" "timely (W\<lparr>wmode := WRun\<rparr>)" using C tm by (simp_all add: tinv_mode timer_inv_flags)
    ultimately show ?thesis using Run_timely by blast
  qed (use st tm in \<open>auto simp: tq_step_punctual_def Start_Stop_inv\<close>)
qed

lemma timely_init: "timely wheel_init"
  by (simp add: timely_def wheel_init_def armed_idx_def)

lemma tq_step_punctual_sub: "tq_step_punctual op W = Some W' \<Longrightarrow> tq_step op W = Some W'"
  by (auto simp: tq_step_punctual_def split: tq_op.splits if_splits)

interpretation tqp: step_invariant tq_step_punctual wheel_init "\<lambda>W. timer_inv W \<and> timely W"
  by unfold_locales (auto simp: timer_inv_init timely_init intro: tq_step_inv tq_step_punctual_sub tq_step_timely)

section \<open>What the timer queue guarantees\<close>

text \<open>C21: \<^verbatim>\<open>Arm\<close> in any reachable state: it is refused (an invalid token, a stopped queue, no timer layer) and changes
  nothing, or adds exactly one timer, whose deadline is the delay rounded up to ticks, under a valid handle that named no armed
  timer before; no cascade loses or changes another timer.\<close>

theorem timer_arm_spec:
  assumes "exec tq_step ops wheel_init = Some W" and "ent_count W + 1 < 2 ^ 32"
  shows "\<exists>h W'. Arm en now delayNs tok eject ctx W = Some (h, W')
      \<and> (if Valid tok \<and> \<not> stopping W \<and> en
         then h \<noteq> 0 \<and> armed W h = None \<and> armed W' = (armed W)(h \<mapsto> (now + delay_ticks delayNs, tok, eject, ctx))
              \<and> PendingCount W' = PendingCount W + 1
         else h = 0 \<and> W' = W)"
  using Arm_correct [OF tq.inv_exec [OF assms(1)] assms(2), of en now delayNs tok eject ctx] by blast

text \<open>C22: \<^verbatim>\<open>Disarm\<close>, in every reachable state: a handle that names no armed timer (one that has fired, was disarmed or whose entry was recycled) is refused and nothing
  changes. Otherwise the answer is true and exactly that timer is gone: its entry was linked into a list of the wheel and is now in none; walking the links of every
  slot gives the entries it gave before, in the same order, without this one; the bitmaps still say which slots are occupied; and the entry is at the head of the free list.\<close>

theorem timer_disarm_spec:
  assumes "exec tq_step ops wheel_init = Some W" and "Disarm h W = (ok, W')" and "i = unat (h AND 0xFFFFFFFF)"
  shows "if armed W h = None then \<not> ok \<and> W' = W
    else ok \<and> armed W' = (armed W)(h := None) \<and> PendingCount W' = PendingCount W - 1
      \<and> (\<exists>l < kLevels. \<exists>s < kSlots. i \<in> set (slot_list W l s))
      \<and> (\<forall>l s. slot_list W' l s = remove1 i (slot_list W l s) \<and> i \<notin> set (slot_list W' l s) \<and> (s < kSlots \<longrightarrow> (occupied W' l s \<longleftrightarrow> slot_list W' l s \<noteq> [])))
      \<and> free_list W' = i # free_list W"
proof (cases "armed W h = None")
  case True
  then show ?thesis using assms(2) by (auto simp: Disarm_def armed_alt Let_def and_one_eq mod2_eq_if split: if_splits)
next
  case False
  have inv: "timer_inv W" by (rule tq.inv_exec [OF assms(1)])
  then obtain C F where C: "tinv C F W" by (auto simp: timer_inv_def)
  note L = Disarm_lists [OF C False assms(2,3)]
  show ?thesis using Disarm_correct [OF inv assms(2)] False L by simp
qed

text \<open>C19: A pass of the worker always ends, fires at most a batch, fires no timer before its deadline and none twice, and removes
  exactly the timers it fires.\<close>

theorem timer_run_spec:
  assumes "exec tq_step ops wheel_init = Some W"
  shows "\<exists>out W'. Run now W = Some (out, W') \<and> length out \<le> kBatch \<and> distinct (map fst out)
      \<and> armed W' = (armed W) |` (- fired_handles W out)
      \<and> (\<forall>(i, tok, ej, ctx) \<in> set out. \<exists>d \<le> now. armed W (handle i (te_gen (ent W i))) = Some (d, tok, ej, ctx))"
  using Run_correct [OF tq.inv_exec [OF assms], of now] by blast

lemma armed_idx_of: "armed W h = Some (d, r) \<Longrightarrow> \<exists>i \<in> armed_idx W. deadlineTick (ent W i) = d"
  by (auto simp: armed_alt Let_def armed_idx_def timer_of_def split: if_splits)

lemma Run_sleeps:
  assumes "Run now (W\<lparr>wmode := WRun\<rparr>) = Some (out, W')" and inv: "tinv C F W"
  shows "wmode W' = WWait \<Longrightarrow> NextEventTick (W\<lparr>wmode := WRun\<rparr>) = None \<and> armed W' = armed W"
    "wmode W' = WWaitUntil t \<Longrightarrow> NextEventTick (W\<lparr>wmode := WRun\<rparr>) = Some t \<and> now < t \<and> armed W' = armed W"
proof -
  let ?W = "W\<lparr>wmode := WRun\<rparr>"
  have invR: "tinv C F ?W" using inv by (simp add: tinv_mode)
  have sleeping: "(wmode W' = WWait \<longrightarrow> NextEventTick ?W = None \<and> armed W' = armed W)
      \<and> (wmode W' = WWaitUntil t \<longrightarrow> NextEventTick ?W = Some t \<and> now < t \<and> armed W' = armed W)"
  proof (cases "stopping ?W \<or> (case NextEventTick ?W of None \<Rightarrow> True | Some nxt \<Rightarrow> now < nxt)")
    case True
    have "armed (W\<lparr>wmode := m\<rparr>) = armed W" "armed (W\<lparr>currentTick := now, wmode := m\<rparr>) = armed W" for m
      by (rule armed_cong; simp)+
    then show ?thesis using assms(1) True by (auto simp: Run_def split: option.splits if_splits)
  next
    case False
    then obtain nxt where go: "\<not> stopping ?W" "NextEventTick ?W = Some nxt" "nxt \<le> now" by (auto split: option.splits)
    from invR go show ?thesis
    proof (rule Run_due)
      fix W1 C1 out2 W2
      assume a: "AdvanceTo nxt ?W = Some W1" and f: "fires W1 out2 W2"
        and r: "Run now ?W = Some (out2, if out2 = [] then W2\<lparr>currentTick := currentTick W2 + 1\<rparr> else W2)"
      have "wmode W1 = WRun" using a by - (rule AdvanceTo_returns [OF invR, of nxt], simp)
      then have "wmode W2 = WRun" using firesD_mode [OF f] by simp
      then show ?thesis using r assms(1) by (auto split: if_splits)
    qed
  qed
  then show "wmode W' = WWait \<Longrightarrow> NextEventTick ?W = None \<and> armed W' = armed W"
    "wmode W' = WWaitUntil t \<Longrightarrow> NextEventTick ?W = Some t \<and> now < t \<and> armed W' = armed W" by blast+
qed

text \<open>C20: The worker never oversleeps in a punctual run, one in which no \<^verbatim>\<open>Arm\<close> comes after the tick of the next event, when its pass begins with the wheel at most one tick ahead
  of the clock: it waits without a time limit only when nothing is armed, and otherwise until a tick after now and no later than the deadline of every armed timer, or than the very next tick
  for a timer that is already due.\<close>

theorem timer_never_oversleeps:
  assumes "exec tq_step_punctual ops wheel_init = Some W" and "currentTick W \<le> now + 1" and "tq_step (ORun now) W = Some W'"
  shows "(wmode W' = WWait \<longrightarrow> armed W' = Map.empty)
       \<and> (\<forall>t h d r. wmode W' = WWaitUntil t \<longrightarrow> armed W' h = Some (d, r) \<longrightarrow> now < t \<and> t \<le> max d (now + 1))"
proof -
  have "timer_inv W" "timely W" using tqp.inv_exec [OF assms(1)] by auto
  then obtain C F where C: "tinv C F W" by (auto simp: timer_inv_def)
  let ?W = "W\<lparr>wmode := WRun\<rparr>"
  obtain out where run: "Run now ?W = Some (out, W')" using assms(3) by (auto split: if_splits)
  have CR: "tinv C F ?W" "timely ?W" using C \<open>timely W\<close> by (simp_all add: tinv_mode timer_inv_flags)
  have due: "\<exists>n. NextEventTick ?W = Some n \<and> n \<le> max (currentTick W) d" if a: "armed W h = Some (d, r)" for h d r
  proof -
    have "\<exists>i \<in> armed_idx ?W. deadlineTick (ent ?W i) = d" using armed_idx_of [OF a] by (simp add: armed_idx_def)
    then show ?thesis using next_in_time [OF CR] by auto
  qed
  have "armed W' = Map.empty" if "wmode W' = WWait"
  proof
    fix h
    show "armed W' h = None" using Run_sleeps(1) [OF run C that] due [of h] by (cases "armed W h") auto
  qed
  moreover have "now < t \<and> t \<le> max d (now + 1)" if "wmode W' = WWaitUntil t" "armed W' h = Some (d, r)" for t h d r
    using Run_sleeps(2) [OF run C that(1)] due [of h d r] that(2) assms(2) by auto
  ultimately show ?thesis by blast
qed

section \<open>Late timers\<close>

text \<open>For evaluation: the same placement without large powers.\<close>

lemma place_at_code [code]:
  "place_at cur deadline =
     (if deadline \<le> cur then (0, cur mod kSlots)
      else (case find (\<lambda>l. (deadline - cur) div LevelGranularity l < kSlots) [0..<kLevels] of
              Some l \<Rightarrow> (l, (deadline div LevelGranularity l) mod kSlots)
            | None \<Rightarrow> (kLevels - 1, ((cur + kMaxTicks - 1) div LevelGranularity (kLevels - 1)) mod kSlots)))"
proof -
  have "(deadline - cur) div LevelGranularity l < kSlots \<longleftrightarrow> deadline - cur < LevelGranularity (l + 1)" for l
    unfolding gran_Suc kSlots_def by (simp add: div_less_iff_less_mult mult.commute)
  then show ?thesis by (simp only: place_at_def)
qed

text \<open>C24: An \<^verbatim>\<open>Arm\<close> that comes when the clock has passed a due timer's tick moves the wheel beyond its slot: a timer armed for 5 ms is
  then reached only a full turn of the wheel later, at tick 261.\<close>

theorem arm_overtakes_due_timer:
  "\<exists>W. exec tq_step [OArm True 0 5000000 7 None 0, ORun 0, OArm True 6 1000000 7 None 0, ORun 7, ORun 7] wheel_init = Some W
     \<and> armed W (handle 0 1) = Some (5, 7, None, 0) \<and> wmode W = WWaitUntil 261"
  by (rule exec_ex) code_simp

text \<open>A timer may be left with no worker to fire it: armed for 300 ms on an idle queue, it does not wake the worker from its untimed wait; and
  after \<^verbatim>\<open>Stop\<close> and \<^verbatim>\<open>Start\<close> no worker is started again.\<close>

lemma arm_leaves_no_worker:
  "(\<exists>W. exec tq_step [OArm True 0 1000000 7 None 0, ORun 1, ORun 1, OArm True 2 300000000 7 None 0] wheel_init = Some W
     \<and> armed W (handle 0 3) = Some (302, 7, None, 0) \<and> wmode W = WWait)
 \<and> (\<exists>W. exec tq_step [OArm True 0 1000000 7 None 0, OStop, OStart, OArm True 2 1000000 7 None 0] wheel_init = Some W
     \<and> armed W (handle 1 1) = Some (3, 7, None, 0) \<and> wmode W = WDone)"
  by (rule conjI; rule exec_ex; code_simp)

section \<open>Witnesses\<close>

lemma exec_punctual: "exec tq_step_punctual ops W = Some W' \<Longrightarrow> exec tq_step ops W = Some W'"
proof (induction ops arbitrary: W)
  case (Cons op ops)
  then obtain W1 where "tq_step_punctual op W = Some W1" "exec tq_step_punctual ops W1 = Some W'" by (auto split: option.splits)
  then show ?case using Cons.IH tq_step_punctual_sub by simp
qed simp

definition one_timer :: "tq_op list" where
  "one_timer = [OArm True 0 2000000 7 (Some 4) 9, ORun 0]"

lemma one_timer_runs:
  "\<exists>W. exec tq_step_punctual one_timer wheel_init = Some W \<and>
     (exec tq_step one_timer wheel_init = Some W \<and> int (ent_count W) + 1 < 2 ^ 32 \<and> armed W (handle 0 1) = Some (2, 7, Some 4, 9)
      \<and> currentTick W = 0 \<and> \<not> stopping W \<and> wmode W = WWaitUntil 2)"
proof -
  have ev: "case exec tq_step_punctual one_timer wheel_init of None \<Rightarrow> False | Some W \<Rightarrow> armed W (handle 0 1) = Some (2, 7, Some 4, 9)
    \<and> int (ent_count W) + 1 < 2 ^ 32 \<and> currentTick W = 0 \<and> \<not> stopping W \<and> wmode W = WWaitUntil 2" by code_simp
  then show ?thesis using exec_punctual by (fastforce split: option.splits)
qed

theorem timer_arm_spec_witness:
  "\<exists>W h W'. exec tq_step one_timer wheel_init = Some W \<and> Arm True 1 500000 7 None 0 W = Some (h, W')
     \<and> h \<noteq> 0 \<and> armed W' = (armed W)(h \<mapsto> (1 + delay_ticks 500000, 7, None, 0))"
proof -
  obtain W where W: "exec tq_step one_timer wheel_init = Some W" "int (ent_count W) + 1 < 2 ^ 32" "\<not> stopping W"
    using one_timer_runs by blast
  have "Valid 7" by (simp add: Valid_def kNone_def)
  then show ?thesis using timer_arm_spec [OF W(1), of True 1 500000 7 None 0] W room by auto
qed

theorem timer_disarm_spec_witness:
  "\<exists>W. exec tq_step one_timer wheel_init = Some W \<and> fst (Disarm (handle 0 1) W) \<and> armed (snd (Disarm (handle 0 1) W)) (handle 0 1) = None
     \<and> free_list (snd (Disarm (handle 0 1) W)) = unat (handle 0 1 AND 0xFFFFFFFF) # free_list W"
proof -
  obtain W where W: "exec tq_step one_timer wheel_init = Some W" "armed W (handle 0 1) = Some (2, 7, Some 4, 9)"
    using one_timer_runs by blast
  then show ?thesis using timer_disarm_spec [OF W(1), of "handle 0 1" "fst (Disarm (handle 0 1) W)" "snd (Disarm (handle 0 1) W)"] by simp
qed

theorem timer_run_spec_witness:
  "\<exists>W out W'. exec tq_step one_timer wheel_init = Some W \<and> Run 5 W = Some (out, W') \<and> length out \<le> kBatch
     \<and> armed W' = (armed W) |` (- fired_handles W out)"
  using one_timer_runs timer_run_spec [of one_timer _ 5] by blast

theorem timer_never_oversleeps_witness:
  "\<exists>W W'. exec tq_step_punctual one_timer wheel_init = Some W \<and> tq_step (ORun 1) W = Some W' \<and> wmode W' \<noteq> WWait"
proof -
  obtain W where W: "exec tq_step_punctual one_timer wheel_init = Some W" "armed W (handle 0 1) = Some (2, 7, Some 4, 9)"
    "currentTick W = 0" "wmode W = WWaitUntil 2" "\<not> stopping W" using one_timer_runs by blast
  have ev: "case exec tq_step_punctual one_timer wheel_init of None \<Rightarrow> False | Some W \<Rightarrow>
      (case tq_step (ORun 1) W of None \<Rightarrow> False | Some W' \<Rightarrow> armed W' (handle 0 1) = Some (2, 7, Some 4, 9))" by code_simp
  then obtain W' where W': "tq_step (ORun 1) W = Some W'" "armed W' (handle 0 1) = Some (2, 7, Some 4, 9)"
    unfolding W(1) option.case by (cases "tq_step (ORun 1) W") (simp_all only: option.case)
  have "wmode W' \<noteq> WWait" using timer_never_oversleeps [OF W(1) _ W'(1)] W(3) W'(2) by auto
  then show ?thesis using W(1) W'(1) by blast
qed

section \<open>Firing cancels\<close>

lemma CancelVia_effect:
  assumes "CancelVia r T = (ok, T')"
  shows "ok \<longleftrightarrow> r \<noteq> kNone \<and> ResolveCancelSlot T r \<noteq> None"
    "GenOf (state (slot T' i)) = GenOf (state (slot T i))"
    "CancelledIn (state (slot T i)) \<Longrightarrow> CancelledIn (state (slot T' i))"
    "ok \<Longrightarrow> CancelledIn (state (slot T' (index_of r)))"
  using assms by (auto simp: CancelVia_def ResolveCancelSlot_def Let_def set_slot_def split: if_splits)

lemma Resolve_gen: "(\<And>i. GenOf (state (slot T' i)) = GenOf (state (slot T i))) \<Longrightarrow> ResolveCancelSlot T' r = ResolveCancelSlot T r"
  by (simp add: ResolveCancelSlot_def Let_def)

lemma fire_batch_effect:
  "fire_batch fs T = (calls, T') \<Longrightarrow>
     (\<forall>i. GenOf (state (slot T' i)) = GenOf (state (slot T i)))
   \<and> (\<forall>i. CancelledIn (state (slot T i)) \<longrightarrow> CancelledIn (state (slot T' i)))
   \<and> (\<forall>(i, tok, ej, ctx) \<in> set fs. tok \<noteq> kNone \<and> ResolveCancelSlot T tok \<noteq> None \<longrightarrow>
        CancelledIn (state (slot T' (index_of tok))) \<and> (\<forall>f. ej = Some f \<longrightarrow> (\<exists>Tc. (f, ctx, tok, Tc) \<in> set calls)))
   \<and> (\<forall>(f, ctx, tok, Tc) \<in> set calls. tok \<noteq> kNone \<and> ResolveCancelSlot T tok \<noteq> None \<and> (\<exists>i. (i, tok, Some f, ctx) \<in> set fs)
        \<and> ResolveCancelSlot Tc tok \<noteq> None \<and> CancelledIn (state (slot Tc (index_of tok))))"
proof (induction fs arbitrary: T calls T')
  case Nil
  then show ?case by simp
next
  case (Cons x fs)
  obtain i tok ej ctx where x: "x = (i, tok, ej, ctx)" by (cases x) auto
  obtain ok T1 where v: "CancelVia tok T = (ok, T1)" by force
  obtain cs T2 where f: "fire_batch fs T1 = (cs, T2)" by force
  have calls: "calls = (case ej of Some g \<Rightarrow> (if ok then [(g, ctx, tok, T1)] else []) | None \<Rightarrow> []) @ cs" "T' = T2"
    using Cons.prems x v f by auto
  note e = CancelVia_effect [OF v] and IH = Cons.IH [OF f]
  have r: "ResolveCancelSlot T1 t = ResolveCancelSlot T t" for t by (rule Resolve_gen) (rule e(2))
  have "\<forall>i. GenOf (state (slot T2 i)) = GenOf (state (slot T i))" using IH e(2) by simp
  moreover have "\<forall>i. CancelledIn (state (slot T i)) \<longrightarrow> CancelledIn (state (slot T2 i))" using IH e(3) by blast
  moreover have "CancelledIn (state (slot T2 (index_of tok)))" if ok using IH e(4) that by blast
  moreover have "\<forall>(i, tok, ej, ctx) \<in> set fs. tok \<noteq> kNone \<and> ResolveCancelSlot T tok \<noteq> None \<longrightarrow>
        CancelledIn (state (slot T2 (index_of tok))) \<and> (\<forall>f. ej = Some f \<longrightarrow> (\<exists>Tc. (f, ctx, tok, Tc) \<in> set cs))" using IH unfolding r by blast
  moreover have "\<forall>(f, ctx, tok, Tc) \<in> set cs. tok \<noteq> kNone \<and> ResolveCancelSlot T tok \<noteq> None \<and> (\<exists>i. (i, tok, Some f, ctx) \<in> set fs)
        \<and> ResolveCancelSlot Tc tok \<noteq> None \<and> CancelledIn (state (slot Tc (index_of tok)))" using IH unfolding r by blast
  moreover have "ResolveCancelSlot T1 tok \<noteq> None \<and> CancelledIn (state (slot T1 (index_of tok))) \<and> tok \<noteq> kNone" if ok using e(1,4) r that by simp
  ultimately show ?case using e(1) unfolding x calls by (fastforce split: option.splits if_splits)
qed

text \<open>C23: When the worker fires a batch, every scope of it that is still alive is cancelled and what was armed with it is called. A call is made only after its token reads as
  cancelled in the table the call finds, and never for a scope that is gone, as far as its token can tell: for a token whose slot has been given back fewer than 65,536 times since it was
  issued, the scope is alive.\<close>

theorem timer_fire_cancels:
  assumes "crun as csys_init = Some s" and "fire_batch fs (tab s) = (calls, T')"
  shows "(\<forall>(i, tok, ej, ctx) \<in> set fs. tok \<in> set (live s) \<longrightarrow> Cancelled T' tok \<and> (\<forall>f. ej = Some f \<longrightarrow> (\<exists>Tc. (f, ctx, tok, Tc) \<in> set calls)))
       \<and> (\<forall>(f, ctx, tok, Tc) \<in> set calls. Cancelled Tc tok \<and> (\<exists>i. (i, tok, Some f, ctx) \<in> set fs) \<and> (\<forall>b. fresh_enough tok b s \<longrightarrow> tok \<in> set (live s)))"
proof -
  have ci: "csys_inv s" by (rule csys_inv_crun [OF csys_inv_init assms(1)])
  then have inv: "cinv (tab s) (live s)" by (simp add: csys_inv_def)
  note e = fire_batch_effect [OF assms(2)]
  have "Cancelled T' tok \<and> (\<forall>f. ej = Some f \<longrightarrow> (\<exists>Tc. (f, ctx, tok, Tc) \<in> set calls))"
    if f: "(i, tok, ej, ctx) \<in> set fs" "tok \<in> set (live s)" for i tok ej ctx
  proof -
    note ix = live_index [OF inv f(2)]
    have "ResolveCancelSlot (tab s) tok \<noteq> None" using ix by (simp add: ResolveCancelSlot_def)
    then have "CancelledIn (state (slot T' (index_of tok))) \<and> (\<forall>f. ej = Some f \<longrightarrow> (\<exists>Tc. (f, ctx, tok, Tc) \<in> set calls))" using e f(1) ix(3) by blast
    moreover have "GenOf (state (slot T' (index_of tok))) = drop_bit 16 tok" using e ix(2) by simp
    ultimately show ?thesis using ix(1,3) by (simp add: Cancelled_step)
  qed
  moreover have "Cancelled Tc tok \<and> (\<exists>i. (i, tok, Some f, ctx) \<in> set fs) \<and> (\<forall>b. fresh_enough tok b s \<longrightarrow> tok \<in> set (live s))"
    if c: "(f, ctx, tok, Tc) \<in> set calls" for f ctx tok Tc
  proof -
    have k: "tok \<noteq> kNone" "ResolveCancelSlot (tab s) tok \<noteq> None" "\<exists>i. (i, tok, Some f, ctx) \<in> set fs" "ResolveCancelSlot Tc tok \<noteq> None"
      "CancelledIn (state (slot Tc (index_of tok)))" using e c by blast+
    have "Cancelled Tc tok" using k(1,4,5) by (auto simp: Cancelled_step ResolveCancelSlot_def Let_def split: if_splits)
    moreover have "GenOf (state (slot (tab s) (index_of tok))) = drop_bit 16 tok" using k(2) by (auto simp: ResolveCancelSlot_def Let_def split: if_splits)
    ultimately show ?thesis using k(3) gen_matches_iff [OF ci] by blast
  qed
  ultimately show ?thesis by blast
qed

lemma one_scope: "\<exists>s. crun [New] csys_init = Some s \<and> live s = [0]"
  by (rule crun_obtain) (simp add: cancel_eval)

theorem timer_fire_cancels_witness:
  "\<exists>(s :: csys) calls T'. crun [New] csys_init = Some s \<and> fire_batch [(0, 0, Some 4, 9)] (tab s) = (calls, T')
     \<and> Cancelled T' 0 \<and> (\<exists>Tc. (4, 9, 0, Tc) \<in> set calls \<and> Cancelled Tc 0)"
proof -
  obtain s where s: "crun [New] csys_init = Some s" "live s = [0]" using one_scope by blast
  obtain calls T' where f: "fire_batch [(0, 0, Some 4, 9)] (tab s) = (calls, T')" by (meson surj_pair)
  show ?thesis using timer_fire_cancels [OF s(1) f] s f by fastforce
qed

end
