(* ===== verification/Sync_Waiters.thy ===== *)
theory Sync_Waiters
  imports Cancel_Token "HOL-Library.Multiset"
begin

text \<open>
  What the blocking primitives of \<^verbatim>\<open>TaskScheduler.h\<close> and \<^verbatim>\<open>TaskScheduler.cpp\<close> share: who may wait (a fiber, a coroutine task, a
  thread without a fiber), the queue entry \<^verbatim>\<open>Waiter\<close>, the decision \<^verbatim>\<open>IsTaskCancelled\<close>, and the pass with which the three
  \<^verbatim>\<open>CancelWaiters\<close> functions take matching waiters out of a queue, at most 64 at a time.
\<close>

section \<open>Clients and waiters\<close>

datatype wait_result = WOk | WCancelled

text \<open>A fiber, a coroutine task, or a thread that runs neither.\<close>

datatype client = Fib nat | Cor nat | Bar nat

text \<open>The fields of \<^verbatim>\<open>Task\<close> that cancellation reads.\<close>

record sync_task =
  cancelledDirect :: bool
  cancelToken :: u32

text \<open>
  A waiter owns the result slot it points at (a local of its suspended call or a member of its awaiter), so
  the pointer is modelled by whether it is there; the slots are \<open>results\<close> below.
\<close>

record waiter =
  w_fiber :: "nat option"
  w_coro :: "nat option"
  w_result :: bool
  w_token :: u32

definition fiber_waiter :: "nat \<Rightarrow> bool \<Rightarrow> u32 \<Rightarrow> waiter" where
  "fiber_waiter f r tok = \<lparr>w_fiber = Some f, w_coro = None, w_result = r, w_token = tok\<rparr>"

definition coro_waiter :: "nat \<Rightarrow> bool \<Rightarrow> u32 \<Rightarrow> waiter" where
  "coro_waiter t r tok = \<lparr>w_fiber = None, w_coro = Some t, w_result = r, w_token = tok\<rparr>"

definition client_of :: "waiter \<Rightarrow> client" where
  "client_of x = (case w_fiber x of Some f \<Rightarrow> Fib f | None \<Rightarrow> (case w_coro x of Some t \<Rightarrow> Cor t | None \<Rightarrow> Bar 0))"

text \<open>What the primitives read of the rest of the scheduler: the tasks, the task a fiber runs (\<^verbatim>\<open>Fiber::owningTask\<close>), the task a
  thread without a fiber runs, the table of cancel scopes.\<close>

record world =
  task_at :: "nat \<Rightarrow> sync_task"
  owningTask :: "nat \<Rightarrow> nat option"
  bareTask :: "nat \<Rightarrow> nat option"
  ctab :: cancel_table

definition IsTaskCancelled :: "world \<Rightarrow> nat option \<Rightarrow> bool" where
  "IsTaskCancelled w t =
     (case t of None \<Rightarrow> False
      | Some t \<Rightarrow> if cancelledDirect (task_at w t) then True else Cancelled (ctab w) (cancelToken (task_at w t)))"

text \<open>\<^verbatim>\<open>GetCurrentTask\<close>, as seen from each kind of client.\<close>

fun GetCurrentTask :: "world \<Rightarrow> client \<Rightarrow> nat option" where
  "GetCurrentTask w (Fib f) = owningTask w f"
| "GetCurrentTask w (Cor t) = Some t"
| "GetCurrentTask w (Bar b) = bareTask w b"

definition token_of :: "world \<Rightarrow> nat option \<Rightarrow> u32" where
  "token_of w t = (case t of None \<Rightarrow> kNone | Some t \<Rightarrow> cancelToken (task_at w t))"

text \<open>The skip test of \<^verbatim>\<open>Unlock\<close> and \<^verbatim>\<open>Signal\<close>: only a waiter with a result slot can be passed over.\<close>

definition skips :: "world \<Rightarrow> waiter \<Rightarrow> bool" where
  "skips w x \<longleftrightarrow> w_result x \<and> IsTaskCancelled w (case w_fiber x of Some f \<Rightarrow> owningTask w f | None \<Rightarrow> w_coro x)"

text \<open>The test of \<^verbatim>\<open>CancelWaiters\<close>: an invalid token selects every waiter that can be cancelled.\<close>

definition matches :: "world \<Rightarrow> u32 \<Rightarrow> waiter \<Rightarrow> bool" where
  "matches w tok x \<longleftrightarrow> w_result x \<and> (\<not> Valid tok \<or> IsWithin (ctab w) (w_token x) tok)"

lemma client_of_waiter [simp]:
  "client_of (fiber_waiter f r tok) = Fib f" "w_result (fiber_waiter f r tok) = r" "w_fiber (fiber_waiter f r tok) = Some f"
  "client_of (coro_waiter t r tok) = Cor t" "w_result (coro_waiter t r tok) = r" "w_fiber (coro_waiter t r tok) = None"
  "w_coro (coro_waiter t r tok) = Some t" "w_token (fiber_waiter f r tok) = tok" "w_token (coro_waiter t r tok) = tok"
  by (simp_all add: client_of_def fiber_waiter_def coro_waiter_def)

section \<open>Taking waiters out of a queue\<close>

definition kBuf :: nat where
  "kBuf = 64"

text \<open>One pass over the queue with room for \<open>r\<close> victims: the victims and what is kept, both in queue order.\<close>

fun eject_pass :: "('w \<Rightarrow> bool) \<Rightarrow> nat \<Rightarrow> 'w list \<Rightarrow> 'w list \<times> 'w list" where
  "eject_pass P r [] = ([], [])"
| "eject_pass P r (x # xs) =
     (if P x \<and> 0 < r then (case eject_pass P (r - 1) xs of (vs, ks) \<Rightarrow> (x # vs, ks))
      else (case eject_pass P r xs of (vs, ks) \<Rightarrow> (vs, x # ks)))"

lemma eject_pass_full [simp]: "eject_pass P 0 q = ([], q)"
  by (induction q) auto

lemma eject_pass_spec:
  assumes "eject_pass P r q = (vs, ks)"
  shows "vs = take r (filter P q)" and "length (filter P q) \<le> r \<Longrightarrow> ks = filter (\<lambda>x. \<not> P x) q"
    and "filter (\<lambda>x. \<not> P x) ks = filter (\<lambda>x. \<not> P x) q" and "filter P ks = drop r (filter P q)"
  using assms
proof (induction q arbitrary: r vs ks)
  case (Cons x q)
  { case 1 then show ?case using Cons.IH(1) by (cases r) (auto split: if_splits prod.splits)
  next case 2 then show ?case using Cons.IH(2) by (cases r) (auto simp: filter_empty_conv split: if_splits prod.splits)
  next case 3 then show ?case using Cons.IH(3) by (auto split: if_splits prod.splits)
  next case 4 then show ?case using Cons.IH(4) by (cases r) (auto split: if_splits prod.splits) }
qed auto

lemma eject_pass_mset: "eject_pass P r q = (vs, ks) \<Longrightarrow> mset q = mset (vs @ ks)"
  by (induction q arbitrary: r vs ks) (auto split: if_splits prod.splits)

lemma eject_pass_set: "eject_pass P r q = (vs, ks) \<Longrightarrow> set q = set vs \<union> set ks"
  using eject_pass_mset [of P r q vs ks] by (metis mset_eq_setD set_append)

lemma eject_pass_distinct:
  assumes "eject_pass P r q = (vs, ks)" and "distinct (map f q)"
  shows "distinct (map f vs)" "distinct (map f ks)" "f ` set vs \<inter> f ` set ks = {}"
proof -
  have "mset (map f q) = mset (map f (vs @ ks))" using eject_pass_mset [OF assms(1)] by (simp add: mset_map)
  then have "distinct (map f (vs @ ks))" using assms(2) mset_eq_imp_distinct_iff by blast
  then show "distinct (map f vs)" "distinct (map f ks)" "f ` set vs \<inter> f ` set ks = {}" by auto
qed

lemma eject_pass_victim: "eject_pass P r q = (vs, ks) \<Longrightarrow> x \<in> set vs \<Longrightarrow> P x"
  using eject_pass_spec(1) [of P r q vs ks] by (metis in_set_takeD mem_Collect_eq set_filter)


section \<open>Where a waiting client is\<close>

text \<open>
  What the primitives owe their waiters, over the control states of a primitive: a client is parked (with or without a result
  slot), a client may have taken waiters out of the queue and be about to wake them, and one that ejects has taken only waiters with a slot. Every parked client is
  at exactly one place: in the queue (\<open>Some None\<close>) or with one other client (\<open>Some (Some a)\<close>).
\<close>

definition placed :: "('p \<Rightarrow> bool option) \<Rightarrow> ('p \<Rightarrow> waiter list) \<Rightarrow> ('p \<Rightarrow> bool)
    \<Rightarrow> (client \<Rightarrow> client option option) \<Rightarrow> (client \<Rightarrow> 'p) \<Rightarrow> waiter list \<Rightarrow> bool" where
  "placed parked carried ejects loc pcs q \<longleftrightarrow>
     (\<forall>c. parked (pcs c) \<noteq> None \<longleftrightarrow> loc c \<noteq> None)
   \<and> (\<forall>c. loc c = Some None \<longleftrightarrow> c \<in> client_of ` set q)
   \<and> (\<forall>c a. loc c = Some (Some a) \<longleftrightarrow> c \<in> client_of ` set (carried (pcs a)))
   \<and> distinct (map client_of q) \<and> (\<forall>a. distinct (map client_of (carried (pcs a))))
   \<and> (\<forall>x \<in> set q. parked (pcs (client_of x)) = Some (w_result x))
   \<and> (\<forall>a. \<forall>x \<in> set (carried (pcs a)). parked (pcs (client_of x)) = Some (w_result x))
   \<and> (\<forall>a. ejects (pcs a) \<longrightarrow> (\<forall>x \<in> set (carried (pcs a)). w_result x))"

lemma placedD:
  assumes "placed parked carried ejects loc pcs q"
  shows "parked (pcs c) \<noteq> None \<longleftrightarrow> loc c \<noteq> None" "loc c = Some None \<longleftrightarrow> c \<in> client_of ` set q"
    "loc c = Some (Some a) \<longleftrightarrow> c \<in> client_of ` set (carried (pcs a))"
    "distinct (map client_of q)" "distinct (map client_of (carried (pcs a)))"
    "x \<in> set q \<Longrightarrow> parked (pcs (client_of x)) = Some (w_result x) \<and> loc (client_of x) = Some None"
    "x \<in> set (carried (pcs a)) \<Longrightarrow> parked (pcs (client_of x)) = Some (w_result x) \<and> loc (client_of x) = Some (Some a)"
    "ejects (pcs a) \<Longrightarrow> x \<in> set (carried (pcs a)) \<Longrightarrow> w_result x"
  using assms unfolding placed_def by blast+

lemma placedI:
  assumes "\<And>c. parked (pcs c) \<noteq> None \<Longrightarrow> loc c \<noteq> None"
    "\<And>c. loc c = Some None \<Longrightarrow> c \<in> client_of ` set q"
    "\<And>c a. loc c = Some (Some a) \<Longrightarrow> c \<in> client_of ` set (carried (pcs a))"
    "distinct (map client_of q)" "\<And>a. distinct (map client_of (carried (pcs a)))"
    "\<And>x. x \<in> set q \<Longrightarrow> parked (pcs (client_of x)) = Some (w_result x) \<and> loc (client_of x) = Some None"
    "\<And>x a. x \<in> set (carried (pcs a)) \<Longrightarrow> parked (pcs (client_of x)) = Some (w_result x) \<and> loc (client_of x) = Some (Some a)"
    "\<And>a x. ejects (pcs a) \<Longrightarrow> x \<in> set (carried (pcs a)) \<Longrightarrow> w_result x"
  shows "placed parked carried ejects loc pcs q"
proof -
  have "parked (pcs c) \<noteq> None" if l: "loc c \<noteq> None" for c
  proof -
    obtain m where m: "loc c = Some m" using l by auto
    then show ?thesis using assms(2,3,6,7) by (cases m) fastforce+
  qed
  then show ?thesis unfolding placed_def using assms by (intro conjI allI ballI impI iffI) (auto simp: image_iff)
qed

text \<open>The contract between the control states of a primitive and these places, and the four ways in which the places change.\<close>

locale wait_places =
  fixes parked :: "'p \<Rightarrow> bool option" and carried :: "'p \<Rightarrow> waiter list" and ejects :: "'p \<Rightarrow> bool"
    and park :: "bool \<Rightarrow> 'p" and woken :: "bool \<Rightarrow> 'p"
  assumes parked_park [simp]: "parked (park r) = Some r" and carried_parked: "parked p \<noteq> None \<Longrightarrow> carried p = []"
    and parked_woken [simp]: "parked (woken r) = None" and carried_woken [simp]: "carried (woken r) = []"
begin

lemma carried_park [simp]: "carried (park r) = []"
  by (rule carried_parked) simp

lemma placed_init: "(\<And>c. parked (pcs c) = None) \<Longrightarrow> (\<And>c. carried (pcs c) = []) \<Longrightarrow> placed parked carried ejects (\<lambda>_. None) pcs []"
  by (rule placedI) auto

lemma placed_move:
  assumes P: "placed parked carried ejects loc pcs q" and "parked (pcs c) = None" "parked p = None" "carried p = carried (pcs c)"
    and "carried p = [] \<or> \<not> ejects p" and "pcs' = pcs(c := p)" "q' = q"
  shows "placed parked carried ejects loc pcs' q'"
proof (rule placedI)
  note D = placedD [OF P]
  have ne: "client_of x \<noteq> c" if "loc (client_of x) \<noteq> None" for x using that assms(2) D(1) by metis
  show "x \<in> set q' \<Longrightarrow> parked (pcs' (client_of x)) = Some (w_result x) \<and> loc (client_of x) = Some None" for x
    using D(6) [of x] ne [of x] assms(6,7) by auto
  show "x \<in> set (carried (pcs' a)) \<Longrightarrow> parked (pcs' (client_of x)) = Some (w_result x) \<and> loc (client_of x) = Some (Some a)" for x a
    using D(7) [of x a] ne [of x] assms(4,6) by (auto split: if_splits)
  show "ejects (pcs' a) \<Longrightarrow> x \<in> set (carried (pcs' a)) \<Longrightarrow> w_result x" for a x
    using D(8) [of a x] assms(5,6) by (auto split: if_splits)
qed (use placedD [OF P] assms in \<open>auto split: if_splits\<close>)

lemma placed_enqueue:
  assumes P: "placed parked carried ejects loc pcs q" and "parked (pcs c) = None" "carried (pcs c) = []" "client_of x = c"
    and "pcs' = pcs(c := park (w_result x))" "q' = q @ [x]"
  shows "placed parked carried ejects (loc(c := Some None)) pcs' q'"
proof (rule placedI)
  note D = placedD [OF P]
  have N: "loc c = None" using D(1) assms(2) by blast
  have ne: "client_of x \<noteq> c" if "loc (client_of x) \<noteq> None" for x using that N by metis
  let ?l = "loc(c := Some None)"
  show "y \<in> set q' \<Longrightarrow> parked (pcs' (client_of y)) = Some (w_result y) \<and> ?l (client_of y) = Some None" for y
    using D(6) [of y] ne [of y] assms(4,5,6) by auto
  show "y \<in> set (carried (pcs' a)) \<Longrightarrow> parked (pcs' (client_of y)) = Some (w_result y) \<and> ?l (client_of y) = Some (Some a)" for y a
    using D(7) [of y a] ne [of y] assms(3,5) by (auto split: if_splits)
  show "distinct (map client_of q')" using D(4) D(6) assms(4,6) ne by fastforce
  show "?l d = Some None \<Longrightarrow> d \<in> client_of ` set q'" for d using D(2) [of d] assms(4,6) by (auto split: if_splits)
  show "?l d = Some (Some a) \<Longrightarrow> d \<in> client_of ` set (carried (pcs' a))" for d a
    using D(3) [of d a] assms(3,5) by (auto split: if_splits)
  show "distinct (map client_of (carried (pcs' a)))" for a using D(5) [of a] assms(5) by auto
  show "parked (pcs' d) \<noteq> None \<Longrightarrow> ?l d \<noteq> None" for d using D(1) [of d] assms(5) by (auto split: if_splits)
  show "ejects (pcs' a) \<Longrightarrow> y \<in> set (carried (pcs' a)) \<Longrightarrow> w_result y" for a y
    using D(8) [of a y] assms(5) by (auto split: if_splits)
qed

text \<open>A client takes some waiters out of the queue.\<close>

lemma placed_take:
  assumes P: "placed parked carried ejects loc pcs q" and "parked (pcs c) = None" "carried (pcs c) = []" "parked p = None"
    and "mset q = mset (carried p @ ks)" "\<And>x. ejects p \<Longrightarrow> x \<in> set (carried p) \<Longrightarrow> w_result x"
    and "pcs' = pcs(c := p)" "q' = ks"
  shows "placed parked carried ejects (\<lambda>d. if d \<in> client_of ` set (carried p) then Some (Some c) else loc d) pcs' q'"
proof (rule placedI)
  note D = placedD [OF P]
  have N: "loc c = None" using D(1) assms(2) by blast
  have "mset (map client_of q) = mset (map client_of (carried p @ ks))" using assms(5) by simp
  then have dk: "distinct (map client_of (carried p @ ks))" using D(4) mset_eq_imp_distinct_iff by blast
  have st: "set q = set (carried p) \<union> set ks" using assms(5) by (metis mset_eq_setD set_append)
  let ?l = "\<lambda>d. if d \<in> client_of ` set (carried p) then Some (Some c) else loc d"
  show "distinct (map client_of q')" using dk assms(8) by simp
  show "distinct (map client_of (carried (pcs' a)))" for a using D(5) [of a] dk assms(7) by auto
  show "ejects (pcs' a) \<Longrightarrow> y \<in> set (carried (pcs' a)) \<Longrightarrow> w_result y" for a y
    using D(8) [of a y] assms(6,7) by (auto split: if_splits)
  show "parked (pcs' d) \<noteq> None \<Longrightarrow> ?l d \<noteq> None" for d using D(1) [of d] assms(4,7) by (auto split: if_splits)
  show "y \<in> set q' \<Longrightarrow> parked (pcs' (client_of y)) = Some (w_result y) \<and> ?l (client_of y) = Some None" for y
    using D(6) [of y] dk st assms(7,8) N by auto
  have q: "loc (client_of y) = Some None \<and> parked (pcs (client_of y)) = Some (w_result y)" if "y \<in> set (carried p)" for y
    using D(6) [of y] that st by auto
  show "y \<in> set (carried (pcs' a)) \<Longrightarrow> parked (pcs' (client_of y)) = Some (w_result y) \<and> ?l (client_of y) = Some (Some a)" for y a
    using D(7) [of y a] q [of y] assms(7) N q by (auto split: if_splits)
  show "?l d = Some None \<Longrightarrow> d \<in> client_of ` set q'" for d using D(2) [of d] st assms(8) by (auto split: if_splits)
  show "?l d = Some (Some a) \<Longrightarrow> d \<in> client_of ` set (carried (pcs' a))" for d a
    using D(3) [of d a] assms(3,7) by (auto split: if_splits)
qed

text \<open>A client wakes the first waiter it took out.\<close>

lemma placed_wake:
  assumes P: "placed parked carried ejects loc pcs q" and "parked (pcs c) = None" "carried (pcs c) = x # xs" "parked p = None" "carried p = xs"
    and "ejects p \<longrightarrow> xs = [] \<or> ejects (pcs c)" and "pcs' = pcs(client_of x := woken r, c := p)" "q' = q"
  shows "placed parked carried ejects (loc(client_of x := None)) pcs' q'"
proof (rule placedI)
  note D = placedD [OF P]
  have N: "loc c = None" using D(1) assms(2) by blast
  have X: "parked (pcs (client_of x)) = Some (w_result x)" "loc (client_of x) = Some (Some c)" using D(7) [of x c] assms(3) by auto
  have dx: "client_of y \<noteq> client_of x" if "y \<in> set xs" for y
    using D(5) [of c] assms(3) that by (metis distinct.simps(2) image_eqI list.simps(9) list.set_map)
  let ?l = "loc(client_of x := None)"
  show "distinct (map client_of q')" using D(4) assms(8) by simp
  show "distinct (map client_of (carried (pcs' a)))" for a using D(5) [of a] D(5) [of c] assms(3,5,7) by auto
  show "ejects (pcs' a) \<Longrightarrow> y \<in> set (carried (pcs' a)) \<Longrightarrow> w_result y" for a y
    using D(8) [of a y] D(8) [of c y] assms(3,5,6,7) by (auto split: if_splits)
  show "parked (pcs' d) \<noteq> None \<Longrightarrow> ?l d \<noteq> None" for d using D(1) [of d] assms(4,7) by (auto split: if_splits)
  show "y \<in> set q' \<Longrightarrow> parked (pcs' (client_of y)) = Some (w_result y) \<and> ?l (client_of y) = Some None" for y
    using D(6) [of y] assms(7,8) N X by auto
  show "y \<in> set (carried (pcs' a)) \<Longrightarrow> parked (pcs' (client_of y)) = Some (w_result y) \<and> ?l (client_of y) = Some (Some a)" for y a
    using D(7) [of y a] D(7) [of y c] dx [of y] assms(3,5,7) N X by (auto split: if_splits)
  show "?l d = Some None \<Longrightarrow> d \<in> client_of ` set q'" for d using D(2) [of d] assms(8) by (auto split: if_splits)
  show "?l d = Some (Some a) \<Longrightarrow> d \<in> client_of ` set (carried (pcs' a))" for d a
    using D(3) [of d a] X carried_parked [of "pcs (client_of x)"] assms(3,5,7) by (auto split: if_splits)
qed

end

end
