(* ===== verification/Sched_Mutex.thy ===== *)
theory Sched_Mutex
  imports Sync_Waiters
begin

text \<open>
  \<^verbatim>\<open>SchedulerMutex\<close> of \<^verbatim>\<open>TaskScheduler.cpp\<close>. Fibers and coroutine tasks queue; a thread that runs neither blocks on a condition
  variable. The clients interleave at the granularity of the code's critical sections: the regions under \<^verbatim>\<open>spinLock\<close> and under
  \<^verbatim>\<open>holderLock\<close> are one step each, as is every access to \<^verbatim>\<open>bareWaiters\<close> and every operation on \<^verbatim>\<open>bareMtx\<close> and \<^verbatim>\<open>bareCv\<close>. The optional spin
  before the section only reads \<^verbatim>\<open>locked\<close> and has no effect; the thread-local count of held locks steers only
  whether a spinning thread helps with other work, and is left out. \<^verbatim>\<open>Thread::Resume\<close> makes a suspended fiber continue; the scheduler is initialised.
\<close>

section \<open>State\<close>

datatype mcall = KLock | KLockCancellable | KLockAsync | KLockAsyncResult | KTryLock

text \<open>
  Where a client stands. \<open>MParked\<close> and \<open>MWoken\<close> say whether the wait has a result slot. The states from \<open>MUnlock\<close> to
  \<open>MNotify\<close> are those of \<^verbatim>\<open>Unlock\<close>, the ones from \<open>MRegister\<close> on those of a thread that blocks, \<open>MSweep\<close> and \<open>MEject\<close> those of \<^verbatim>\<open>CancelWaiters\<close>.
\<close>

datatype mpc =
    MIdle | MAborted
  | MCheck | MEnter mcall | MSpin
  | MGranted | MParked bool | MWoken bool | MHeld
  | MUnlock | MPop | MExam waiter | MHandCoro waiter | MFreed | MNotifyLock | MNotify
  | MRegister | MLockMtx | MTest | MBlock | MBlocked | MGot | MGotStored | MUnregister
  | MSweep u32 | MEject "waiter list" bool u32

record mutex =
  locked :: bool
  lockHolder :: "nat option"
  waiters :: "waiter list"
  bareMtx :: "client option"
  sleepers :: "client list"        \<comment> \<open>the threads inside \<^verbatim>\<open>bareCv.wait\<close>\<close>
  bareWaiters :: nat
  violationHook :: bool
  results :: "client \<Rightarrow> wait_result"
  pc :: "client \<Rightarrow> mpc"
  wld :: world

definition mutex_init :: "bool \<Rightarrow> world \<Rightarrow> mutex" where
  "mutex_init hook w = \<lparr>locked = False, lockHolder = None, waiters = [], bareMtx = None, sleepers = [], bareWaiters = 0,
     violationHook = hook, results = (\<lambda>_. WOk), pc = (\<lambda>_. MIdle), wld = w\<rparr>"

definition goto :: "client \<Rightarrow> mpc \<Rightarrow> mutex \<Rightarrow> mutex" where
  "goto c p s = s\<lparr>pc := (pc s)(c := p)\<rparr>"

text \<open>\<^verbatim>\<open>*next.result = r\<close> and the \<^verbatim>\<open>Resume\<close> or \<^verbatim>\<open>Push\<close> of the waiter.\<close>

definition wake :: "waiter \<Rightarrow> wait_result \<Rightarrow> mutex \<Rightarrow> mutex" where
  "wake x r s =
     goto (client_of x) (MWoken (w_result x))
       (if w_result x then s\<lparr>results := (results s)(client_of x := r)\<rparr> else s)"

section \<open>Taking the lock\<close>

text \<open>The section under \<^verbatim>\<open>spinLock\<close>: take the lock if it is free, otherwise do what the caller does when it is not.\<close>

definition section_take :: "client \<Rightarrow> (mutex \<Rightarrow> mutex) \<Rightarrow> mutex \<Rightarrow> mutex" where
  "section_take c other s = (if \<not> locked s then goto c MGranted (s\<lparr>locked := True\<rparr>) else other s)"

definition enqueue :: "client \<Rightarrow> waiter \<Rightarrow> mutex \<Rightarrow> mutex" where
  "enqueue c x s = goto c (MParked (w_result x)) (s\<lparr>waiters := waiters s @ [x]\<rparr>)"

definition store_holder :: "client \<Rightarrow> mutex \<Rightarrow> mutex" where
  "store_holder c s = s\<lparr>lockHolder := GetCurrentTask (wld s) c\<rparr>"

definition Try_Lock :: "client \<Rightarrow> mutex \<Rightarrow> mutex" where
  "Try_Lock c = section_take c (goto c MIdle)"

text \<open>A task without a fiber must not wait: the process aborts, or calls the hook and returns without the lock.\<close>

definition Lock :: "client \<Rightarrow> mutex \<Rightarrow> mutex" where
  "Lock c =
     (case c of Fib f \<Rightarrow> section_take c (enqueue c (fiber_waiter f False kNone))
      | _ \<Rightarrow> section_take c (\<lambda>s.
          if GetCurrentTask (wld s) c \<noteq> None then goto c (if violationHook s then MIdle else MAborted) s
          else goto c MRegister s))"

definition LockCancellable :: "client \<Rightarrow> mutex \<Rightarrow> mutex" where
  "LockCancellable c =
     (case c of Fib f \<Rightarrow> section_take c (\<lambda>s.
          enqueue c (fiber_waiter f True (token_of (wld s) (GetCurrentTask (wld s) c))) (s\<lparr>results := (results s)(c := WOk)\<rparr>))
      | _ \<Rightarrow> section_take c (goto c MSpin))"

definition LockAsyncEnqueue_result :: "nat \<Rightarrow> mutex \<Rightarrow> mutex" where
  "LockAsyncEnqueue_result t s =
     (if \<not> locked s then goto (Cor t) MGranted (s\<lparr>locked := True, results := (results s)(Cor t := WOk)\<rparr>)
      else enqueue (Cor t) (coro_waiter t True (token_of (wld s) (Some t))) s)"

definition LockAsyncEnqueue :: "nat \<Rightarrow> mutex \<Rightarrow> mutex" where
  "LockAsyncEnqueue t = section_take (Cor t) (enqueue (Cor t) (coro_waiter t False kNone))"

text \<open>The part of \<^verbatim>\<open>Lock\<close> in which a thread registers, blocks and tries again under \<^verbatim>\<open>bareMtx\<close>.\<close>

fun bare_wait :: "client \<Rightarrow> mpc \<Rightarrow> mutex \<Rightarrow> mutex option" where
  "bare_wait c MRegister s = Some (goto c MLockMtx (s\<lparr>bareWaiters := bareWaiters s + 1\<rparr>))"
| "bare_wait c MLockMtx s = (if bareMtx s = None then Some (goto c MTest (s\<lparr>bareMtx := Some c\<rparr>)) else None)"
| "bare_wait c MTest s = Some (if \<not> locked s then goto c MGot (s\<lparr>locked := True\<rparr>) else goto c MBlock s)"
| "bare_wait c MBlock s = Some (goto c MBlocked (s\<lparr>bareMtx := None, sleepers := sleepers s @ [c]\<rparr>))"
| "bare_wait c MGot s = Some (goto c MGotStored (store_holder c s))"
| "bare_wait c MGotStored s = Some (goto c MUnregister (s\<lparr>bareMtx := None\<rparr>))"
| "bare_wait c MUnregister s = Some (goto c MHeld (s\<lparr>bareWaiters := bareWaiters s - 1\<rparr>))"
| "bare_wait c _ s = None"

section \<open>Releasing the lock\<close>

fun Unlock :: "client \<Rightarrow> mpc \<Rightarrow> mutex \<Rightarrow> mutex option" where
  "Unlock c MUnlock s = Some (goto c MPop (s\<lparr>lockHolder := None\<rparr>))"
| "Unlock c MPop s =
     Some (case waiters s of
             [] \<Rightarrow> goto c MFreed (s\<lparr>locked := False\<rparr>)
           | x # xs \<Rightarrow> goto c (MExam x) (s\<lparr>waiters := xs\<rparr>))"
| "Unlock c (MExam x) s =
     Some (if skips (wld s) x then goto c MPop (wake x WCancelled s)
           else if w_fiber x \<noteq> None then goto c MIdle (wake x WOk s)
           else goto c (MHandCoro x) (s\<lparr>lockHolder := w_coro x\<rparr>))"
| "Unlock c (MHandCoro x) s = Some (goto c MIdle (wake x WOk s))"
| "Unlock c MFreed s = Some (goto c (if bareWaiters s \<noteq> 0 then MNotifyLock else MIdle) s)"
| "Unlock c MNotifyLock s = (if bareMtx s = None then Some (goto c MNotify s) else None)"
| "Unlock c _ s = None"

text \<open>\<^verbatim>\<open>bareCv.notify_one\<close>: any one of the threads that wait.\<close>

definition notify_one :: "client \<Rightarrow> nat \<Rightarrow> mutex \<Rightarrow> mutex" where
  "notify_one c k s =
     (if sleepers s = [] then goto c MIdle s
      else (let b = sleepers s ! (k mod length (sleepers s))
            in goto b MLockMtx (goto c MIdle (s\<lparr>sleepers := filter (\<lambda>x. x \<noteq> b) (sleepers s)\<rparr>))))"

section \<open>Eager cancellation\<close>

fun CancelWaiters :: "client \<Rightarrow> mpc \<Rightarrow> mutex \<Rightarrow> mutex option" where
  "CancelWaiters c (MSweep tok) s =
     (case eject_pass (matches (wld s) tok) kBuf (waiters s) of (vs, ks) \<Rightarrow>
        Some (goto c (if vs = [] then MIdle else MEject vs (length vs = kBuf) tok) (s\<lparr>waiters := ks\<rparr>)))"
| "CancelWaiters c (MEject [] full tok) s = Some (goto c (if full then MSweep tok else MIdle) s)"
| "CancelWaiters c (MEject (x # xs) full tok) s = Some (goto c (MEject xs full tok) (wake x WCancelled s))"
| "CancelWaiters c _ s = None"

section \<open>The system\<close>

text \<open>After the switch back: a cancelled wait returns without the lock; a fiber stores itself as the holder, for a coroutine
  \<^verbatim>\<open>Unlock\<close> did.\<close>

definition resume_wait :: "client \<Rightarrow> bool \<Rightarrow> mutex \<Rightarrow> mutex" where
  "resume_wait c r s =
     (if r \<and> results s c = WCancelled then goto c MIdle s
      else goto c MHeld (case c of Cor t \<Rightarrow> s | _ \<Rightarrow> store_holder c s))"

fun enter :: "mcall \<Rightarrow> client \<Rightarrow> mutex \<Rightarrow> mutex option" where
  "enter KLock c s = Some (Lock c s)"
| "enter KLockCancellable c s = Some (LockCancellable c s)"
| "enter KLockAsync (Cor t) s = Some (LockAsyncEnqueue t s)"
| "enter KLockAsyncResult (Cor t) s = Some (LockAsyncEnqueue_result t s)"
| "enter KTryLock c s = Some (Try_Lock c s)"
| "enter _ _ s = None"

fun client_step :: "client \<Rightarrow> mpc \<Rightarrow> mutex \<Rightarrow> mutex option" where
  "client_step c MCheck s = Some (goto c (if IsTaskCancelled (wld s) (GetCurrentTask (wld s) c) then MIdle else MEnter KLockCancellable) s)"
| "client_step c (MEnter k) s = enter k c s"
| "client_step c MSpin s = Some (goto c (if IsTaskCancelled (wld s) (GetCurrentTask (wld s) c) then MIdle else MEnter KLockCancellable) s)"
| "client_step c MGranted s = Some (goto c MHeld (store_holder c s))"
| "client_step c (MWoken r) s = Some (resume_wait c r s)"
| "client_step c p s =
     (case bare_wait c p s of Some s' \<Rightarrow> Some s'
      | None \<Rightarrow> (case Unlock c p s of Some s' \<Rightarrow> Some s' | None \<Rightarrow> CancelWaiters c p s))"

text \<open>The events of a run: a call, a step of a client, the choice of \<^verbatim>\<open>notify_one\<close>, a spurious wake-up, and any change of what the world
  says about cancellation.\<close>

datatype mevent =
    ECall client mcall | EUnlock client | ECancel client u32 | EStep client | ENotify client nat | ESpurious client
  | EWorld "nat \<Rightarrow> sync_task" cancel_table

fun may_call :: "client \<Rightarrow> mcall \<Rightarrow> bool" where
  "may_call (Cor t) k \<longleftrightarrow> k \<in> {KLockAsync, KLockAsyncResult, KTryLock}"
| "may_call _ k \<longleftrightarrow> k \<in> {KLock, KLockCancellable, KTryLock}"

fun mutex_step :: "mevent \<Rightarrow> mutex \<Rightarrow> mutex option" where
  "mutex_step (ECall c k) s =
     (if pc s c = MIdle \<and> may_call c k then Some (goto c (if k = KLockCancellable then MCheck else MEnter k) s) else None)"
| "mutex_step (EUnlock c) s = (if pc s c = MHeld then Some (goto c MUnlock s) else None)"
| "mutex_step (ECancel c tok) s = (if pc s c = MIdle then Some (goto c (MSweep tok) s) else None)"
| "mutex_step (EStep c) s = client_step c (pc s c) s"
| "mutex_step (ENotify c k) s = (if pc s c = MNotify then Some (notify_one c k s) else None)"
| "mutex_step (ESpurious c) s =
     (if c \<in> set (sleepers s) then Some (goto c MLockMtx (s\<lparr>sleepers := filter (\<lambda>x. x \<noteq> c) (sleepers s)\<rparr>)) else None)"
| "mutex_step (EWorld ts T) s = Some (s\<lparr>wld := (wld s)\<lparr>task_at := ts, ctab := T\<rparr>\<rparr>)"

section \<open>One owner\<close>

fun owns :: "mpc \<Rightarrow> wait_result \<Rightarrow> bool" where
  "owns MGranted r = True" | "owns MHeld r = True" | "owns MUnlock r = True" | "owns MPop r = True" | "owns (MExam x) r = True"
| "owns (MHandCoro x) r = True" | "owns MGot r = True" | "owns MGotStored r = True" | "owns MUnregister r = True"
| "owns (MWoken k) r = (\<not> (k \<and> r = WCancelled))"
| "owns _ r = False"

fun carried :: "mpc \<Rightarrow> waiter list" where
  "carried (MExam x) = [x]" | "carried (MHandCoro x) = [x]" | "carried (MEject xs full tok) = xs" | "carried _ = []"

definition owner :: "mutex \<Rightarrow> client \<Rightarrow> bool" where
  "owner s c = owns (pc s c) (results s c)"

definition excl :: "client option \<Rightarrow> mutex \<Rightarrow> bool" where
  "excl own s \<longleftrightarrow> (\<forall>c. owner s c \<longleftrightarrow> own = Some c) \<and> (locked s \<longleftrightarrow> own \<noteq> None)"

definition is_parked :: "mpc \<Rightarrow> bool" where
  "is_parked p \<longleftrightarrow> (\<exists>r. p = MParked r)"

fun mparked :: "mpc \<Rightarrow> bool option" where
  "mparked (MParked r) = Some r" | "mparked _ = None"

fun is_eject :: "mpc \<Rightarrow> bool" where
  "is_eject (MEject xs full tok) = True" | "is_eject _ = False"

interpretation mxp: wait_places mparked carried is_eject MParked MWoken
proof
  show "mparked p \<noteq> None \<Longrightarrow> carried p = []" for p by (cases p) auto
qed simp_all

abbreviation mplaced :: "(client \<Rightarrow> client option option) \<Rightarrow> mutex \<Rightarrow> bool" where
  "mplaced loc s \<equiv> placed mparked carried is_eject loc (pc s) (waiters s)"

lemma mparked_Some [simp]: "mparked p = Some r \<longleftrightarrow> p = MParked r"
  by (cases p) auto

lemma mparked_None: "mparked p = None \<longleftrightarrow> \<not> is_parked p"
  by (cases p) (auto simp: is_parked_def)

lemma is_eject_iff: "is_eject p \<longleftrightarrow> (\<exists>xs full tok. p = MEject xs full tok)"
  by (cases p) auto

lemmas mplacedD = placedD [where parked = mparked and carried = carried and ejects = is_eject, simplified mparked_None not_not mparked_Some]

lemma mplaced_move:
  assumes "mplaced loc s" and "\<not> is_parked (pc s c)" "\<not> is_parked p" "carried p = carried (pc s c)"
    and "carried p = [] \<or> (\<exists>x. p = MHandCoro x)" and "pc s' = (pc s)(c := p)" "waiters s' = waiters s"
  shows "mplaced loc s'"
  by (rule mxp.placed_move [OF assms(1), of c p]) (use assms in \<open>auto simp: mparked_None\<close>)

lemma mplaced_enqueue:
  assumes "mplaced loc s" and "\<not> is_parked (pc s c)" "carried (pc s c) = []" "client_of x = c"
    and "pc s' = (pc s)(c := MParked (w_result x))" "waiters s' = waiters s @ [x]"
  shows "mplaced (loc(c := Some None)) s'"
  by (rule mxp.placed_enqueue [OF assms(1), of c x]) (use assms in \<open>auto simp: mparked_None\<close>)

lemma mplaced_take:
  assumes "mplaced loc s" and "\<not> is_parked (pc s c)" "carried (pc s c) = []" "\<not> is_parked p"
    and "mset (waiters s) = mset (carried p @ ks)" "\<And>xs f t x. p = MEject xs f t \<Longrightarrow> x \<in> set xs \<Longrightarrow> w_result x"
    and "pc s' = (pc s)(c := p)" "waiters s' = ks"
  shows "mplaced (\<lambda>d. if d \<in> client_of ` set (carried p) then Some (Some c) else loc d) s'"
  by (rule mxp.placed_take [OF assms(1), of c p ks]) (use assms in \<open>auto simp: mparked_None is_eject_iff\<close>)

lemma mplaced_wake:
  assumes "mplaced loc s" and "\<not> is_parked (pc s c)" "carried (pc s c) = x # xs" "\<not> is_parked p" "carried p = xs"
    and "\<And>ys f t. p = MEject ys f t \<Longrightarrow> \<exists>f t. pc s c = MEject (x # ys) f t"
    and "pc s' = (pc s)(client_of x := MWoken r, c := p)" "waiters s' = waiters s"
  shows "mplaced (loc(client_of x := None)) s'"
  by (rule mxp.placed_wake [OF assms(1), of c x xs p]) (use assms in \<open>auto simp: mparked_None is_eject_iff\<close>)

section \<open>Threads that block\<close>

fun registered :: "mpc \<Rightarrow> bool" where
  "registered MLockMtx = True" | "registered MTest = True" | "registered MBlock = True" | "registered MBlocked = True"
| "registered MGot = True" | "registered MGotStored = True" | "registered MUnregister = True" | "registered _ = False"

fun in_mtx :: "mpc \<Rightarrow> bool" where
  "in_mtx MTest = True" | "in_mtx MBlock = True" | "in_mtx MGot = True" | "in_mtx MGotStored = True" | "in_mtx _ = False"

definition bare_inv :: "mutex \<Rightarrow> bool" where
  "bare_inv s \<longleftrightarrow> (\<forall>c. in_mtx (pc s c) \<longleftrightarrow> bareMtx s = Some c)
    \<and> distinct (sleepers s) \<and> set (sleepers s) = {c. pc s c = MBlocked}
    \<and> finite {c. registered (pc s c)} \<and> bareWaiters s = card {c. registered (pc s c)}"

text \<open>While the lock is free, a thread that sleeps or is about to is followed by a client that will look at the lock again or
  notify; a thread about to sleep by one that has not yet passed \<^verbatim>\<open>bareMtx\<close>.\<close>

definition helped :: "mutex \<Rightarrow> bool" where
  "helped s \<longleftrightarrow> \<not> locked s \<longrightarrow>
     ((\<exists>c. pc s c = MBlock) \<longrightarrow> (\<exists>h. pc s h \<in> {MFreed, MNotifyLock, MLockMtx}))
   \<and> ((\<exists>c. pc s c = MBlocked) \<longrightarrow> (\<exists>h. pc s h \<in> {MFreed, MNotifyLock, MNotify, MLockMtx, MTest}))"

lemma goto_sel [simp]:
  "pc (goto c p s) = (pc s)(c := p)" "locked (goto c p s) = locked s" "results (goto c p s) = results s" "waiters (goto c p s) = waiters s"
  "bareMtx (goto c p s) = bareMtx s" "sleepers (goto c p s) = sleepers s" "bareWaiters (goto c p s) = bareWaiters s"
  "wld (goto c p s) = wld s" "lockHolder (goto c p s) = lockHolder s" "violationHook (goto c p s) = violationHook s"
  by (simp_all add: goto_def)

lemma wake_sel [simp]:
  "pc (wake x r s) = (pc s)(client_of x := MWoken (w_result x))" "locked (wake x r s) = locked s"
  "results (wake x r s) d = (if w_result x \<and> d = client_of x then r else results s d)" "waiters (wake x r s) = waiters s"
  "bareMtx (wake x r s) = bareMtx s" "sleepers (wake x r s) = sleepers s" "bareWaiters (wake x r s) = bareWaiters s"
  "wld (wake x r s) = wld s" "lockHolder (wake x r s) = lockHolder s"
  by (simp_all add: wake_def)

lemma store_holder_sel [simp]:
  "pc (store_holder c s) = pc s" "locked (store_holder c s) = locked s" "results (store_holder c s) = results s"
  "waiters (store_holder c s) = waiters s" "bareMtx (store_holder c s) = bareMtx s" "sleepers (store_holder c s) = sleepers s"
  "bareWaiters (store_holder c s) = bareWaiters s" "wld (store_holder c s) = wld s"
  "lockHolder (store_holder c s) = GetCurrentTask (wld s) c"
  by (simp_all add: store_holder_def)

lemmas mutex_ops = section_take_def enqueue_def Try_Lock_def Lock_def LockCancellable_def
  LockAsyncEnqueue_result_def LockAsyncEnqueue_def notify_one_def resume_wait_def

text \<open>Only its own steps move a client, except that another wakes it when it is parked or asleep.\<close>

lemma enter_frame:
  assumes "enter k c s = Some s'"
  shows "\<exists>p. pc s' = (pc s)(c := p) \<and> sleepers s' = sleepers s \<and> bareMtx s' = bareMtx s \<and> bareWaiters s' = bareWaiters s
    \<and> p \<in> {MIdle, MAborted, MRegister, MSpin, MGranted, MParked True, MParked False}
    \<and> (p = MGranted \<longleftrightarrow> \<not> locked s) \<and> (\<forall>d. d \<noteq> c \<longrightarrow> results s' d = results s d)
    \<and> locked s'
    \<and> (case p of MParked r \<Rightarrow> \<exists>x. client_of x = c \<and> w_result x = r \<and> waiters s' = waiters s @ [x] | _ \<Rightarrow> waiters s' = waiters s)"
  using assms
  by (cases k; cases c) (auto simp: mutex_ops split: if_splits)

section \<open>Every event keeps the invariants\<close>

lemma nth_mod_mem: "xs = [] \<or> xs ! (k mod length xs) \<in> set xs"
  by (metis length_greater_0_conv mod_less_divisor nth_mem)

lemma notify_frame:
  assumes "bare_inv s"
  obtains "sleepers s = []" "notify_one c k s = goto c MIdle s"
  | b where "pc s b = MBlocked"
      "notify_one c k s = goto b MLockMtx (goto c MIdle (s\<lparr>sleepers := filter (\<lambda>x. x \<noteq> b) (sleepers s)\<rparr>))"
proof (cases "sleepers s = []")
  case True
  then show thesis using that(1) by (simp add: notify_one_def)
next
  case False
  then have "sleepers s ! (k mod length (sleepers s)) \<in> set (sleepers s)" using nth_mod_mem by blast
  then have "pc s (sleepers s ! (k mod length (sleepers s))) = MBlocked" using assms by (simp add: bare_inv_def)
  then show thesis by (rule that(2)) (simp add: notify_one_def Let_def False)
qed

lemma exclD:
  assumes "excl own s" shows "owner s c \<longleftrightarrow> own = Some c" "locked s \<longleftrightarrow> own \<noteq> None"
  using assms by (auto simp: excl_def)

lemma excl_same:
  assumes "excl own s" "\<And>d. owner s' d = owner s d" "locked s' = locked s"
  shows "excl own s'"
  using assms by (simp add: excl_def)

lemma excl_move:
  assumes E: "excl own s" and "\<And>d. d \<noteq> c \<Longrightarrow> owner s' d = owner s d"
  shows "\<not> locked s \<Longrightarrow> owner s' c \<Longrightarrow> locked s' \<Longrightarrow> excl (Some c) s'"
    and "owner s c \<Longrightarrow> \<not> owner s' c \<Longrightarrow> \<not> locked s' \<Longrightarrow> excl None s'"
    and "owner s' c = owner s c \<Longrightarrow> locked s' = locked s \<Longrightarrow> excl own s'"
proof -
  show "excl (Some c) s'" if a: "\<not> locked s" "owner s' c" "locked s'"
  proof -
    have n: "\<not> owner s e" for e using exclD [OF E] a(1) by auto
    have "owner s' e \<longleftrightarrow> Some c = Some e" for e using n [of e] assms(2) [of e] a(2) by (cases "e = c") auto
    then show ?thesis using a(3) by (simp add: excl_def)
  qed
  show "excl None s'" if a: "owner s c" "\<not> owner s' c" "\<not> locked s'"
  proof -
    have n: "\<not> owner s e" if "e \<noteq> c" for e using exclD(1) [OF E] a(1) that by auto
    have "\<not> owner s' e" for e using n [of e] assms(2) [of e] a(2) by (cases "e = c") auto
    then show ?thesis using a(3) by (simp add: excl_def)
  qed
  show "excl own s'" if a: "owner s' c = owner s c" "locked s' = locked s"
  proof -
    have "owner s' e = owner s e" for e using assms(2) [of e] a(1) by (cases "e = c") auto
    then show ?thesis using excl_same [OF E] a(2) by blast
  qed
qed

lemma excl_hand:
  assumes "excl own s" and "\<And>e. e \<noteq> c \<Longrightarrow> e \<noteq> d \<Longrightarrow> owner s' e = owner s e" and "owner s c" "\<not> owner s' c" "owner s' d"
    and "locked s' = locked s"
  shows "excl (Some d) s'"
proof -
  have own: "own = Some c" using exclD(1) [OF assms(1)] assms(3) by simp
  then have "\<not> owner s e" if "e \<noteq> c" for e using exclD(1) [OF assms(1)] that by auto
  then have "owner s' e \<longleftrightarrow> Some d = Some e" for e using assms(2) [of e] assms(4,5) by (cases "e = c"; cases "e = d") auto
  moreover have "locked s'" using exclD(2) [OF assms(1)] own assms(6) by simp
  ultimately show ?thesis by (simp add: excl_def)
qed

lemma excl_step:
  assumes E: "excl own s" and P: "mplaced loc s" and B: "bare_inv s" and "mutex_step a s = Some s'"
  shows "\<exists>own. excl own s'"
proof (cases a)
  case (EStep c)
  then have st: "client_step c (pc s c) s = Some s'" using assms(4) by simp
  have parked: "pc s (client_of x) = MParked (w_result x)" if "x \<in> set (carried (pc s c))" for x
    using mplacedD(7) [OF P] that by blast
  show ?thesis
  proof (cases "pc s c")
    case (MEnter k)
    then have "enter k c s = Some s'" using st by simp
    from enter_frame [OF this] obtain p where p: "pc s' = (pc s)(c := p)" "p \<in> {MIdle, MAborted, MRegister, MSpin, MGranted, MParked True, MParked False}"
      "p = MGranted \<longleftrightarrow> \<not> locked s" "\<forall>d. d \<noteq> c \<longrightarrow> results s' d = results s d" "locked s'" by blast
    have o: "owner s' d = owner s d" if "d \<noteq> c" for d using p that by (simp add: owner_def)
    show ?thesis
    proof (cases "locked s")
      case True
      then have "\<not> owner s c" "\<not> owner s' c" using MEnter p by (auto simp: owner_def)
      then show ?thesis using excl_move(3) [OF E o] True p(5) by blast
    next
      case False
      then have "owner s' c" using p by (auto simp: owner_def)
      then show ?thesis using excl_move(1) [OF E o] False p(5) by blast
    qed
  next
    case (MExam x)
    have pk: "pc s (client_of x) = MParked (w_result x)" using parked [of x] MExam by simp
    then have ne: "client_of x \<noteq> c" using MExam by auto
    show ?thesis
    proof (cases "skips (wld s) x")
      case True
      then have "owner s' d = owner s d" for d using st MExam pk ne by (auto simp: owner_def mutex_ops skips_def split: if_splits)
      moreover have "locked s' = locked s" using True st MExam by (auto simp: mutex_ops skips_def)
      ultimately show ?thesis using excl_same [OF E] by blast
    next
      case skip: False
      show ?thesis
      proof (cases "w_fiber x")
        case None
        then have "owner s' d = owner s d" "locked s' = locked s" for d using st MExam skip by (auto simp: owner_def mutex_ops split: if_splits)
        then show ?thesis using excl_same [OF E] by blast
      next
        case (Some f)
        have "excl (Some (client_of x)) s'"
          by (rule excl_hand [OF E, of c]) (use st MExam skip Some ne in \<open>auto simp: owner_def mutex_ops\<close>)
        then show ?thesis by blast
      qed
    qed
  next
    case (MHandCoro x)
    have pk: "pc s (client_of x) = MParked (w_result x)" using parked [of x] MHandCoro by simp
    then have ne: "client_of x \<noteq> c" using MHandCoro by auto
    have "excl (Some (client_of x)) s'"
      by (rule excl_hand [OF E, of c]) (use st MHandCoro ne in \<open>auto simp: owner_def mutex_ops\<close>)
    then show ?thesis by blast
  next
    case (MEject xs f t)
    have "owner s' d = owner s d \<and> locked s' = locked s" for d
    proof (cases xs)
      case Nil then show ?thesis using st MEject by (auto simp: owner_def mutex_ops split: if_splits)
    next
      case (Cons x ys)
      have "pc s (client_of x) = MParked (w_result x)" using parked [of x] MEject Cons by simp
      moreover have "w_result x" using mplacedD(8) [OF P, of c x] MEject Cons by simp
      ultimately show ?thesis using st MEject Cons by (auto simp: owner_def mutex_ops split: if_splits)
    qed
    then show ?thesis using excl_same [OF E] by blast
  next
    case MPop
    show ?thesis
    proof (cases "waiters s")
      case Nil
      then have "excl None s'" by - (rule excl_move(2) [OF E, of c]; use st MPop in \<open>auto simp: owner_def mutex_ops\<close>)
      then show ?thesis by blast
    next
      case (Cons x xs)
      then have "owner s' d = owner s d \<and> locked s' = locked s" for d using st MPop by (auto simp: owner_def mutex_ops split: if_splits)
      then show ?thesis using excl_same [OF E] by blast
    qed
  next
    case MTest
    show ?thesis
    proof (cases "locked s")
      case True
      then have "owner s' d = owner s d \<and> locked s' = locked s" for d using st MTest by (auto simp: owner_def mutex_ops split: if_splits)
      then show ?thesis using excl_same [OF E] by blast
    next
      case False
      then have "excl (Some c) s'" by - (rule excl_move(1) [OF E, of c]; use st MTest in \<open>auto simp: owner_def mutex_ops\<close>)
      then show ?thesis by blast
    qed
  qed (use st excl_same [OF E, of s'] in \<open>fastforce simp: owner_def mutex_ops split: prod.splits if_splits client.splits\<close>)+
next
  case (ENotify c k)
  then have n: "pc s c = MNotify" "s' = notify_one c k s" using assms(4) by (auto split: if_splits)
  have "owner s' d = owner s d \<and> locked s' = locked s" for d
    using n by (cases rule: notify_frame [OF B, of c k]) (auto simp: owner_def split: if_splits)
  then show ?thesis using excl_same [OF E] by blast
next
  case (ESpurious c)
  then have "owner s' d = owner s d \<and> locked s' = locked s" for d
    using assms(4) B by (auto simp: owner_def mutex_ops bare_inv_def split: if_splits)
  then show ?thesis using excl_same [OF E] by blast
qed (use assms(4) excl_same [OF E, of s'] in \<open>fastforce simp: owner_def mutex_ops split: if_splits\<close>)+


lemma mplaced_cong:
  assumes "pc s' = pc s" "waiters s' = waiters s" shows "mplaced loc s' = mplaced loc s"
  unfolding assms by (rule refl)

text \<open>A call, or the start of \<^verbatim>\<open>Unlock\<close> or \<^verbatim>\<open>CancelWaiters\<close>, only moves the client.\<close>

lemma call_frame:
  assumes "mutex_step a s = Some s'" "a = ECall c k \<or> a = EUnlock c \<or> a = ECancel c tok"
  shows "\<exists>p. s' = goto c p s \<and> \<not> is_parked p \<and> carried p = [] \<and> \<not> registered p \<and> owns p (results s c) = owner s c
    \<and> (pc s c = MIdle \<or> pc s c = MHeld) \<and> (\<forall>xs f t. p \<noteq> MEject xs f t)"
  using assms by (intro exI [of _ "pc s' c"]) (auto simp: is_parked_def owner_def split: if_splits)

lemma mplaced_call:
  assumes P: "mplaced loc s" and a: "mutex_step a s = Some s'" "a = ECall c k \<or> a = EUnlock c \<or> a = ECancel c tok"
  shows "mplaced loc s'"
proof -
  from call_frame [OF a] obtain p where p: "s' = goto c p s" "\<not> is_parked p" "carried p = []" "pc s c = MIdle \<or> pc s c = MHeld" by blast
  show ?thesis by (rule mplaced_move [OF P, of c p]) (use p in \<open>auto simp: is_parked_def\<close>)
qed

lemma mplaced_step:
  assumes P: "mplaced loc s" and B: "bare_inv s" and "mutex_step a s = Some s'"
  shows "\<exists>loc. mplaced loc s'"
proof (cases a)
  case (EStep c)
  then have st: "client_step c (pc s c) s = Some s'" using assms(3) by simp
  show ?thesis
  proof (cases "pc s c")
    case (MEnter k)
    then have "enter k c s = Some s'" using st by simp
    from enter_frame [OF this] obtain p where p: "pc s' = (pc s)(c := p)" "p \<in> {MIdle, MAborted, MRegister, MSpin, MGranted, MParked True, MParked False}"
      "case p of MParked r \<Rightarrow> \<exists>x. client_of x = c \<and> w_result x = r \<and> waiters s' = waiters s @ [x] | _ \<Rightarrow> waiters s' = waiters s" by blast
    show ?thesis
    proof (cases "is_parked p")
      case True
      then obtain x where "client_of x = c" "p = MParked (w_result x)" "waiters s' = waiters s @ [x]" using p(3) by (auto simp: is_parked_def)
      then show ?thesis using mplaced_enqueue [OF P, of c x s'] p(1) MEnter by (auto simp: is_parked_def)
    next
      case False
      then have "waiters s' = waiters s" "carried p = []" using p(2,3) by (auto simp: is_parked_def)
      then show ?thesis using mplaced_move [OF P, of c p s'] p(1) MEnter False by (auto simp: is_parked_def)
    qed
  next
    case (MExam x)
    show ?thesis
    proof (cases "\<not> skips (wld s) x \<and> w_fiber x = None")
      case True
      then have "mplaced loc s'" by - (rule mplaced_move [OF P, of c "MHandCoro x"]; use st MExam in \<open>auto simp: is_parked_def\<close>)
      then show ?thesis by blast
    next
      case False
      have "mplaced (loc(client_of x := None)) s'"
        by (rule mplaced_wake [OF P, of c x "[]" "if skips (wld s) x then MPop else MIdle"])
          (use st MExam False in \<open>auto simp: is_parked_def split: if_splits\<close>)
      then show ?thesis by blast
    qed
  next
    case (MHandCoro x)
    have "mplaced (loc(client_of x := None)) s'"
      by (rule mplaced_wake [OF P, of c x "[]" MIdle]) (use st MHandCoro in \<open>auto simp: is_parked_def\<close>)
    then show ?thesis by blast
  next
    case (MSweep tok)
    obtain vs ks where e: "eject_pass (matches (wld s) tok) kBuf (waiters s) = (vs, ks)" by fastforce
    define p where "p = (if vs = [] then MIdle else MEject vs (length vs = kBuf) tok)"
    have p: "pc s' = (pc s)(c := p)" "waiters s' = ks" "carried p = vs" "\<not> is_parked p" "p = MIdle \<or> (\<exists>f. p = MEject vs f tok)"
      using st MSweep e by (auto simp: is_parked_def p_def)
    have "w_result x" if "x \<in> set vs" for x using eject_pass_victim [OF e that] by (simp add: matches_def)
    then have "mplaced (\<lambda>d. if d \<in> client_of ` set (carried p) then Some (Some c) else loc d) s'"
      by - (rule mplaced_take [OF P, of c p ks]; use p eject_pass_mset [OF e] MSweep in \<open>auto simp: is_parked_def\<close>)
    then show ?thesis by blast
  next
    case (MEject xs f t)
    show ?thesis
    proof (cases xs)
      case Nil
      then have "mplaced loc s'" by - (rule mplaced_move [OF P, of c "if f then MSweep t else MIdle"]; use st MEject in \<open>auto simp: is_parked_def split: if_splits\<close>)
      then show ?thesis by blast
    next
      case (Cons x ys)
      have "mplaced (loc(client_of x := None)) s'"
        by (rule mplaced_wake [OF P, of c x ys "MEject ys f t"]) (use st MEject Cons in \<open>auto simp: is_parked_def\<close>)
      then show ?thesis by blast
    qed
  next
    case MPop
    show ?thesis
    proof (cases "waiters s")
      case Nil
      then have "mplaced loc s'" by - (rule mplaced_move [OF P, of c MFreed]; use st MPop in \<open>auto simp: is_parked_def\<close>)
      then show ?thesis by blast
    next
      case (Cons x xs)
      then have "mplaced (\<lambda>d. if d \<in> client_of ` set (carried (MExam x)) then Some (Some c) else loc d) s'"
        by - (rule mplaced_take [OF P, of c "MExam x" xs]; use st MPop in \<open>auto simp: is_parked_def\<close>)
      then show ?thesis by blast
    qed
  qed (use st mplaced_move [OF P, of c "pc s' c" s'] in \<open>fastforce simp: is_parked_def resume_wait_def split: if_splits client.splits\<close>)+
next
  case (ENotify c k)
  then have n: "pc s c = MNotify" "s' = notify_one c k s" using assms(3) by (auto split: if_splits)
  show ?thesis
  proof (cases rule: notify_frame [OF B, of c k])
    case 1
    then have "mplaced loc s'" by - (rule mplaced_move [OF P, of c MIdle]; use n in \<open>auto simp: is_parked_def\<close>)
    then show ?thesis by blast
  next
    case (2 b)
    have "mplaced loc (goto c MIdle s)" by (rule mplaced_move [OF P, of c MIdle]; use n in \<open>auto simp: is_parked_def\<close>)
    then have "mplaced loc s'" by (rule mplaced_move [of _ _ b MLockMtx]) (use n 2 in \<open>auto simp: is_parked_def\<close>)
    then show ?thesis by blast
  qed
next
  case (ESpurious c)
  then have "mplaced loc s'" using assms(3) B by - (rule mplaced_move [OF P, of c MLockMtx]; auto simp: is_parked_def bare_inv_def split: if_splits)
  then show ?thesis by blast
next
  case (EWorld ts T)
  then have "mplaced loc s'" using assms(3) P mplaced_cong [of s' s loc] by auto
  then show ?thesis by blast
qed (use mplaced_call [OF P assms(3)] in blast)+


lemma reg_set_upd: "{d. registered ((f(c := p)) d)} = (if registered p then insert c {d. registered (f d)} else {d. registered (f d)} - {c})"
  by auto

lemma bare_moveI:
  assumes B: "bare_inv s" and p: "pc s' = (pc s)(c := p)"
    and m: "if in_mtx p then bareMtx s' = Some c \<and> (bareMtx s = None \<or> bareMtx s = Some c)
            else bareMtx s' = (if in_mtx (pc s c) then None else bareMtx s)"
    and l: "sleepers s' = (if p = MBlocked \<and> pc s c \<noteq> MBlocked then sleepers s @ [c]
               else if p \<noteq> MBlocked \<and> pc s c = MBlocked then filter (\<lambda>x. x \<noteq> c) (sleepers s) else sleepers s)"
    and w: "bareWaiters s' = (if registered p \<and> \<not> registered (pc s c) then bareWaiters s + 1
               else if \<not> registered p \<and> registered (pc s c) then bareWaiters s - 1 else bareWaiters s)"
  shows "bare_inv s'"
proof -
  have fin: "finite {d. registered (pc s d)}" and cnt: "bareWaiters s = card {d. registered (pc s d)}"
    and sl: "distinct (sleepers s)" "set (sleepers s) = {d. pc s d = MBlocked}" and mx: "\<forall>d. in_mtx (pc s d) \<longleftrightarrow> bareMtx s = Some d"
    using B by (simp_all add: bare_inv_def)
  have R: "{d. registered (pc s' d)} = (if registered p then insert c {d. registered (pc s d)} else {d. registered (pc s d)} - {c})"
    unfolding p by (rule reg_set_upd)
  have "\<forall>d. in_mtx (pc s' d) \<longleftrightarrow> bareMtx s' = Some d"
  proof
    fix d
    have "in_mtx (pc s d) \<longleftrightarrow> bareMtx s = Some d" "in_mtx (pc s c) \<longleftrightarrow> bareMtx s = Some c" using mx by blast+
    then show "in_mtx (pc s' d) \<longleftrightarrow> bareMtx s' = Some d" using m unfolding p by (cases "d = c") (auto split: if_splits)
  qed
  moreover have "distinct (sleepers s')" using l sl by simp
  moreover have "set (sleepers s') = {d. pc s' d = MBlocked}" unfolding l p using sl(2) by auto
  moreover have "finite {d. registered (pc s' d)}" unfolding R using fin by simp
  moreover have "bareWaiters s' = card {d. registered (pc s' d)}"
    unfolding R w cnt using fin by (cases "registered (pc s c)") (simp_all add: insert_absorb)
  ultimately show ?thesis by (simp add: bare_inv_def)
qed

lemma bare_move_idle:
  assumes "bare_inv s" and "pc s' = (pc s)(c := p)" "\<not> registered p" "\<not> registered (pc s c)"
    "sleepers s' = sleepers s" "bareMtx s' = bareMtx s" "bareWaiters s' = bareWaiters s"
  shows "bare_inv s'"
proof -
  have "\<not> in_mtx p" "\<not> in_mtx (pc s c)" "p \<noteq> MBlocked" "pc s c \<noteq> MBlocked" using assms(3,4) by (cases p; cases "pc s c"; simp)+
  then show ?thesis using bare_moveI [OF assms(1,2)] assms(3-) by simp
qed

lemma bare_call:
  assumes B: "bare_inv s" and a: "mutex_step a s = Some s'" "a = ECall c k \<or> a = EUnlock c \<or> a = ECancel c tok"
  shows "bare_inv s'"
proof -
  from call_frame [OF a] obtain p where p: "s' = goto c p s" "\<not> registered p" "pc s c = MIdle \<or> pc s c = MHeld" by blast
  show ?thesis by (rule bare_move_idle [OF B, of _ c p]) (use p in auto)
qed

lemma bare_woken:
  assumes B: "bare_inv s" and P: "mplaced loc s" and "x \<in> set (carried (pc s c))" "\<not> registered p" "\<not> registered (pc s c)"
    "pc s' = (pc s)(client_of x := MWoken r, c := p)" "sleepers s' = sleepers s" "bareMtx s' = bareMtx s" "bareWaiters s' = bareWaiters s"
  shows "bare_inv s'"
proof -
  have x: "pc s (client_of x) = MParked (w_result x)" using mplacedD(7) [OF P] assms(3) by blast
  have "bare_inv (s\<lparr>pc := (pc s)(client_of x := MWoken r)\<rparr>)" by (rule bare_move_idle [OF B]) (auto simp: x)
  then show ?thesis by (rule bare_move_idle [of _ _ c p]) (use assms x in auto)
qed

lemma bare_wait_step:
  assumes B: "bare_inv s" and st: "bare_wait c (pc s c) s = Some s'"
  shows "bare_inv s'"
proof (rule bare_moveI [OF B, of _ c "pc s' c"])
  have mx: "in_mtx (pc s c) \<longleftrightarrow> bareMtx s = Some c" using B by (simp add: bare_inv_def)
  show "pc s' = (pc s)(c := pc s' c)" using st by (cases "pc s c") (auto split: if_splits)
  show "if in_mtx (pc s' c) then bareMtx s' = Some c \<and> (bareMtx s = None \<or> bareMtx s = Some c)
        else bareMtx s' = (if in_mtx (pc s c) then None else bareMtx s)" using st mx by (cases "pc s c") (auto split: if_splits)
  show "sleepers s' = (if pc s' c = MBlocked \<and> pc s c \<noteq> MBlocked then sleepers s @ [c]
           else if pc s' c \<noteq> MBlocked \<and> pc s c = MBlocked then filter (\<lambda>x. x \<noteq> c) (sleepers s) else sleepers s)"
    using st by (cases "pc s c") (auto split: if_splits)
  show "bareWaiters s' = (if registered (pc s' c) \<and> \<not> registered (pc s c) then bareWaiters s + 1
           else if \<not> registered (pc s' c) \<and> registered (pc s c) then bareWaiters s - 1 else bareWaiters s)"
    using st by (cases "pc s c") (auto split: if_splits)
qed

text \<open>The steps outside the blocking wait that wake nobody.\<close>

lemma bare_other_step:
  assumes B: "bare_inv s" and st: "client_step c (pc s c) s = Some s'" and "carried (pc s c) = []" "\<not> registered (pc s c)" "pc s c \<noteq> MRegister"
  shows "bare_inv s'"
proof (cases "\<exists>k. pc s c = MEnter k")
  case True
  then obtain k where k: "pc s c = MEnter k" by blast
  then have "enter k c s = Some s'" using st by simp
  from enter_frame [OF this] obtain p where "pc s' = (pc s)(c := p)" "p \<in> {MIdle, MAborted, MRegister, MSpin, MGranted, MParked True, MParked False}"
    "sleepers s' = sleepers s" "bareMtx s' = bareMtx s" "bareWaiters s' = bareWaiters s" by blast
  then show ?thesis using bare_move_idle [OF B, of s' c p] k by auto
next
  case False
  show ?thesis
  proof (rule bare_move_idle [OF B, of _ c "pc s' c"])
    show "pc s' = (pc s)(c := pc s' c)" "\<not> registered (pc s' c)" "\<not> registered (pc s c)"
      "sleepers s' = sleepers s" "bareMtx s' = bareMtx s" "bareWaiters s' = bareWaiters s"
      using st assms(3-) False by (cases "pc s c"; auto simp: resume_wait_def split: if_splits client.splits list.splits prod.splits)+
  qed
qed

lemma client_step_bare: "registered p \<or> p = MRegister \<Longrightarrow> client_step c p s = bare_wait c p s"
  by (cases p) (auto split: option.splits)

lemma bare_inv_step:
  assumes B: "bare_inv s" and P: "mplaced loc s" and "mutex_step a s = Some s'"
  shows "bare_inv s'"
proof (cases a)
  case (EStep c)
  then have st: "client_step c (pc s c) s = Some s'" using assms(3) by simp
  show ?thesis
  proof (cases "carried (pc s c)")
    case Nil
    then show ?thesis using bare_other_step [OF B st] bare_wait_step [OF B, of c s'] st client_step_bare [of "pc s c" c s]
      by (cases "registered (pc s c) \<or> pc s c = MRegister") auto
  next
    case (Cons x ys)
    then consider (exam) "pc s c = MExam x" | (hand) "pc s c = MHandCoro x" | (eject) f t where "pc s c = MEject (x # ys) f t" by (cases "pc s c") auto
    then show ?thesis
    proof cases
      case exam
      show ?thesis
      proof (cases "\<not> skips (wld s) x \<and> w_fiber x = None")
        case True
        then show ?thesis by - (rule bare_move_idle [OF B, of _ c "MHandCoro x"]; use st exam in auto)
      next
        case False
        then show ?thesis by - (rule bare_woken [OF B P, of x c "if skips (wld s) x then MPop else MIdle" _ "w_result x"]; use st exam in \<open>auto split: if_splits\<close>)
      qed
    next
      case hand
      then show ?thesis by - (rule bare_woken [OF B P, of x c MIdle _ "w_result x"]; use st in auto)
    next
      case eject
      then show ?thesis by - (rule bare_woken [OF B P, of x c "MEject ys f t" _ "w_result x"]; use st in auto)
    qed
  qed
next
  case (ENotify c k)
  then have n: "pc s c = MNotify" "s' = notify_one c k s" using assms(3) by (auto split: if_splits)
  show ?thesis
  proof (cases rule: notify_frame [OF B, of c k])
    case 1
    then show ?thesis by - (rule bare_move_idle [OF B, of _ c MIdle]; use n in auto)
  next
    case (2 b)
    have "bare_inv (goto c MIdle s)" by (rule bare_move_idle [OF B, of _ c MIdle]) (use n in auto)
    then show ?thesis by (rule bare_moveI [of _ _ b MLockMtx]) (use n 2 in auto)
  qed
next
  case (ESpurious c)
  then have "pc s c = MBlocked" "s' = goto c MLockMtx (s\<lparr>sleepers := filter (\<lambda>x. x \<noteq> c) (sleepers s)\<rparr>)"
    using assms(3) B by (auto simp: bare_inv_def split: if_splits)
  then show ?thesis by - (rule bare_moveI [OF B, of _ c MLockMtx]; auto)
next
  case (EWorld ts T)
  then show ?thesis using assms(3) B by (auto simp: bare_inv_def)
qed (use bare_call [OF B assms(3)] in blast)+

end
