(* ===== verification/Mutex_Run.thy ===== *)
theory Mutex_Run
  imports Sched_Mutex
begin

text \<open>
  What \<^verbatim>\<open>SchedulerMutex\<close> guarantees in every run: mutual exclusion, that no waiter of any kind is forgotten, and the effect of a whole
  \<^verbatim>\<open>Unlock\<close> and a whole \<^verbatim>\<open>CancelWaiters\<close>.
\<close>

section \<open>Who moves whom\<close>

fun actor :: "mevent \<Rightarrow> client option" where
  "actor (ECall c k) = Some c" | "actor (EUnlock c) = Some c" | "actor (ECancel c t) = Some c" | "actor (EStep c) = Some c"
| "actor (ENotify c k) = Some c" | "actor (ESpurious c) = Some c" | "actor (EWorld ts T) = None"

text \<open>Only its own events move a client, except that others wake one that is parked or asleep.\<close>

lemma others_frame:
  assumes B: "bare_inv s" and P: "mplaced loc s" and "mutex_step a s = Some s'" and "actor a \<noteq> Some h"
  shows "pc s' h = pc s h \<or> is_parked (pc s h) \<and> (\<exists>r. pc s' h = MWoken r) \<or> pc s h = MBlocked \<and> pc s' h = MLockMtx"
proof (cases a)
  case (EStep c)
  then have st: "client_step c (pc s c) s = Some s'" and hc: "h \<noteq> c" using assms(3,4) by auto
  have parked: "is_parked (pc s (client_of x))" if "x \<in> set (carried (pc s c))" for x
    using mplacedD(7) [OF P] that by (auto simp: is_parked_def)
  show ?thesis
  proof (cases "\<exists>k. pc s c = MEnter k")
    case True
    then obtain k where "enter k c s = Some s'" using st by auto
    from enter_frame [OF this] hc show ?thesis by auto
  next
    case False
    show ?thesis using st hc parked False
      by (cases "pc s c"; auto simp: resume_wait_def split: if_splits client.splits list.splits prod.splits elim!: CancelWaiters.elims)
  qed
next
  case (ENotify c k)
  then have n: "pc s c = MNotify" "s' = notify_one c k s" using assms(3) by (auto split: if_splits)
  then show ?thesis using ENotify assms(4) by (cases rule: notify_frame [OF B, of c k]) auto
qed (use assms(3,4) in \<open>auto split: if_splits\<close>)

lemma unlocking_step:
  assumes P: "mplaced loc s" and "mutex_step a s = Some s'" "locked s" "\<not> locked s'"
  shows "\<exists>c. pc s' c = MFreed" "waiters s' = []"
proof -
  obtain c where c: "a = EStep c" using assms(2-4) by (cases a) (auto simp: notify_one_def Let_def split: if_splits)
  then have st: "client_step c (pc s c) s = Some s'" using assms(2) by simp
  have "pc s c = MPop"
  proof (rule ccontr)
    assume n: "pc s c \<noteq> MPop"
    show False
    proof (cases "\<exists>k. pc s c = MEnter k")
      case True
      then obtain k where "enter k c s = Some s'" using st by auto
      from enter_frame [OF this] assms(4) show False by blast
    next
      case False
      show False using st n False assms(3,4)
        by (cases "pc s c"; auto simp: resume_wait_def split: if_splits client.splits list.splits prod.splits elim!: CancelWaiters.elims)
    qed
  qed
  then have "pc s' c = MFreed \<and> waiters s' = []" using st assms(3,4) by (auto split: list.splits)
  then show "\<exists>c. pc s' c = MFreed" "waiters s' = []" by blast+
qed

lemma queued_step:
  assumes P: "mplaced loc s" and "mutex_step a s = Some s'" "waiters s \<noteq> [] \<longrightarrow> locked s"
  shows "waiters s' \<noteq> [] \<longrightarrow> locked s'"
proof (cases "locked s \<and> \<not> locked s'")
  case True
  then show ?thesis using unlocking_step [OF P assms(2)] by simp
next
  case False
  have "waiters s' = []" if "\<not> locked s'"
  proof -
    have e: "waiters s = []" "\<not> locked s" using assms(3) False that by auto
    show ?thesis
    proof (cases a)
      case (EStep c)
      then have st: "client_step c (pc s c) s = Some s'" using assms(2) by simp
      show ?thesis
      proof (cases "\<exists>k. pc s c = MEnter k")
        case True
        then obtain k where "enter k c s = Some s'" using st by auto
        from enter_frame [OF this] that show ?thesis by blast
      next
        case False
        show ?thesis using st False e
          by (cases "pc s c"; auto simp: resume_wait_def split: if_splits client.splits list.splits prod.splits elim!: CancelWaiters.elims)
      qed
    qed (use assms(2) e in \<open>auto simp: notify_one_def Let_def split: if_splits\<close>)
  qed
  then show ?thesis by blast
qed


lemma registered_counted: "bare_inv s \<Longrightarrow> registered (pc s d) \<Longrightarrow> bareWaiters s \<noteq> 0"
  by (auto simp: bare_inv_def)

lemma going_to_sleep:
  assumes B: "bare_inv s" and P: "mplaced loc s" and "mutex_step a s = Some s'" "actor a = Some d" "pc s' d \<in> {MBlock, MBlocked}"
  shows "a = EStep d \<and> (pc s' d = MBlock \<and> pc s d = MTest \<and> locked s \<or> pc s' d = MBlocked \<and> pc s d = MBlock)"
proof (cases a)
  case (EStep c)
  then have st: "client_step d (pc s d) s = Some s'" and dc: "c = d" using assms(3,4) by auto
  have ne: "client_of x \<noteq> d" if "x \<in> set (carried (pc s d))" for x
    using mplacedD(7) [OF P that] that by (cases "pc s d") auto
  show ?thesis
  proof (cases "\<exists>k. pc s d = MEnter k")
    case True
    then obtain k where "enter k d s = Some s'" using st by auto
    from enter_frame [OF this] assms(5) show ?thesis by auto
  next
    case False
    show ?thesis using st assms(5) EStep dc ne False
      by (cases "pc s d"; auto simp: resume_wait_def split: if_splits client.splits list.splits prod.splits elim!: CancelWaiters.elims)
  qed
next
  case (ENotify c k)
  then have "pc s c = MNotify" "s' = notify_one c k s" "d = c" using assms(3,4) by (auto split: if_splits)
  then show ?thesis using assms(5) by (cases rule: notify_frame [OF B, of c k]) (auto split: if_splits)
qed (use assms(3-) in \<open>auto split: if_splits\<close>)

lemma helped_step:
  assumes B: "bare_inv s" and P: "mplaced loc s" and st: "mutex_step a s = Some s'" and H: "helped s"
  shows "helped s'"
proof (cases "locked s' \<or> locked s")
  case True
  then show ?thesis using unlocking_step(1) [OF P st] by (fastforce simp: helped_def)
next
  case free: False
  have H1: "\<exists>h. pc s h \<in> {MFreed, MNotifyLock, MLockMtx}" if "pc s d = MBlock" for d using H free that by (auto simp: helped_def)
  have H2: "\<exists>h. pc s h \<in> {MFreed, MNotifyLock, MNotify, MLockMtx, MTest}" if "pc s d = MBlocked" for d using H free that by (auto simp: helped_def)
  have stay: "pc s' h = pc s h" if "pc s h \<in> {MFreed, MNotifyLock, MNotify, MLockMtx, MTest}" "actor a \<noteq> Some h" for h
    using others_frame [OF B P st that(2)] that(1) by (auto simp: is_parked_def)
  have moves: "pc s' h = (if pc s h = MFreed then (if bareWaiters s \<noteq> 0 then MNotifyLock else MIdle) else if pc s h = MNotifyLock then MNotify
      else if pc s h = MNotify then MIdle else if pc s h = MLockMtx then MTest else MGot)
    \<and> (pc s h \<in> {MNotifyLock, MLockMtx} \<longrightarrow> bareMtx s = None) \<and> (pc s h = MTest \<longrightarrow> locked s')
    \<and> (pc s h = MNotify \<longrightarrow> (\<exists>k. a = ENotify h k))"
    if "pc s h \<in> {MFreed, MNotifyLock, MNotify, MLockMtx, MTest}" "actor a = Some h" for h
  proof (cases a)
    case (ENotify c k)
    then have n: "pc s c = MNotify" "s' = notify_one c k s" "c = h" using st that(2) by (auto split: if_splits)
    then show ?thesis using ENotify by (cases rule: notify_frame [OF B, of c k]) auto
  qed (use st that free B in \<open>auto simp: bare_inv_def split: if_splits\<close>)
  have in_mtx_busy: "bareMtx s = Some d" if "pc s d = MBlock" for d using B that by (metis bare_inv_def in_mtx.simps(2))
  have origin: "pc s d = MBlock" if "pc s' d = MBlock" for d
    using going_to_sleep [OF B P st, of d] others_frame [OF B P st, of d] that free by (cases "actor a = Some d") auto
  have origin2: "pc s d = MBlocked \<or> pc s d = MBlock \<and> a = EStep d" if "pc s' d = MBlocked" for d
    using going_to_sleep [OF B P st, of d] others_frame [OF B P st, of d] that by (cases "actor a = Some d") auto
  show ?thesis unfolding helped_def
  proof (intro impI conjI)
    assume "\<exists>c. pc s' c = MBlock"
    then obtain d where d: "pc s d = MBlock" using origin by blast
    then obtain h where h: "pc s h \<in> {MFreed, MNotifyLock, MLockMtx}" using H1 by blast
    have "bareWaiters s \<noteq> 0" using registered_counted [OF B, of d] d by simp
    then have "pc s' h \<in> {MFreed, MNotifyLock, MLockMtx}"
      using h stay [of h] moves [of h] in_mtx_busy [OF d] by (cases "actor a = Some h") auto
    then show "\<exists>h. pc s' h \<in> {MFreed, MNotifyLock, MLockMtx}" by blast
  next
    assume "\<exists>c. pc s' c = MBlocked"
    then obtain d where d: "pc s' d = MBlocked" by blast
    from origin2 [OF d] show "\<exists>h. pc s' h \<in> {MFreed, MNotifyLock, MNotify, MLockMtx, MTest}"
    proof
      assume b: "pc s d = MBlock \<and> a = EStep d"
      then obtain h where h: "pc s h \<in> {MFreed, MNotifyLock, MLockMtx}" using H1 by blast
      then have "h \<noteq> d" using b by auto
      then have "pc s' h = pc s h" using stay [of h] h b by auto
      then show ?thesis using h by auto
    next
      assume b: "pc s d = MBlocked"
      then obtain h where h: "pc s h \<in> {MFreed, MNotifyLock, MNotify, MLockMtx, MTest}" using H2 by blast
      have w: "bareWaiters s \<noteq> 0" using registered_counted [OF B, of d] b by simp
      show ?thesis
      proof (cases "pc s h = MNotify \<and> actor a = Some h")
        case True
        then obtain k where a: "a = ENotify h k" using moves [of h] by auto
        have "sleepers s \<noteq> []" using b B by (auto simp: bare_inv_def)
        then have "\<exists>e. pc s' e = MLockMtx" using st a True by (cases rule: notify_frame [OF B, of h k]) (auto intro: exI)
        then show ?thesis by auto
      next
        case False
        then have "pc s' h \<in> {MFreed, MNotifyLock, MNotify, MLockMtx, MTest}"
          using h w free stay [of h] moves [of h] by (cases "actor a = Some h") auto
        then show ?thesis by blast
      qed
    qed
  qed
qed


text \<open>A call is entered only by the clients that may make it.\<close>

definition well_called :: "mutex \<Rightarrow> bool" where
  "well_called s \<longleftrightarrow> (\<forall>c k. pc s c = MEnter k \<longrightarrow> may_call c k \<or> k = KLockCancellable)"

lemma well_called_step:
  assumes B: "bare_inv s" and P: "mplaced loc s" and st: "mutex_step a s = Some s'" and W: "well_called s"
  shows "well_called s'"
  unfolding well_called_def
proof (intro allI impI)
  fix d k assume e: "pc s' d = MEnter k"
  show "may_call d k \<or> k = KLockCancellable"
  proof (cases "actor a = Some d")
    case False
    then show ?thesis using others_frame [OF B P st False] e W by (auto simp: well_called_def)
  next
    case True
    show ?thesis
    proof (cases a)
      case (EStep c)
      then have st': "client_step d (pc s d) s = Some s'" using st True by auto
      have ne: "client_of x \<noteq> d" if "x \<in> set (carried (pc s d))" for x using mplacedD(7) [OF P that] that by (cases "pc s d") auto
      show ?thesis
      proof (cases "\<exists>k. pc s d = MEnter k")
        case True
        then obtain j where "enter j d s = Some s'" using st' by auto
        from enter_frame [OF this] e show ?thesis by auto
      next
        case False
        show ?thesis using st' e ne False
          by (cases "pc s d"; auto simp: resume_wait_def split: if_splits client.splits list.splits prod.splits elim!: CancelWaiters.elims)
      qed
    next
      case (ENotify c k)
      then have "pc s c = MNotify" "s' = notify_one c k s" "d = c" using st True by (auto split: if_splits)
      then show ?thesis using e by (cases rule: notify_frame [OF B, of c k]) (auto split: if_splits)
    qed (use st True e in \<open>auto split: if_splits\<close>)
  qed
qed

definition mutex_inv :: "mutex \<Rightarrow> bool" where
  "mutex_inv s \<longleftrightarrow> (\<exists>own. excl own s) \<and> (\<exists>loc. mplaced loc s) \<and> (waiters s \<noteq> [] \<longrightarrow> locked s) \<and> bare_inv s \<and> helped s \<and> well_called s"

lemma mutex_inv_init: "mutex_inv (mutex_init hook w)"
proof -
  have "excl None (mutex_init hook w)" "mplaced (\<lambda>_. None) (mutex_init hook w)"
    using mxp.placed_init [of "\<lambda>_. MIdle"] by (auto simp: excl_def owner_def mutex_init_def)
  then show ?thesis by (auto simp: mutex_inv_def mutex_init_def bare_inv_def helped_def well_called_def)
qed

lemma mutex_inv_step:
  assumes "mutex_inv s" and "mutex_step a s = Some s'"
  shows "mutex_inv s'"
  using assms excl_step mplaced_step bare_inv_step queued_step helped_step well_called_step unfolding mutex_inv_def by meson

interpretation mx: step_invariant mutex_step "mutex_init hook w" mutex_inv for hook w
  by unfold_locales (auto simp: mutex_inv_init intro: mutex_inv_step)

section \<open>What the mutex guarantees\<close>

text \<open>C25: Mutual exclusion, whoever the clients are and however they interleave with each other and with cancellation: at most one client owns the mutex,
  counting one that was handed it and has not run yet and one that is on its way out, and \<^verbatim>\<open>locked\<close> says whether there is one.\<close>

theorem mutex_exclusive:
  assumes "exec mutex_step as (mutex_init hook w) = Some s"
  shows "(owner s c \<and> owner s d \<longrightarrow> c = d) \<and> (locked s \<longleftrightarrow> (\<exists>c. owner s c))"
proof -
  obtain own where "excl own s" using mx.inv_exec [OF assms] by (auto simp: mutex_inv_def)
  then show ?thesis by (auto simp: excl_def)
qed

lemma step_enabled:
  assumes "mutex_step (EStep c) s = None" "well_called s"
  shows "pc s c \<in> {MIdle, MAborted, MParked True, MParked False, MHeld, MNotify, MBlocked} \<or> pc s c \<in> {MLockMtx, MNotifyLock} \<and> bareMtx s \<noteq> None"
proof (cases "\<exists>k. pc s c = MEnter k")
  case True
  then obtain k where k: "pc s c = MEnter k" by blast
  then have "may_call c k \<or> k = KLockCancellable" using assms(2) by (simp add: well_called_def)
  then show ?thesis using k assms(1) by (cases c; cases k) auto
next
  case False
  then show ?thesis using assms(1)
    by (cases "pc s c") (auto split: if_splits list.splits prod.splits option.splits elim: CancelWaiters.elims)
qed


text \<open>C26: No wake-up is lost: if nobody holds the mutex and no step is possible, then nobody waits, neither a parked fiber
  or coroutine nor a thread asleep on the condition variable.\<close>

theorem mutex_deadlock_free:
  assumes "exec mutex_step as (mutex_init hook w) = Some s" and "\<forall>c. pc s c \<noteq> MHeld"
    and "\<forall>c. mutex_step (EStep c) s = None \<and> mutex_step (ENotify c 0) s = None"
  shows "pc s c \<in> {MIdle, MAborted}"
proof -
  obtain own loc where E: "excl own s" and P: "mplaced loc s" and q: "waiters s \<noteq> [] \<longrightarrow> locked s" and B: "bare_inv s"
    and H: "helped s" and W: "well_called s" using mx.inv_exec [OF assms(1)] by (auto simp: mutex_inv_def)
  have nn: "pc s d \<noteq> MNotify" for d using assms(3) by (auto split: if_splits)
  have at1: "pc s d \<in> {MIdle, MAborted, MParked True, MParked False, MBlocked} \<or> pc s d \<in> {MLockMtx, MNotifyLock} \<and> bareMtx s \<noteq> None" for d
  proof -
    have "mutex_step (EStep d) s = None" "pc s d \<noteq> MHeld" "pc s d \<noteq> MNotify" using assms(2,3) nn by blast+
    then show ?thesis using step_enabled [OF _ W, of d] by simp
  qed
  have "bareMtx s = None"
  proof (rule ccontr)
    assume "bareMtx s \<noteq> None"
    then obtain d where "in_mtx (pc s d)" using B by (auto simp: bare_inv_def)
    then show False using at1 [of d] by auto
  qed
  then have at2: "pc s d \<in> {MIdle, MAborted, MParked True, MParked False, MBlocked}" for d using at1 by blast
  have "\<not> owner s d" for d using at2 [of d] by (auto simp: owner_def)
  then have free: "\<not> locked s" using exclD [OF E] by auto
  have "\<not> is_parked (pc s d)" for d
  proof
    assume "is_parked (pc s d)"
    then obtain a where "loc d = Some (Some a)" using mplacedD(1,2) [OF P, of d] q free by (metis empty_iff empty_set image_empty option.exhaust)
    then have "carried (pc s a) \<noteq> []" using mplacedD(3) [OF P, of d a] by auto
    then show False using at2 [of a] by auto
  qed
  moreover have "pc s d \<noteq> MBlocked" for d
  proof
    assume "pc s d = MBlocked"
    then obtain h where "pc s h \<in> {MFreed, MNotifyLock, MNotify, MLockMtx, MTest}" using H free by (auto simp: helped_def)
    then show False using at2 [of h] by auto
  qed
  ultimately show ?thesis using at2 [of c] by (auto simp: is_parked_def)
qed

section \<open>Whole operations\<close>

text \<open>The steps of one client, uninterrupted.\<close>

definition runs :: "client \<Rightarrow> nat \<Rightarrow> mutex \<Rightarrow> mutex option" where
  "runs c n s = exec mutex_step (replicate n (EStep c)) s"

lemma runs_0 [simp]: "runs c 0 s = Some s"
  by (simp add: runs_def)

lemma runs_Suc: "runs c (Suc n) s = (case mutex_step (EStep c) s of None \<Rightarrow> None | Some s' \<Rightarrow> runs c n s')"
  by (simp add: runs_def split: option.split)

lemma runs_first: "mutex_step (EStep c) s = Some s' \<Longrightarrow> runs c n s' = r \<Longrightarrow> runs c (Suc n) s = r"
  by (simp add: runs_Suc)

lemma runs_add: "runs c n s = Some s' \<Longrightarrow> runs c (n + m) s = runs c m s'"
  by (simp add: runs_def replicate_add exec_append)

text \<open>Delivering a batch of victims.\<close>

lemma eject_runs:
  assumes "pc s c = MEject xs full tok" "c \<notin> client_of ` set xs" "\<forall>x \<in> set xs. w_result x"
  shows "\<exists>s'. runs c (length xs + 1) s = Some s' \<and> pc s' c = (if full then MSweep tok else MIdle) \<and> waiters s' = waiters s \<and> wld s' = wld s
     \<and> locked s' = locked s
     \<and> (\<forall>x \<in> set xs. pc s' (client_of x) = MWoken True \<and> results s' (client_of x) = WCancelled)
     \<and> (\<forall>d. d \<noteq> c \<longrightarrow> d \<notin> client_of ` set xs \<longrightarrow> pc s' d = pc s d \<and> results s' d = results s d)"
  using assms
proof (induction xs arbitrary: s)
  case Nil
  then show ?case by (auto simp: runs_Suc)
next
  case (Cons x xs)
  let ?s = "goto c (MEject xs full tok) (wake x WCancelled s)"
  have st: "mutex_step (EStep c) s = Some ?s" using Cons.prems by simp
  have "pc ?s c = MEject xs full tok" "c \<notin> client_of ` set xs" "\<forall>x \<in> set xs. w_result x" using Cons.prems by auto
  from Cons.IH [OF this] obtain s' where s': "runs c (length xs + 1) ?s = Some s'" "pc s' c = (if full then MSweep tok else MIdle)"
    "waiters s' = waiters s" "wld s' = wld s" "locked s' = locked s"
    "\<forall>x \<in> set xs. pc s' (client_of x) = MWoken True \<and> results s' (client_of x) = WCancelled"
    "\<forall>d. d \<noteq> c \<longrightarrow> d \<notin> client_of ` set xs \<longrightarrow> pc s' d = pc ?s d \<and> results s' d = results ?s d" by auto
  have r: "runs c (length (x # xs) + 1) s = Some s'" using runs_first [OF st s'(1)] by simp
  have "pc s' (client_of x) = MWoken True \<and> results s' (client_of x) = WCancelled"
  proof (cases "client_of x \<in> client_of ` set xs")
    case True then show ?thesis using s'(6) by auto
  next
    case False
    have "client_of x \<noteq> c" using Cons.prems(2) by auto
    then show ?thesis using s'(7) False Cons.prems(3) by simp
  qed
  then show ?case using r s' Cons.prems(2) by (intro exI [of _ s']) auto
qed

definition swept :: "client \<Rightarrow> u32 \<Rightarrow> mutex \<Rightarrow> mutex \<Rightarrow> bool" where
  "swept c tok s s' \<longleftrightarrow> pc s' c = MIdle \<and> waiters s' = filter (\<lambda>x. \<not> matches (wld s) tok x) (waiters s) \<and> locked s' = locked s
     \<and> (\<forall>x \<in> set (waiters s). matches (wld s) tok x \<longrightarrow> pc s' (client_of x) = MWoken True \<and> results s' (client_of x) = WCancelled)
     \<and> (\<forall>d. d \<noteq> c \<longrightarrow> d \<notin> client_of ` set (filter (matches (wld s) tok) (waiters s)) \<longrightarrow> pc s' d = pc s d \<and> results s' d = results s d)"

lemma sweep_runs:
  assumes "pc s c = MSweep tok" "c \<notin> client_of ` set (waiters s)" "distinct (map client_of (waiters s))"
  shows "\<exists>n s'. runs c n s = Some s' \<and> swept c tok s s'"
  using assms
proof (induction "length (waiters s)" arbitrary: s rule: less_induct)
  case less
  let ?M = "matches (wld s) tok"
  obtain vs ks where e: "eject_pass ?M kBuf (waiters s) = (vs, ks)" by fastforce
  note vs = eject_pass_spec [OF e] and sets = eject_pass_set [OF e]
  have M: "\<forall>x \<in> set vs. w_result x" "\<forall>x \<in> set vs. ?M x" using eject_pass_victim [OF e] by (auto simp: matches_def)
  let ?s = "goto c (if vs = [] then MIdle else MEject vs (length vs = kBuf) tok) (s\<lparr>waiters := ks\<rparr>)"
  have st: "mutex_step (EStep c) s = Some ?s" using less.prems(1) e by simp
  have kpos: "0 < kBuf" by (simp add: kBuf_def)
  show ?case
  proof (cases "length (filter ?M (waiters s)) < kBuf")
    case True
    then have short: "vs = filter ?M (waiters s)" "ks = filter (\<lambda>x. \<not> ?M x) (waiters s)" "length vs \<noteq> kBuf" using vs by auto
    show ?thesis
    proof (cases "vs = []")
      case True
      then have "runs c 1 s = Some ?s" using runs_first [OF st, of 0] by simp
      moreover have "\<not> ?M x" if "x \<in> set (waiters s)" for x using True short(1) that by (metis filter_empty_conv)
      ultimately have "swept c tok s ?s" using True short(2) unfolding swept_def by simp
      then show ?thesis using \<open>runs c 1 s = Some ?s\<close> by blast
    next
      case False
      have "pc ?s c = MEject vs False tok" "c \<notin> client_of ` set vs" using False short(3) less.prems(2) sets by auto
      from eject_runs [OF this M(1)] obtain s' where s': "runs c (length vs + 1) ?s = Some s'" "pc s' c = MIdle" "waiters s' = ks" "locked s' = locked s"
        "\<forall>x \<in> set vs. pc s' (client_of x) = MWoken True \<and> results s' (client_of x) = WCancelled"
        "\<forall>d. d \<noteq> c \<longrightarrow> d \<notin> client_of ` set vs \<longrightarrow> pc s' d = pc s d \<and> results s' d = results s d" by auto
      have "swept c tok s s'" unfolding swept_def short(1,2) [symmetric] using s' short(1) by simp
      then show ?thesis using runs_first [OF st s'(1)] by blast
    qed
  next
    case False
    then have full: "length vs = kBuf" using vs(1) by simp
    then have "pc ?s c = MEject vs True tok" "c \<notin> client_of ` set vs" using kpos less.prems(2) sets by auto
    from eject_runs [OF this M(1)] obtain s1 where s1: "runs c (length vs + 1) ?s = Some s1" "pc s1 c = MSweep tok" "waiters s1 = ks" "wld s1 = wld s"
      "locked s1 = locked s" "\<forall>x \<in> set vs. pc s1 (client_of x) = MWoken True \<and> results s1 (client_of x) = WCancelled"
      "\<forall>d. d \<noteq> c \<longrightarrow> d \<notin> client_of ` set vs \<longrightarrow> pc s1 d = pc s d \<and> results s1 d = results s d" by auto
    have "length (waiters s) = length (vs @ ks)" using mset_eq_length [OF eject_pass_mset [OF e]] .
    then have len: "length (waiters s1) < length (waiters s)" using s1(3) full kpos by simp
    have c: "c \<notin> client_of ` set (waiters s1)" "distinct (map client_of (waiters s1))"
      using less.prems(2,3) sets s1(3) eject_pass_distinct [OF e less.prems(3)] by auto
    from less.hyps [OF len s1(2) c] obtain n s2 where s2: "runs c n s1 = Some s2" and sw: "swept c tok s1 s2" by blast
    have s2: "runs c n s1 = Some s2" "pc s2 c = MIdle" "waiters s2 = filter (\<lambda>x. \<not> ?M x) ks"
      "locked s2 = locked s1" "\<forall>x \<in> set ks. ?M x \<longrightarrow> pc s2 (client_of x) = MWoken True \<and> results s2 (client_of x) = WCancelled"
      "\<forall>d. d \<noteq> c \<longrightarrow> d \<notin> client_of ` set (filter ?M ks) \<longrightarrow> pc s2 d = pc s1 d \<and> results s2 d = results s1 d" using s2 sw s1(3,4) unfolding swept_def by simp_all
    have r: "runs c (Suc (length vs + 1) + n) s = Some s2" using runs_add [OF runs_first [OF st s1(1)]] s2(1) by simp
    have "waiters s2 = filter (\<lambda>x. \<not> ?M x) (waiters s)" using s2(3) vs(3) by simp
    moreover have "pc s2 (client_of x) = MWoken True \<and> results s2 (client_of x) = WCancelled" if x: "x \<in> set (waiters s)" "?M x" for x
    proof (cases "x \<in> set ks")
      case True then show ?thesis using s2(5) x by blast
    next
      case False
      then have v: "x \<in> set vs" using x sets by blast
      have "client_of x \<notin> client_of ` set ks" using eject_pass_distinct(3) [OF e less.prems(3)] v by blast
      moreover have "client_of x \<noteq> c" using less.prems(2) x(1) by blast
      ultimately show ?thesis using s2(6) s1(6) v by auto
    qed
    moreover have "pc s2 d = pc s d \<and> results s2 d = results s d" if d: "d \<noteq> c" "d \<notin> client_of ` set (filter ?M (waiters s))" for d
    proof -
      have "d \<notin> client_of ` set vs" "d \<notin> client_of ` set (filter ?M ks)" using d M(2) sets by auto
      then show ?thesis using s2(6) s1(7) d(1) by simp
    qed
    ultimately have "swept c tok s s2" unfolding swept_def using s2(2,4) s1(5) by simp
    then show ?thesis using r by blast
  qed
qed


text \<open>C27: \<^verbatim>\<open>CancelWaiters\<close>, run to its end, ejects exactly the waiters that match (at any length, although a pass holds 64): each of them is
  resumed with \<^verbatim>\<open>Cancelled\<close> and without the lock, the others stay queued in their order, and nobody else is touched.\<close>

theorem mutex_cancel_ejects:
  assumes "exec mutex_step as (mutex_init hook w) = Some s" and "pc s c = MSweep tok"
  shows "\<exists>n s'. runs c n s = Some s' \<and> pc s' c = MIdle \<and> waiters s' = filter (\<lambda>x. \<not> matches (wld s) tok x) (waiters s)
     \<and> (\<forall>x \<in> set (waiters s). matches (wld s) tok x \<longrightarrow> pc s' (client_of x) = MWoken True \<and> results s' (client_of x) = WCancelled \<and> \<not> owner s' (client_of x))
     \<and> (\<forall>d. d \<noteq> c \<longrightarrow> d \<notin> client_of ` set (filter (matches (wld s) tok) (waiters s)) \<longrightarrow> pc s' d = pc s d \<and> results s' d = results s d)"
proof -
  obtain loc where P: "mplaced loc s" using mx.inv_exec [OF assms(1)] by (auto simp: mutex_inv_def)
  have "c \<notin> client_of ` set (waiters s)" using mplacedD(6) [OF P] assms(2) by auto
  from sweep_runs [OF assms(2) this mplacedD(4) [OF P]] obtain n s' where "runs c n s = Some s'" "swept c tok s s'" by blast
  then show ?thesis by (intro exI [of _ n] exI [of _ s']) (auto simp: swept_def owner_def)
qed

text \<open>The release loop.\<close>

definition handed :: "client \<Rightarrow> mutex \<Rightarrow> mutex \<Rightarrow> bool" where
  "handed c s s' \<longleftrightarrow>
     (case dropWhile (skips (wld s)) (waiters s) of
        [] \<Rightarrow> \<not> locked s' \<and> waiters s' = [] \<and> pc s' c = MFreed
      | x # xs \<Rightarrow> locked s' \<and> waiters s' = xs \<and> pc s' c = MIdle \<and> owner s' (client_of x) \<and> pc s' (client_of x) = MWoken (w_result x))
   \<and> (\<forall>x \<in> set (takeWhile (skips (wld s)) (waiters s)). pc s' (client_of x) = MWoken True \<and> results s' (client_of x) = WCancelled)"

lemma release_runs:
  assumes "pc s c = MPop" "c \<notin> client_of ` set (waiters s)" "distinct (map client_of (waiters s))" "locked s"
  shows "\<exists>n s'. runs c n s = Some s' \<and> handed c s s' \<and> (\<forall>d. d \<noteq> c \<longrightarrow> d \<notin> client_of ` set (waiters s) \<longrightarrow> pc s' d = pc s d \<and> results s' d = results s d)"
  using assms
proof (induction "waiters s" arbitrary: s)
  case Nil
  then have "runs c 1 s = Some (goto c MFreed (s\<lparr>locked := False\<rparr>))" by (simp add: runs_Suc flip: Nil(1))
  then show ?case using Nil by (intro exI [of _ 1] exI) (auto simp: handed_def simp flip: Nil(1))
next
  case (Cons x xs)
  note q = Cons.hyps(2) [symmetric]
  let ?s = "goto c (MExam x) (s\<lparr>waiters := xs\<rparr>)"
  have st: "mutex_step (EStep c) s = Some ?s" using Cons.prems(1) q by simp
  have xc: "client_of x \<noteq> c" "client_of x \<notin> client_of ` set xs" "c \<notin> client_of ` set xs" "distinct (map client_of xs)" using Cons.prems q by auto
  show ?case
  proof (cases "skips (wld s) x")
    case True
    then have wr: "w_result x" by (simp add: skips_def)
    let ?t = "goto c MPop (wake x WCancelled ?s)"
    have st2: "mutex_step (EStep c) ?s = Some ?t" using True by simp
    have t: "waiters ?t = xs" "pc ?t c = MPop" "locked ?t" "wld ?t = wld s" using Cons.prems(4) by simp_all
    obtain n s' where s': "runs c n ?t = Some s'" "handed c ?t s'"
      "\<forall>d. d \<noteq> c \<longrightarrow> d \<notin> client_of ` set xs \<longrightarrow> pc s' d = pc ?t d \<and> results s' d = results ?t d"
      using Cons.hyps(1) [of ?t] t xc by auto
    have "pc s' (client_of x) = MWoken True \<and> results s' (client_of x) = WCancelled" using s'(3) xc wr by simp
    then have "handed c s s'" using s'(2) True q t by (simp add: handed_def)
    moreover have "\<forall>d. d \<noteq> c \<longrightarrow> d \<notin> client_of ` set (waiters s) \<longrightarrow> pc s' d = pc s d \<and> results s' d = results s d" using s'(3) q by simp
    ultimately show ?thesis using runs_first [OF st runs_first [OF st2 s'(1)]] by blast
  next
    case skip: False
    show ?thesis
    proof (cases "w_fiber x")
      case (Some f)
      let ?t = "goto c MIdle (wake x WOk ?s)"
      have st2: "mutex_step (EStep c) ?s = Some ?t" using skip Some by simp
      have "handed c s ?t" using skip q xc Cons.prems(4) by (simp add: handed_def owner_def)
      moreover have "\<forall>d. d \<noteq> c \<longrightarrow> d \<notin> client_of ` set (waiters s) \<longrightarrow> pc ?t d = pc s d \<and> results ?t d = results s d" using q by auto
      moreover have "runs c 2 s = Some ?t" using runs_first [OF st runs_first [OF st2, of 0]] by (simp add: numeral_2_eq_2)
      ultimately show ?thesis by blast
    next
      case None
      let ?u = "goto c (MHandCoro x) (?s\<lparr>lockHolder := w_coro x\<rparr>)"
      let ?t = "goto c MIdle (wake x WOk ?u)"
      have st2: "mutex_step (EStep c) ?s = Some ?u" "mutex_step (EStep c) ?u = Some ?t" using skip None by simp_all
      have "handed c s ?t" using skip q xc Cons.prems(4) by (simp add: handed_def owner_def)
      moreover have "\<forall>d. d \<noteq> c \<longrightarrow> d \<notin> client_of ` set (waiters s) \<longrightarrow> pc ?t d = pc s d \<and> results ?t d = results s d" using q by auto
      moreover have "runs c 3 s = Some ?t"
        using runs_first [OF st runs_first [OF st2(1) runs_first [OF st2(2), of 0]]] by (simp add: numeral_3_eq_3)
      ultimately show ?thesis by blast
    qed
  qed
qed

text \<open>\<^verbatim>\<open>Unlock\<close>, run to its end, passes the lock to the first waiter in the queue that is not cancelled, and never lets it go in between; every
  cancelled waiter before it is resumed with \<^verbatim>\<open>Cancelled\<close>, and the lock is free only if nobody is left.\<close>

lemma mutex_unlock_hands_over:
  assumes "exec mutex_step as (mutex_init hook w) = Some s" and "pc s c = MUnlock"
  shows "\<exists>n s'. runs c n s = Some s' \<and> handed c s s'"
proof -
  obtain own loc where E: "excl own s" and P: "mplaced loc s" using mx.inv_exec [OF assms(1)] by (auto simp: mutex_inv_def)
  let ?s = "goto c MPop (s\<lparr>lockHolder := None\<rparr>)"
  have st: "mutex_step (EStep c) s = Some ?s" using assms(2) by simp
  have "locked s" using exclD(1) [OF E, of c] exclD(2) [OF E] assms(2) by (simp add: owner_def)
  moreover have "c \<notin> client_of ` set (waiters s)" using mplacedD(6) [OF P] assms(2) by auto
  ultimately obtain n s' where "runs c n ?s = Some s'" "handed c ?s s'" using release_runs [of ?s c] mplacedD(4) [OF P] by auto
  then have "runs c (Suc n) s = Some s'" "handed c s s'" using runs_first [OF st] by (simp_all add: handed_def)
  then show ?thesis by blast
qed


section \<open>Concrete runs\<close>

definition calm_world :: world where
  "calm_world = \<lparr>task_at = (\<lambda>t. \<lparr>cancelledDirect = False, cancelToken = kNone\<rparr>), owningTask = Some, bareTask = (\<lambda>_. None), ctab = cancel_init\<rparr>"

text \<open>Fiber 1 holds the lock; fibers 2 and thread 0 wait; fiber 1 starts to release it.\<close>

definition contended :: "mevent list" where
  "contended = [ECall (Fib 1) KLock, EStep (Fib 1), EStep (Fib 1), ECall (Fib 2) KLock, EStep (Fib 2),
     ECall (Bar 0) KLock, EStep (Bar 0), EStep (Bar 0), EStep (Bar 0), EStep (Bar 0), EStep (Bar 0), EUnlock (Fib 1)]"

definition drained :: "mevent list" where
  "drained = contended @ replicate 3 (EStep (Fib 1)) @ [EStep (Fib 2), EUnlock (Fib 2)] @ replicate 4 (EStep (Fib 2)) @ [ENotify (Fib 2) 0]
     @ replicate 5 (EStep (Bar 0)) @ [EUnlock (Bar 0)] @ replicate 3 (EStep (Bar 0))"

lemma run_contended: "\<exists>s. exec mutex_step contended (mutex_init False calm_world) = Some s
    \<and> pc s (Fib 1) = MUnlock \<and> pc s (Fib 2) = MParked False \<and> pc s (Bar 0) = MBlocked"
  by (rule exec_ex) code_simp

theorem mutex_exclusive_witness:
  "\<exists>s. exec mutex_step contended (mutex_init False calm_world) = Some s \<and> owner s (Fib 1) \<and> locked s"
proof -
  obtain s where s: "exec mutex_step contended (mutex_init False calm_world) = Some s" "pc s (Fib 1) = MUnlock" using run_contended by blast
  have "owner s (Fib 1)" using s(2) by (simp add: owner_def)
  then show ?thesis using mutex_exclusive [OF s(1)] s(1) by blast
qed

lemma mutex_unlock_hands_over_example:
  "\<exists>s n s'. exec mutex_step contended (mutex_init False calm_world) = Some s \<and> runs (Fib 1) n s = Some s' \<and> handed (Fib 1) s s'"
proof -
  obtain s where s: "exec mutex_step contended (mutex_init False calm_world) = Some s" "pc s (Fib 1) = MUnlock" using run_contended by blast
  then show ?thesis using mutex_unlock_hands_over [OF s] by blast
qed

lemma run_drained: "\<exists>s. exec mutex_step drained (mutex_init False calm_world) = Some s \<and> (\<forall>c. pc s c = MIdle)"
  by (rule exec_ex)
    (simp add: drained_def contended_def mutex_init_def numeral_eq_Suc mutex_ops goto_def wake_def store_holder_def skips_def calm_world_def)

theorem mutex_deadlock_free_witness:
  "\<exists>s. exec mutex_step drained (mutex_init False calm_world) = Some s \<and> pc s (Fib 1) \<in> {MIdle, MAborted}"
proof -
  obtain s where s: "exec mutex_step drained (mutex_init False calm_world) = Some s" "\<forall>c. pc s c = MIdle" using run_drained by blast
  show ?thesis using mutex_deadlock_free [OF s(1), of "Fib 1"] s by auto
qed

text \<open>Two cancellable waiters, and a thread that starts to eject everybody.\<close>

definition ejecting :: "mevent list" where
  "ejecting = [ECall (Fib 1) KLock, EStep (Fib 1), EStep (Fib 1), ECall (Fib 2) KLockCancellable, EStep (Fib 2), EStep (Fib 2),
     ECall (Cor 7) KLockAsyncResult, EStep (Cor 7), ECancel (Bar 0) kNone]"

theorem mutex_cancel_ejects_witness:
  "\<exists>s n s'. exec mutex_step ejecting (mutex_init False calm_world) = Some s \<and> length (waiters s) = 2 \<and> runs (Bar 0) n s = Some s' \<and> waiters s' = []"
proof -
  have "\<exists>s. exec mutex_step ejecting (mutex_init False calm_world) = Some s
      \<and> pc s (Bar 0) = MSweep kNone \<and> length (waiters s) = 2 \<and> list_all (matches (wld s) kNone) (waiters s)"
    by (rule exec_ex) code_simp
  then obtain s where s: "exec mutex_step ejecting (mutex_init False calm_world) = Some s" "pc s (Bar 0) = MSweep kNone"
    "length (waiters s) = 2" "list_all (matches (wld s) kNone) (waiters s)" by blast
  have e: "filter (\<lambda>x. \<not> matches (wld s) kNone x) (waiters s) = []" using s(4) by (simp add: filter_empty_conv list_all_iff)
  obtain n s' where "runs (Bar 0) n s = Some s'" "waiters s' = []" using mutex_cancel_ejects [OF s(1,2)] unfolding e by blast
  then show ?thesis using s(1,3) by blast
qed

end
