(* ===== verification/Sched_Semaphore.thy ===== *)
theory Sched_Semaphore
  imports Sync_Waiters
begin

text \<open>
  \<^verbatim>\<open>SchedulerSemaphore\<close> of \<^verbatim>\<open>TaskScheduler.cpp\<close>: a counting semaphore with a maximum. As for the mutex, the regions under \<^verbatim>\<open>spinLock\<close> are one step
  each; \<^verbatim>\<open>Signal\<close> gives that lock up between the waiters it passes over. Three counters that the code does not have record what the clients see: the waits that returned
  with a permit (counted when the client goes on), the calls of \<^verbatim>\<open>Signal\<close> (counted when it is called), and the signals dropped at the maximum.
\<close>

section \<open>State\<close>

datatype scall = KWait | KWaitCancellable | KWaitAsync bool | KTryWait

text \<open>\<open>SExam\<close> and \<open>SAgain\<close> are inside \<^verbatim>\<open>Signal\<close>: a waiter was popped, with the queue then found empty or not; it was passed over.\<close>

datatype spc =
    SIdle | SCheck | SEnter scall
  | SParked bool | SWoken bool
  | SSignal | SExam waiter bool | SAgain bool
  | SSweep u32 | SEject "waiter list" bool u32

record semaphore =
  permits :: int
  maxPermits :: int
  swaiters :: "waiter list"
  sresults :: "client \<Rightarrow> wait_result"
  spc :: "client \<Rightarrow> spc"
  swld :: world
  taken :: nat
  signalled :: nat
  discarded :: nat

definition semaphore_init :: "int \<Rightarrow> int \<Rightarrow> world \<Rightarrow> semaphore" where
  "semaphore_init initialPermits maxP w = \<lparr>permits = initialPermits, maxPermits = maxP, swaiters = [], sresults = (\<lambda>_. WOk),
     spc = (\<lambda>_. SIdle), swld = w, taken = 0, signalled = 0, discarded = 0\<rparr>"

definition sgoto :: "client \<Rightarrow> spc \<Rightarrow> semaphore \<Rightarrow> semaphore" where
  "sgoto c p s = s\<lparr>spc := (spc s)(c := p)\<rparr>"

definition swake :: "waiter \<Rightarrow> wait_result \<Rightarrow> semaphore \<Rightarrow> semaphore" where
  "swake x r s =
     sgoto (client_of x) (SWoken (w_result x))
       (if w_result x then s\<lparr>sresults := (sresults s)(client_of x := r)\<rparr> else s)"

section \<open>Waiting\<close>

text \<open>\<^verbatim>\<open>if (permits > 0) --permits\<close>, or what the caller does when there is none.\<close>

definition take_permit :: "client \<Rightarrow> (semaphore \<Rightarrow> semaphore) \<Rightarrow> semaphore \<Rightarrow> semaphore" where
  "take_permit c other s =
     (if permits s > 0 then sgoto c SIdle (s\<lparr>permits := permits s - 1, taken := taken s + 1\<rparr>) else other s)"

definition senqueue :: "client \<Rightarrow> waiter \<Rightarrow> semaphore \<Rightarrow> semaphore" where
  "senqueue c x s = sgoto c (SParked (w_result x)) (s\<lparr>swaiters := swaiters s @ [x]\<rparr>)"

definition Try_Wait :: "client \<Rightarrow> semaphore \<Rightarrow> semaphore" where
  "Try_Wait c = take_permit c (sgoto c SIdle)"

text \<open>A client without a fiber tries again (\<^verbatim>\<open>SpinThenHelp\<close>): the step leaves it where it is.\<close>

definition Wait :: "client \<Rightarrow> semaphore \<Rightarrow> semaphore" where
  "Wait c = (case c of Fib f \<Rightarrow> take_permit c (senqueue c (fiber_waiter f False kNone)) | _ \<Rightarrow> take_permit c id)"

text \<open>\<^verbatim>\<open>if (result) *result = r\<close>.\<close>

definition put_result :: "bool \<Rightarrow> client \<Rightarrow> wait_result \<Rightarrow> semaphore \<Rightarrow> semaphore" where
  "put_result b c r s = (if b then s\<lparr>sresults := (sresults s)(c := r)\<rparr> else s)"

definition WaitCancellable :: "client \<Rightarrow> semaphore \<Rightarrow> semaphore" where
  "WaitCancellable c s0 =
     take_permit c (\<lambda>s.
       if IsTaskCancelled (swld s) (GetCurrentTask (swld s) c) then sgoto c SIdle (put_result True c WCancelled s)
       else (case c of Fib f \<Rightarrow> senqueue c (fiber_waiter f True (token_of (swld s) (GetCurrentTask (swld s) c))) s | _ \<Rightarrow> s))
     (put_result True c WOk s0)"

definition WaitAsyncEnqueue :: "nat \<Rightarrow> bool \<Rightarrow> semaphore \<Rightarrow> semaphore" where
  "WaitAsyncEnqueue t result s =
     (if permits s > 0 then put_result result (Cor t) WOk (take_permit (Cor t) id s)
      else if IsTaskCancelled (swld s) (Some t) then sgoto (Cor t) SIdle (put_result result (Cor t) WCancelled s)
      else senqueue (Cor t) (coro_waiter t result (token_of (swld s) (Some t))) s)"

section \<open>Signalling\<close>

text \<open>\<^verbatim>\<open>if (permits < maxPermits) ++permits\<close>.\<close>

definition give_back :: "semaphore \<Rightarrow> semaphore" where
  "give_back s = (if permits s < maxPermits s then s\<lparr>permits := permits s + 1\<rparr> else s\<lparr>discarded := discarded s + 1\<rparr>)"

definition pop_waiter :: "client \<Rightarrow> semaphore \<Rightarrow> semaphore" where
  "pop_waiter c s = (case swaiters s of [] \<Rightarrow> s | x # xs \<Rightarrow> sgoto c (SExam x (xs = [])) (s\<lparr>swaiters := xs\<rparr>))"

fun Signal :: "client \<Rightarrow> spc \<Rightarrow> semaphore \<Rightarrow> semaphore option" where
  "Signal c SSignal s = Some (if swaiters s \<noteq> [] then pop_waiter c s else sgoto c SIdle (give_back s))"
| "Signal c (SExam x wasEmpty) s =
     Some (if skips (swld s) x then sgoto c (SAgain wasEmpty) (swake x WCancelled s)
           else sgoto c SIdle (swake x WOk s))"
| "Signal c (SAgain wasEmpty) s =
     Some (if wasEmpty \<or> swaiters s = [] then sgoto c SIdle (give_back s) else pop_waiter c s)"
| "Signal c _ s = None"

fun CancelWaiters :: "client \<Rightarrow> spc \<Rightarrow> semaphore \<Rightarrow> semaphore option" where
  "CancelWaiters c (SSweep tok) s =
     (case eject_pass (matches (swld s) tok) kBuf (swaiters s) of (vs, ks) \<Rightarrow>
        Some (sgoto c (if vs = [] then SIdle else SEject vs (length vs = kBuf) tok) (s\<lparr>swaiters := ks\<rparr>)))"
| "CancelWaiters c (SEject [] full tok) s = Some (sgoto c (if full then SSweep tok else SIdle) s)"
| "CancelWaiters c (SEject (x # xs) full tok) s = Some (sgoto c (SEject xs full tok) (swake x WCancelled s))"
| "CancelWaiters c _ s = None"

section \<open>The system\<close>

text \<open>A client that was woken returns with a permit unless its result says that it was cancelled.\<close>

definition woken_ok :: "client \<Rightarrow> bool \<Rightarrow> semaphore \<Rightarrow> bool" where
  "woken_ok c r s \<longleftrightarrow> \<not> (r \<and> sresults s c = WCancelled)"

text \<open>A thread whose \<^verbatim>\<open>Try_Wait\<close> failed looks at its cancellation and tries again.\<close>

fun sstep_client :: "client \<Rightarrow> spc \<Rightarrow> semaphore \<Rightarrow> semaphore option" where
  "sstep_client c SCheck s =
     Some (if IsTaskCancelled (swld s) (GetCurrentTask (swld s) c) then sgoto c SIdle (put_result True c WCancelled s)
           else sgoto c (SEnter KWaitCancellable) s)"
| "sstep_client c (SEnter KWait) s = Some (Wait c s)"
| "sstep_client c (SEnter KWaitCancellable) s = Some (WaitCancellable c s)"
| "sstep_client c (SEnter (KWaitAsync r)) s = (case c of Cor t \<Rightarrow> Some (WaitAsyncEnqueue t r s) | _ \<Rightarrow> None)"
| "sstep_client c (SEnter KTryWait) s = Some (Try_Wait c s)"
| "sstep_client c (SWoken r) s = Some (sgoto c SIdle (if woken_ok c r s then s\<lparr>taken := taken s + 1\<rparr> else s))"
| "sstep_client c p s = (case Signal c p s of Some s' \<Rightarrow> Some s' | None \<Rightarrow> CancelWaiters c p s)"

datatype sevent = VCall client scall | VSignal client | VCancel client u32 | VStep client | VWorld "nat \<Rightarrow> sync_task" cancel_table

fun may_wait :: "client \<Rightarrow> scall \<Rightarrow> bool" where
  "may_wait (Cor t) k \<longleftrightarrow> (case k of KWaitAsync r \<Rightarrow> True | KTryWait \<Rightarrow> True | _ \<Rightarrow> False)"
| "may_wait _ k \<longleftrightarrow> (case k of KWaitAsync r \<Rightarrow> False | _ \<Rightarrow> True)"

fun semaphore_step :: "sevent \<Rightarrow> semaphore \<Rightarrow> semaphore option" where
  "semaphore_step (VCall c k) s =
     (if spc s c = SIdle \<and> may_wait c k then Some (sgoto c (if k = KWaitCancellable then SCheck else SEnter k) s) else None)"
| "semaphore_step (VSignal c) s = (if spc s c = SIdle then Some (sgoto c SSignal (s\<lparr>signalled := signalled s + 1\<rparr>)) else None)"
| "semaphore_step (VCancel c tok) s = (if spc s c = SIdle then Some (sgoto c (SSweep tok) s) else None)"
| "semaphore_step (VStep c) s = sstep_client c (spc s c) s"
| "semaphore_step (VWorld ts T) s = Some (s\<lparr>swld := (swld s)\<lparr>task_at := ts, ctab := T\<rparr>\<rparr>)"

section \<open>Selectors\<close>

lemma sgoto_sel [simp]:
  "spc (sgoto c p s) = (spc s)(c := p)" "permits (sgoto c p s) = permits s" "maxPermits (sgoto c p s) = maxPermits s"
  "swaiters (sgoto c p s) = swaiters s" "sresults (sgoto c p s) = sresults s" "swld (sgoto c p s) = swld s"
  "taken (sgoto c p s) = taken s" "signalled (sgoto c p s) = signalled s" "discarded (sgoto c p s) = discarded s"
  by (simp_all add: sgoto_def)

lemma put_result_sel [simp]:
  "spc (put_result b c r s) = spc s" "permits (put_result b c r s) = permits s" "maxPermits (put_result b c r s) = maxPermits s"
  "swaiters (put_result b c r s) = swaiters s" "swld (put_result b c r s) = swld s" "taken (put_result b c r s) = taken s"
  "signalled (put_result b c r s) = signalled s" "discarded (put_result b c r s) = discarded s"
  "sresults (put_result b c r s) d = (if b \<and> d = c then r else sresults s d)"
  by (simp_all add: put_result_def)

lemma swake_sel [simp]:
  "spc (swake x r s) = (spc s)(client_of x := SWoken (w_result x))" "permits (swake x r s) = permits s"
  "maxPermits (swake x r s) = maxPermits s" "swaiters (swake x r s) = swaiters s" "swld (swake x r s) = swld s"
  "taken (swake x r s) = taken s" "signalled (swake x r s) = signalled s" "discarded (swake x r s) = discarded s"
  "sresults (swake x r s) d = (if w_result x \<and> d = client_of x then r else sresults s d)"
  by (simp_all add: swake_def)

lemma give_back_sel [simp]:
  "spc (give_back s) = spc s" "swaiters (give_back s) = swaiters s" "swld (give_back s) = swld s" "sresults (give_back s) = sresults s"
  "maxPermits (give_back s) = maxPermits s" "taken (give_back s) = taken s"
  by (simp_all add: give_back_def)

lemmas wait_ops = take_permit_def senqueue_def Try_Wait_def Wait_def WaitCancellable_def WaitAsyncEnqueue_def

lemma sstep_cases:
  assumes "sstep_client c p s = Some s'"
  obtains (check) "p = SCheck" | (enter) k where "p = SEnter k" | (woken) r where "p = SWoken r"
    | (signal) "Signal c p s = Some s'" | (cancel) "CancelWaiters c p s = Some s'"
  using assms by (cases p) (auto split: option.splits)

section \<open>Where the waiters are\<close>

fun sparked :: "spc \<Rightarrow> bool option" where
  "sparked (SParked r) = Some r" | "sparked _ = None"

fun scarried :: "spc \<Rightarrow> waiter list" where
  "scarried (SExam x e) = [x]" | "scarried (SEject xs full tok) = xs" | "scarried _ = []"

fun seject :: "spc \<Rightarrow> bool" where
  "seject (SEject xs full tok) = True" | "seject _ = False"

interpretation sxp: wait_places sparked scarried seject SParked SWoken
proof
  show "sparked p \<noteq> None \<Longrightarrow> scarried p = []" for p by (cases p) auto
qed simp_all

abbreviation splaced :: "(client \<Rightarrow> client option option) \<Rightarrow> semaphore \<Rightarrow> bool" where
  "splaced loc s \<equiv> placed sparked scarried seject loc (spc s) (swaiters s)"

lemma splaced_pop:
  assumes P: "splaced loc s" and "sparked (spc s c) = None" "scarried (spc s c) = []"
  shows "\<exists>loc. splaced loc (pop_waiter c s)"
proof (cases "swaiters s")
  case Nil
  then show ?thesis using P by (auto simp: pop_waiter_def)
next
  case (Cons x xs)
  show ?thesis by (rule exI, rule sxp.placed_take [OF P, of c "SExam x (xs = [])" xs]) (use assms Cons in \<open>auto simp: pop_waiter_def\<close>)
qed

lemma splaced_enqueue:
  assumes P: "splaced loc s" and "sparked (spc s c) = None" "scarried (spc s c) = []" "client_of x = c"
    and "spc s' = (spc s)(c := SParked (w_result x))" "swaiters s' = swaiters s @ [x]"
  shows "\<exists>loc. splaced loc s'"
  using sxp.placed_enqueue [OF P, of c x "spc s'" "swaiters s'"] assms by blast

lemma splaced_move:
  assumes P: "splaced loc s" and "sparked (spc s c) = None" "scarried (spc s c) = []" "sparked p = None" "scarried p = []"
    and "spc s' = (spc s)(c := p)" "swaiters s' = swaiters s"
  shows "\<exists>loc. splaced loc s'"
  using sxp.placed_move [OF P, of c p "spc s'" "swaiters s'"] assms by auto

lemma splaced_wake:
  assumes P: "splaced loc s" and "sparked (spc s c) = None" "scarried (spc s c) = x # xs" "sparked p = None" "scarried p = xs"
    and "xs = [] \<or> seject (spc s c)" "spc s' = (spc s)(client_of x := SWoken r, c := p)" "swaiters s' = swaiters s"
  shows "\<exists>loc. splaced loc s'"
  using sxp.placed_wake [OF P, of c x xs p "spc s'" r "swaiters s'"] assms by blast

lemma splaced_enter:
  assumes P: "splaced loc s" and "spc s c = SEnter k" "sstep_client c (SEnter k) s = Some s'"
  shows "\<exists>loc. splaced loc s'"
proof -
  consider (moved) "spc s' = (spc s)(c := SIdle)" "swaiters s' = swaiters s" | (same) "spc s' = spc s" "swaiters s' = swaiters s"
    | (parked) x where "client_of x = c" "spc s' = (spc s)(c := SParked (w_result x))" "swaiters s' = swaiters s @ [x]"
    using assms(2,3) by (cases k; cases c) (force simp: wait_ops split: if_splits)+
  then show ?thesis
  proof cases
    case moved then show ?thesis using splaced_move [OF P, of c SIdle s'] assms(2) by simp
  next
    case same then show ?thesis using P by auto
  next
    case parked then show ?thesis using splaced_enqueue [OF P, of c x s'] assms(2) by simp
  qed
qed

lemma splaced_signal:
  assumes P: "splaced loc s" and "Signal c (spc s c) s = Some s'"
  shows "\<exists>loc. splaced loc s'"
proof (cases "spc s c")
  case SSignal
  then show ?thesis using assms splaced_pop [OF P, of c] splaced_move [OF P, of c SIdle s'] by (auto split: if_splits)
next
  case (SExam x e)
  then show ?thesis using assms(2) splaced_wake [OF P, of c x "[]" "if skips (swld s) x then SAgain e else SIdle" s' "w_result x"] by (auto split: if_splits)
next
  case (SAgain e)
  then show ?thesis using assms splaced_pop [OF P, of c] splaced_move [OF P, of c SIdle s'] by (auto split: if_splits)
qed (use assms in auto)

lemma splaced_cancel:
  assumes P: "splaced loc s" and "CancelWaiters c (spc s c) s = Some s'"
  shows "\<exists>loc. splaced loc s'"
proof (cases "spc s c")
  case (SSweep tok)
  obtain vs ks where e: "eject_pass (matches (swld s) tok) kBuf (swaiters s) = (vs, ks)" by fastforce
  let ?p = "if vs = [] then SIdle else SEject vs (length vs = kBuf) tok"
  have v: "w_result x" if "x \<in> set vs" for x using eject_pass_victim [OF e that] by (simp add: matches_def)
  have s': "s' = sgoto c ?p (s\<lparr>swaiters := ks\<rparr>)" using assms(2) SSweep e by simp
  have sc: "scarried ?p = vs" "sparked ?p = None" by simp_all
  show ?thesis
    by (rule exI, rule sxp.placed_take [OF P, of c ?p ks]) (use s' sc v eject_pass_mset [OF e] SSweep in simp_all)
next
  case (SEject xs f t)
  show ?thesis
  proof (cases xs)
    case Nil
    then show ?thesis using assms(2) SEject splaced_move [OF P, of c "if f then SSweep t else SIdle" s'] by (auto split: if_splits)
  next
    case (Cons x ys)
    then show ?thesis using assms(2) SEject splaced_wake [OF P, of c x ys "SEject ys f t" s' "w_result x"] by auto
  qed
qed (use assms in auto)

lemma semaphore_step_placed:
  assumes P: "splaced loc s" and "semaphore_step a s = Some s'"
  shows "\<exists>loc. splaced loc s'"
proof (cases a)
  case (VStep c)
  then have st: "sstep_client c (spc s c) s = Some s'" using assms(2) by simp
  from st show ?thesis
  proof (cases rule: sstep_cases)
    case check then show ?thesis using st splaced_move [OF P, of c "spc s' c" s'] by (auto split: if_splits)
  next
    case (enter k) then show ?thesis using splaced_enter [OF P] st by simp
  next
    case (woken r) then show ?thesis using st splaced_move [OF P, of c SIdle s'] by auto
  next
    case signal then show ?thesis by (rule splaced_signal [OF P])
  next
    case cancel then show ?thesis by (rule splaced_cancel [OF P])
  qed
next
  case (VWorld ts T) then show ?thesis using assms by auto
next
  case (VCall c k) then show ?thesis using assms(2) splaced_move [OF P, of c "if k = KWaitCancellable then SCheck else SEnter k" s'] by (auto split: if_splits)
next
  case (VSignal c) then show ?thesis using assms(2) splaced_move [OF P, of c SSignal s'] by (auto split: if_splits)
next
  case (VCancel c t) then show ?thesis using assms(2) splaced_move [OF P, of c "SSweep t" s'] by (auto split: if_splits)
qed

section \<open>Permits\<close>

text \<open>A permit that is neither in the counter nor with a client: a call of \<^verbatim>\<open>Signal\<close> in progress has one, and so has a client that was woken with one and has not gone on yet.\<close>

fun carries :: "semaphore \<Rightarrow> client \<Rightarrow> spc \<Rightarrow> bool" where
  "carries s c SSignal = True" | "carries s c (SExam x e) = True" | "carries s c (SAgain e) = True"
| "carries s c (SWoken r) = woken_ok c r s" | "carries s c _ = False"

definition in_flight :: "semaphore \<Rightarrow> client set" where
  "in_flight s = {c. carries s c (spc s c)}"

definition balanced :: "int \<Rightarrow> int \<Rightarrow> semaphore \<Rightarrow> bool" where
  "balanced n m s \<longleftrightarrow> maxPermits s = m \<and> 0 \<le> permits s \<and> permits s \<le> m \<and> finite (in_flight s)
     \<and> permits s + int (taken s) + int (discarded s) + int (card (in_flight s)) = n + int (signalled s)"

lemma carries_cong: "sresults s' c = sresults s c \<Longrightarrow> carries s' c p = carries s c p"
  by (cases p) (auto simp: woken_ok_def)

lemma in_flight_step:
  assumes "spc s' = (spc s)(c := p)" "\<And>d. d \<noteq> c \<Longrightarrow> sresults s' d = sresults s d"
  shows "in_flight s' = (if carries s' c p then insert c (in_flight s) else in_flight s - {c})"
  using assms carries_cong [of s' _ s] by (auto simp: in_flight_def)

text \<open>A step of one client, with what it puts into and takes out of the counters.\<close>

lemma balanced_step:
  assumes b: "balanced n m s" and "spc s' = (spc s)(c := p)" "\<And>d. d \<noteq> c \<Longrightarrow> sresults s' d = sresults s d"
    and m: "maxPermits s' = maxPermits s" "0 \<le> permits s'" "permits s' \<le> maxPermits s"
    and e: "permits s' + int (taken s') + int (discarded s') + of_bool (carries s' c p) + int (signalled s)
      = permits s + int (taken s) + int (discarded s) + of_bool (carries s c (spc s c)) + int (signalled s')"
  shows "balanced n m s'"
proof -
  have f: "finite (in_flight s)" using b by (simp add: balanced_def)
  have c: "c \<in> in_flight s \<longleftrightarrow> carries s c (spc s c)" by (simp add: in_flight_def)
  have "card (in_flight s') + of_bool (carries s c (spc s c)) = card (in_flight s) + of_bool (carries s' c p)"
    using in_flight_step [OF assms(2,3)] f c card_Diff_singleton [of c "in_flight s"] card_gt_0_iff [of "in_flight s"]
    by (auto simp: card_insert_if of_bool_def)
  then have "int (card (in_flight s')) + of_bool (carries s c (spc s c)) = int (card (in_flight s)) + of_bool (carries s' c p)"
    by (metis (mono_tags) of_nat_add of_nat_of_bool)
  moreover have "finite (in_flight s')" using in_flight_step [OF assms(2,3)] f by simp
  ultimately show ?thesis using b m e unfolding balanced_def by linarith
qed

lemma balanced_enter:
  assumes b: "balanced n m s" and c: "spc s c = SEnter k" "sstep_client c (SEnter k) s = Some s'"
  shows "balanced n m s'"
proof -
  have p: "0 \<le> permits s" "permits s \<le> maxPermits s" using b by (simp_all add: balanced_def)
  have q: "spc s' = (spc s)(c := spc s' c)" "\<not> carries s' c (spc s' c)" using c by (cases k; cases c; auto simp: wait_ops split: if_splits)+
  have "permits s' + int (taken s') = permits s + int (taken s)" "0 \<le> permits s'" "permits s' \<le> maxPermits s" "maxPermits s' = maxPermits s"
    "discarded s' = discarded s" "signalled s' = signalled s" "\<And>d. d \<noteq> c \<Longrightarrow> sresults s' d = sresults s d"
    using c p by (cases k; cases c; auto simp: wait_ops)+
  then show ?thesis using q c(1) by (intro balanced_step [OF b q(1)]) simp_all
qed

lemma balanced_pop:
  assumes b: "balanced n m s" and c: "carries s c (spc s c)"
  shows "balanced n m (pop_waiter c s)"
proof (cases "swaiters s")
  case (Cons x xs)
  then show ?thesis using b c by (intro balanced_step [OF b, of _ c "SExam x (xs = [])"]) (auto simp: pop_waiter_def balanced_def)
qed (use b in \<open>simp add: pop_waiter_def\<close>)

lemma balanced_give_back:
  assumes b: "balanced n m s" and c: "carries s c (spc s c)"
  shows "balanced n m (sgoto c SIdle (give_back s))"
  by (rule balanced_step [OF b, of _ c SIdle]) (use b c in \<open>auto simp: give_back_def balanced_def\<close>)

text \<open>Waking the client of a waiter at hand.\<close>

lemma balanced_wake:
  assumes b: "balanced n m s" and P: "splaced loc s" and x: "x \<in> set (scarried (spc s c))" and q: "\<not> carries s c q \<or> carries s c (spc s c)"
    and w: "of_bool (carries s c q) + of_bool (\<not> w_result x \<or> r = WOk) = (of_bool (carries s c (spc s c)) :: int)"
  shows "balanced n m (sgoto c q (swake x r s))"
proof -
  let ?d = "client_of x" and ?s1 = "swake x r s"
  have d: "sparked (spc s ?d) = Some (w_result x)" using placedD(7) [OF P x] by blast
  then have nc: "\<not> carries s ?d (spc s ?d)" by (cases "spc s ?d") auto
  have ne: "?d \<noteq> c" using d x by (cases "spc s c") auto
  have cd: "carries ?s1 ?d (SWoken (w_result x)) \<longleftrightarrow> \<not> w_result x \<or> r = WOk" by (cases r) (auto simp: woken_ok_def)
  have f1: "in_flight ?s1 = (if carries ?s1 ?d (SWoken (w_result x)) then insert ?d (in_flight s) else in_flight s - {?d})"
    by (rule in_flight_step) simp_all
  have f2: "in_flight (sgoto c q ?s1) = (if carries (sgoto c q ?s1) c q then insert c (in_flight ?s1) else in_flight ?s1 - {c})"
    by (rule in_flight_step) simp_all
  have cc: "carries (sgoto c q ?s1) c q = carries s c q" using ne by (intro carries_cong) simp
  have mem: "c \<in> in_flight s \<longleftrightarrow> carries s c (spc s c)" "?d \<notin> in_flight s" "finite (in_flight s)" using nc b by (simp_all add: in_flight_def balanced_def)
  have one: "c \<in> in_flight s \<Longrightarrow> Suc (card (in_flight s) - 1) = card (in_flight s)" using mem(3) by (metis Suc_pred card_gt_0_iff empty_iff One_nat_def)
  have "card (in_flight (sgoto c q ?s1)) = card (in_flight s) \<and> finite (in_flight (sgoto c q ?s1))"
    using mem ne w q one unfolding f2 cc f1 cd
    by (cases "carries s c q"; cases "carries s c (spc s c)"; cases "\<not> w_result x \<or> r = WOk") (auto simp: card_insert_if card_Diff_singleton insert_absorb insert_Diff_if)
  then show ?thesis using b by (simp add: balanced_def)
qed

lemma Signal_balanced:
  assumes b: "balanced n m s" and P: "splaced loc s" and "Signal c (spc s c) s = Some s'"
  shows "balanced n m s'"
proof (cases "spc s c")
  case SSignal
  then show ?thesis using assms(3) balanced_pop [OF b, of c] balanced_give_back [OF b, of c] by (auto split: if_splits)
next
  case (SExam x e)
  show ?thesis
  proof (cases "skips (swld s) x")
    case True
    then have "w_result x" by (simp add: skips_def)
    then show ?thesis using assms(3) SExam True balanced_wake [OF b P, of x c "SAgain e" WCancelled] by simp
  next
    case False
    then show ?thesis using assms(3) SExam balanced_wake [OF b P, of x c SIdle WOk] by simp
  qed
next
  case (SAgain e)
  then show ?thesis using assms(3) balanced_pop [OF b, of c] balanced_give_back [OF b, of c] by (auto split: if_splits)
qed (use assms(3) in auto)

lemma CancelWaiters_balanced:
  assumes b: "balanced n m s" and P: "splaced loc s" and "CancelWaiters c (spc s c) s = Some s'"
  shows "balanced n m s'"
proof -
  have B: "0 \<le> permits s" "permits s \<le> maxPermits s" using b by (simp_all add: balanced_def)
  show ?thesis
  proof (cases "spc s c")
    case (SSweep tok)
    then show ?thesis using assms(3) B by (intro balanced_step [OF b, of s' c "spc s' c"]) (auto split: prod.splits if_splits)
  next
    case (SEject xs f t)
    show ?thesis
    proof (cases xs)
      case Nil
      then show ?thesis using assms(3) SEject B by (intro balanced_step [OF b, of s' c "spc s' c"]) (auto split: if_splits)
    next
      case (Cons x ys)
      have "w_result x" using placedD(8) [OF P, of c x] SEject Cons by simp
      then show ?thesis using assms(3) SEject Cons balanced_wake [OF b P, of x c "SEject ys f t" WCancelled] by simp
    qed
  qed (use assms(3) in auto)
qed

lemma sstep_client_balanced:
  assumes b: "balanced n m s" and P: "splaced loc s" and st: "sstep_client c (spc s c) s = Some s'"
  shows "balanced n m s'"
proof -
  have B: "0 \<le> permits s" "permits s \<le> maxPermits s" using b by (simp_all add: balanced_def)
  from st show ?thesis
  proof (cases rule: sstep_cases)
    case check
    then show ?thesis using st B by (intro balanced_step [OF b, of s' c "spc s' c"]) (auto split: if_splits)
  next
    case (enter k)
    then show ?thesis using balanced_enter [OF b] st by simp
  next
    case (woken r)
    then show ?thesis using st B by (intro balanced_step [OF b, of s' c SIdle]) (auto split: if_splits)
  next
    case signal
    then show ?thesis by (rule Signal_balanced [OF b P])
  next
    case cancel
    then show ?thesis by (rule CancelWaiters_balanced [OF b P])
  qed
qed

lemma semaphore_step_balanced:
  assumes b: "balanced n m s" and P: "splaced loc s" and st: "semaphore_step a s = Some s'"
  shows "balanced n m s'"
proof -
  have B: "0 \<le> permits s" "permits s \<le> maxPermits s" using b by (simp_all add: balanced_def)
  show ?thesis
  proof (cases a)
    case (VStep c)
    then show ?thesis using sstep_client_balanced [OF b P] st by simp
  next
    case (VWorld ts T)
    have "in_flight s' = in_flight s" using st VWorld carries_cong [of s' _ s] by (auto simp: in_flight_def)
    then show ?thesis using st VWorld b by (auto simp: balanced_def)
  next
    case (VCall c k)
    then show ?thesis using st B by (intro balanced_step [OF b, of s' c "spc s' c"]) (auto split: if_splits)
  next
    case (VSignal c)
    then show ?thesis using st B by (intro balanced_step [OF b, of s' c SSignal]) (auto split: if_splits)
  next
    case (VCancel c tok)
    then show ?thesis using st B by (intro balanced_step [OF b, of s' c "SSweep tok"]) (auto split: if_splits)
  qed
qed

section \<open>What the semaphore guarantees\<close>

definition sem_inv :: "int \<Rightarrow> int \<Rightarrow> semaphore \<Rightarrow> bool" where
  "sem_inv n m s \<longleftrightarrow> balanced n m s \<and> (\<exists>loc. splaced loc s)"

lemma sem_inv_init: "0 \<le> n \<Longrightarrow> n \<le> m \<Longrightarrow> sem_inv n m (semaphore_init n m w)"
  using sxp.placed_init [of "\<lambda>_. SIdle"] by (auto simp: sem_inv_def balanced_def semaphore_init_def in_flight_def)

lemma sem_inv_step: "sem_inv n m s \<Longrightarrow> semaphore_step a s = Some s' \<Longrightarrow> sem_inv n m s'"
  unfolding sem_inv_def using semaphore_step_balanced semaphore_step_placed by blast


text \<open>Runs in which no wait is cancellable.\<close>

fun plain_event :: "sevent \<Rightarrow> bool" where
  "plain_event (VCall c k) \<longleftrightarrow> k \<noteq> KWaitCancellable \<and> k \<noteq> KWaitAsync True" | "plain_event _ \<longleftrightarrow> True"

definition plain_step :: "sevent \<Rightarrow> semaphore \<Rightarrow> semaphore option" where
  "plain_step a s = (if plain_event a then semaphore_step a s else None)"

fun plain_pc :: "spc \<Rightarrow> bool" where
  "plain_pc SCheck = False" | "plain_pc (SEnter k) \<longleftrightarrow> k \<noteq> KWaitCancellable \<and> k \<noteq> KWaitAsync True" | "plain_pc (SExam x e) \<longleftrightarrow> \<not> w_result x"
| "plain_pc (SAgain e) = False" | "plain_pc (SEject xs f t) = False" | "plain_pc _ = True"

definition plain_inv :: "int \<Rightarrow> int \<Rightarrow> semaphore \<Rightarrow> bool" where
  "plain_inv n m s \<longleftrightarrow> sem_inv n m s \<and> (\<forall>x \<in> set (swaiters s). \<not> w_result x) \<and> (\<forall>c. plain_pc (spc s c)) \<and> (permits s > 0 \<longrightarrow> swaiters s = [])"

lemma no_victims: "\<forall>x \<in> set q. \<not> w_result x \<Longrightarrow> eject_pass (matches w tok) r q = ([], q)"
  by (induction q) (auto simp: matches_def)

lemma plain_client_step:
  assumes "sstep_client c (spc s c) s = Some s'" "\<forall>x \<in> set (swaiters s). \<not> w_result x" "\<forall>c. plain_pc (spc s c)" "permits s > 0 \<longrightarrow> swaiters s = []"
  shows "(\<forall>x \<in> set (swaiters s'). \<not> w_result x) \<and> (\<forall>c. plain_pc (spc s' c)) \<and> (permits s' > 0 \<longrightarrow> swaiters s' = [])"
proof -
  have pc: "plain_pc (spc s c)" using assms(3) by blast
  show ?thesis
  proof (cases "spc s c")
    case (SEnter k)
    have "\<forall>d. plain_pc (spc s d)" "\<not> w_result (fiber_waiter f False kNone)" for f using assms(3) by auto
    then show ?thesis using assms(1,2,4) pc SEnter by (cases k; cases c) (auto simp: wait_ops split: if_splits)
  next
    case SSignal
    then show ?thesis using assms by (cases "swaiters s") (auto simp: pop_waiter_def)
  next
    case (SExam x e)
    then have "\<not> skips (swld s) x" using pc by (simp add: skips_def)
    then show ?thesis using assms pc SExam by auto
  next
    case (SSweep tok)
    then show ?thesis using assms no_victims [OF assms(2)] by auto
  next
    case (SWoken r)
    then show ?thesis using assms by (cases "woken_ok c r s") auto
  qed (use assms pc in auto)
qed

lemma plain_inv_step:
  assumes "plain_inv n m s" and "plain_step a s = Some s'"
  shows "plain_inv n m s'"
proof -
  have a: "plain_event a" "semaphore_step a s = Some s'" using assms(2) by (auto simp: plain_step_def split: if_splits)
  have p: "\<forall>x \<in> set (swaiters s). \<not> w_result x" "\<forall>c. plain_pc (spc s c)" "permits s > 0 \<longrightarrow> swaiters s = []"
    using assms(1) by (auto simp: plain_inv_def)
  have "(\<forall>x \<in> set (swaiters s'). \<not> w_result x) \<and> (\<forall>c. plain_pc (spc s' c)) \<and> (permits s' > 0 \<longrightarrow> swaiters s' = [])"
  proof (cases a)
    case (VStep c)
    then show ?thesis using plain_client_step [OF _ p, of c s'] a(2) by simp
  qed (use a p in \<open>auto split: if_splits\<close>)
  then show ?thesis using sem_inv_step [OF _ a(2)] assms(1) by (auto simp: plain_inv_def)
qed

text \<open>C29: Without cancellable waits no wake-up is lost: if no step changes anything any more and a client is still parked, then no permit is left and the
  client is in the queue, where the next signal finds it.\<close>

theorem semaphore_no_lost_wakeup:
  assumes "0 \<le> n" "n \<le> m" and "exec plain_step as (semaphore_init n m w) = Some s"
    and "\<forall>c. semaphore_step (VStep c) s \<in> {None, Some s}" and "spc s c = SParked r"
  shows "permits s = 0 \<and> c \<in> client_of ` set (swaiters s)"
proof -
  have "step_invariant plain_step (semaphore_init n m w) (plain_inv n m)"
  proof
    show "plain_inv n m (semaphore_init n m w)" using sem_inv_init [OF assms(1,2)] by (simp add: plain_inv_def semaphore_init_def)
  qed (rule plain_inv_step)
  then have inv: "plain_inv n m s" using assms(3) by (rule step_invariant.inv_exec)
  then obtain loc where P: "splaced loc s" and b: "0 \<le> permits s" by (auto simp: plain_inv_def sem_inv_def balanced_def)
  have "loc c \<noteq> None" using placedD(1) [OF P, of c] assms(5) by simp
  then obtain l where l: "loc c = Some l" by blast
  have q: "c \<in> client_of ` set (swaiters s)"
  proof (cases l)
    case None then show ?thesis using placedD(2) [OF P, of c] l by simp
  next
    case (Some a)
    then obtain x where x: "x \<in> set (scarried (spc s a))" using placedD(3) [OF P, of c a] l by auto
    have "plain_pc (spc s a)" using inv by (auto simp: plain_inv_def)
    then obtain e where e: "spc s a = SExam x e" using x by (cases "spc s a") auto
    then obtain s' where s': "semaphore_step (VStep a) s = Some s'" "spc s' a \<noteq> spc s a" by simp
    then have "semaphore_step (VStep a) s = Some s" using assms(4) by (metis insert_iff option.distinct(1) singletonD)
    then show ?thesis using s' by simp
  qed
  then have "permits s \<le> 0" using inv by (auto simp: plain_inv_def)
  then show ?thesis using b q by simp
qed

section \<open>A signal that is lost\<close>

definition one_cancelled :: world where
  "one_cancelled = \<lparr>task_at = (\<lambda>t. \<lparr>cancelledDirect = False, cancelToken = kNone\<rparr>), owningTask = Some, bareTask = (\<lambda>_. None), ctab = cancel_init\<rparr>"

definition strand :: "sevent list" where
  "strand = [VCall (Fib 1) KWaitCancellable, VStep (Fib 1), VStep (Fib 1),
     VWorld (\<lambda>t. \<lparr>cancelledDirect = (t = 1), cancelToken = kNone\<rparr>) cancel_init,
     VSignal (Bar 0), VStep (Bar 0), VStep (Bar 0), VStep (Fib 1),
     VCall (Fib 2) KWait, VStep (Fib 2), VStep (Bar 0)]"

text \<open>C30: With a cancellable wait a permit and a waiter can miss each other: fiber 1 is parked and cancelled; a signal pops it, notes that the queue is now empty,
  passes it over; fiber 2 arrives and parks; the signal then trusts its note and stores the permit. Fiber 2 stays
  parked although a permit is there and nothing else is under way.\<close>

theorem semaphore_strands_waiter:
  "\<exists>s. exec semaphore_step strand (semaphore_init 0 1 one_cancelled) = Some s
     \<and> permits s = 1 \<and> swaiters s = [fiber_waiter 2 False kNone] \<and> spc s = (\<lambda>_. SIdle)(Fib 2 := SParked False)"
  by (rule exec_ex) (simp add: strand_def one_cancelled_def semaphore_init_def numeral_eq_Suc wait_ops sgoto_def put_result_def swake_def
      give_back_def pop_waiter_def skips_def IsTaskCancelled_def Cancelled_step fiber_waiter_def client_of_def fun_eq_iff)


definition two_wait :: "sevent list" where
  "two_wait = [VCall (Fib 1) KWait, VStep (Fib 1), VCall (Cor 2) (KWaitAsync False), VStep (Cor 2), VSignal (Bar 0), VStep (Bar 0), VStep (Bar 0), VStep (Fib 1)]"

theorem semaphore_no_lost_wakeup_witness:
  "\<exists>s. exec plain_step two_wait (semaphore_init 0 1 one_cancelled) = Some s \<and> permits s = 0 \<and> Cor 2 \<in> client_of ` set (swaiters s)"
proof -
  have "\<exists>s. exec plain_step two_wait (semaphore_init 0 1 one_cancelled) = Some s \<and> spc s = (\<lambda>_. SIdle)(Cor 2 := SParked False)"
    by (rule exec_ex) (simp add: two_wait_def one_cancelled_def semaphore_init_def plain_step_def numeral_eq_Suc wait_ops sgoto_def put_result_def swake_def
      give_back_def pop_waiter_def skips_def IsTaskCancelled_def Cancelled_step coro_waiter_def fiber_waiter_def client_of_def fun_eq_iff)
  then obtain s where s: "exec plain_step two_wait (semaphore_init 0 1 one_cancelled) = Some s" "spc s = (\<lambda>_. SIdle)(Cor 2 := SParked False)" by blast
  have q: "\<forall>c. semaphore_step (VStep c) s \<in> {None, Some s}" using s(2) by simp
  show ?thesis using semaphore_no_lost_wakeup [OF _ _ s(1) q, of "Cor 2" False] s by auto
qed

end
