(* ===== verification/Sched_Condvar.thy ===== *)
theory Sched_Condvar
  imports Sched_Semaphore Mutex_Run
begin

text \<open>
  \<^verbatim>\<open>SchedulerConditionVariable\<close> of \<^verbatim>\<open>TaskScheduler.cpp\<close>. A wait builds a semaphore in its own stack frame, queues its address and waits on it;
  \<^verbatim>\<open>Notify_One\<close>, \<^verbatim>\<open>Notify_All\<close> and \<^verbatim>\<open>CancelWaiters\<close> take addresses out of the queue under its lock and then operate on these semaphores. The
  semaphores are those of \<open>Sched_Semaphore\<close> and the mutex is that of \<open>Sched_Mutex\<close>, both run step by step.
\<close>

section \<open>State\<close>

record cv_waiter =
  cw_sem :: nat
  cw_token :: u32

text \<open>What a call of \<^verbatim>\<open>Unlock\<close> or \<^verbatim>\<open>Lock\<close> on the mutex is for: a wait on semaphore \<open>i\<close>, or the branch for a client without a fiber.\<close>

datatype unlock_for = UWait nat bool | UBare bool

datatype lock_for = ForWait nat | ForBare bool

text \<open>
  \<open>CHold\<close>: back from a wait, with the mutex; \<open>CUnheld\<close>: back from a wait whose \<^verbatim>\<open>Lock\<close> returned without it. A flag \<open>st\<close> says that the operation on the mutex, or on the semaphore at
  the head, has been called.
\<close>

datatype cpc =
    CIdle | CHold | CUnheld
  | CWCheck | CWPush bool | CUnlock bool unlock_for | CWSem bool nat bool | CWRemove nat | CLock bool lock_for
  | CNotifyOne | CNotifyAll | CSignal bool "nat list"
  | CSweep u32 | CEject bool "nat list" bool u32

record condvar =
  waitingQueue :: "cv_waiter list"
  mtx :: mutex
  sems :: "nat \<Rightarrow> semaphore"
  frames :: nat                       \<comment> \<open>semaphores built so far\<close>
  alive :: "nat \<Rightarrow> bool"              \<comment> \<open>whether the frame of a semaphore still exists\<close>
  dangling :: bool                    \<comment> \<open>a semaphore was used after its frame had gone\<close>
  cresult :: "client \<Rightarrow> wait_result"
  cpcs :: "client \<Rightarrow> cpc"
  cwld :: world

definition condvar_init :: "bool \<Rightarrow> world \<Rightarrow> condvar" where
  "condvar_init hook w = \<lparr>waitingQueue = [], mtx = mutex_init hook w, sems = (\<lambda>_. semaphore_init 0 1 w), frames = 0, alive = (\<lambda>_. False),
     dangling = False, cresult = (\<lambda>_. WOk), cpcs = (\<lambda>_. CIdle), cwld = w\<rparr>"

definition cgoto :: "client \<Rightarrow> cpc \<Rightarrow> condvar \<Rightarrow> condvar" where
  "cgoto c p s = s\<lparr>cpcs := (cpcs s)(c := p)\<rparr>"

definition creturn :: "client \<Rightarrow> wait_result \<Rightarrow> condvar \<Rightarrow> condvar" where
  "creturn c r s = s\<lparr>cresult := (cresult s)(c := r)\<rparr>"

definition ccancelled :: "client \<Rightarrow> condvar \<Rightarrow> bool" where
  "ccancelled c s = IsTaskCancelled (cwld s) (GetCurrentTask (cwld s) c)"

text \<open>One step of a client on semaphore \<open>i\<close>, and on the mutex.\<close>

definition on_sem :: "nat \<Rightarrow> sevent \<Rightarrow> condvar \<Rightarrow> condvar option" where
  "on_sem i e s =
     (case semaphore_step e (sems s i) of None \<Rightarrow> None
      | Some m \<Rightarrow> Some (s\<lparr>sems := (sems s)(i := m), dangling := dangling s \<or> \<not> alive s i\<rparr>))"

definition in_sem :: "nat \<Rightarrow> client \<Rightarrow> condvar \<Rightarrow> bool" where
  "in_sem i c s \<longleftrightarrow> spc (sems s i) c \<noteq> SIdle"

definition on_mtx :: "mevent \<Rightarrow> condvar \<Rightarrow> condvar option" where
  "on_mtx e s = map_option (\<lambda>m. s\<lparr>mtx := m\<rparr>) (mutex_step e (mtx s))"

section \<open>Waiting\<close>

text \<open>The end of a wait: the frame of its semaphore goes; without a fiber the cancellation is looked at once more.\<close>

definition finish_wait :: "client \<Rightarrow> lock_for \<Rightarrow> cpc \<Rightarrow> condvar \<Rightarrow> condvar" where
  "finish_wait c k p s = cgoto c p (case k of ForWait i \<Rightarrow> s\<lparr>alive := (alive s)(i := False)\<rparr>
     | ForBare canc \<Rightarrow> creturn c (if canc \<and> ccancelled c s then WCancelled else WOk) s)"

text \<open>
  \<open>CWPush canc\<close> is the section under \<^verbatim>\<open>LockQueue\<close>; a cancellable wait looks at its cancellation again there. \<^verbatim>\<open>Lock\<close> returns without the mutex (\<open>MIdle\<close>) for a task without a fiber
  that finds it taken, if the violation hook is set; otherwise the process aborts there.
\<close>

fun Wait :: "client \<Rightarrow> cpc \<Rightarrow> condvar \<Rightarrow> condvar option" where
  "Wait c CWCheck s =
     Some (if ccancelled c s then cgoto c CHold (creturn c WCancelled s)
           else cgoto c (case c of Fib f \<Rightarrow> CWPush True | _ \<Rightarrow> CUnlock False (UBare True)) s)"
| "Wait c (CWPush canc) s =
     Some (if canc \<and> ccancelled c s then cgoto c CHold (creturn c WCancelled s)
           else (let i = frames s in
                 cgoto c (CUnlock False (UWait i canc))
                   (s\<lparr>sems := (sems s)(i := semaphore_init 0 1 (cwld s)), frames := i + 1, alive := (alive s)(i := True),
                     waitingQueue := waitingQueue s @
                       [\<lparr>cw_sem = i, cw_token = (if canc then token_of (cwld s) (GetCurrentTask (cwld s) c) else kNone)\<rparr>]\<rparr>)))"
| "Wait c (CUnlock False k) s = map_option (cgoto c (CUnlock True k)) (on_mtx (EUnlock c) s)"
| "Wait c (CUnlock True k) s =
     (if pc (mtx s) c = MIdle
      then Some (cgoto c (case k of UWait i canc \<Rightarrow> CWSem False i canc | UBare canc \<Rightarrow> CLock False (ForBare canc)) s)
      else on_mtx (EStep c) s)"
| "Wait c (CWSem False i canc) s =
     map_option (cgoto c (CWSem True i canc)) (on_sem i (VCall c (if canc then KWaitCancellable else KWait)) s)"
| "Wait c (CWSem True i canc) s =
     (if in_sem i c s then on_sem i (VStep c) s
      else if canc \<and> sresults (sems s i) c = WCancelled then Some (cgoto c (CWRemove i) (creturn c WCancelled s))
      else Some (cgoto c (CLock False (ForWait i)) (creturn c WOk s)))"
| "Wait c (CWRemove i) s = Some (cgoto c (CLock False (ForWait i)) (s\<lparr>waitingQueue := filter (\<lambda>x. cw_sem x \<noteq> i) (waitingQueue s)\<rparr>))"
| "Wait c (CLock False k) s = map_option (cgoto c (CLock True k)) (on_mtx (ECall c KLock) s)"
| "Wait c (CLock True k) s =
     (if pc (mtx s) c = MHeld then Some (finish_wait c k CHold s)
      else if pc (mtx s) c = MIdle then Some (finish_wait c k CUnheld s)
      else on_mtx (EStep c) s)"
| "Wait c _ s = None"

section \<open>Notifying and cancelling\<close>

fun Notify :: "client \<Rightarrow> cpc \<Rightarrow> condvar \<Rightarrow> condvar option" where
  "Notify c CNotifyOne s =
     Some (case waitingQueue s of [] \<Rightarrow> cgoto c CIdle s
           | x # xs \<Rightarrow> cgoto c (CSignal False [cw_sem x]) (s\<lparr>waitingQueue := xs\<rparr>))"
| "Notify c CNotifyAll s = Some (cgoto c (CSignal False (map cw_sem (waitingQueue s))) (s\<lparr>waitingQueue := []\<rparr>))"
| "Notify c (CSignal st []) s = Some (cgoto c CIdle s)"
| "Notify c (CSignal False (i # is)) s = map_option (cgoto c (CSignal True (i # is))) (on_sem i (VSignal c) s)"
| "Notify c (CSignal True (i # is)) s =
     (if in_sem i c s then on_sem i (VStep c) s else Some (cgoto c (CSignal False is) s))"
| "Notify c _ s = None"

definition cmatches :: "world \<Rightarrow> u32 \<Rightarrow> cv_waiter \<Rightarrow> bool" where
  "cmatches w tok x \<longleftrightarrow> \<not> Valid tok \<or> IsWithin (ctab w) (cw_token x) tok"

fun CancelWaiters :: "client \<Rightarrow> cpc \<Rightarrow> condvar \<Rightarrow> condvar option" where
  "CancelWaiters c (CSweep tok) s =
     (case eject_pass (cmatches (cwld s) tok) kBuf (waitingQueue s) of (vs, ks) \<Rightarrow>
        Some (cgoto c (if vs = [] then CIdle else CEject False (map cw_sem vs) (length vs = kBuf) tok) (s\<lparr>waitingQueue := ks\<rparr>)))"
| "CancelWaiters c (CEject st [] full tok) s = Some (cgoto c (if full then CSweep tok else CIdle) s)"
| "CancelWaiters c (CEject False (i # is) full tok) s = map_option (cgoto c (CEject True (i # is) full tok)) (on_sem i (VCancel c tok) s)"
| "CancelWaiters c (CEject True (i # is) full tok) s =
     (if in_sem i c s then on_sem i (VStep c) s else Some (cgoto c (CEject False is full tok) s))"
| "CancelWaiters c _ s = None"

section \<open>The system\<close>

text \<open>
  A client outside the condition variable uses the mutex as it likes (\<open>YMutex\<close>); the choices of \<^verbatim>\<open>notify_one\<close> and the spurious wake-ups inside the mutex are \<open>YPick\<close>. A wait is called
  with the mutex held, by a client that may call \<^verbatim>\<open>Lock\<close>.
\<close>

datatype cevent =
    YMutex mevent | YPick mevent | YWait client bool | YNotifyOne client | YNotifyAll client | YCancel client u32
  | YStep client | YWorld "nat \<Rightarrow> sync_task" cancel_table

definition outside :: "client \<Rightarrow> condvar \<Rightarrow> bool" where
  "outside c s \<longleftrightarrow> cpcs s c = CIdle \<or> cpcs s c = CHold \<or> cpcs s c = CUnheld"

fun is_pick :: "mevent \<Rightarrow> bool" where
  "is_pick (ENotify c k) = True" | "is_pick (ESpurious c) = True" | "is_pick _ = False"

fun condvar_step :: "cevent \<Rightarrow> condvar \<Rightarrow> condvar option" where
  "condvar_step (YMutex e) s = (case actor e of None \<Rightarrow> None | Some c \<Rightarrow> if outside c s then map_option (cgoto c CIdle) (on_mtx e s) else None)"
| "condvar_step (YPick e) s = (if is_pick e then on_mtx e s else None)"
| "condvar_step (YWait c canc) s =
     (if outside c s \<and> pc (mtx s) c = MHeld \<and> may_call c KLock
      then Some (cgoto c (if canc then CWCheck else (case c of Fib f \<Rightarrow> CWPush False | _ \<Rightarrow> CUnlock False (UBare False))) s) else None)"
| "condvar_step (YNotifyOne c) s = (if outside c s then Some (cgoto c CNotifyOne s) else None)"
| "condvar_step (YNotifyAll c) s = (if outside c s then Some (cgoto c CNotifyAll s) else None)"
| "condvar_step (YCancel c tok) s = (if outside c s then Some (cgoto c (CSweep tok) s) else None)"
| "condvar_step (YStep c) s =
     (case Wait c (cpcs s c) s of Some s' \<Rightarrow> Some s'
      | None \<Rightarrow> (case Notify c (cpcs s c) s of Some s' \<Rightarrow> Some s' | None \<Rightarrow> CancelWaiters c (cpcs s c) s))"
| "condvar_step (YWorld ts T) s =
     Some (s\<lparr>cwld := (cwld s)\<lparr>task_at := ts, ctab := T\<rparr>, mtx := (mtx s)\<lparr>wld := (wld (mtx s))\<lparr>task_at := ts, ctab := T\<rparr>\<rparr>,
       sems := (\<lambda>i. (sems s i)\<lparr>swld := (swld (sems s i))\<lparr>task_at := ts, ctab := T\<rparr>\<rparr>)\<rparr>)"

lemma cgoto_sel [simp]:
  "cpcs (cgoto c p s) = (cpcs s)(c := p)" "mtx (cgoto c p s) = mtx s" "waitingQueue (cgoto c p s) = waitingQueue s"
  "sems (cgoto c p s) = sems s" "alive (cgoto c p s) = alive s" "dangling (cgoto c p s) = dangling s" "frames (cgoto c p s) = frames s"
  "cwld (cgoto c p s) = cwld s" "cresult (cgoto c p s) = cresult s"
  by (simp_all add: cgoto_def)

lemma creturn_sel [simp]:
  "cpcs (creturn c r s) = cpcs s" "mtx (creturn c r s) = mtx s" "waitingQueue (creturn c r s) = waitingQueue s"
  "sems (creturn c r s) = sems s" "alive (creturn c r s) = alive s" "dangling (creturn c r s) = dangling s" "frames (creturn c r s) = frames s"
  by (simp_all add: creturn_def)

lemma finish_wait_sel [simp]:
  "cpcs (finish_wait c k p s) = (cpcs s)(c := p)" "mtx (finish_wait c k p s) = mtx s" "waitingQueue (finish_wait c k p s) = waitingQueue s"
  "sems (finish_wait c k p s) = sems s" "frames (finish_wait c k p s) = frames s"
  by (cases k; simp add: finish_wait_def)+

lemma on_sem_sel:
  assumes "on_sem i e s = Some s'"
  shows "cpcs s' = cpcs s" "mtx s' = mtx s" "waitingQueue s' = waitingQueue s" "alive s' = alive s" "frames s' = frames s"
    "j \<noteq> i \<Longrightarrow> sems s' j = sems s j"
  using assms by (auto simp: on_sem_def split: option.splits)

lemma on_mtx_sel:
  assumes "on_mtx e s = Some s'"
  shows "mutex_step e (mtx s) = Some (mtx s')" "cpcs s' = cpcs s" "waitingQueue s' = waitingQueue s" "sems s' = sems s" "frames s' = frames s"
  using assms by (auto simp: on_mtx_def)

section \<open>The mutex during a wait\<close>

text \<open>Where a client may be inside \<^verbatim>\<open>Unlock\<close> and inside \<^verbatim>\<open>Lock\<close>.\<close>

fun releasing :: "mpc \<Rightarrow> bool" where
  "releasing MUnlock = True" | "releasing MPop = True" | "releasing (MExam x) = True" | "releasing (MHandCoro x) = True" | "releasing MFreed = True"
| "releasing MNotifyLock = True" | "releasing MNotify = True" | "releasing _ = False"

fun acquiring :: "mpc \<Rightarrow> bool" where
  "acquiring (MEnter k) = (k = KLock)" | "acquiring MGranted = True" | "acquiring (MParked r) = (\<not> r)" | "acquiring (MWoken r) = (\<not> r)"
| "acquiring MRegister = True" | "acquiring MLockMtx = True" | "acquiring MTest = True" | "acquiring MBlock = True" | "acquiring MBlocked = True"
| "acquiring MGot = True" | "acquiring MGotStored = True" | "acquiring MUnregister = True" | "acquiring _ = False"

text \<open>How the state in the wait and the state in the mutex go together; \<open>r\<close> says that \<^verbatim>\<open>Lock\<close> may refuse the client.\<close>

fun link :: "bool \<Rightarrow> cpc \<Rightarrow> mpc \<Rightarrow> bool" where
  "link r CHold p = (p = MHeld)" | "link r CUnheld p = r" | "link r CWCheck p = (p = MHeld)" | "link r (CWPush canc) p = (p = MHeld)"
| "link r (CUnlock st k) p = (if st then releasing p \<or> p = MIdle else p = MHeld)"
| "link r (CWSem st i canc) p = (p = MIdle)" | "link r (CWRemove i) p = (p = MIdle)"
| "link r (CLock st k) p = (if st then acquiring p \<or> p = MHeld \<or> p = MAborted \<or> r \<and> p = MIdle else p = MIdle)"
| "link r _ p = True"

definition may_refuse :: "mutex \<Rightarrow> client \<Rightarrow> bool" where
  "may_refuse m c \<longleftrightarrow> violationHook m \<and> (\<exists>b. c = Bar b \<and> bareTask (wld m) b \<noteq> None)"

definition cv_inv :: "bool \<Rightarrow> (nat \<Rightarrow> nat option) \<Rightarrow> condvar \<Rightarrow> bool" where
  "cv_inv hook bt s \<longleftrightarrow> mutex_inv (mtx s) \<and> violationHook (mtx s) = hook \<and> bareTask (wld (mtx s)) = bt
     \<and> (\<forall>c. link (may_refuse (mtx s) c) (cpcs s c) (pc (mtx s) c))"

lemma enter_const: "enter k c m = Some m' \<Longrightarrow> violationHook m' = violationHook m \<and> wld m' = wld m"
  by (cases k; cases c) (auto simp: mutex_ops goto_def split: if_splits)

lemma wake_const [simp]: "violationHook (wake x r m) = violationHook m" "violationHook (goto c p m) = violationHook m" "violationHook (store_holder c m) = violationHook m"
  by (simp_all add: wake_def goto_def store_holder_def)

lemma mutex_const:
  assumes "mutex_step e m = Some m'"
  shows "violationHook m' = violationHook m" "bareTask (wld m') = bareTask (wld m)"
proof -
  have st: "violationHook m' = violationHook m \<and> wld m' = wld m" if "client_step c p m = Some m'" for c p
  proof (cases "\<exists>k. p = MEnter k")
    case True
    then show ?thesis using that enter_const by auto
  next
    case False
    then show ?thesis using that
      by (cases p) (auto simp: resume_wait_def split: if_splits client.splits list.splits prod.splits elim!: Sched_Mutex.CancelWaiters.elims)
  qed
  have "violationHook m' = violationHook m \<and> bareTask (wld m') = bareTask (wld m)"
    using assms st by (cases e) (auto simp: notify_one_def Let_def split: if_splits)
  then show "violationHook m' = violationHook m" "bareTask (wld m') = bareTask (wld m)" by blast+
qed

lemma may_refuse_step: "mutex_step e m = Some m' \<Longrightarrow> may_refuse m' = may_refuse m"
  using mutex_const [of e m m'] by (simp add: may_refuse_def fun_eq_iff)

text \<open>A client that is woken by another goes from \<open>MParked\<close> to \<open>MWoken\<close> with the same flag.\<close>

lemma others_woken:
  assumes P: "mplaced loc s" and "mutex_step a s = Some s'" and "actor a \<noteq> Some h" and "pc s h = MParked r" and B: "bare_inv s"
  shows "pc s' h = MParked r \<or> pc s' h = MWoken r"
proof (cases a)
  case (EStep c)
  then have st: "client_step c (pc s c) s = Some s'" and hc: "h \<noteq> c" using assms(2,3) by auto
  have w: "w_result x = r" if "x \<in> set (carried (pc s c))" "client_of x = h" for x using mplacedD(7) [OF P that(1)] that(2) assms(4) by simp
  show ?thesis
  proof (cases "\<exists>k. pc s c = MEnter k")
    case True
    then obtain k where "enter k c s = Some s'" using st by auto
    from enter_frame [OF this] hc assms(4) show ?thesis by auto
  next
    case False
    show ?thesis using st hc w False assms(4)
      by (cases "pc s c"; auto simp: resume_wait_def split: if_splits client.splits list.splits prod.splits elim!: Sched_Mutex.CancelWaiters.elims)
  qed
next
  case (ENotify c k)
  then have "pc s c = MNotify" "s' = notify_one c k s" using assms(2) by (auto split: if_splits)
  then show ?thesis using ENotify assms(3,4) by (cases rule: notify_frame [OF B, of c k]) auto
qed (use assms(2-4) in \<open>auto split: if_splits\<close>)

lemma others_link:
  assumes M: "mutex_inv m" and st: "mutex_step a m = Some m'" and h: "actor a \<noteq> Some h" and l: "link r q (pc m h)"
  shows "link r q (pc m' h)"
proof -
  obtain loc where P: "mplaced loc m" and B: "bare_inv m" using M by (auto simp: mutex_inv_def)
  consider (same) "pc m' h = pc m h" | (woken) k where "pc m h = MParked k" "pc m' h = MWoken k" | (up) "pc m h = MBlocked" "pc m' h = MLockMtx"
    using others_frame [OF B P st h] others_woken [OF P st h _ B] by (auto simp: is_parked_def)
  then show ?thesis
  proof cases
    case same then show ?thesis using l by simp
  next
    case woken then show ?thesis using l by (cases q) (auto split: if_splits)
  next
    case up then show ?thesis using l by (cases q) (auto split: if_splits)
  qed
qed

text \<open>The client's own steps.\<close>

lemma release_step:
  assumes "releasing (pc m c)" and "mutex_step (EStep c) m = Some m'"
  shows "releasing (pc m' c) \<or> pc m' c = MIdle"
  using assms by (cases "pc m c") (auto split: if_splits list.splits)

lemma acquire_step:
  assumes "acquiring (pc m c)" and W: "well_called m" and "mutex_step (EStep c) m = Some m'"
  shows "acquiring (pc m' c) \<or> pc m' c = MHeld \<or> pc m' c = MAborted \<or> may_refuse m c \<and> pc m' c = MIdle"
proof (cases "pc m c")
  case (MEnter k)
  then have k: "k = KLock" "may_call c KLock" using assms(1) W by (auto simp: well_called_def)
  have m': "m' = Lock c m" using assms(3) MEnter k by simp
  show ?thesis
  proof (cases c)
    case (Fib f)
    then show ?thesis using m' by (auto simp: mutex_ops)
  next
    case (Cor t)
    then show ?thesis using k by simp
  next
    case (Bar b)
    then show ?thesis using m' by (auto simp: mutex_ops may_refuse_def)
  qed
qed (use assms in \<open>auto simp: resume_wait_def split: if_splits client.splits\<close>)

lemma cv_mutex_step:
  assumes I: "cv_inv hook bt s" and e: "mutex_step a (mtx s) = Some m" "actor a = Some c" and s': "mtx s' = m" "\<And>d. d \<noteq> c \<Longrightarrow> cpcs s' d = cpcs s d"
    and l: "link (may_refuse (mtx s) c) (cpcs s' c) (pc m c)"
  shows "cv_inv hook bt s'"
proof -
  have M: "mutex_inv (mtx s)" and L: "\<And>d. link (may_refuse (mtx s) d) (cpcs s d) (pc (mtx s) d)" using I by (auto simp: cv_inv_def)
  have "link (may_refuse m d) (cpcs s' d) (pc m d)" for d
    using others_link [OF M e(1), of d, OF _ L] e(2) l s'(2) [of d] may_refuse_step [OF e(1)] by (cases "d = c") auto
  moreover have "mutex_inv m" by (rule mutex_inv_step [OF M e(1)])
  ultimately show ?thesis using I mutex_const [OF e(1)] s'(1) by (simp add: cv_inv_def)
qed

lemma cv_control:
  assumes I: "cv_inv hook bt s" and s': "mtx s' = mtx s" "cpcs s' = (cpcs s)(c := q)" and l: "link (may_refuse (mtx s) c) q (pc (mtx s) c)"
  shows "cv_inv hook bt s'"
  using assms by (simp add: cv_inv_def)

lemma cv_on_sem: "cv_inv hook bt s \<Longrightarrow> on_sem i e s = Some s' \<Longrightarrow> cv_inv hook bt s'"
  by (simp add: cv_inv_def on_sem_sel)

lemma cv_on_sem_goto:
  assumes I: "cv_inv hook bt s" and "map_option (cgoto c q) (on_sem i e s) = Some s'" and "link (may_refuse (mtx s) c) q (pc (mtx s) c)"
  shows "cv_inv hook bt s'"
  using assms cv_on_sem [OF I, of i e] on_sem_sel(2) [of i e s] cv_control by auto

lemma cv_on_mtx:
  assumes I: "cv_inv hook bt s" and e: "on_mtx a s = Some s1" "actor a = Some c" and s': "s' = s1 \<or> s' = cgoto c q s1"
    and l: "link (may_refuse (mtx s) c) (cpcs s' c) (pc (mtx s1) c)"
  shows "cv_inv hook bt s'"
proof (rule cv_mutex_step [OF I on_mtx_sel(1) [OF e(1)] e(2) _ _ l])
  show "mtx s' = mtx s1" using s' by auto
  show "cpcs s' d = cpcs s d" if "d \<noteq> c" for d using s' that on_mtx_sel(2) [OF e(1)] by auto
qed

lemma Wait_cv_inv:
  assumes I: "cv_inv hook bt s" and w: "Wait c (cpcs s c) s = Some s'"
  shows "cv_inv hook bt s'"
proof -
  let ?r = "may_refuse (mtx s) c"
  have l: "link ?r (cpcs s c) (pc (mtx s) c)" and W: "well_called (mtx s)" using I by (auto simp: cv_inv_def mutex_inv_def)
  show ?thesis
  proof (cases "cpcs s c")
    case CWCheck
    then show ?thesis using w l by (intro cv_control [OF I, of s' c "cpcs s' c"]) (auto split: client.splits)
  next
    case (CWPush canc)
    then show ?thesis using w l by (intro cv_control [OF I, of s' c "cpcs s' c"]) (auto simp: Let_def)
  next
    case (CUnlock st k)
    show ?thesis
    proof (cases st)
      case False
      then obtain s1 where s1: "on_mtx (EUnlock c) s = Some s1" "s' = cgoto c (CUnlock True k) s1" using w CUnlock by auto
      have "mtx s1 = goto c MUnlock (mtx s)" using on_mtx_sel(1) [OF s1(1)] by (auto split: if_splits)
      then show ?thesis using cv_on_mtx [OF I s1(1), of c s'] s1(2) by auto
    next
      case True
      show ?thesis
      proof (cases "pc (mtx s) c = MIdle")
        case idle: True
        then show ?thesis using w CUnlock True by (intro cv_control [OF I, of s' c "cpcs s' c"]) (auto split: unlock_for.splits)
      next
        case False
        then have s1: "on_mtx (EStep c) s = Some s'" and r: "releasing (pc (mtx s) c)" using w l CUnlock True by auto
        have "link ?r (cpcs s' c) (pc (mtx s') c)"
          using release_step [OF r on_mtx_sel(1) [OF s1]] on_mtx_sel(2) [OF s1] CUnlock True by simp
        then show ?thesis using cv_on_mtx [OF I s1, of c s'] by simp
      qed
    qed
  next
    case (CLock st k)
    show ?thesis
    proof (cases st)
      case False
      then obtain s1 where s1: "on_mtx (ECall c KLock) s = Some s1" "s' = cgoto c (CLock True k) s1" using w CLock by auto
      have "mtx s1 = goto c (MEnter KLock) (mtx s)" using on_mtx_sel(1) [OF s1(1)] by (auto split: if_splits)
      then show ?thesis using cv_on_mtx [OF I s1(1), of c s'] s1(2) by auto
    next
      case True
      show ?thesis
      proof (cases "pc (mtx s) c = MHeld \<or> pc (mtx s) c = MIdle")
        case over: True
        then show ?thesis using w l CLock True by (intro cv_control [OF I, of s' c "cpcs s' c"]) auto
      next
        case False
        then have s1: "on_mtx (EStep c) s = Some s'" and a: "acquiring (pc (mtx s) c) \<or> pc (mtx s) c = MAborted" using w l CLock True by auto
        have na: "pc (mtx s) c \<noteq> MAborted" using on_mtx_sel(1) [OF s1] by auto
        then have "link ?r (cpcs s' c) (pc (mtx s') c)"
          using a acquire_step [OF _ W on_mtx_sel(1) [OF s1]] on_mtx_sel(2) [OF s1] CLock True by auto
        then show ?thesis using cv_on_mtx [OF I s1, of c s'] by simp
      qed
    qed
  next
    case (CWSem st i canc)
    show ?thesis
    proof (cases st)
      case False
      then show ?thesis using w l CWSem cv_on_sem_goto [OF I, of c "CWSem True i canc"] by auto
    next
      case True
      then show ?thesis using w l CWSem cv_on_sem [OF I, of i "VStep c" s'] cv_control [OF I, of s' c "cpcs s' c"] by (auto split: if_splits)
    qed
  next
    case (CWRemove i)
    then show ?thesis using w l by (intro cv_control [OF I, of s' c "cpcs s' c"]) auto
  qed (use w in auto)
qed

lemma Notify_cv_inv:
  assumes I: "cv_inv hook bt s" and w: "Notify c (cpcs s c) s = Some s'"
  shows "cv_inv hook bt s'"
proof (cases "cpcs s c")
  case (CSignal st js)
  then show ?thesis using w cv_on_sem [OF I] cv_on_sem_goto [OF I, of c "CSignal True js"] cv_control [OF I, of s' c "cpcs s' c"]
    by (cases js; cases st) (auto split: if_splits)
qed (use w cv_control [OF I, of s' c "cpcs s' c"] in \<open>auto split: list.splits\<close>)

lemma CancelWaiters_cv_inv:
  assumes I: "cv_inv hook bt s" and w: "CancelWaiters c (cpcs s c) s = Some s'"
  shows "cv_inv hook bt s'"
proof (cases "cpcs s c")
  case (CEject st js full tok)
  then show ?thesis using w cv_on_sem [OF I] cv_on_sem_goto [OF I, of c "CEject True js full tok"] cv_control [OF I, of s' c "cpcs s' c"]
    by (cases js; cases st) (auto split: if_splits)
next
  case (CSweep tok)
  then show ?thesis using w cv_control [OF I, of s' c "cpcs s' c"] by (auto split: prod.splits if_splits)
qed (use w in auto)

text \<open>The choices inside the mutex.\<close>

lemma pick_link:
  assumes M: "mutex_inv m" and st: "mutex_step e m = Some m'" and p: "is_pick e" and l: "link r q (pc m h)"
  shows "link r q (pc m' h)"
proof (cases "actor e = Some h")
  case True
  then obtain k where e: "e = ENotify h k \<or> e = ESpurious h" using p by (cases e) auto
  have B: "bare_inv m" using M by (auto simp: mutex_inv_def)
  have "(pc m h = MNotify \<and> pc m' h = MIdle) \<or> (pc m h = MBlocked \<and> pc m' h = MLockMtx)"
    using e
  proof
    assume "e = ENotify h k"
    then have "pc m h = MNotify" "m' = notify_one h k m" using st by (auto split: if_splits)
    then show ?thesis by (cases rule: notify_frame [OF B, of h k]) auto
  qed (use st B in \<open>auto simp: bare_inv_def split: if_splits\<close>)
  then show ?thesis using l by (cases q) (auto split: if_splits)
qed (use others_link [OF M st _ l] in auto)

lemma condvar_step_inv:
  assumes I: "cv_inv hook bt s" and st: "condvar_step e s = Some s'"
  shows "cv_inv hook bt s'"
proof -
  have M: "mutex_inv (mtx s)" using I by (simp add: cv_inv_def)
  have control: "cv_inv hook bt (cgoto c q s)" if "link (may_refuse (mtx s) c) q (pc (mtx s) c)" for c q
    using cv_control [OF I, of "cgoto c q s" c q] that by simp
  show ?thesis
  proof (cases e)
    case (YMutex a)
    then obtain c s1 where "actor a = Some c" "on_mtx a s = Some s1" "s' = cgoto c CIdle s1" using st by (auto split: option.splits if_splits)
    then show ?thesis using cv_on_mtx [OF I, of a s1 c s' CIdle] by simp
  next
    case (YPick a)
    then have a: "is_pick a" "on_mtx a s = Some s'" using st by (auto split: if_splits)
    note m = on_mtx_sel [OF a(2)]
    have "link (may_refuse (mtx s') d) (cpcs s' d) (pc (mtx s') d)" for d
      using pick_link [OF M m(1) a(1)] I may_refuse_step [OF m(1)] m(2) by (simp add: cv_inv_def)
    then show ?thesis using I mutex_const [OF m(1)] mutex_inv_step [OF M m(1)] by (simp add: cv_inv_def)
  next
    case (YWait c canc)
    then show ?thesis using st by (auto intro!: control split: if_splits client.splits)
  next
    case (YStep c)
    then have "Wait c (cpcs s c) s = Some s' \<or> Notify c (cpcs s c) s = Some s' \<or> CancelWaiters c (cpcs s c) s = Some s'"
      using st by (simp split: option.splits)
    then show ?thesis using Wait_cv_inv [OF I] Notify_cv_inv [OF I] CancelWaiters_cv_inv [OF I] by blast
  next
    case (YWorld ts T)
    then have e: "mutex_step (EWorld ts T) (mtx s) = Some (mtx s')" and same: "cpcs s' = cpcs s" "pc (mtx s') = pc (mtx s)" using st by auto
    show ?thesis using I mutex_inv_step [OF M e] mutex_const [OF e] may_refuse_step [OF e] same by (simp add: cv_inv_def)
  qed (use st in \<open>auto intro!: control split: if_splits\<close>)
qed

lemma cv_inv_init: "cv_inv hook (bareTask w) (condvar_init hook w)"
  using mutex_inv_init [of hook w] by (simp add: cv_inv_def condvar_init_def mutex_init_def)

interpretation cv: step_invariant condvar_step "condvar_init hook w" "cv_inv hook (bareTask w)" for hook w
  by unfold_locales (auto simp: cv_inv_init intro: condvar_step_inv)

section \<open>What the condition variable guarantees\<close>

text \<open>C31: However waits, notifications, cancellations and other uses of the mutex interleave, a client that is back from a wait owns the mutex, which is locked and has no other
  owner, and a client waiting on its semaphore does not own it. The one exception is a task that runs without a fiber, with the violation hook set: its \<^verbatim>\<open>Lock\<close> may be refused,
  and its wait returns without the mutex.\<close>

theorem condvar_wait_returns_locked:
  assumes "exec condvar_step as (condvar_init hook w) = Some s"
  shows "(cpcs s c = CHold \<longrightarrow> owner (mtx s) c \<and> locked (mtx s) \<and> (\<forall>d. owner (mtx s) d \<longrightarrow> d = c))
    \<and> (\<forall>st i canc. cpcs s c = CWSem st i canc \<longrightarrow> \<not> owner (mtx s) c)
    \<and> (cpcs s c = CUnheld \<longrightarrow> hook \<and> (\<exists>b. c = Bar b \<and> bareTask w b \<noteq> None))"
proof -
  have I: "cv_inv hook (bareTask w) s" by (rule cv.inv_exec [OF assms])
  then have l: "link (may_refuse (mtx s) c) (cpcs s c) (pc (mtx s) c)" by (simp add: cv_inv_def)
  obtain own where ex: "excl own (mtx s)" using I by (auto simp: cv_inv_def mutex_inv_def)
  have "owner (mtx s) c" if "cpcs s c = CHold" using l that by (simp add: owner_def)
  moreover have "\<not> owner (mtx s) c" if "cpcs s c = CWSem st i canc" for st i canc using l that by (simp add: owner_def)
  moreover have "hook \<and> (\<exists>b. c = Bar b \<and> bareTask w b \<noteq> None)" if "cpcs s c = CUnheld"
    using l that I by (auto simp: may_refuse_def cv_inv_def)
  moreover have "locked (mtx s) \<and> (\<forall>d. owner (mtx s) d \<longrightarrow> d = c)" if "owner (mtx s) c" using ex that by (auto simp: excl_def)
  ultimately show ?thesis by blast
qed

section \<open>A waiter that nobody can wake\<close>

text \<open>The semaphores a client still has to use.\<close>

fun mentions :: "cpc \<Rightarrow> nat set" where
  "mentions (CUnlock st (UWait i canc)) = {i}" | "mentions (CWSem st i canc) = {i}" | "mentions (CSignal st js) = set js"
| "mentions (CEject st js full tok) = set js" | "mentions _ = {}"

definition stranded :: "client \<Rightarrow> nat \<Rightarrow> condvar \<Rightarrow> bool" where
  "stranded f i s \<longleftrightarrow> cpcs s f = CWSem True i False \<and> spc (sems s i) f = SParked False \<and> i < frames s
     \<and> i \<notin> cw_sem ` set (waitingQueue s) \<and> (\<forall>d. d \<noteq> f \<longrightarrow> i \<notin> mentions (cpcs s d))"

lemma stranded_goto: "stranded f i s \<Longrightarrow> c \<noteq> f \<Longrightarrow> i \<notin> mentions q \<Longrightarrow> stranded f i (cgoto c q s)"
  by (simp add: stranded_def)

lemma stranded_queue: "stranded f i s \<Longrightarrow> i \<notin> cw_sem ` set q \<Longrightarrow> stranded f i (s\<lparr>waitingQueue := q\<rparr>)"
  by (simp add: stranded_def)

lemma stranded_creturn [simp]: "stranded f i (creturn c r s) = stranded f i s"
  by (simp add: stranded_def)

lemma stranded_finish: "stranded f i s \<Longrightarrow> c \<noteq> f \<Longrightarrow> i \<notin> mentions p \<Longrightarrow> stranded f i (finish_wait c k p s)"
  by (simp add: stranded_def)

lemma stranded_on_sem: "stranded f i s \<Longrightarrow> j \<noteq> i \<Longrightarrow> on_sem j e s = Some s' \<Longrightarrow> stranded f i s'"
  using on_sem_sel [of j e s s'] by (simp add: stranded_def)

lemma stranded_on_mtx: "stranded f i s \<Longrightarrow> on_mtx e s = Some s' \<Longrightarrow> stranded f i s'"
  using on_mtx_sel [of e s s'] by (simp add: stranded_def)

lemmas stranded_intros = stranded_goto stranded_queue stranded_finish

lemma stranded_Wait:
  assumes S: "stranded f i s" and c: "c \<noteq> f" and w: "Wait c (cpcs s c) s = Some s'"
  shows "stranded f i s'"
proof -
  have m: "i \<notin> mentions (cpcs s c)" "i < frames s" "i \<notin> cw_sem ` set (waitingQueue s)" using S c by (auto simp: stranded_def)
  show ?thesis
  proof (cases "cpcs s c")
    case (CWPush canc)
    show ?thesis
    proof (cases "canc \<and> ccancelled c s")
      case True then show ?thesis using w CWPush S c by (auto intro!: stranded_goto)
    next
      case False then show ?thesis using w CWPush S c m by (auto simp: Let_def stranded_def split: if_splits)
    qed
  next
    case (CUnlock st k)
    then show ?thesis using w m S c by (cases st; cases k) (auto intro!: stranded_goto intro: stranded_on_mtx split: if_splits)
  next
    case (CWSem st j canc)
    then show ?thesis using w m S c by (cases st) (auto intro!: stranded_goto intro: stranded_on_sem split: if_splits)
  next
    case (CLock st k)
    then show ?thesis using w m S c by (cases st) (auto intro!: stranded_goto stranded_finish intro: stranded_on_mtx split: if_splits)
  next
    case (CWRemove j)
    then show ?thesis using w m S c by (auto intro!: stranded_intros)
  qed (use w S c in \<open>auto intro!: stranded_goto split: client.splits\<close>)
qed

lemma stranded_Notify:
  assumes S: "stranded f i s" and c: "c \<noteq> f" and w: "Notify c (cpcs s c) s = Some s'"
  shows "stranded f i s'"
proof -
  have m: "i \<notin> mentions (cpcs s c)" "i \<notin> cw_sem ` set (waitingQueue s)" using S c by (auto simp: stranded_def)
  show ?thesis
  proof (cases "cpcs s c")
    case (CSignal st js)
    then show ?thesis using w m S c by (cases js; cases st) (auto intro!: stranded_goto intro: stranded_on_sem split: if_splits)
  next
    case CNotifyOne
    then show ?thesis using w m S c by (cases "waitingQueue s") (auto intro!: stranded_intros)
  next
    case CNotifyAll
    then show ?thesis using w m S c by (auto intro!: stranded_intros)
  qed (use w in auto)
qed

lemma stranded_CancelWaiters:
  assumes S: "stranded f i s" and c: "c \<noteq> f" and w: "CancelWaiters c (cpcs s c) s = Some s'"
  shows "stranded f i s'"
proof -
  have m: "i \<notin> mentions (cpcs s c)" "i \<notin> cw_sem ` set (waitingQueue s)" using S c by (auto simp: stranded_def)
  show ?thesis
  proof (cases "cpcs s c")
    case (CEject st js full tok)
    then show ?thesis using w m S c by (cases js; cases st) (auto intro!: stranded_goto intro: stranded_on_sem split: if_splits)
  next
    case (CSweep tok)
    obtain vs ks where e: "eject_pass (cmatches (cwld s) tok) kBuf (waitingQueue s) = (vs, ks)" by fastforce
    have "set (waitingQueue s) = set vs \<union> set ks" by (rule eject_pass_set [OF e])
    then show ?thesis using w m S c CSweep e by (auto intro!: stranded_intros split: if_splits)
  qed (use w in auto)
qed

lemma stranded_step:
  assumes S: "stranded f i s" and st: "condvar_step e s = Some s'"
  shows "stranded f i s'"
proof -
  have f: "\<not> outside f s" using S by (simp add: stranded_def outside_def)
  show ?thesis
  proof (cases e)
    case (YMutex a)
    then obtain c s1 where "outside c s" "on_mtx a s = Some s1" "s' = cgoto c CIdle s1" using st by (auto split: option.splits if_splits)
    then show ?thesis using stranded_on_mtx [OF S] f by (auto intro!: stranded_goto)
  next
    case (YPick a)
    then show ?thesis using st stranded_on_mtx [OF S] by (auto split: if_splits)
  next
    case (YWait c canc)
    then show ?thesis using st S f by (auto intro!: stranded_goto split: if_splits client.splits)
  next
    case (YStep c)
    then have w: "Wait c (cpcs s c) s = Some s' \<or> Notify c (cpcs s c) s = Some s' \<or> CancelWaiters c (cpcs s c) s = Some s'"
      using st by (simp split: option.splits)
    have "c \<noteq> f" using w S by (auto simp: stranded_def in_sem_def on_sem_def split: option.splits)
    then show ?thesis using w stranded_Wait [OF S] stranded_Notify [OF S] stranded_CancelWaiters [OF S] by blast
  next
    case (YWorld ts T)
    then show ?thesis using S st by (auto simp: stranded_def)
  qed (use st f in \<open>auto intro!: stranded_goto [OF S] split: if_splits\<close>)
qed

interpretation sw: step_invariant condvar_step s0 "\<lambda>s. stranded f i s0 \<longrightarrow> stranded f i s" for s0 f i
  by unfold_locales (auto intro: stranded_step)

definition cv_world :: world where
  "cv_world = \<lparr>task_at = (\<lambda>t. \<lparr>cancelledDirect = False, cancelToken = kNone\<rparr>), owningTask = Some, bareTask = Some, ctab = cancel_init\<rparr>"

text \<open>Fiber 1 takes the mutex and calls a wait.\<close>

definition cv_wait :: "bool \<Rightarrow> cevent list" where
  "cv_wait canc = YMutex (ECall (Fib 1) KLock) # replicate 2 (YMutex (EStep (Fib 1))) @ [YWait (Fib 1) canc]"

text \<open>A plain wait until it is parked, then \<^verbatim>\<open>CancelWaiters()\<close>.\<close>

definition drain_run :: "cevent list" where
  "drain_run = cv_wait False @ replicate 8 (YStep (Fib 1)) @ [YCancel (Bar 0) kNone] @ replicate 5 (YStep (Bar 0))"

lemmas cv_eval = cv_wait_def cv_world_def condvar_init_def mutex_init_def semaphore_init_def numeral_eq_Suc Let_def cgoto_def creturn_def finish_wait_def on_sem_def
  on_mtx_def in_sem_def outside_def mutex_ops goto_def wait_ops sgoto_def kBuf_def cmatches_def matches_def Valid_def fiber_waiter_def store_holder_def

lemma drained:
  "\<exists>s. exec condvar_step drain_run (condvar_init False cv_world) = Some s \<and> stranded (Fib 1) 0 s \<and> waitingQueue s = [] \<and> cpcs s (Bar 0) = CIdle"
  by (rule exec_ex) (simp add: drain_run_def cv_eval stranded_def)

text \<open>C32: \<^verbatim>\<open>CancelWaiters\<close> with the default token takes a plain waiter out of the queue although it cannot wake it: in this run fiber 1, alone with the caller, is parked when the
  call has finished, and then it stays parked in every continuation, whatever notifications, cancellations, waits and uses of the mutex it holds.\<close>

theorem condvar_cancel_strands_waiter:
  "\<exists>s. exec condvar_step drain_run (condvar_init False cv_world) = Some s \<and> cpcs s (Bar 0) = CIdle
     \<and> (\<forall>as. case exec condvar_step as s of None \<Rightarrow> True
         | Some s' \<Rightarrow> cpcs s' (Fib 1) = CWSem True 0 False \<and> spc (sems s' 0) (Fib 1) = SParked False)"
proof -
  obtain s where s: "exec condvar_step drain_run (condvar_init False cv_world) = Some s" "stranded (Fib 1) 0 s" "cpcs s (Bar 0) = CIdle" using drained by blast
  have "stranded (Fib 1) 0 s'" if "exec condvar_step as s = Some s'" for as s' using sw.inv_exec [OF that] s(2) by blast
  then have "\<forall>as. case exec condvar_step as s of None \<Rightarrow> True | Some s' \<Rightarrow> cpcs s' (Fib 1) = CWSem True 0 False \<and> spc (sems s' 0) (Fib 1) = SParked False"
    by (auto simp: stranded_def split: option.splits)
  with s show ?thesis by blast
qed

text \<open>A cancellable wait that is notified before it reaches its semaphore and cancelled at the same time.\<close>

definition dead_frame_run :: "cevent list" where
  "dead_frame_run = cv_wait True @ replicate 7 (YStep (Fib 1)) @ [YNotifyOne (Bar 0), YStep (Bar 0),
     YWorld (\<lambda>t. \<lparr>cancelledDirect = (t = 1), cancelToken = kNone\<rparr>) cancel_init] @ replicate 8 (YStep (Fib 1)) @ [YStep (Bar 0)]"

text \<open>\<^verbatim>\<open>Notify_One\<close> can use a semaphore whose frame is gone: it has taken the address out of the queue, and before it signals, the cancelled waiter
  notices the cancellation, finds nothing of its own in the queue and returns.\<close>

lemma condvar_notify_dead_frame:
  "\<exists>s. exec condvar_step dead_frame_run (condvar_init False cv_world) = Some s \<and> cpcs s (Fib 1) = CHold \<and> cresult s (Fib 1) = WCancelled \<and> \<not> alive s 0 \<and> dangling s"
  by (rule exec_ex) code_simp

text \<open>A task without a fiber that waits while fiber 1 takes the mutex.\<close>

definition refused_run :: "cevent list" where
  "refused_run = YMutex (ECall (Bar 0) KLock) # replicate 2 (YMutex (EStep (Bar 0))) @ [YWait (Bar 0) False] @ replicate 4 (YStep (Bar 0))
     @ [YMutex (ECall (Fib 1) KLock), YMutex (EStep (Fib 1)), YMutex (EStep (Fib 1))] @ replicate 4 (YStep (Bar 0))"

theorem condvar_wait_returns_locked_witness:
  "(\<exists>s. exec condvar_step dead_frame_run (condvar_init False cv_world) = Some s \<and> cresult s (Fib 1) = WCancelled \<and> owner (mtx s) (Fib 1) \<and> locked (mtx s))
   \<and> (\<exists>s. exec condvar_step refused_run (condvar_init True cv_world) = Some s \<and> cpcs s (Bar 0) = CUnheld)"
proof -
  obtain s where s: "exec condvar_step dead_frame_run (condvar_init False cv_world) = Some s" "cpcs s (Fib 1) = CHold" "cresult s (Fib 1) = WCancelled"
    using condvar_notify_dead_frame by blast
  have "\<exists>s. exec condvar_step refused_run (condvar_init True cv_world) = Some s \<and> cpcs s (Bar 0) = CUnheld" by (rule exec_ex) code_simp
  then show ?thesis using condvar_wait_returns_locked [OF s(1), of "Fib 1"] s by blast
qed

end
