(* ===== verification/Epoch_Manager.thy ===== *)
theory Epoch_Manager
  imports Sched_Prelude
begin

text \<open>
  Epoch based reclamation, \<^verbatim>\<open>Epochs.h\<close>: the global epoch, one announcement slot per thread, the bag of retired pointers each thread
  keeps, the store for the bags of threads that ended, and the guard. Every atomic access is one step. What the guard protects is represented by
  a set of objects that can still be reached and by the objects each reader has got hold of inside its guard.

  A store to an announcement slot goes through the store buffer of its thread, since \<^verbatim>\<open>SlotEpochGuard\<close> stores with release order and has no fence: later loads
  of the thread may come before the store is visible. All other accesses are sequentially consistent.
\<close>

section \<open>State\<close>

record retired =
  r_ptr :: nat
  r_epoch :: nat

text \<open>Inside an operation: entering a guard (the epoch was loaded), retiring an object that was unlinked (before and after its epoch was loaded), advancing (alone or
  for \<^verbatim>\<open>Tick\<close>), reclaiming (before the test, scanning the slots, sweeping the own bag and the orphans).\<close>

datatype epc =
    EIdle | EEnter nat | ERetire nat | ERetireAt nat nat | EAdvance nat bool
  | EReclaim | EScan nat nat | ESweep nat | ESweepOrphans nat

record epochs =
  globalEpoch :: nat
  participants :: nat
  slots :: "nat \<Rightarrow> nat option"          \<comment> \<open>\<open>None\<close> is \<^verbatim>\<open>SIZE_MAX\<close>\<close>
  bufs :: "nat \<Rightarrow> nat option list"
  bags :: "nat \<Rightarrow> retired list"
  bagDead :: "nat \<Rightarrow> bool"
  orphans :: "retired list"
  retiredCount :: u64
  guards :: "nat \<Rightarrow> nat"
  epcs :: "nat \<Rightarrow> epc"
  linked :: "nat \<Rightarrow> bool"
  held :: "nat \<Rightarrow> nat list"
  freed :: "nat list"

text \<open>After \<^verbatim>\<open>Init(maxThreads)\<close>.\<close>

definition epochs_init :: "nat \<Rightarrow> (nat \<Rightarrow> bool) \<Rightarrow> epochs" where
  "epochs_init maxThreads objs = \<lparr>globalEpoch = 0, participants = maxThreads, slots = (\<lambda>_. None), bufs = (\<lambda>_. []), bags = (\<lambda>_. []),
     bagDead = (\<lambda>_. False), orphans = [], retiredCount = 0, guards = (\<lambda>_. 0), epcs = (\<lambda>_. EIdle), linked = objs, held = (\<lambda>_. []), freed = []\<rparr>"

definition egoto :: "nat \<Rightarrow> epc \<Rightarrow> epochs \<Rightarrow> epochs" where
  "egoto t p s = s\<lparr>epcs := (epcs s)(t := p)\<rparr>"

definition CurrentEpoch :: "epochs \<Rightarrow> nat" where
  "CurrentEpoch s = globalEpoch s"

text \<open>A thread sees its own latest store, the others only what has left its buffer.\<close>

definition load_slot :: "nat \<Rightarrow> nat \<Rightarrow> epochs \<Rightarrow> nat option" where
  "load_slot t k s = (if k = t \<and> bufs s t \<noteq> [] then last (bufs s t) else slots s k)"

definition store_slot :: "nat \<Rightarrow> nat option \<Rightarrow> epochs \<Rightarrow> epochs" where
  "store_slot t v s = s\<lparr>bufs := (bufs s)(t := bufs s t @ [v])\<rparr>"

section \<open>Guards\<close>

definition guard_enter :: "nat \<Rightarrow> nat \<Rightarrow> epochs \<Rightarrow> epochs" where
  "guard_enter t e s = (store_slot t (Some e) s)\<lparr>guards := (guards s)(t := guards s t + 1)\<rparr>"

text \<open>The destructor stores \<^verbatim>\<open>SIZE_MAX\<close>, also when an outer guard is still there; the objects are dropped with the last guard.\<close>

definition guard_leave :: "nat \<Rightarrow> epochs \<Rightarrow> epochs" where
  "guard_leave t s = (store_slot t None s)\<lparr>guards := (guards s)(t := guards s t - 1),
     held := (if guards s t = 1 then (held s)(t := []) else held s)\<rparr>"

section \<open>Retiring and reclaiming\<close>

definition OrphanEpochEntries :: "retired list \<Rightarrow> epochs \<Rightarrow> epochs" where
  "OrphanEpochEntries v s = s\<lparr>orphans := orphans s @ v\<rparr>"

definition RetirePtr :: "nat \<Rightarrow> nat \<Rightarrow> nat \<Rightarrow> epochs \<Rightarrow> epochs" where
  "RetirePtr t p epoch s =
     (let entry = \<lparr>r_ptr = p, r_epoch = epoch\<rparr>;
          s' = (if bagDead s t then OrphanEpochEntries [entry] s else s\<lparr>bags := (bags s)(t := bags s t @ [entry])\<rparr>)
      in s'\<lparr>retiredCount := retiredCount s + 1\<rparr>)"

text \<open>Free the entries that are older than the safe epoch and keep the others, in order.\<close>

fun sweep :: "nat \<Rightarrow> retired list \<Rightarrow> nat list \<times> retired list" where
  "sweep safeEpoch [] = ([], [])"
| "sweep safeEpoch (x # xs) =
     (case sweep safeEpoch xs of (fs, ks) \<Rightarrow> if r_epoch x < safeEpoch then (r_ptr x # fs, ks) else (fs, x # ks))"

definition sweep_bag :: "nat \<Rightarrow> nat \<Rightarrow> epochs \<Rightarrow> epochs" where
  "sweep_bag t safeEpoch s =
     (case sweep safeEpoch (bags s t) of (fs, ks) \<Rightarrow>
        s\<lparr>bags := (bags s)(t := ks), freed := freed s @ fs, retiredCount := retiredCount s - of_nat (length fs)\<rparr>)"

definition SweepEpochOrphans :: "nat \<Rightarrow> epochs \<Rightarrow> epochs" where
  "SweepEpochOrphans safeEpoch s =
     (case sweep safeEpoch (orphans s) of (fs, ks) \<Rightarrow>
        s\<lparr>orphans := ks, freed := freed s @ fs, retiredCount := retiredCount s - of_nat (length fs)\<rparr>)"

text \<open>One slot of \<^verbatim>\<open>MinActiveEpoch\<close>.\<close>

definition scan_slot :: "nat \<Rightarrow> nat \<Rightarrow> nat \<Rightarrow> epochs \<Rightarrow> nat" where
  "scan_slot t k minEpoch s =
     (case load_slot t k s of None \<Rightarrow> minEpoch | Some e \<Rightarrow> if e < minEpoch then e else minEpoch)"

text \<open>\<^verbatim>\<open>EpochRetireBatch::~EpochRetireBatch\<close>, when a thread ends.\<close>

definition end_thread :: "nat \<Rightarrow> epochs \<Rightarrow> epochs" where
  "end_thread t s = (OrphanEpochEntries (bags s t) s)\<lparr>bagDead := (bagDead s)(t := True), bags := (bags s)(t := [])\<rparr>"

section \<open>The system\<close>

fun thread_step :: "nat \<Rightarrow> epc \<Rightarrow> epochs \<Rightarrow> epochs option" where
  "thread_step t (EEnter e) s = Some (egoto t EIdle (guard_enter t e s))"
| "thread_step t (ERetire p) s = Some (egoto t (ERetireAt p (CurrentEpoch s)) s)"
| "thread_step t (ERetireAt p e) s = Some (egoto t EIdle (RetirePtr t p e s))"
| "thread_step t (EAdvance e tick) s =
     Some (egoto t (if tick then EReclaim else EIdle) (if globalEpoch s = e then s\<lparr>globalEpoch := e + 1\<rparr> else s))"
| "thread_step t EReclaim s =
     Some (if bags s t = [] \<and> orphans s = [] then egoto t EIdle s else egoto t (EScan 0 (CurrentEpoch s)) s)"
| "thread_step t (EScan k m) s =
     Some (if k < participants s then egoto t (EScan (k + 1) (scan_slot t k m s)) s else egoto t (ESweep m) s)"
| "thread_step t (ESweep m) s = Some (egoto t (ESweepOrphans m) (sweep_bag t m s))"
| "thread_step t (ESweepOrphans m) s = Some (egoto t EIdle (if orphans s \<noteq> [] then SweepEpochOrphans m s else s))"
| "thread_step t EIdle s = None"

text \<open>
  What the threads may do: enter and leave guards, get hold of an object that is linked, unlink one (and retire it), advance,
  reclaim, \<^verbatim>\<open>Tick\<close>, end; and a store may leave a buffer.
\<close>

datatype eevent =
    GEnter nat | GLeave nat | GRead nat nat | GUnlink nat nat | GAdvance nat bool | GReclaim nat | GEnd nat | GStep nat | GFlush nat

fun epoch_step :: "eevent \<Rightarrow> epochs \<Rightarrow> epochs option" where
  "epoch_step (GEnter t) s = (if epcs s t = EIdle \<and> t < participants s then Some (egoto t (EEnter (CurrentEpoch s)) s) else None)"
| "epoch_step (GLeave t) s = (if epcs s t = EIdle \<and> 0 < guards s t then Some (guard_leave t s) else None)"
| "epoch_step (GRead t p) s =
     (if epcs s t = EIdle \<and> 0 < guards s t \<and> linked s p then Some (s\<lparr>held := (held s)(t := p # held s t)\<rparr>) else None)"
| "epoch_step (GUnlink t p) s =
     (if epcs s t = EIdle \<and> linked s p then Some (egoto t (ERetire p) (s\<lparr>linked := (linked s)(p := False)\<rparr>)) else None)"
| "epoch_step (GAdvance t tick) s = (if epcs s t = EIdle then Some (egoto t (EAdvance (CurrentEpoch s) tick) s) else None)"
| "epoch_step (GReclaim t) s = (if epcs s t = EIdle then Some (egoto t EReclaim s) else None)"
| "epoch_step (GEnd t) s = (if epcs s t = EIdle \<and> guards s t = 0 then Some (end_thread t s) else None)"
| "epoch_step (GStep t) s = thread_step t (epcs s t) s"
| "epoch_step (GFlush t) s =
     (case bufs s t of [] \<Rightarrow> None | v # vs \<Rightarrow> Some (s\<lparr>slots := (slots s)(t := v), bufs := (bufs s)(t := vs)\<rparr>))"

text \<open>The same with a full fence at the end of the guard's constructor, and guards that are not nested.\<close>

definition fenced_step :: "eevent \<Rightarrow> epochs \<Rightarrow> epochs option" where
  "fenced_step a s =
     (case a of
        GRead t p \<Rightarrow> if bufs s t = [] then epoch_step a s else None
      | GEnter t \<Rightarrow> if guards s t = 0 then epoch_step a s else None
      | _ \<Rightarrow> epoch_step a s)"

section \<open>Where an object is\<close>

datatype place = AtNowhere | AtLinked | AtThread nat | AtBag nat | AtOrphans | AtFreed

fun retiring :: "epc \<Rightarrow> nat option" where
  "retiring (ERetire p) = Some p" | "retiring (ERetireAt p e) = Some p" | "retiring _ = None"

text \<open>The two kinds of store for retired objects.\<close>

fun entries :: "epochs \<Rightarrow> place \<Rightarrow> retired list" where
  "entries s (AtBag t) = bags s t" | "entries s AtOrphans = orphans s" | "entries s _ = []"

fun is_store :: "place \<Rightarrow> bool" where
  "is_store (AtBag t) = True" | "is_store AtOrphans = True" | "is_store _ = False"

definition located :: "(nat \<Rightarrow> place) \<Rightarrow> epochs \<Rightarrow> bool" where
  "located loc s \<longleftrightarrow> (\<forall>p. linked s p \<longleftrightarrow> loc p = AtLinked) \<and> (\<forall>p t. retiring (epcs s t) = Some p \<longleftrightarrow> loc p = AtThread t)
   \<and> (\<forall>p. p \<in> set (freed s) \<longleftrightarrow> loc p = AtFreed) \<and> distinct (freed s)
   \<and> (\<forall>q. is_store q \<longrightarrow> distinct (map r_ptr (entries s q)) \<and> (\<forall>p. p \<in> r_ptr ` set (entries s q) \<longleftrightarrow> loc p = q))"

lemma locatedD:
  assumes "located loc s"
  shows "linked s p \<longleftrightarrow> loc p = AtLinked" "retiring (epcs s t) = Some p \<longleftrightarrow> loc p = AtThread t" "p \<in> set (freed s) \<longleftrightarrow> loc p = AtFreed"
    "distinct (freed s)" "is_store q \<Longrightarrow> distinct (map r_ptr (entries s q))" "is_store q \<Longrightarrow> p \<in> r_ptr ` set (entries s q) \<longleftrightarrow> loc p = q"
  using assms unfolding located_def by blast+

lemma locatedI:
  assumes "\<And>p. linked s p \<longleftrightarrow> loc p = AtLinked" "\<And>p t. retiring (epcs s t) = Some p \<longleftrightarrow> loc p = AtThread t" "\<And>p. p \<in> set (freed s) \<longleftrightarrow> loc p = AtFreed"
    "distinct (freed s)" "\<And>q. is_store q \<Longrightarrow> distinct (map r_ptr (entries s q))" "\<And>q p. is_store q \<Longrightarrow> p \<in> r_ptr ` set (entries s q) \<longleftrightarrow> loc p = q"
  shows "located loc s"
  using assms unfolding located_def by blast

lemma egoto_sel [simp]:
  "epcs (egoto t p s) = (epcs s)(t := p)" "globalEpoch (egoto t p s) = globalEpoch s" "participants (egoto t p s) = participants s"
  "slots (egoto t p s) = slots s" "bufs (egoto t p s) = bufs s" "bags (egoto t p s) = bags s" "bagDead (egoto t p s) = bagDead s"
  "orphans (egoto t p s) = orphans s" "guards (egoto t p s) = guards s" "linked (egoto t p s) = linked s" "held (egoto t p s) = held s"
  "freed (egoto t p s) = freed s"
  by (simp_all add: egoto_def)

lemma RetirePtr_sel [simp]:
  "globalEpoch (RetirePtr t p e s) = globalEpoch s" "participants (RetirePtr t p e s) = participants s" "slots (RetirePtr t p e s) = slots s"
  "bufs (RetirePtr t p e s) = bufs s" "guards (RetirePtr t p e s) = guards s" "epcs (RetirePtr t p e s) = epcs s"
  "linked (RetirePtr t p e s) = linked s" "held (RetirePtr t p e s) = held s" "freed (RetirePtr t p e s) = freed s"
  by (simp_all add: RetirePtr_def OrphanEpochEntries_def Let_def)

lemma sweep_limbo_spec:
  assumes "sweep m xs = (fs, ks)"
  shows "fs = map r_ptr (filter (\<lambda>x. r_epoch x < m) xs)" and "ks = filter (\<lambda>x. \<not> r_epoch x < m) xs"
  using assms by (induction xs arbitrary: fs ks) (auto split: prod.splits if_splits)

lemma sweep_eq: "sweep m xs = (map r_ptr (filter (\<lambda>x. r_epoch x < m) xs), filter (\<lambda>x. \<not> r_epoch x < m) xs)"
  by (metis sweep_limbo_spec prod.exhaust)

lemma distinct_ptrs: "distinct (map r_ptr xs) \<Longrightarrow> x \<in> set xs \<Longrightarrow> y \<in> set xs \<Longrightarrow> r_ptr x = r_ptr y \<Longrightarrow> x = y"
  by (metis distinct_map inj_onD)

lemma located_cong:
  assumes L: "located loc s" and "linked s' = linked s" "\<And>t. retiring (epcs s' t) = retiring (epcs s t)" "\<And>q. entries s' q = entries s q" "freed s' = freed s"
  shows "located loc s'"
  using L unfolding located_def assms(2-) .

text \<open>Freeing some entries of a store.\<close>

lemma located_sweep:
  assumes L: "located loc s" and "linked s' = linked s" "\<And>t. retiring (epcs s' t) = retiring (epcs s t)"
    and q: "is_store q" "sweep m (entries s q) = (fs, ks)" "entries s' q = ks" "\<And>q'. q' \<noteq> q \<Longrightarrow> entries s' q' = entries s q'" "freed s' = freed s @ fs"
  shows "\<exists>loc. located loc s'"
proof -
  note D = locatedD [OF L] and sw = sweep_limbo_spec [OF q(2)]
  let ?l = "\<lambda>p. if p \<in> set fs then AtFreed else loc p"
  have d: "distinct (map r_ptr (entries s q))" by (rule D(5) [OF q(1)])
  have at1: "p \<in> r_ptr ` set (entries s q) \<longleftrightarrow> loc p = q" for p by (rule D(6) [OF q(1)])
  have fb: "loc p = q" if "p \<in> set fs" for p
  proof -
    have "p \<in> r_ptr ` set (entries s q)" using that sw(1) by auto
    then show ?thesis using at1 by blast
  qed
  have ksp: "p \<in> r_ptr ` set ks \<longleftrightarrow> loc p = q \<and> p \<notin> set fs" for p
  proof
    assume "p \<in> r_ptr ` set ks"
    then obtain x where x: "x \<in> set (entries s q)" "\<not> r_epoch x < m" "p = r_ptr x" using sw(2) by auto
    moreover have "p \<notin> set fs"
    proof
      assume "p \<in> set fs"
      then obtain y where "y \<in> set (entries s q)" "r_epoch y < m" "p = r_ptr y" using sw(1) by auto
      then show False using x distinct_ptrs [OF d, of x y] by auto
    qed
    ultimately show "loc p = q \<and> p \<notin> set fs" using at1 [of p] by blast
  next
    assume a: "loc p = q \<and> p \<notin> set fs"
    then obtain x where "x \<in> set (entries s q)" "p = r_ptr x" using at1 [of p] by blast
    then show "p \<in> r_ptr ` set ks" using a sw by auto
  qed
  have df: "distinct fs" "distinct (map r_ptr ks)" unfolding sw using d by (simp_all add: distinct_map_filter)
  have qn: "q \<noteq> AtLinked" "q \<noteq> AtThread u" "q \<noteq> AtFreed" for u using q(1) by auto
  have "located ?l s'"
  proof (rule locatedI)
    fix p u
    show "linked s' p \<longleftrightarrow> ?l p = AtLinked" using D(1) [of p] fb [of p] qn assms(2) by auto
    show "retiring (epcs s' u) = Some p \<longleftrightarrow> ?l p = AtThread u" using D(2) [of u p] fb [of p] qn(2) [of u] assms(3) by auto
    show "p \<in> set (freed s') \<longleftrightarrow> ?l p = AtFreed" using D(3) [of p] q(5) by auto
    have "set (freed s) \<inter> set fs = {}" using D(3) fb qn(3) by blast
    then show "distinct (freed s')" using D(4) df(1) q(5) by simp
  next
    fix q' p assume q': "is_store q'"
    show "distinct (map r_ptr (entries s' q'))" using D(5) [OF q'] df(2) q(3,4) by (cases "q' = q") auto
    show "p \<in> r_ptr ` set (entries s' q') \<longleftrightarrow> ?l p = q'"
    proof (cases "q' = q")
      case True then show ?thesis using ksp [of p] q(3) qn(3) by auto
    next
      case False
      then show ?thesis using D(6) [OF q', of p] fb [of p] q(4) [of q'] q' by auto
    qed
  qed
  then show ?thesis by blast
qed

text \<open>An object moves from one place to another.\<close>

lemma located_move:
  assumes L: "located loc s" and "freed s' = freed s" and "\<And>r. linked s' r \<longleftrightarrow> (if r = p then to = AtLinked else linked s r)"
    and "\<And>r t. retiring (epcs s' t) = Some r \<longleftrightarrow> (if r = p then to = AtThread t else retiring (epcs s t) = Some r)"
    and "to \<noteq> AtFreed" "loc p \<noteq> AtFreed" "\<not> is_store (loc p)"
    and "\<And>q. is_store q \<Longrightarrow> entries s' q = entries s q @ (if q = to then [\<lparr>r_ptr = p, r_epoch = e\<rparr>] else [])"
  shows "located (loc(p := to)) s'"
proof (rule locatedI)
  note D = locatedD [OF L]
  fix r t
  show "linked s' r \<longleftrightarrow> (loc(p := to)) r = AtLinked" using D(1) [of r] assms(3) [of r] by auto
  show "retiring (epcs s' t) = Some r \<longleftrightarrow> (loc(p := to)) r = AtThread t" using D(2) [of t r] assms(4) [of t r] by auto
  show "r \<in> set (freed s') \<longleftrightarrow> (loc(p := to)) r = AtFreed" using D(3) [of r] assms(2,5,6) by auto
  show "distinct (freed s')" using D(4) assms(2) by simp
next
  note D = locatedD [OF L]
  fix q r assume q: "is_store q"
  have "loc p \<noteq> q" using assms(7) q by auto
  then have n: "p \<notin> r_ptr ` set (entries s q)" using D(6) [OF q, of p] by blast
  show "distinct (map r_ptr (entries s' q))" using D(5) [OF q] n assms(8) [OF q] by auto
  show "r \<in> r_ptr ` set (entries s' q) \<longleftrightarrow> (loc(p := to)) r = q" using D(6) [OF q, of r] n assms(8) [OF q] by auto
qed

lemma located_end:
  assumes L: "located loc s"
  shows "located (\<lambda>p. if loc p = AtBag t then AtOrphans else loc p) (end_thread t s)"
proof (rule locatedI)
  note D = locatedD [OF L]
  let ?s = "end_thread t s" and ?l = "\<lambda>p. if loc p = AtBag t then AtOrphans else loc p"
  have e: "entries ?s q = (if q = AtBag t then [] else if q = AtOrphans then orphans s @ bags s t else entries s q)" for q
    by (cases q) (auto simp: end_thread_def OrphanEpochEntries_def)
  have b: "r \<in> r_ptr ` set (bags s t) \<longleftrightarrow> loc r = AtBag t" and o: "r \<in> r_ptr ` set (orphans s) \<longleftrightarrow> loc r = AtOrphans" for r
    using D(6) [of "AtBag t" r] D(6) [of AtOrphans r] by simp_all
  fix p u
  show "linked ?s p \<longleftrightarrow> ?l p = AtLinked" using D(1) [of p] by (auto simp: end_thread_def OrphanEpochEntries_def)
  show "retiring (epcs ?s u) = Some p \<longleftrightarrow> ?l p = AtThread u" using D(2) [of u p] by (auto simp: end_thread_def OrphanEpochEntries_def)
  show "p \<in> set (freed ?s) \<longleftrightarrow> ?l p = AtFreed" using D(3) [of p] by (auto simp: end_thread_def OrphanEpochEntries_def)
  show "distinct (freed ?s)" using D(4) by (simp add: end_thread_def OrphanEpochEntries_def)
  fix q assume q: "is_store q"
  have "r_ptr ` set (orphans s) \<inter> r_ptr ` set (bags s t) = {}"
  proof (rule ccontr)
    assume "r_ptr ` set (orphans s) \<inter> r_ptr ` set (bags s t) \<noteq> {}"
    then obtain r where "r \<in> r_ptr ` set (orphans s)" "r \<in> r_ptr ` set (bags s t)" by blast
    then show False using b [of r] o [of r] by simp
  qed
  then have "distinct (map r_ptr (orphans s @ bags s t))" using D(5) [of AtOrphans] D(5) [of "AtBag t"] by simp
  then show "distinct (map r_ptr (entries ?s q))" using D(5) [OF q] by (simp add: e)
  show "p \<in> r_ptr ` set (entries ?s q) \<longleftrightarrow> ?l p = q"
  proof (cases "q = AtOrphans")
    case True
    have "p \<in> r_ptr ` set (entries ?s q) \<longleftrightarrow> p \<in> r_ptr ` set (orphans s) \<or> p \<in> r_ptr ` set (bags s t)"
      unfolding e [of q] using True by (auto simp: image_iff)
    then show ?thesis using b [of p] o [of p] True by auto
  next
    case False
    show ?thesis
    proof (cases "q = AtBag t")
      case True then show ?thesis using e [of q] by auto
    next
      case F2: False
      then show ?thesis using D(6) [OF q, of p] False by (auto simp: e)
    qed
  qed
qed

lemma entries_goto [simp]: "entries (egoto t p s) q = entries s q"
  by (cases q) simp_all

lemma located_quiet:
  assumes L: "located loc s" and "linked s' = linked s" "epcs s' = (epcs s)(t := p)" "retiring p = retiring (epcs s t)"
    "bags s' = bags s" "orphans s' = orphans s" "freed s' = freed s"
  shows "\<exists>loc. located loc s'"
proof (rule exI, rule located_cong [OF L])
  show "entries s' q = entries s q" for q using assms by (cases q) simp_all
  show "retiring (epcs s' u) = retiring (epcs s u)" for u using assms by simp
qed (use assms in simp_all)

lemma located_step:
  assumes L: "located loc s" and "epoch_step a s = Some s'"
  shows "\<exists>loc. located loc s'"
proof (cases a)
  case (GStep t)
  then have st: "thread_step t (epcs s t) s = Some s'" using assms(2) by simp
  note D = locatedD [OF L]
  show ?thesis
  proof (cases "epcs s t")
    case (ERetireAt p e)
    let ?to = "if bagDead s t then AtOrphans else AtBag t"
    have s': "s' = egoto t EIdle (RetirePtr t p e s)" using st ERetireAt by simp
    have lp: "loc p = AtThread t" using D(2) [of t p] ERetireAt by simp
    have "located (loc(p := ?to)) s'"
    proof (rule located_move [OF L])
      show "freed s' = freed s" "?to \<noteq> AtFreed" "loc p \<noteq> AtFreed" "\<not> is_store (loc p)"
        using lp by (simp_all add: s' RetirePtr_def OrphanEpochEntries_def Let_def)
      show "linked s' r \<longleftrightarrow> (if r = p then ?to = AtLinked else linked s r)" for r
        using D(1) [of p] lp by (auto simp: s' RetirePtr_def OrphanEpochEntries_def Let_def)
      show "retiring (epcs s' u) = Some r \<longleftrightarrow> (if r = p then ?to = AtThread u else retiring (epcs s u) = Some r)" for r u
        using D(2) [of u p] lp ERetireAt by (auto simp: s' RetirePtr_def OrphanEpochEntries_def Let_def)
      show "is_store q \<Longrightarrow> entries s' q = entries s q @ (if q = ?to then [\<lparr>r_ptr = p, r_epoch = e\<rparr>] else [])" for q
        by (cases q) (auto simp: s' RetirePtr_def OrphanEpochEntries_def Let_def)
    qed
    then show ?thesis by blast
  next
    case (ESweep m)
    obtain fs ks where sw: "sweep m (bags s t) = (fs, ks)" by fastforce
    have s': "s' = egoto t (ESweepOrphans m) (sweep_bag t m s)" using st ESweep by simp
    show ?thesis
    proof (rule located_sweep [OF L, of _ "AtBag t" m fs ks])
      show "q' \<noteq> AtBag t \<Longrightarrow> entries s' q' = entries s q'" for q' by (cases q') (auto simp: s' sweep_bag_def sw)
    qed (use sw ESweep in \<open>auto simp: s' sweep_bag_def\<close>)
  next
    case (ESweepOrphans m)
    obtain fs ks where sw: "sweep m (orphans s) = (fs, ks)" by fastforce
    show ?thesis
    proof (cases "orphans s = []")
      case True
      then show ?thesis using st ESweepOrphans located_quiet [OF L, of s' t EIdle] by auto
    next
      case False
      then have s': "s' = egoto t EIdle (SweepEpochOrphans m s)" using st ESweepOrphans by simp
      show ?thesis
      proof (rule located_sweep [OF L, of _ AtOrphans m fs ks])
        show "q' \<noteq> AtOrphans \<Longrightarrow> entries s' q' = entries s q'" for q' by (cases q') (auto simp: s' SweepEpochOrphans_def sw)
      qed (use sw ESweepOrphans in \<open>auto simp: s' SweepEpochOrphans_def\<close>)
    qed
  qed (use st located_quiet [OF L, of s' t "epcs s' t"] in \<open>auto simp: guard_enter_def store_slot_def split: if_splits\<close>)
next
  case (GUnlink t p)
  then have u: "epcs s t = EIdle" "linked s p" "s' = egoto t (ERetire p) (s\<lparr>linked := (linked s)(p := False)\<rparr>)" using assms(2) by (auto split: if_splits)
  note D = locatedD [OF L]
  have lp: "loc p = AtLinked" using D(1) u(2) by blast
  have "located (loc(p := AtThread t)) s'"
  proof (rule located_move [OF L])
    show "retiring (epcs s' v) = Some r \<longleftrightarrow> (if r = p then AtThread t = AtThread v else retiring (epcs s v) = Some r)" for r v
      using D(2) [of v p] lp u(1) by (auto simp: u(3))
    show "is_store q \<Longrightarrow> entries s' q = entries s q @ (if q = AtThread t then [\<lparr>r_ptr = p, r_epoch = e\<rparr>] else [])" for q e
      by (cases q) (auto simp: u(3))
  qed (use lp in \<open>auto simp: u(3)\<close>)
  then show ?thesis by blast
next
  case (GEnd t)
  then show ?thesis using assms(2) located_end [OF L, of t] by (auto split: if_splits)
next
  case (GFlush t)
  then have "entries s' q = entries s q" for q using assms(2) by (cases q) (auto split: list.splits)
  then show ?thesis using assms(2) GFlush by (intro exI [of _ loc] located_cong [OF L]) (auto split: list.splits)
next
  case (GLeave t)
  then have "entries s' q = entries s q" for q using assms(2) by (cases q) (auto simp: guard_leave_def store_slot_def split: if_splits)
  then show ?thesis using assms(2) GLeave by (intro exI [of _ loc] located_cong [OF L]) (auto simp: guard_leave_def store_slot_def split: if_splits)
next
  case (GRead t p)
  then have "entries s' q = entries s q" for q using assms(2) by (cases q) (auto split: if_splits)
  then show ?thesis using assms(2) GRead by (intro exI [of _ loc] located_cong [OF L]) (auto split: if_splits)
qed (use assms(2) located_quiet [OF L, of s'] in \<open>fastforce split: if_splits\<close>)+

end
