(* ===== verification/Epoch_Safety.thy ===== *)
theory Epoch_Safety
  imports Epoch_Manager
begin

text \<open>
  What epoch based reclamation guarantees: no object is freed while a reader holds it, provided announcements are visible in time and guards are not nested, and retired memory
  comes back; and the two executions in which the code does not meet these conditions.
\<close>

section \<open>Announcements protect what readers hold\<close>

definition pend :: "epochs \<Rightarrow> nat \<Rightarrow> nat \<Rightarrow> bool" where
  "pend s p e \<longleftrightarrow> (\<exists>t. epcs s t = ERetireAt p e) \<or> (\<exists>q. is_store q \<and> \<lparr>r_ptr = p, r_epoch = e\<rparr> \<in> set (entries s q))"

fun scanning :: "nat \<Rightarrow> epc \<Rightarrow> (nat \<times> nat) option" where
  "scanning n (EScan k m) = Some (k, m)" | "scanning n (ESweep m) = Some (n, m)" | "scanning n (ESweepOrphans m) = Some (n, m)" | "scanning n _ = None"

text \<open>The minimum a scan has found so far bounds the epoch of every retired object that a reader already looked at still holds.\<close>

definition scan_ok :: "epochs \<Rightarrow> epc \<Rightarrow> bool" where
  "scan_ok s pc \<longleftrightarrow> (\<forall>k m. scanning (participants s) pc = Some (k, m) \<longrightarrow>
     m \<le> globalEpoch s \<and> (\<forall>r < k. \<forall>p \<in> set (held s r). \<forall>e. pend s p e \<longrightarrow> m \<le> e))"

definition enter_ok :: "epochs \<Rightarrow> nat \<Rightarrow> epc \<Rightarrow> bool" where
  "enter_ok s t pc \<longleftrightarrow> (\<forall>a. pc = EEnter a \<longrightarrow> a \<le> globalEpoch s \<and> guards s t = 0 \<and> t < participants s)"

definition reader_ok :: "epochs \<Rightarrow> nat \<Rightarrow> bool" where
  "reader_ok s r \<longleftrightarrow> (\<forall>p \<in> set (held s r). guards s r = 1 \<and> bufs s r = [] \<and> p \<notin> set (freed s)
     \<and> (\<exists>a. slots s r = Some a \<and> (\<forall>e. pend s p e \<longrightarrow> a \<le> e)))"

definition slot_ok :: "epochs \<Rightarrow> nat \<Rightarrow> bool" where
  "slot_ok s t \<longleftrightarrow> guards s t \<le> 1 \<and> (guards s t = 1 \<longrightarrow> t < participants s \<and> load_slot t t s \<noteq> None)
     \<and> (\<forall>a. slots s t = Some a \<or> Some a \<in> set (bufs s t) \<longrightarrow> a \<le> globalEpoch s)"

definition guarded :: "epochs \<Rightarrow> bool" where
  "guarded s \<longleftrightarrow> (\<forall>t. scan_ok s (epcs s t) \<and> enter_ok s t (epcs s t) \<and> reader_ok s t \<and> slot_ok s t)"

lemma guardedD:
  assumes "guarded s" shows "scan_ok s (epcs s t)" "enter_ok s t (epcs s t)" "reader_ok s t" "slot_ok s t"
  using assms by (auto simp: guarded_def)

text \<open>A step of \<open>t\<close> that leaves the announcements and the readers alone.\<close>

lemma guarded_frame:
  assumes I: "guarded s" and fr: "slots s' = slots s" "bufs s' = bufs s" "guards s' = guards s" "held s' = held s" "participants s' = participants s"
    and G: "globalEpoch s \<le> globalEpoch s'" and pc: "epcs s' = (epcs s)(t := pc)"
    and P: "\<And>p e. pend s' p e \<Longrightarrow> pend s p e \<or> globalEpoch s \<le> e"
    and F: "\<And>p r. p \<in> set (freed s') \<Longrightarrow> p \<in> set (freed s) \<or> p \<notin> set (held s r)"
    and new: "scan_ok s pc" "enter_ok s t pc"
  shows "guarded s'"
  unfolding guarded_def
proof (intro allI conjI)
  fix u
  have "scan_ok s (epcs s' u)" using guardedD(1) [OF I, of u] new(1) pc by auto
  then show "scan_ok s' (epcs s' u)" using G P unfolding scan_ok_def fr by (meson le_trans)
  have "enter_ok s u (epcs s' u)" using guardedD(2) [OF I, of u] new(2) pc by auto
  then show "enter_ok s' u (epcs s' u)" using G unfolding enter_ok_def fr by (meson le_trans)
  have sl: "slot_ok s u" by (rule guardedD(4) [OF I])
  then show "slot_ok s' u" using G unfolding slot_ok_def load_slot_def fr by (meson le_trans)
  show "reader_ok s' u"
    unfolding reader_ok_def fr
  proof
    fix p assume p: "p \<in> set (held s u)"
    then obtain a where a: "guards s u = 1" "bufs s u = []" "p \<notin> set (freed s)" "slots s u = Some a" "\<forall>e. pend s p e \<longrightarrow> a \<le> e"
      using guardedD(3) [OF I, of u] by (auto simp: reader_ok_def)
    have "a \<le> globalEpoch s" using sl a(4) by (simp add: slot_ok_def)
    then have "\<forall>e. pend s' p e \<longrightarrow> a \<le> e" using P a(5) by (meson le_trans)
    then show "guards s u = 1 \<and> bufs s u = [] \<and> p \<notin> set (freed s') \<and> (\<exists>a. slots s u = Some a \<and> (\<forall>e. pend s' p e \<longrightarrow> a \<le> e))"
      using a p F [of p u] by blast
  qed
qed

lemma pend_cong: "(\<And>q. entries s' q = entries s q) \<Longrightarrow> epcs s' = epcs s \<Longrightarrow> pend s' p e = pend s p e"
  by (simp add: pend_def)

lemma pend_goto:
  assumes "\<And>q. entries s' q = entries s q" "epcs s' = (epcs s)(t := pc)" "\<And>p e. pc = ERetireAt p e \<Longrightarrow> globalEpoch s \<le> e"
  shows "pend s' p e \<Longrightarrow> pend s p e \<or> globalEpoch s \<le> e"
  using assms by (auto simp: pend_def split: if_splits)

lemma no_scan [simp]:
  "scan_ok s EIdle" "scan_ok s (ERetire p)" "scan_ok s (ERetireAt p e)" "scan_ok s (EAdvance e tk)" "scan_ok s EReclaim" "scan_ok s (EEnter e)"
  by (simp_all add: scan_ok_def)

lemma no_enter [simp]:
  "enter_ok s t EIdle" "enter_ok s t (ERetire p)" "enter_ok s t (ERetireAt p e)" "enter_ok s t (EAdvance e tk)" "enter_ok s t EReclaim"
  "enter_ok s t (EScan k m)" "enter_ok s t (ESweep m)" "enter_ok s t (ESweepOrphans m)"
  by (simp_all add: enter_ok_def)

text \<open>Looking at one more slot.\<close>

lemma scan_next:
  assumes I: "guarded s" and "epcs s t = EScan k m" "k < participants s"
  shows "scan_ok s (EScan (k + 1) (scan_slot t k m s))"
proof -
  have S: "m \<le> globalEpoch s" "\<And>r p e. r < k \<Longrightarrow> p \<in> set (held s r) \<Longrightarrow> pend s p e \<Longrightarrow> m \<le> e"
    using guardedD(1) [OF I, of t] assms(2) by (auto simp: scan_ok_def)
  have le: "scan_slot t k m s \<le> m" by (auto simp: scan_slot_def split: option.splits)
  have "scan_slot t k m s \<le> e" if h: "p \<in> set (held s k)" "pend s p e" for p e
  proof -
    obtain a where a: "bufs s k = []" "slots s k = Some a" "a \<le> e" using guardedD(3) [OF I, of k] h by (auto simp: reader_ok_def)
    then have "scan_slot t k m s \<le> a" by (auto simp: scan_slot_def load_slot_def)
    then show ?thesis using a(3) by simp
  qed
  then show ?thesis using S le by (auto simp: scan_ok_def less_Suc_eq) (meson le_trans)+
qed

text \<open>An entry that the sweep frees is held by nobody.\<close>

lemma sweep_safe:
  assumes I: "guarded s" and pc: "scanning (participants s) (epcs s t) = Some (participants s, m)" and "is_store q" "x \<in> set (entries s q)" "r_epoch x < m"
  shows "r_ptr x \<notin> set (held s r)"
proof
  assume h: "r_ptr x \<in> set (held s r)"
  have "\<lparr>r_ptr = r_ptr x, r_epoch = r_epoch x\<rparr> = x" by simp
  then have "pend s (r_ptr x) (r_epoch x)" using assms(3,4) unfolding pend_def by metis
  moreover have "r < participants s" using guardedD(3,4) [OF I, of r] h by (auto simp: reader_ok_def slot_ok_def)
  ultimately have "m \<le> r_epoch x" using guardedD(1) [OF I, of t] pc h unfolding scan_ok_def by blast
  then show False using assms(5) by simp
qed

lemma pend_sub:
  assumes "\<And>q. is_store q \<Longrightarrow> set (entries s' q) \<subseteq> set (entries s q)" "epcs s' = (epcs s)(t := pc)" "\<And>p e. pc \<noteq> ERetireAt p e"
  shows "pend s' p e \<Longrightarrow> pend s p e \<or> globalEpoch s \<le> e"
  using assms by (auto simp: pend_def split: if_splits)

lemma guarded_goto:
  assumes I: "guarded s" and "\<And>p e. pc = ERetireAt p e \<Longrightarrow> globalEpoch s \<le> e" "scan_ok s pc" "enter_ok s t pc"
  shows "guarded (egoto t pc s)"
proof (rule guarded_frame [OF I, where t = t and pc = pc])
  show "pend (egoto t pc s) p e \<Longrightarrow> pend s p e \<or> globalEpoch s \<le> e" for p e using pend_goto [of "egoto t pc s" s t pc p e] assms(2) by simp
qed (use assms in auto)

lemma guarded_thread_step:
  assumes I: "guarded s" and st: "thread_step t (epcs s t) s = Some s'"
  shows "guarded s'"
proof (cases "epcs s t")
  case (EEnter e)
  have s': "s' = egoto t EIdle (guard_enter t e s)" using st EEnter by simp
  have e: "e \<le> globalEpoch s" "guards s t = 0" "t < participants s" using guardedD(2) [OF I, of t] EEnter by (auto simp: enter_ok_def)
  have pe: "pend s' p x \<Longrightarrow> pend s p x" for p x
  proof -
    have "entries s' q = entries s q" for q by (cases q) (simp_all add: s' guard_enter_def store_slot_def)
    then show "pend s' p x \<Longrightarrow> pend s p x" by (auto simp: pend_def s' guard_enter_def store_slot_def split: if_splits)
  qed
  have ht: "held s t = []" using guardedD(3) [OF I, of t] e(2) by (cases "held s t") (auto simp: reader_ok_def)
  show ?thesis
    unfolding guarded_def
  proof (intro allI conjI)
    fix u
    show "scan_ok s' (epcs s' u)" using guardedD(1) [OF I, of u] pe by (auto simp: s' scan_ok_def guard_enter_def store_slot_def)
    show "enter_ok s' u (epcs s' u)" using guardedD(2) [OF I, of u] by (auto simp: s' enter_ok_def guard_enter_def store_slot_def)
    show "reader_ok s' u" using guardedD(3) [OF I, of u] pe ht unfolding reader_ok_def by (auto simp: s' guard_enter_def store_slot_def)
    show "slot_ok s' u" using guardedD(4) [OF I, of u] e by (auto simp: s' slot_ok_def load_slot_def guard_enter_def store_slot_def split: if_splits)
  qed
next
  case (ERetire p)
  then have "s' = egoto t (ERetireAt p (globalEpoch s)) s" using st by (simp add: CurrentEpoch_def)
  then show ?thesis using guarded_goto [OF I, of "ERetireAt p (globalEpoch s)" t] by simp
next
  case (ERetireAt p e)
  then have s': "s' = egoto t EIdle (RetirePtr t p e s)" using st by simp
  have en: "is_store q \<Longrightarrow> set (entries s' q) \<subseteq> insert \<lparr>r_ptr = p, r_epoch = e\<rparr> (set (entries s q))" for q
    by (cases q) (auto simp: s' RetirePtr_def Let_def OrphanEpochEntries_def)
  have "pend s' r x \<Longrightarrow> pend s r x" for r x
  proof -
    assume "pend s' r x"
    then have "pend s r x \<or> (r = p \<and> x = e)" unfolding pend_def using en by (fastforce simp: s' RetirePtr_def Let_def OrphanEpochEntries_def split: if_splits)
    then show "pend s r x" using ERetireAt by (auto simp: pend_def)
  qed
  then show ?thesis
    by (intro guarded_frame [OF I, where t = t and pc = EIdle]) (auto simp: s')
next
  case (EAdvance e tick)
  let ?s = "if globalEpoch s = e then s\<lparr>globalEpoch := e + 1\<rparr> else s"
  have s': "s' = egoto t (if tick then EReclaim else EIdle) ?s" using st EAdvance by simp
  have en: "entries ?s q = entries s q" for q by (cases q) auto
  have "guarded ?s"
  proof (rule guarded_frame [OF I, where t = t and pc = "epcs s t"])
    show "pend ?s p x \<Longrightarrow> pend s p x \<or> globalEpoch s \<le> x" for p x unfolding pend_def en by (auto split: if_splits)
  qed (use guardedD(1,2) [OF I, of t] in \<open>auto split: if_splits\<close>)
  then show ?thesis unfolding s' by (rule guarded_goto) (auto split: if_splits)
next
  case EReclaim
  let ?pc = "if bags s t = [] \<and> orphans s = [] then EIdle else EScan 0 (globalEpoch s)"
  have s': "s' = egoto t ?pc s" using st EReclaim by (auto simp: CurrentEpoch_def)
  have "scan_ok s (EScan 0 (globalEpoch s))" by (simp add: scan_ok_def)
  then show ?thesis unfolding s' by (intro guarded_goto [OF I]) (auto split: if_splits)
next
  case (EScan k m)
  let ?pc = "if k < participants s then EScan (k + 1) (scan_slot t k m s) else ESweep m"
  have s': "s' = egoto t ?pc s" using st EScan by auto
  have "scan_ok s ?pc"
  proof (cases "k < participants s")
    case True then show ?thesis using scan_next [OF I EScan] by simp
  next
    case False
    then have k: "r < k" if "r < participants s" for r using that by simp
    have "m \<le> globalEpoch s" "\<forall>r<k. \<forall>p\<in>set (held s r). \<forall>e. pend s p e \<longrightarrow> m \<le> e" using guardedD(1) [OF I, of t] EScan by (auto simp: scan_ok_def)
    then have "scan_ok s (ESweep m)" unfolding scan_ok_def using k by auto
    then show ?thesis using False by simp
  qed
  then show ?thesis unfolding s' by (intro guarded_goto [OF I]) (auto split: if_splits)
next
  case (ESweep m)
  have s': "s' = egoto t (ESweepOrphans m) (sweep_bag t m s)" using st ESweep by simp
  have en: "is_store q \<Longrightarrow> set (entries s' q) \<subseteq> set (entries s q)" for q by (cases q) (auto simp: s' sweep_bag_def sweep_eq)
  have sc: "scanning (participants s) (epcs s t) = Some (participants s, m)" using ESweep by simp
  have "scan_ok s (ESweepOrphans m)" using guardedD(1) [OF I, of t] ESweep by (simp add: scan_ok_def)
  moreover have "p \<in> set (freed s') \<Longrightarrow> p \<in> set (freed s) \<or> p \<notin> set (held s r)" for p r
    using sweep_safe [OF I sc, of "AtBag t"] by (auto simp: s' sweep_bag_def sweep_eq)
  ultimately show ?thesis
    by (intro guarded_frame [OF I, where t = t and pc = "ESweepOrphans m"] pend_sub [OF en]) (auto simp: s' sweep_bag_def sweep_eq)
next
  case (ESweepOrphans m)
  have s': "s' = egoto t EIdle (if orphans s \<noteq> [] then SweepEpochOrphans m s else s)" using st ESweepOrphans by simp
  have en: "is_store q \<Longrightarrow> set (entries s' q) \<subseteq> set (entries s q)" for q by (cases q) (auto simp: s' SweepEpochOrphans_def sweep_eq)
  have sc: "scanning (participants s) (epcs s t) = Some (participants s, m)" using ESweepOrphans by simp
  have "p \<in> set (freed s') \<Longrightarrow> p \<in> set (freed s) \<or> p \<notin> set (held s r)" for p r
    using sweep_safe [OF I sc, of AtOrphans] by (auto simp: s' SweepEpochOrphans_def sweep_eq split: if_splits)
  then show ?thesis
    by (intro guarded_frame [OF I, where t = t and pc = EIdle] pend_sub [OF en]) (auto simp: s' SweepEpochOrphans_def sweep_eq)
qed (use st in simp)

lemma guarded_entries:
  assumes I: "guarded s" and "\<And>q. is_store q \<Longrightarrow> set (entries s' q) \<subseteq> \<Union> (set ` entries s ` Collect is_store)" "epcs s' = epcs s"
    "slots s' = slots s" "bufs s' = bufs s" "guards s' = guards s" "held s' = held s" "participants s' = participants s"
    "globalEpoch s' = globalEpoch s" "freed s' = freed s"
  shows "guarded s'"
proof -
  have "pend s' p e \<Longrightarrow> pend s p e" for p e unfolding pend_def assms(3) using assms(2) by blast
  then show ?thesis
    using guardedD(1,2) [OF I] assms(3-) by (intro guarded_frame [OF I, where t = 0 and pc = "epcs s 0"]) auto
qed

lemma reader_held:
  assumes "guarded s" "held s t \<noteq> []" shows "guards s t = 1 \<and> bufs s t = []"
  using guardedD(3) [OF assms(1), of t] assms(2) by (cases "held s t") (auto simp: reader_ok_def)

lemma guarded_fenced:
  assumes I: "guarded s" and L: "located loc s" and st: "fenced_step a s = Some s'"
  shows "guarded s'"
proof (cases a)
  case (GStep t)
  then show ?thesis using st guarded_thread_step [OF I] by (simp add: fenced_step_def)
next
  case (GEnter t)
  then have "s' = egoto t (EEnter (globalEpoch s)) s" "guards s t = 0" "t < participants s" using st by (auto simp: fenced_step_def CurrentEpoch_def split: if_splits)
  then show ?thesis using guarded_goto [OF I, of "EEnter (globalEpoch s)" t] by (simp add: enter_ok_def)
next
  case (GAdvance t tick)
  then show ?thesis using st guarded_goto [OF I, of "EAdvance (CurrentEpoch s) tick" t] by (auto simp: fenced_step_def split: if_splits)
next
  case (GReclaim t)
  then show ?thesis using st guarded_goto [OF I, of EReclaim t] by (auto simp: fenced_step_def split: if_splits)
next
  case (GUnlink t p)
  then have s': "s' = egoto t (ERetire p) (s\<lparr>linked := (linked s)(p := False)\<rparr>)" using st by (auto simp: fenced_step_def split: if_splits)
  have en: "entries (s\<lparr>linked := (linked s)(p := False)\<rparr>) q = entries s q" for q by (cases q) simp_all
  have "guarded (s\<lparr>linked := (linked s)(p := False)\<rparr>)" by (rule guarded_entries [OF I]) (auto simp: en)
  then show ?thesis unfolding s' by (rule guarded_goto) auto
next
  case (GEnd t)
  then have s': "s' = end_thread t s" using st by (auto simp: fenced_step_def split: if_splits)
  have "is_store q \<Longrightarrow> set (entries s' q) \<subseteq> \<Union> (set ` entries s ` Collect is_store)" for q
  proof -
    assume q: "is_store q"
    have "set (entries s' q) \<subseteq> set (entries s q) \<union> set (entries s (AtBag t))" by (cases q) (auto simp: s' end_thread_def OrphanEpochEntries_def)
    moreover have "is_store (AtBag t)" by simp
    ultimately show ?thesis using q by blast
  qed
  then show ?thesis by (rule guarded_entries [OF I]) (auto simp: s' end_thread_def OrphanEpochEntries_def)
next
  case (GRead t p)
  then have r: "bufs s t = []" "0 < guards s t" "linked s p" "s' = s\<lparr>held := (held s)(t := p # held s t)\<rparr>" using st by (auto simp: fenced_step_def split: if_splits)
  have en: "entries s' q = entries s q" for q by (cases q) (simp_all add: r(4))
  have lp: "loc p = AtLinked" using locatedD(1) [OF L] r(3) by blast
  have np: "\<not> pend s p e" for e
  proof
    assume "pend s p e"
    then have "(\<exists>t. retiring (epcs s t) = Some p) \<or> (\<exists>q. is_store q \<and> p \<in> r_ptr ` set (entries s q))"
      unfolding pend_def by (metis image_eqI retired.select_convs(1) retiring.simps(2))
    then show False
    proof (elim disjE exE conjE)
      fix u assume "retiring (epcs s u) = Some p"
      then show False using locatedD(2) [OF L, of u p] lp by simp
    next
      fix q assume q: "is_store q" "p \<in> r_ptr ` set (entries s q)"
      then have "loc p = q" using locatedD(6) [OF L q(1), of p] by blast
      then show False using lp q(1) by auto
    qed
  qed
  have pe: "pend s' x e = pend s x e" for x e using pend_cong [OF en] by (simp add: r(4))
  have fr: "p \<notin> set (freed s)" using locatedD(3) [OF L, of p] lp by simp
  have g: "guards s t = 1" using guardedD(4) [OF I, of t] r(2) by (simp add: slot_ok_def)
  then obtain a where a: "slots s t = Some a" using guardedD(4) [OF I, of t] r(1) by (auto simp: slot_ok_def load_slot_def)
  show ?thesis
    unfolding guarded_def
  proof (intro allI conjI)
    fix u
    show "scan_ok s' (epcs s' u)" using guardedD(1) [OF I, of u] np unfolding scan_ok_def pe by (auto simp: r(4))
    show "enter_ok s' u (epcs s' u)" using guardedD(2) [OF I, of u] by (simp add: enter_ok_def r(4))
    show "slot_ok s' u" using guardedD(4) [OF I, of u] by (auto simp: slot_ok_def load_slot_def r(4) split: if_splits)
    show "reader_ok s' u" using guardedD(3) [OF I, of u] np fr g a r(1) unfolding reader_ok_def pe by (auto simp: r(4))
  qed
next
  case (GLeave t)
  then have s': "s' = guard_leave t s" "0 < guards s t" using st by (auto simp: fenced_step_def split: if_splits)
  have g: "guards s t = 1" using guardedD(4) [OF I, of t] s'(2) by (simp add: slot_ok_def)
  have en: "entries s' q = entries s q" for q by (cases q) (simp_all add: s'(1) guard_leave_def store_slot_def)
  have pe: "pend s' x e = pend s x e" for x e using pend_cong [OF en] by (simp add: s'(1) guard_leave_def store_slot_def)
  show ?thesis
    unfolding guarded_def
  proof (intro allI conjI)
    fix u
    show "scan_ok s' (epcs s' u)" using guardedD(1) [OF I, of u] g unfolding scan_ok_def pe by (auto simp: s'(1) guard_leave_def store_slot_def split: if_splits)
    show "enter_ok s' u (epcs s' u)" using guardedD(2) [OF I, of u] g by (auto simp: enter_ok_def s'(1) guard_leave_def store_slot_def)
    show "slot_ok s' u" using guardedD(4) [OF I, of u] g by (auto simp: slot_ok_def load_slot_def s'(1) guard_leave_def store_slot_def)
    show "reader_ok s' u" using guardedD(3) [OF I, of u] g unfolding reader_ok_def pe by (auto simp: s'(1) guard_leave_def store_slot_def)
  qed
next
  case (GFlush t)
  then obtain v vs where b: "bufs s t = v # vs" "s' = s\<lparr>slots := (slots s)(t := v), bufs := (bufs s)(t := vs)\<rparr>"
    using st by (auto simp: fenced_step_def split: list.splits)
  have ht: "held s t = []" using reader_held [OF I, of t] b(1) by auto
  have en: "entries s' q = entries s q" for q by (cases q) (simp_all add: b(2))
  have pe: "pend s' x e = pend s x e" for x e using pend_cong [OF en] by (simp add: b(2))
  show ?thesis
    unfolding guarded_def
  proof (intro allI conjI)
    fix u
    show "scan_ok s' (epcs s' u)" using guardedD(1) [OF I, of u] unfolding scan_ok_def pe by (auto simp: b(2))
    show "enter_ok s' u (epcs s' u)" using guardedD(2) [OF I, of u] by (simp add: enter_ok_def b(2))
    show "slot_ok s' u" using guardedD(4) [OF I, of u] b(1) by (auto simp: slot_ok_def load_slot_def b(2) split: if_splits)
    show "reader_ok s' u" using guardedD(3) [OF I, of u] ht unfolding reader_ok_def pe by (auto simp: b(2))
  qed
qed

section \<open>What reclamation guarantees\<close>

definition epoch_inv :: "epochs \<Rightarrow> bool" where
  "epoch_inv s \<longleftrightarrow> (\<exists>loc. located loc s) \<and> guarded s"

lemma fenced_epoch_step: "fenced_step a s = Some s' \<Longrightarrow> epoch_step a s = Some s'"
  by (auto simp: fenced_step_def split: eevent.splits if_splits)

lemma epoch_inv_init: "epoch_inv (epochs_init n objs)"
proof -
  have e: "entries (epochs_init n objs) q = []" for q by (cases q) (simp_all add: epochs_init_def)
  have "located (\<lambda>p. if objs p then AtLinked else AtNowhere) (epochs_init n objs)"
    by (rule locatedI) (auto simp: e, auto simp: epochs_init_def)
  moreover have "guarded (epochs_init n objs)"
    by (simp add: guarded_def scan_ok_def enter_ok_def reader_ok_def slot_ok_def epochs_init_def)
  ultimately show ?thesis by (auto simp: epoch_inv_def)
qed

lemma epoch_inv_step: "epoch_inv s \<Longrightarrow> fenced_step a s = Some s' \<Longrightarrow> epoch_inv s'"
  unfolding epoch_inv_def using guarded_fenced located_step [OF _ fenced_epoch_step] by blast

interpretation ep: step_invariant fenced_step "epochs_init n objs" epoch_inv for n objs
  by unfold_locales (rule epoch_inv_init, rule epoch_inv_step)

text \<open>C33: Reclamation is safe if a guard's announcement is visible before the reader's first load and guards are not nested: an object that a reader
  holds is not freed, whatever the writers, the reclaiming threads and the ends of threads do meanwhile; nothing is freed that can still be reached, and nothing
  twice.\<close>

theorem epoch_reclaims_safely:
  assumes "exec fenced_step as (epochs_init n objs) = Some s"
  shows "(p \<in> set (held s t) \<longrightarrow> p \<notin> set (freed s)) \<and> (p \<in> set (freed s) \<longrightarrow> \<not> linked s p) \<and> distinct (freed s)"
proof -
  obtain loc where L: "located loc s" and I: "guarded s" using ep.inv_exec [OF assms] by (auto simp: epoch_inv_def)
  have "p \<in> set (held s t) \<longrightarrow> p \<notin> set (freed s)" using guardedD(3) [OF I, of t] by (simp add: reader_ok_def)
  moreover have "p \<in> set (freed s) \<longrightarrow> \<not> linked s p" using locatedD(1,3) [OF L, of p] by simp
  ultimately show ?thesis using locatedD(4) [OF L] by blast
qed

definition all_objects :: "nat \<Rightarrow> bool" where
  "all_objects p = True"

text \<open>Thread 0 reads object 7 in a guard; thread 1 unlinks and retires it and ticks.\<close>

definition reader_first :: "eevent list" where
  "reader_first = [GEnter 0, GStep 0, GFlush 0, GRead 0 7, GUnlink 1 7, GStep 1, GStep 1, GAdvance 1 True] @ replicate 7 (GStep 1)"

theorem epoch_reclaims_safely_witness:
  "\<exists>s. exec fenced_step reader_first (epochs_init 2 all_objects) = Some s \<and> 7 \<in> set (held s 0) \<and> 7 \<notin> set (freed s)"
proof -
  have "\<exists>s. exec fenced_step reader_first (epochs_init 2 all_objects) = Some s \<and> 7 \<in> set (held s 0)" by (rule exec_ex) code_simp
  then obtain s where s: "exec fenced_step reader_first (epochs_init 2 all_objects) = Some s" "7 \<in> set (held s 0)" by blast
  show ?thesis using epoch_reclaims_safely [OF s(1), of 7 0] s by blast
qed

section \<open>Where it is not safe\<close>

text \<open>C37: The guard as it is written gives no such order: its announcement can still be in the store buffer when the reader gets
  hold of an object, and a thread that unlinks, retires and ticks in between frees it under the reader.\<close>

theorem epoch_unfenced_guard_frees:
  "\<exists>s. exec epoch_step ([GEnter 0, GStep 0, GRead 0 7, GUnlink 1 7, GStep 1, GStep 1, GAdvance 1 True] @ replicate 7 (GStep 1) @ [GFlush 0])
         (epochs_init 2 all_objects) = Some s
     \<and> guards s 0 = 1 \<and> 7 \<in> set (held s 0) \<and> 7 \<in> set (freed s)"
  by (rule exec_ex) code_simp

text \<open>Nested guards are not safe either, even with every store visible at once: the inner guard's end withdraws the announcement of the outer one, and what the
  outer reader holds is freed.\<close>

lemma epoch_nested_guard_frees:
  "\<exists>s. exec epoch_step ([GEnter 0, GStep 0, GFlush 0, GRead 0 7, GEnter 0, GStep 0, GFlush 0, GLeave 0, GFlush 0,
         GUnlink 1 7, GStep 1, GStep 1, GAdvance 1 True] @ replicate 7 (GStep 1)) (epochs_init 2 all_objects) = Some s
     \<and> guards s 0 = 1 \<and> 7 \<in> set (held s 0) \<and> 7 \<in> set (freed s)"
  by (rule exec_ex) code_simp

section \<open>Reclaiming makes progress\<close>

definition dated :: "epochs \<Rightarrow> bool" where
  "dated s \<longleftrightarrow> (\<forall>q. is_store q \<longrightarrow> (\<forall>x \<in> set (entries s q). r_epoch x \<le> globalEpoch s)) \<and> (\<forall>t p e. epcs s t = ERetireAt p e \<longrightarrow> e \<le> globalEpoch s)"

lemma dated_frame:
  assumes "dated s" and "\<And>q x. is_store q \<Longrightarrow> x \<in> set (entries s' q) \<Longrightarrow> (\<exists>q. is_store q \<and> x \<in> set (entries s q)) \<or> (\<exists>t p. epcs s t = ERetireAt p (r_epoch x))"
    and "\<And>t p e. epcs s' t = ERetireAt p e \<Longrightarrow> epcs s t = ERetireAt p e \<or> e = globalEpoch s" and "globalEpoch s \<le> globalEpoch s'"
  shows "dated s'"
  unfolding dated_def
proof (intro conjI allI impI ballI)
  fix q x assume "is_store q" "x \<in> set (entries s' q)"
  then have "r_epoch x \<le> globalEpoch s" using assms(1,2) unfolding dated_def by blast
  then show "r_epoch x \<le> globalEpoch s'" using assms(4) by simp
next
  fix t p e assume "epcs s' t = ERetireAt p e"
  then have "e \<le> globalEpoch s" using assms(1,3) unfolding dated_def by blast
  then show "e \<le> globalEpoch s'" using assms(4) by simp
qed

lemma dated_quiet:
  assumes "dated s" "\<And>q. entries s' q = entries s q" "epcs s' = (epcs s)(t := pc)" "\<And>p e. pc = ERetireAt p e \<Longrightarrow> e = globalEpoch s" "globalEpoch s \<le> globalEpoch s'"
  shows "dated s'"
  by (rule dated_frame [OF assms(1)]) (use assms in \<open>auto split: if_splits\<close>)

lemma dated_step:
  assumes I: "dated s" and st: "epoch_step a s = Some s'"
  shows "dated s'"
proof (cases a)
  case (GStep t)
  then have ts: "thread_step t (epcs s t) s = Some s'" using st by simp
  show ?thesis
  proof (cases "epcs s t")
    case (ERetireAt p e)
    then have s': "s' = egoto t EIdle (RetirePtr t p e s)" using ts by simp
    show ?thesis
    proof (rule dated_frame [OF I])
      fix q x assume q: "is_store q" "x \<in> set (entries s' q)"
      then have "x \<in> set (entries s q) \<or> r_epoch x = e" by (cases q) (auto simp: s' RetirePtr_def OrphanEpochEntries_def Let_def split: if_splits)
      then show "(\<exists>q. is_store q \<and> x \<in> set (entries s q)) \<or> (\<exists>t p. epcs s t = ERetireAt p (r_epoch x))" using q(1) ERetireAt by auto
    qed (auto simp: s' split: if_splits)
  next
    case (ESweep m)
    then have s': "s' = egoto t (ESweepOrphans m) (sweep_bag t m s)" using ts by simp
    have "is_store q \<Longrightarrow> set (entries s' q) \<subseteq> set (entries s q)" for q by (cases q) (auto simp: s' sweep_bag_def sweep_eq)
    then show ?thesis by (intro dated_frame [OF I]) (auto simp: s' sweep_bag_def sweep_eq split: if_splits)
  next
    case (ESweepOrphans m)
    then have s': "s' = egoto t EIdle (if orphans s \<noteq> [] then SweepEpochOrphans m s else s)" using ts by simp
    have "is_store q \<Longrightarrow> set (entries s' q) \<subseteq> set (entries s q)" for q by (cases q) (auto simp: s' SweepEpochOrphans_def sweep_eq)
    then show ?thesis by (intro dated_frame [OF I]) (auto simp: s' SweepEpochOrphans_def sweep_eq split: if_splits)
  next
    case (EEnter e)
    then have s': "s' = egoto t EIdle (guard_enter t e s)" using ts by simp
    have "entries s' q = entries s q" for q by (cases q) (auto simp: s' guard_enter_def store_slot_def)
    then show ?thesis by (intro dated_quiet [OF I, where t = t and pc = EIdle]) (auto simp: s' guard_enter_def store_slot_def)
  next
    case (EAdvance e tick)
    let ?pc = "if tick then EReclaim else EIdle"
    have s': "s' = egoto t ?pc (if globalEpoch s = e then s\<lparr>globalEpoch := e + 1\<rparr> else s)" using ts EAdvance by simp
    have "entries s' q = entries s q" for q by (cases q) (auto simp: s')
    then show ?thesis by (intro dated_quiet [OF I, where t = t and pc = ?pc]) (auto simp: s' split: if_splits)
  qed (use ts dated_quiet [OF I, of s' t "epcs s' t"] in \<open>auto simp: CurrentEpoch_def split: if_splits\<close>)
next
  case (GEnd t)
  then have s': "s' = end_thread t s" using st by (auto split: if_splits)
  show ?thesis
  proof (rule dated_frame [OF I])
    fix q x assume q: "is_store q" "x \<in> set (entries s' q)"
    then have "x \<in> set (entries s q) \<or> x \<in> set (entries s (AtBag t))" by (cases q) (auto simp: s' end_thread_def OrphanEpochEntries_def split: if_splits)
    then show "(\<exists>q. is_store q \<and> x \<in> set (entries s q)) \<or> (\<exists>t p. epcs s t = ERetireAt p (r_epoch x))" using q(1) by (meson is_store.simps)
  qed (auto simp: s' end_thread_def OrphanEpochEntries_def)
next
  case (GUnlink t p)
  then have s': "s' = egoto t (ERetire p) (s\<lparr>linked := (linked s)(p := False)\<rparr>)" using st by (auto split: if_splits)
  have "entries s' q = entries s q" for q by (cases q) (auto simp: s')
  then show ?thesis by (intro dated_quiet [OF I, where t = t and pc = "ERetire p"]) (auto simp: s')
next
  case (GLeave t)
  then have s': "s' = guard_leave t s" using st by (auto split: if_splits)
  have "entries s' q = entries s q" for q by (cases q) (auto simp: s' guard_leave_def store_slot_def)
  then show ?thesis by (intro dated_frame [OF I]) (auto simp: s' guard_leave_def store_slot_def)
next
  case (GRead t p)
  then have s': "s' = s\<lparr>held := (held s)(t := p # held s t)\<rparr>" using st by (auto split: if_splits)
  have "entries s' q = entries s q" for q by (cases q) (auto simp: s')
  then show ?thesis by (intro dated_frame [OF I]) (auto simp: s')
next
  case (GFlush t)
  then have "entries s' q = entries s q" for q using st by (cases q) (auto split: list.splits)
  then show ?thesis using st GFlush by (intro dated_frame [OF I]) (auto split: list.splits)
qed (use st dated_quiet [OF I, of s'] in \<open>fastforce split: if_splits\<close>)+

interpretation ed: step_invariant epoch_step "epochs_init n objs" dated for n objs
proof
  have "entries (epochs_init n objs) q = []" for q by (cases q) (simp_all add: epochs_init_def)
  then show "dated (epochs_init n objs)" by (simp add: dated_def) (simp add: epochs_init_def)
qed (rule dated_step)

lemma egoto_egoto [simp]: "egoto t p (egoto t q s) = egoto t p s"
  by (simp add: egoto_def)

lemma load_slot_goto [simp]: "load_slot t k (egoto u p s) = load_slot t k s"
  by (simp add: load_slot_def)

lemma scan_run:
  assumes "\<forall>k < participants s. load_slot t k s = None" "k \<le> participants s"
  shows "exec epoch_step (replicate (participants s - k) (GStep t)) (egoto t (EScan k m) s) = Some (egoto t (EScan (participants s) m) s)"
  using assms(2)
proof (induction "participants s - k" arbitrary: k)
  case (Suc d)
  then have k: "k < participants s" and d: "participants s - k = Suc (participants s - Suc k)" "d = participants s - Suc k" by linarith+
  then show ?case using Suc.hyps(1) [OF d(2)] assms(1) by (simp add: scan_slot_def)
qed simp

text \<open>Memory is given back: when no thread has an announcement, one \<^verbatim>\<open>Tick\<close> frees everything the thread has retired and everything that threads left behind
  when they ended, and it comes to an end after a number of steps that depends only on the number of threads.\<close>

lemma epoch_tick_drains:
  assumes "exec epoch_step as (epochs_init n objs) = Some s" and "epcs s t = EIdle" and "\<forall>k < participants s. load_slot t k s = None"
  shows "\<exists>m s'. exec epoch_step (GAdvance t True # replicate m (GStep t)) s = Some s' \<and> epcs s' t = EIdle \<and> bags s' t = [] \<and> orphans s' = []
     \<and> freed s' = freed s @ map r_ptr (bags s t) @ map r_ptr (orphans s)"
proof -
  let ?n = "participants s" and ?g = "globalEpoch s"
  let ?s1 = "egoto t EReclaim (s\<lparr>globalEpoch := ?g + 1\<rparr>)"
  have D: "dated s" using ed.inv_exec [OF assms(1)] .
  have b: "\<forall>x \<in> set (bags s t). r_epoch x < ?g + 1" "\<forall>x \<in> set (orphans s). r_epoch x < ?g + 1"
    using D unfolding dated_def by (metis entries.simps(1) is_store.simps(1) less_add_one order.strict_trans1, metis entries.simps(2) is_store.simps(2) less_add_one order.strict_trans1)
  have start: "exec epoch_step [GAdvance t True, GStep t] s = Some ?s1" using assms(2) by (simp add: CurrentEpoch_def egoto_def)
  show ?thesis
  proof (cases "bags s t = [] \<and> orphans s = []")
    case True
    let ?e = "egoto t EIdle (s\<lparr>globalEpoch := ?g + 1\<rparr>)"
    have "exec epoch_step (GAdvance t True # replicate 2 (GStep t)) s = Some ?e"
      using start True exec_append [of epoch_step "[GAdvance t True, GStep t]" "[GStep t]" s] by (simp add: numeral_2_eq_2)
    then show ?thesis using True by (intro exI [of _ 2] exI [of _ ?e]) simp
  next
    case False
    let ?b = "s\<lparr>globalEpoch := ?g + 1\<rparr>"
    let ?e = "egoto t EIdle (s\<lparr>globalEpoch := ?g + 1\<rparr>)"
    have scan: "exec epoch_step (replicate ?n (GStep t)) (egoto t (EScan 0 (?g + 1)) ?b) = Some (egoto t (EScan ?n (?g + 1)) ?b)"
    proof -
      have "load_slot t k ?b = load_slot t k s" for k by (simp add: load_slot_def)
      then show ?thesis using scan_run [of ?b t 0 "?g + 1"] assms(3) by simp
    qed
    have one: "exec epoch_step [GStep t] ?s1 = Some (egoto t (EScan 0 (?g + 1)) ?b)" using False by (auto simp: CurrentEpoch_def)
    have sb: "sweep (?g + 1) (bags s t) = (map r_ptr (bags s t), [])" "sweep (?g + 1) (orphans s) = (map r_ptr (orphans s), [])"
      using b by (simp_all add: sweep_eq filter_empty_conv)
    obtain s' where fin: "exec epoch_step (replicate 3 (GStep t)) (egoto t (EScan ?n (?g + 1)) ?b) = Some s'"
      and s': "epcs s' t = EIdle" "bags s' t = []" "orphans s' = []" "freed s' = freed s @ map r_ptr (bags s t) @ map r_ptr (orphans s)"
      using sb by (simp add: numeral_3_eq_3 sweep_bag_def SweepEpochOrphans_def)
    have "exec epoch_step ([GAdvance t True, GStep t] @ [GStep t] @ replicate ?n (GStep t) @ replicate 3 (GStep t)) s = Some s'"
      unfolding exec_append start one scan fin option.case by (simp add: one scan fin)
    moreover have "[GAdvance t True, GStep t] @ [GStep t] @ replicate ?n (GStep t) @ replicate 3 (GStep t) = GAdvance t True # replicate (Suc (Suc (?n + 3))) (GStep t)"
      unfolding replicate_Suc replicate_add by simp
    ultimately show ?thesis using s' by metis
  qed
qed

lemma epoch_tick_drains_example:
  "\<exists>s m s'. exec epoch_step [GUnlink 1 7, GStep 1, GStep 1] (epochs_init 2 all_objects) = Some s
     \<and> exec epoch_step (GAdvance 1 True # replicate m (GStep 1)) s = Some s' \<and> 7 \<in> set (freed s')"
proof -
  have "\<exists>s. exec epoch_step [GUnlink 1 7, GStep 1, GStep 1] (epochs_init 2 all_objects) = Some s
      \<and> epcs s 1 = EIdle \<and> participants s = 2 \<and> load_slot 1 0 s = None \<and> load_slot 1 1 s = None \<and> 7 \<in> r_ptr ` set (bags s 1)"
    by (rule exec_ex) code_simp
  then obtain s where s: "exec epoch_step [GUnlink 1 7, GStep 1, GStep 1] (epochs_init 2 all_objects) = Some s" "epcs s 1 = EIdle"
    "participants s = 2" "load_slot 1 0 s = None" "load_slot 1 1 s = None" "7 \<in> r_ptr ` set (bags s 1)" by blast
  have "\<forall>k < participants s. load_slot 1 k s = None" using s(3,4,5) by (auto simp: less_Suc_eq numeral_2_eq_2)
  from epoch_tick_drains [OF s(1,2) this] obtain m s' where "exec epoch_step (GAdvance 1 True # replicate m (GStep 1)) s = Some s'"
    "freed s' = freed s @ map r_ptr (bags s 1) @ map r_ptr (orphans s)" by blast
  moreover have "7 \<in> set (map r_ptr (bags s 1))" using s(6) by simp
  ultimately show ?thesis using s(1) by (metis Un_iff set_append)
qed

end
