(* ===== verification/Slab_Pool.thy ===== *)
theory Slab_Pool
  imports Sched_Prelude
begin

text \<open>
  The slab pool of \<^verbatim>\<open>include/SlabPool.h\<close>: slots of one size in a primary block and in extents added when it is used up, a
  shared free list, and a free list for each thread. A free slot's first bytes are the link to the next one, so the links are a function
  on addresses. A thread's cache is its own, and the shared list and the bump cursors are touched only under \<^verbatim>\<open>mtx\<close>: an
  operation is one step. Addresses are natural numbers, 0 is the null pointer. The canary and the statistics are compiled out
  by default and left out here.
\<close>

section \<open>State\<close>

text \<open>\<^verbatim>\<open>Cache\<close>, \<^verbatim>\<open>LiveCounter\<close>, \<^verbatim>\<open>Extent\<close> and the pool; \<open>link\<close> is the memory the free lists live in.\<close>

record slab_cache =
  c_head :: nat
  c_count :: nat

record live_counter =
  lc_v :: int
  lc_peak :: int

record extent =
  x_mem :: nat
  x_slots :: nat
  x_bumpNext :: nat

record pool =
  SLOT :: nat
  mem :: nat
  memSlots :: nat
  extents :: "extent list"
  grewOnce :: bool
  bumpNext :: nat
  sharedHead :: nat
  link :: "nat \<Rightarrow> nat"
  caches :: "nat \<Rightarrow> slab_cache"
  s_live :: "live_counter list"
  s_liveNext :: nat
  live_ref :: "nat \<Rightarrow> nat option"
  growth :: bool

definition BATCH :: nat where
  "BATCH = 32"

definition kGrowSlots :: nat where
  "kGrowSlots = 4096"

definition kLiveSlots :: nat where
  "kLiveSlots = 128"

section \<open>Counting live slots\<close>

text \<open>\<^verbatim>\<open>liveSlot\<close>: a thread's first use draws a number, its counter is that number modulo the table.\<close>

definition liveSlot :: "nat \<Rightarrow> pool \<Rightarrow> nat \<times> pool" where
  "liveSlot t P = (case live_ref P t of
      Some n \<Rightarrow> (n mod kLiveSlots, P)
    | None \<Rightarrow> (s_liveNext P mod kLiveSlots, P\<lparr>live_ref := (live_ref P)(t \<mapsto> s_liveNext P), s_liveNext := s_liveNext P + 1\<rparr>))"

definition liveAdd :: "nat \<Rightarrow> int \<Rightarrow> pool \<Rightarrow> pool" where
  "liveAdd t d P = (let (i, P) = liveSlot t P; c = s_live P ! i; now = lc_v c + d;
                        pk = (if d > 0 \<and> now > lc_peak c then now else lc_peak c)
                    in P\<lparr>s_live := (s_live P)[i := \<lparr>lc_v = now, lc_peak = pk\<rparr>]\<rparr>)"

definition LiveCount :: "pool \<Rightarrow> int" where
  "LiveCount P = sum_list (map lc_v (s_live P))"

section \<open>Geometry\<close>

definition slot_range :: "nat \<Rightarrow> nat \<Rightarrow> nat \<Rightarrow> nat \<Rightarrow> nat list" where
  "slot_range sz b i n = map (\<lambda>k. b + (i + k) * sz) [0..<n]"

text \<open>\<^verbatim>\<open>SlotInSlab\<close>: the first block that contains the address decides.\<close>

fun in_extents :: "nat \<Rightarrow> extent list \<Rightarrow> nat \<Rightarrow> bool" where
  "in_extents sz [] q = False"
| "in_extents sz (e # es) q =
     (if q \<ge> x_mem e \<and> q < x_mem e + x_slots e * sz then (q - x_mem e) mod sz = 0 else in_extents sz es q)"

definition SlotInSlab :: "pool \<Rightarrow> nat \<Rightarrow> bool" where
  "SlotInSlab P q =
     (if mem P \<noteq> 0 \<and> q \<ge> mem P \<and> q < mem P + memSlots P * SLOT P then (q - mem P) mod SLOT P = 0
      else in_extents (SLOT P) (extents P) q)"

definition Capacity :: "pool \<Rightarrow> nat" where
  "Capacity P = memSlots P + sum_list (map x_slots (extents P))"

definition HighWaterSlots :: "pool \<Rightarrow> nat" where
  "HighWaterSlots P = bumpNext P + sum_list (map x_bumpNext (extents P))"

section \<open>Refill and flush\<close>

text \<open>
  The loops of \<^verbatim>\<open>refill\<close>. \<open>take_shared\<close> walks the shared list for at most \<open>r\<close> slots, returning the last one, where it stopped and how
  many it passed. \<open>bump\<close> links fresh slots in front of a batch and keeps its last slot.
\<close>

fun take_shared :: "(nat \<Rightarrow> nat) \<Rightarrow> nat \<Rightarrow> nat \<Rightarrow> nat \<Rightarrow> nat \<times> nat \<times> nat" where
  "take_shared l 0 cur tail = (tail, cur, 0)"
| "take_shared l (Suc r) cur tail =
     (if cur = 0 then (tail, cur, 0) else (let (t', c', m) = take_shared l r (l cur) cur in (t', c', Suc m)))"

fun bump :: "nat list \<Rightarrow> (nat \<Rightarrow> nat) \<times> nat \<times> nat \<Rightarrow> (nat \<Rightarrow> nat) \<times> nat \<times> nat" where
  "bump [] st = st"
| "bump (s # ss) (l, h, tail) = bump ss (l(s := h), s, if h = 0 then s else tail)"

text \<open>The first extent with slots left.\<close>

fun free_extent :: "extent list \<Rightarrow> nat option" where
  "free_extent [] = None"
| "free_extent (e # es) = (if x_bumpNext e \<ge> x_slots e then map_option Suc (free_extent es) else Some 0)"

text \<open>A batch under construction: head, tail and number of slots.\<close>

type_synonym batch = "nat \<times> nat \<times> nat"

definition refill_shared :: "pool \<Rightarrow> batch \<times> pool" where
  "refill_shared P = (if sharedHead P = 0 then ((0, 0, 0), P)
     else (let (tail, cur, moved) = take_shared (link P) BATCH (sharedHead P) 0
           in ((sharedHead P, tail, moved), P\<lparr>sharedHead := cur\<rparr>)))"

definition refill_bump :: "batch \<Rightarrow> pool \<Rightarrow> batch \<times> pool" where
  "refill_bump B P = (case B of (h, tail, moved) \<Rightarrow>
     if moved < BATCH \<and> bumpNext P < memSlots P then
       (let k = min (BATCH - moved) (memSlots P - bumpNext P);
            (l, h', tail') = bump (slot_range (SLOT P) (mem P) (bumpNext P) k) (link P, h, tail)
        in ((h', tail', moved + k), P\<lparr>link := l, bumpNext := bumpNext P + k\<rparr>))
     else (B, P))"

text \<open>Growth: use an extent that has room, or publish a fresh one; \<open>a\<close> is what the allocation of its memory returns.\<close>

definition grow_extent :: "nat option \<Rightarrow> pool \<Rightarrow> nat option \<times> pool" where
  "grow_extent a P = (case free_extent (extents P) of
      Some i \<Rightarrow> (Some i, P)
    | None \<Rightarrow> (case a of
          None \<Rightarrow> (None, P\<lparr>grewOnce := True\<rparr>)
        | Some b \<Rightarrow> (Some 0, P\<lparr>grewOnce := True, extents := \<lparr>x_mem = b, x_slots = kGrowSlots, x_bumpNext = 0\<rparr> # extents P\<rparr>)))"

definition refill_grow :: "nat option \<Rightarrow> batch \<Rightarrow> pool \<Rightarrow> batch \<times> pool" where
  "refill_grow a B P = (case B of (h, tail, moved) \<Rightarrow>
     if moved = 0 \<and> growth P then
       (case grow_extent a P of
          (None, P) \<Rightarrow> (B, P)
        | (Some i, P) \<Rightarrow>
            (let e = extents P ! i;
                 k = min BATCH (x_slots e - x_bumpNext e);
                 (l, h', tail') = bump (slot_range (SLOT P) (x_mem e) (x_bumpNext e) k) (link P, h, tail)
             in ((h', tail', moved + k), P\<lparr>link := l, extents := (extents P)[i := e\<lparr>x_bumpNext := x_bumpNext e + k\<rparr>]\<rparr>)))
     else (B, P))"

definition splice :: "nat \<Rightarrow> batch \<Rightarrow> pool \<Rightarrow> pool" where
  "splice t B P = (case B of (h, tail, moved) \<Rightarrow>
     if h = 0 then P
     else P\<lparr>link := (link P)(tail := c_head (caches P t)),
            caches := (caches P)(t := \<lparr>c_head = h, c_count = c_count (caches P t) + moved\<rparr>)\<rparr>)"

definition refill :: "nat \<Rightarrow> nat option \<Rightarrow> pool \<Rightarrow> pool" where
  "refill t a P = (if mem P = 0 then P
     else (let (B, P) = refill_shared P; (B, P) = refill_bump B P; (B, P) = refill_grow a B P in splice t B P))"

text \<open>\<^verbatim>\<open>flush\<close>: all but \<open>BATCH\<close> slots go to the shared list; \<open>walk\<close> is its loop to the last one.\<close>

primrec walk :: "(nat \<Rightarrow> nat) \<Rightarrow> nat \<Rightarrow> nat \<Rightarrow> nat" where
  "walk l 0 x = x"
| "walk l (Suc n) x = walk l n (l x)"

definition flush :: "nat \<Rightarrow> pool \<Rightarrow> pool" where
  "flush t P = (let c = caches P t in
     if c_count c \<le> BATCH then P
     else (let toMove = c_count c - BATCH; batchHead = c_head c; batchTail = walk (link P) (toMove - 1) batchHead
           in P\<lparr>caches := (caches P)(t := \<lparr>c_head = link P batchTail, c_count = BATCH\<rparr>),
                link := (link P)(batchTail := sharedHead P), sharedHead := batchHead\<rparr>))"

section \<open>Operations\<close>

definition Alloc :: "nat \<Rightarrow> nat option \<Rightarrow> pool \<Rightarrow> nat \<times> pool" where
  "Alloc t a P = (let P = (if c_head (caches P t) = 0 then refill t a P else P); c = caches P t in
     if c_head c = 0 then (0, P)
     else (c_head c, liveAdd t 1 (P\<lparr>caches := (caches P)(t := \<lparr>c_head = link P (c_head c), c_count = c_count c - 1\<rparr>)\<rparr>)))"

definition Free :: "nat \<Rightarrow> nat \<Rightarrow> pool \<Rightarrow> pool" where
  "Free t s P = (let c = caches P t;
       P = liveAdd t (-1) (P\<lparr>link := (link P)(s := c_head c), caches := (caches P)(t := \<lparr>c_head = s, c_count = c_count c + 1\<rparr>)\<rparr>)
     in if c_count (caches P t) > 2 * BATCH then flush t P else P)"

fun push_shared :: "nat list \<Rightarrow> (nat \<Rightarrow> nat) \<times> nat \<Rightarrow> (nat \<Rightarrow> nat) \<times> nat" where
  "push_shared [] st = st"
| "push_shared (s # ss) (l, h) = push_shared ss (l(s := h), s)"

definition Prefault :: "nat \<Rightarrow> pool \<Rightarrow> pool" where
  "Prefault slots P = (if mem P = 0 then P
     else (let k = min slots (memSlots P - bumpNext P);
               (l, h) = push_shared (slot_range (SLOT P) (mem P) (bumpNext P) k) (link P, sharedHead P)
           in P\<lparr>link := l, sharedHead := h, bumpNext := bumpNext P + k\<rparr>))"

text \<open>
  The constructor. It aborts if an instance of the same size class is alive; \<open>b\<close> is the memory \<^verbatim>\<open>new Block[slots]\<close> returns. The thread
  caches and live counters are static members.
\<close>

definition SlabPool_new :: "nat \<Rightarrow> nat \<Rightarrow> nat \<Rightarrow> nat \<Rightarrow> bool \<Rightarrow> pool option" where
  "SlabPool_new instances sz b slots lazy = (if instances \<noteq> 0 then None
     else (let P = \<lparr>SLOT = sz, mem = (if slots \<noteq> 0 then b else 0), memSlots = slots, extents = [], grewOnce = False, bumpNext = 0,
                    sharedHead = 0, link = (\<lambda>_. 0), caches = (\<lambda>_. \<lparr>c_head = 0, c_count = 0\<rparr>),
                    s_live = replicate kLiveSlots \<lparr>lc_v = 0, lc_peak = 0\<rparr>, s_liveNext = 0, live_ref = (\<lambda>_. None), growth = True\<rparr>
           in Some (if lazy then P else Prefault slots P)))"

section \<open>Free lists\<close>

text \<open>\<open>path l h xs e\<close>: following the links from \<open>h\<close> passes the slots \<open>xs\<close> and stops at \<open>e\<close>.\<close>

fun path :: "(nat \<Rightarrow> nat) \<Rightarrow> nat \<Rightarrow> nat list \<Rightarrow> nat \<Rightarrow> bool" where
  "path l h [] e = (h = e)"
| "path l h (x # xs) e = (h = x \<and> x \<noteq> 0 \<and> path l (l x) xs e)"

lemma path_cong: "(\<And>x. x \<in> set xs \<Longrightarrow> l x = l' x) \<Longrightarrow> path l h xs e = path l' h xs e"
  by (induction xs arbitrary: h) auto

lemma path_upd [simp]: "s \<notin> set xs \<Longrightarrow> path (l(s := v)) h xs e = path l h xs e"
  by (rule path_cong) auto

lemma path_append: "path l h (xs @ ys) e \<longleftrightarrow> (\<exists>m. path l h xs m \<and> path l m ys e)"
  by (induction xs arbitrary: h) auto

lemma path_null: "path l h xs 0 \<Longrightarrow> h = 0 \<longleftrightarrow> xs = []"
  by (cases xs) auto

lemma path_nonzero: "path l h xs e \<Longrightarrow> 0 \<notin> set xs"
  by (induction xs arbitrary: h) auto

text \<open>Redirecting the last slot of a batch joins it to another list.\<close>

lemma path_relink:
  assumes "path l h xs e" and "xs \<noteq> []" and "distinct xs" and "path l c ys d" and "set xs \<inter> set ys = {}"
  shows "path (l(last xs := c)) h (xs @ ys) d"
proof -
  obtain zs z where xs: "xs = zs @ [z]" using assms(2) by (metis rev_exhaust)
  have z: "z \<notin> set zs" "z \<notin> set ys" using assms(3,5) by (auto simp: xs)
  from assms(1) have "path l h zs z" "z \<noteq> 0" by (auto simp: xs path_append)
  then show ?thesis using assms(4) z by (auto simp: xs path_append)
qed

lemma take_shared_spec:
  assumes "path l h xs 0"
  shows "take_shared l r h tail
         = (if xs = [] \<or> r = 0 then tail else last (take r xs), if r < length xs then xs ! r else 0, min r (length xs))"
  using assms
proof (induction r arbitrary: h xs tail)
  case 0
  then show ?case by (cases xs) auto
next
  case (Suc r)
  then show ?case
  proof (cases xs)
    case (Cons x ys)
    with Suc.prems have p: "path l (l x) ys 0" "h = x" "x \<noteq> 0" by auto
    show ?thesis using Suc.IH [OF p(1), of x] p(2,3) by (auto simp: Cons)
  qed simp
qed

lemma path_cut:
  assumes "path l h xs 0"
  shows "path l h (take r xs) (if r < length xs then xs ! r else 0)" and "path l (if r < length xs then xs ! r else 0) (drop r xs) 0"
proof -
  obtain m where m: "path l h (take r xs) m" "path l m (drop r xs) 0"
    using assms path_append [of l h "take r xs" "drop r xs" 0] by auto
  have "m = (if r < length xs then xs ! r else 0)"
  proof (cases "drop r xs")
    case (Cons y ys)
    then have "r < length xs" by (metis drop_all leI list.distinct(1))
    then show ?thesis using m(2) Cons by (simp add: nth_via_drop)
  qed (use m(2) in simp)
  then show "path l h (take r xs) (if r < length xs then xs ! r else 0)" and "path l (if r < length xs then xs ! r else 0) (drop r xs) 0"
    using m by auto
qed

lemma walk_spec: "path l h xs e \<Longrightarrow> n < length xs \<Longrightarrow> walk l n h = xs ! n"
proof (induction n arbitrary: h xs)
  case (Suc n)
  then show ?case by (cases xs) auto
qed (auto simp: neq_Nil_conv)

lemma bump_spec:
  assumes "path l h xs e" and "distinct ss" and "set ss \<inter> set xs = {}" and "0 \<notin> set ss" and "bump ss (l, h, tail) = (l', h', tail')"
    and "h = 0 \<longleftrightarrow> xs = []" and "xs \<noteq> [] \<Longrightarrow> tail = last xs"
  shows "path l' h' (rev ss @ xs) e \<and> (\<forall>s. s \<notin> set ss \<longrightarrow> l' s = l s) \<and> (ss @ xs \<noteq> [] \<longrightarrow> tail' = last (rev ss @ xs))
         \<and> (h' = 0 \<longleftrightarrow> ss @ xs = [])"
  using assms
proof (induction ss arbitrary: l h tail xs)
  case (Cons s ss)
  have step: "bump ss (l(s := h), s, if h = 0 then s else tail) = (l', h', tail')" using Cons.prems(5) by simp
  have p: "path (l(s := h)) s (s # xs) e" using Cons.prems(1,3,4) by auto
  show ?case
    using Cons.IH [OF p _ _ _ step] Cons.prems by (fastforce split: if_splits)
qed auto

lemma push_shared_spec:
  assumes "path l h xs e" and "distinct ss" and "set ss \<inter> set xs = {}" and "0 \<notin> set ss" and "push_shared ss (l, h) = (l', h')"
  shows "path l' h' (rev ss @ xs) e \<and> (\<forall>s. s \<notin> set ss \<longrightarrow> l' s = l s)"
  using assms
proof (induction ss arbitrary: l h xs)
  case (Cons s ss)
  have step: "push_shared ss (l(s := h), s) = (l', h')" using Cons.prems(5) by simp
  have p: "path (l(s := h)) s (s # xs) e" using Cons.prems(1,3,4) by auto
  show ?case using Cons.IH [OF p _ _ _ step] Cons.prems by fastforce
qed auto

end
