(* ===== verification/Slab_Safety.thy ===== *)
theory Slab_Safety
  imports Slab_Pool
begin

text \<open>
  What the slab pool guarantees: every slot taken from memory is in exactly one place (a free list, or held by a client), so none is handed
  out twice and none is lost.
\<close>

section \<open>The invariant\<close>

text \<open>The blocks of a pool: base, slots, and how many slots were taken so far.\<close>

definition blocks :: "pool \<Rightarrow> (nat \<times> nat \<times> nat) list" where
  "blocks P = (mem P, memSlots P, bumpNext P) # map (\<lambda>e. (x_mem e, x_slots e, x_bumpNext e)) (extents P)"

definition extent_of :: "nat \<times> nat \<times> nat \<Rightarrow> nat \<times> nat" where
  "extent_of B = (fst B, fst (snd B))"

definition apart :: "nat \<Rightarrow> nat \<times> nat \<Rightarrow> nat \<times> nat \<Rightarrow> bool" where
  "apart sz A B = (fst A + snd A * sz \<le> fst B \<or> fst B + snd B * sz \<le> fst A)"

definition geometry :: "pool \<Rightarrow> bool" where
  "geometry P = (SLOT P > 0 \<and> (\<forall>(b, n, u) \<in> set (blocks P). u \<le> n \<and> (n > 0 \<longrightarrow> b > 0))
     \<and> sorted_wrt (apart (SLOT P)) (map extent_of (blocks P)))"

definition taken :: "nat \<Rightarrow> nat \<times> nat \<times> nat \<Rightarrow> nat set" where
  "taken sz B = (case B of (b, n, u) \<Rightarrow> (\<lambda>k. b + k * sz) ` {..<u})"

definition issued :: "pool \<Rightarrow> nat set" where
  "issued P = (\<Union>B \<in> set (blocks P). taken (SLOT P) B)"

text \<open>Where a slot can be (\<open>Batch\<close> during a refill, \<open>Lost\<close> after its thread ended), and that each issued slot is in exactly one place, once.\<close>

datatype slab_place = Shared | Cached nat | Batch | Held | Lost

definition parted :: "nat set \<Rightarrow> (slab_place \<Rightarrow> nat list) \<Rightarrow> bool" where
  "parted I c = ((\<forall>x. distinct (c x)) \<and> (\<forall>x y. x \<noteq> y \<longrightarrow> set (c x) \<inter> set (c y) = {}) \<and> (\<Union>x. set (c x)) = I)"

definition lists_ok :: "pool \<Rightarrow> (slab_place \<Rightarrow> nat list) \<Rightarrow> bool" where
  "lists_ok P c = (path (link P) (sharedHead P) (c Shared) 0
     \<and> (\<forall>t. path (link P) (c_head (caches P t)) (c (Cached t)) 0 \<and> c_count (caches P t) = length (c (Cached t))))"

definition slab_inv :: "pool \<Rightarrow> (slab_place \<Rightarrow> nat list) \<Rightarrow> bool" where
  "slab_inv P c = (geometry P \<and> parted (issued P) c \<and> lists_ok P c)"

lemma parted_disj: "parted I c \<Longrightarrow> x \<noteq> y \<Longrightarrow> s \<in> set (c x) \<Longrightarrow> s \<notin> set (c y)"
  by (auto simp: parted_def)

lemma parted_distinct: "parted I c \<Longrightarrow> distinct (c x)"
  by (simp add: parted_def)

lemma parted_issued: "parted I c \<Longrightarrow> s \<in> set (c x) \<Longrightarrow> s \<in> I"
  by (auto simp: parted_def)

text \<open>Moving slots between two places, and adding fresh slots to one.\<close>

lemma parted_move:
  assumes P: "parted I c" and xy: "x \<noteq> y" and d: "distinct (xs @ ys)" and s: "set xs \<union> set ys = set (c x) \<union> set (c y)"
  shows "parted I (c(x := xs, y := ys))"
proof -
  have "set (c x) \<inter> set (c z) = {} \<and> set (c y) \<inter> set (c z) = {}" if "z \<noteq> x" "z \<noteq> y" for z
    using P that by (auto simp: parted_def)
  then have off: "(set xs \<union> set ys) \<inter> set (c z) = {}" if "z \<noteq> x" "z \<noteq> y" for z
    unfolding s using that by blast
  have "(\<Union>z. set ((c(x := xs, y := ys)) z)) = (set xs \<union> set ys) \<union> (\<Union>z \<in> UNIV - {x, y}. set (c z))"
    using xy by (auto split: if_splits)
  also have "\<dots> = (\<Union>z. set (c z))" unfolding s by blast
  finally have u: "(\<Union>z. set ((c(x := xs, y := ys)) z)) = I" using P by (simp add: parted_def)
  have dj: "set ((c(x := xs, y := ys)) z) \<inter> set ((c(x := xs, y := ys)) w) = {}" if "z \<noteq> w" for z w
    using that xy d off P by (auto simp: parted_def)
  show ?thesis unfolding parted_def using u dj P d by (auto simp: parted_def)
qed

lemma parted_grow:
  assumes P: "parted I c" and n: "set new \<inter> I = {}" "distinct new"
  shows "parted (I \<union> set new) (c(x := new @ c x))"
proof -
  have sub: "set (c z) \<subseteq> I" for z using P by (auto simp: parted_def)
  have "(\<Union>z. set ((c(x := new @ c x)) z)) = set new \<union> (\<Union>z. set (c z))" by (auto split: if_splits)
  also have "\<dots> = I \<union> set new" using P by (auto simp: parted_def)
  finally have u: "(\<Union>z. set ((c(x := new @ c x)) z)) = I \<union> set new" .
  have d: "distinct ((c(x := new @ c x)) z)" for z
    using parted_distinct [OF P] sub n by auto
  have dj: "set ((c(x := new @ c x)) z) \<inter> set ((c(x := new @ c x)) w) = {}" if "z \<noteq> w" for z w
    using that n sub [of z] sub [of w] sub [of x] parted_disj [OF P that] parted_disj [OF P, of x w] parted_disj [OF P, of z x]
    by (auto split: if_splits)
  show ?thesis unfolding parted_def using u d dj by blast
qed

section \<open>Geometry\<close>

lemma geometryD: "geometry P \<Longrightarrow> (b, n, u) \<in> set (blocks P) \<Longrightarrow> u \<le> n \<and> (n > 0 \<longrightarrow> b > 0)"
  by (auto simp: geometry_def)

lemma slot_range_set: "set (slot_range sz b i n) = (\<lambda>k. b + k * sz) ` {i..<i + n}"
proof -
  have shift: "{i..<i + n} = (\<lambda>k. i + k) ` {0..<n}" by auto
  show ?thesis unfolding shift image_image by (simp add: slot_range_def)
qed

lemma slot_range_distinct: "sz > 0 \<Longrightarrow> distinct (slot_range sz b i n)"
  by (auto simp: slot_range_def distinct_map inj_on_def)

lemma slot_range_length [simp]: "length (slot_range sz b i n) = n"
  by (simp add: slot_range_def)

lemma taken_within:
  assumes "s \<in> taken sz (b, n, u)" and "u \<le> n"
  shows "b \<le> s \<and> s + sz \<le> b + n * sz"
proof -
  obtain k where k: "k < u" "s = b + k * sz" using assms(1) by (auto simp: taken_def)
  then have "Suc k * sz \<le> n * sz" using assms(2) by (intro mult_le_mono1) simp
  then show ?thesis using k(2) by simp
qed

lemma taken_grow: "taken sz (b, n, u + k) = taken sz (b, n, u) \<union> set (slot_range sz b u k)"
proof -
  have "{..<u + k} = {..<u} \<union> {u..<u + k}" by auto
  then show ?thesis by (simp only: taken_def slot_range_set prod.case image_Un)
qed

text \<open>Advancing the cursor of block \<open>j\<close> issues slots nobody has.\<close>

lemma cursor_advance:
  assumes g: "geometry P" and j: "j < length (blocks P)" "blocks P ! j = (b, n, u)" and k: "u + k \<le> n"
    and P': "SLOT P' = SLOT P" "blocks P' = (blocks P)[j := (b, n, u + k)]"
  shows "geometry P'" and "issued P' = issued P \<union> set (slot_range (SLOT P) b u k)"
    and "set (slot_range (SLOT P) b u k) \<inter> issued P = {}" and "0 \<notin> set (slot_range (SLOT P) b u k)"
proof -
  let ?new = "set (slot_range (SLOT P) b u k)" and ?sz = "SLOT P"
  have sz: "?sz > 0" using g by (simp add: geometry_def)
  have mem: "(b, n, u) \<in> set (blocks P)" using j by (metis nth_mem)
  have ext: "map extent_of (blocks P') = map extent_of (blocks P)"
    using j by (simp add: P' map_update extent_of_def list_update_same_conv)
  have all: "\<forall>(b, n, u) \<in> set (blocks P'). u \<le> n \<and> (n > 0 \<longrightarrow> b > 0)"
    using g mem k set_update_subset_insert [of "blocks P" j "(b, n, u + k)"] by (fastforce simp: P' geometry_def)
  show "geometry P'" using g all ext by (simp add: geometry_def P')
  show "0 \<notin> ?new"
  proof
    assume "0 \<in> ?new"
    then have "b = 0" "k > 0" by (auto simp: slot_range_set)
    then show False using g mem k by (fastforce simp: geometry_def)
  qed
  have bl: "blocks P = take j (blocks P) @ (b, n, u) # drop (Suc j) (blocks P)" using id_take_nth_drop [OF j(1)] j(2) by simp
  have sp: "set (blocks P) = insert (b, n, u) (set (take j (blocks P)) \<union> set (drop (Suc j) (blocks P)))"
    by (subst bl) auto
  have sp': "set (blocks P') = insert (b, n, u + k) (set (take j (blocks P)) \<union> set (drop (Suc j) (blocks P)))"
    unfolding P' by (subst upd_conv_take_nth_drop [OF j(1)]) auto
  show "issued P' = issued P \<union> ?new" unfolding issued_def sp sp' P'(1) by (auto simp: taken_grow)
  have w: "\<And>s. s \<in> ?new \<Longrightarrow> b \<le> s \<and> s + ?sz \<le> b + n * ?sz"
    using taken_within [of _ ?sz b n "u + k"] k by (auto simp: taken_grow)
  have srt: "sorted_wrt (apart ?sz) (map extent_of (take j (blocks P)) @ (b, n) # map extent_of (drop (Suc j) (blocks P)))"
    using g bl by (metis (no_types, lifting) extent_of_def fst_conv snd_conv geometry_def list.simps(9) map_append)
  have other: "s \<notin> taken ?sz B" if s: "s \<in> ?new" and B: "B \<in> set (take j (blocks P)) \<union> set (drop (Suc j) (blocks P))" for s B
  proof
    assume sB: "s \<in> taken ?sz B"
    obtain b' n' u' where B': "B = (b', n', u')" by (cases B)
    have "apart ?sz (extent_of B) (b, n) \<or> apart ?sz (b, n) (extent_of B)"
      using srt B by (auto simp: sorted_wrt_append)
    moreover have "B \<in> set (blocks P)" using B sp by blast
    then have "u' \<le> n'" using geometryD [OF g] by (auto simp: B')
    moreover note taken_within [of s ?sz b' n' u'] sB w [OF s] sz
    ultimately show False by (auto simp: B' apart_def extent_of_def)
  qed
  have same: "s \<notin> taken ?sz (b, n, u)" if "s \<in> ?new" for s
    using that sz by (auto simp: taken_def slot_range_set)
  show "?new \<inter> issued P = {}" unfolding issued_def sp using other same by blast
qed

section \<open>Refill\<close>

definition batch_ok :: "pool \<Rightarrow> nat list \<Rightarrow> batch \<Rightarrow> bool" where
  "batch_ok P xs B = (case B of (h, tail, moved) \<Rightarrow>
     (\<exists>e. path (link P) h xs e) \<and> moved = length xs \<and> (h = 0 \<longleftrightarrow> xs = []) \<and> (xs \<noteq> [] \<longrightarrow> tail = last xs))"

lemma slab_invD:
  assumes "slab_inv P c"
  shows "geometry P" "parted (issued P) c" "path (link P) (sharedHead P) (c Shared) 0"
    "path (link P) (c_head (caches P t)) (c (Cached t)) 0" "c_count (caches P t) = length (c (Cached t))"
  using assms by (auto simp: slab_inv_def lists_ok_def)

lemma slab_invI:
  assumes "geometry P" "parted (issued P) c" "path (link P) (sharedHead P) (c Shared) 0"
    "\<And>t. path (link P) (c_head (caches P t)) (c (Cached t)) 0" "\<And>t. c_count (caches P t) = length (c (Cached t))"
  shows "slab_inv P c"
  using assms by (auto simp: slab_inv_def lists_ok_def)

lemma slab_same_blocks:
  assumes "SLOT P' = SLOT P" and "blocks P' = blocks P"
  shows "geometry P' = geometry P" and "issued P' = issued P"
  using assms by (simp_all add: geometry_def issued_def)

lemma refill_shared_spec:
  assumes I: "slab_inv P c" and b: "c Batch = []" and r: "refill_shared P = (B, P')"
  shows "slab_inv P' (c(Shared := drop BATCH (c Shared), Batch := take BATCH (c Shared)))" and "batch_ok P' (take BATCH (c Shared)) B"
proof -
  note D = slab_invD [OF I]
  let ?s = "c Shared" and ?e = "if BATCH < length (c Shared) then c Shared ! BATCH else 0"
  have cut: "path (link P) (sharedHead P) (take BATCH ?s) ?e" "path (link P) ?e (drop BATCH ?s) 0"
    using path_cut [OF D(3)] by auto
  have P': "P' = P\<lparr>sharedHead := ?e\<rparr>"
    and B: "B = (sharedHead P, if ?s = [] then 0 else last (take BATCH ?s), min BATCH (length ?s))"
    using r take_shared_spec [OF D(3), of BATCH 0] path_null [OF D(3)]
    by (auto simp: refill_shared_def BATCH_def split: if_splits prod.splits)
  have bl: "blocks P' = blocks P" "SLOT P' = SLOT P" "link P' = link P" "caches P' = caches P" "sharedHead P' = ?e"
    by (simp_all add: P' blocks_def)
  have pt: "parted (issued P) (c(Shared := drop BATCH ?s, Batch := take BATCH ?s))"
  proof (rule parted_move [OF D(2)])
    have "distinct (take BATCH ?s @ drop BATCH ?s)" using parted_distinct [OF D(2)] by simp
    then show "distinct (drop BATCH ?s @ take BATCH ?s)" unfolding distinct_append by blast
    show "set (drop BATCH ?s) \<union> set (take BATCH ?s) = set ?s \<union> set (c Batch)"
      using b by (metis append_take_drop_id set_append sup_commute sup_bot_right empty_set)
  qed simp
  show "slab_inv P' (c(Shared := drop BATCH ?s, Batch := take BATCH ?s))"
    by (rule slab_invI) (use D cut(2) pt in \<open>simp_all add: slab_same_blocks [OF bl(2,1)] bl(3-5)\<close>)
  show "batch_ok P' (take BATCH ?s) B"
    using cut(1) path_null [OF D(3)] by (auto simp: batch_ok_def B P' BATCH_def)
qed

text \<open>Linking fresh slots of block \<open>j\<close> in front of the batch.\<close>

lemma bump_keeps:
  assumes I: "slab_inv P c" and B: "batch_ok P (c Batch) (h, tail, m)"
    and j: "j < length (blocks P)" "blocks P ! j = (b, n, u)" and k: "u + k \<le> n"
    and bp: "bump (slot_range (SLOT P) b u k) (link P, h, tail) = (l, h', tail')"
    and P': "SLOT P' = SLOT P" "blocks P' = (blocks P)[j := (b, n, u + k)]" "link P' = l" "sharedHead P' = sharedHead P" "caches P' = caches P"
  shows "\<exists>new. length new = k \<and> slab_inv P' (c(Batch := new @ c Batch)) \<and> batch_ok P' (new @ c Batch) (h', tail', m + k)"
proof (intro exI conjI)
  let ?r = "slot_range (SLOT P) b u k"
  note D = slab_invD [OF I]
  note adv = cursor_advance [OF D(1) j k P'(1,2)]
  have d: "distinct ?r" using D(1) by (intro slot_range_distinct) (simp add: geometry_def)
  have out: "set ?r \<inter> set (c x) = {}" for x using adv(3) parted_issued [OF D(2)] by blast
  obtain e where e: "path (link P) h (c Batch) e" using B by (auto simp: batch_ok_def)
  have bs: "path l h' (rev ?r @ c Batch) e" "\<forall>s. s \<notin> set ?r \<longrightarrow> l s = link P s"
    "?r @ c Batch \<noteq> [] \<longrightarrow> tail' = last (rev ?r @ c Batch)" "h' = 0 \<longleftrightarrow> ?r @ c Batch = []"
    using bump_spec [OF e d out adv(4) bp] B by (auto simp: batch_ok_def)
  have keep: "path l x (c y) z = path (link P) x (c y) z" for x y z
    using bs(2) out [of y] by (intro path_cong) blast
  have pt: "parted (issued P') (c(Batch := rev ?r @ c Batch))"
    unfolding adv(2) using parted_grow [OF D(2), of "rev ?r" Batch] adv(3) d by simp
  show "length (rev ?r) = k" by simp
  show "slab_inv P' (c(Batch := rev ?r @ c Batch))"
    by (rule slab_invI) (use D adv(1) pt in \<open>simp_all add: P' keep\<close>)
  show "batch_ok P' (rev ?r @ c Batch) (h', tail', m + k)"
    using bs B by (auto simp: batch_ok_def P')
qed

lemma refill_bump_spec:
  assumes I: "slab_inv P c" and B: "batch_ok P (c Batch) B" and r: "refill_bump B P = (B', P')"
  shows "\<exists>new. slab_inv P' (c(Batch := new @ c Batch)) \<and> batch_ok P' (new @ c Batch) B'
           \<and> length new = (if length (c Batch) < BATCH then min (BATCH - length (c Batch)) (memSlots P - bumpNext P) else 0)"
proof -
  obtain h tail m where B': "B = (h, tail, m)" by (cases B)
  have m: "m = length (c Batch)" using B by (simp add: B' batch_ok_def)
  show ?thesis
  proof (cases "m < BATCH \<and> bumpNext P < memSlots P")
    case True
    let ?k = "min (BATCH - m) (memSlots P - bumpNext P)"
    obtain l h' tail' where bp: "bump (slot_range (SLOT P) (mem P) (bumpNext P) ?k) (link P, h, tail) = (l, h', tail')"
      by (metis prod_cases3)
    have P': "P' = P\<lparr>link := l, bumpNext := bumpNext P + ?k\<rparr>" and Bn: "B' = (h', tail', m + ?k)"
      using r True bp by (auto simp: refill_bump_def B' Let_def)
    have kb: "bumpNext P + ?k \<le> memSlots P" using True by (auto simp: min_def)
    have "\<exists>new. length new = ?k \<and> slab_inv P' (c(Batch := new @ c Batch)) \<and> batch_ok P' (new @ c Batch) B'"
      unfolding Bn by (rule bump_keeps [OF I B [unfolded B'], of 0, OF _ _ kb bp]) (simp_all add: P' blocks_def)
    then show ?thesis using True m by auto
  next
    case False
    then have "B' = B" "P' = P" using r by (auto simp: refill_bump_def B')
    then show ?thesis using I B False m by (intro exI [of _ "[]"]) (auto simp: fun_upd_idem)
  qed
qed

text \<open>Memory the allocation of an extent may return: apart from every block of the pool, and not null.\<close>

definition fresh_block :: "pool \<Rightarrow> nat \<Rightarrow> bool" where
  "fresh_block P b = (b > 0 \<and> list_all (\<lambda>B. apart (SLOT P) (b, kGrowSlots) (extent_of B)) (blocks P))"

fun fresh_ok :: "pool \<Rightarrow> nat option \<Rightarrow> bool" where
  "fresh_ok P None = True"
| "fresh_ok P (Some b) = fresh_block P b"

lemma free_extent_spec:
  "free_extent es = Some i \<Longrightarrow> i < length es \<and> x_bumpNext (es ! i) < x_slots (es ! i)"
  by (induction es arbitrary: i) (auto split: if_splits)

lemma sorted_wrt_insert_second: "sorted_wrt R (x # xs) \<Longrightarrow> R x y \<Longrightarrow> list_all (R y) xs \<Longrightarrow> sorted_wrt R (x # y # xs)"
  by (auto simp: list_all_iff)

lemma apart_sym: "apart sz A B = apart sz B A"
  by (auto simp: apart_def)

lemma grow_extent_spec:
  assumes I: "slab_inv P c" and a: "fresh_ok P a" and r: "grow_extent a P = (i, P')"
  shows "slab_inv P' c" and "link P' = link P"
    and "i = None \<longleftrightarrow> free_extent (extents P) = None \<and> a = None"
    and "\<And>j. i = Some j \<Longrightarrow> j < length (extents P') \<and> x_bumpNext (extents P' ! j) < x_slots (extents P' ! j)"
proof -
  note D = slab_invD [OF I]
  show "link P' = link P" and "i = None \<longleftrightarrow> free_extent (extents P) = None \<and> a = None"
    and "\<And>j. i = Some j \<Longrightarrow> j < length (extents P') \<and> x_bumpNext (extents P' ! j) < x_slots (extents P' ! j)"
    using r free_extent_spec by (auto simp: grow_extent_def kGrowSlots_def split: option.splits)
  have new: "geometry P' \<and> issued P' = issued P"
    if f: "free_extent (extents P) = None" "a = Some b" for b
  proof -
    have P': "P' = P\<lparr>grewOnce := True, extents := \<lparr>x_mem = b, x_slots = kGrowSlots, x_bumpNext = 0\<rparr> # extents P\<rparr>"
      using r f by (simp add: grow_extent_def)
    have fb: "b > 0" "apart (SLOT P) (mem P, memSlots P) (b, kGrowSlots)"
      "list_all (apart (SLOT P) (b, kGrowSlots)) (map extent_of (map (\<lambda>e. (x_mem e, x_slots e, x_bumpNext e)) (extents P)))"
      using a by (auto simp: f(2) fresh_block_def blocks_def extent_of_def apart_sym list_all_iff)
    have "sorted_wrt (apart (SLOT P)) (map extent_of (blocks P'))"
      using sorted_wrt_insert_second [OF _ fb(2,3)] D(1) by (simp add: geometry_def blocks_def P' extent_of_def)
    moreover have "\<forall>(b, n, u) \<in> set (blocks P'). u \<le> n \<and> (n > 0 \<longrightarrow> b > 0)"
      using D(1) fb(1) by (auto simp: geometry_def blocks_def P')
    ultimately have "geometry P'" using D(1) by (simp add: geometry_def P')
    moreover have "issued P' = issued P" by (auto simp: issued_def blocks_def P' taken_def)
    ultimately show ?thesis ..
  qed
  have "geometry P' \<and> issued P' = issued P"
  proof (cases "free_extent (extents P) = None \<and> a \<noteq> None")
    case False
    then have "SLOT P' = SLOT P \<and> blocks P' = blocks P"
      using r by (auto simp: grow_extent_def blocks_def split: option.splits)
    then show ?thesis using D(1) slab_same_blocks [of P' P] by simp
  qed (use new in auto)
  moreover have "link P' = link P" "sharedHead P' = sharedHead P" "caches P' = caches P"
    using r by (auto simp: grow_extent_def split: option.splits)
  ultimately show "slab_inv P' c" using D by (intro slab_invI) auto
qed

lemma refill_grow_spec:
  assumes I: "slab_inv P c" and B: "batch_ok P (c Batch) B" and a: "fresh_ok P a"
    and r: "refill_grow a B P = (B', P')"
  shows "\<exists>new. slab_inv P' (c(Batch := new @ c Batch)) \<and> batch_ok P' (new @ c Batch) B'
           \<and> length (new @ c Batch) \<le> max BATCH (length (c Batch))
           \<and> (new @ c Batch = [] \<longleftrightarrow> c Batch = [] \<and> (\<not> growth P \<or> free_extent (extents P) = None \<and> a = None))"
proof -
  obtain h tail m where B': "B = (h, tail, m)" by (cases B)
  have m: "m = length (c Batch)" using B by (simp add: B' batch_ok_def)
  obtain i Q where g: "grow_extent a P = (i, Q)" by (cases "grow_extent a P")
  note G = grow_extent_spec [OF I a g]
  have BQ: "batch_ok Q (c Batch) B" using B G(2) by (simp add: batch_ok_def)
  show ?thesis
  proof (cases "m = 0 \<and> growth P \<and> i \<noteq> None")
    case True
    then obtain j where j: "i = Some j" by auto
    define e where "e = extents Q ! j"
    define k where "k = min BATCH (x_slots e - x_bumpNext e)"
    have lt: "j < length (extents Q)" "x_bumpNext e < x_slots e" using G(4) [OF j] by (auto simp: e_def)
    obtain l h' tail' where bp: "bump (slot_range (SLOT Q) (x_mem e) (x_bumpNext e) k) (link Q, h, tail) = (l, h', tail')"
      by (metis prod_cases3)
    have P': "P' = Q\<lparr>link := l, extents := (extents Q)[j := e\<lparr>x_bumpNext := x_bumpNext e + k\<rparr>]\<rparr>" and Bn: "B' = (h', tail', m + k)"
      using r True g bp by (auto simp: refill_grow_def B' j Let_def e_def k_def)
    have kb: "x_bumpNext e + k \<le> x_slots e" using lt by (auto simp: k_def min_def)
    have "\<exists>new. length new = k \<and> slab_inv P' (c(Batch := new @ c Batch)) \<and> batch_ok P' (new @ c Batch) B'"
      unfolding Bn by (rule bump_keeps [OF G(1) BQ [unfolded B'], of "Suc j", OF _ _ kb bp])
        (use lt in \<open>simp_all add: P' blocks_def e_def map_update\<close>)
    then show ?thesis using True m lt G(3) by (auto simp: k_def BATCH_def)
  next
    case False
    then have "B' = B \<and> (P' = P \<or> P' = Q)" using r g by (auto simp: refill_grow_def B' split: if_splits)
    then show ?thesis using I G(1,3) B BQ False m by (intro exI [of _ "[]"]) (auto simp: fun_upd_idem)
  qed
qed

lemma splice_spec:
  assumes I: "slab_inv P c" and B: "batch_ok P (c Batch) B"
  shows "slab_inv (splice t B P) (c(Cached t := c Batch @ c (Cached t), Batch := []))"
proof (cases "c Batch = []")
  case True
  then have "splice t B P = P" using B by (auto simp: splice_def batch_ok_def split: prod.splits)
  moreover have "c(Cached t := c Batch @ c (Cached t), Batch := []) = c" using True by auto
  ultimately show ?thesis using I by simp
next
  case False
  note D = slab_invD [OF I]
  obtain h tail m where B': "B = (h, tail, m)" by (cases B)
  then obtain e where b: "path (link P) h (c Batch) e" "m = length (c Batch)" "tail = last (c Batch)" "h \<noteq> 0"
    using B False by (auto simp: batch_ok_def)
  let ?P = "splice t B P" and ?l = "(link P)(tail := c_head (caches P t))"
  have P': "?P = P\<lparr>link := ?l, caches := (caches P)(t := \<lparr>c_head = h, c_count = c_count (caches P t) + m\<rparr>)\<rparr>"
    using b(4) by (simp add: splice_def B')
  have bl: "SLOT ?P = SLOT P" "blocks ?P = blocks P" by (simp_all add: P' blocks_def)
  have tail: "tail \<in> set (c Batch)" using b(3) False by simp
  have off: "tail \<notin> set (c x)" if "x \<noteq> Batch" for x using parted_disj [OF D(2) _ tail] that by metis
  have join: "path ?l h (c Batch @ c (Cached t)) 0"
    unfolding b(3) using path_relink [OF b(1) False parted_distinct [OF D(2)] D(4)] parted_disj [OF D(2)] by blast
  have pt: "parted (issued P) (c(Cached t := c Batch @ c (Cached t), Batch := []))"
    using parted_distinct [OF D(2)] parted_disj [OF D(2), of Batch "Cached t"] by (intro parted_move [OF D(2)]) auto
  show ?thesis
    by (rule slab_invI) (use D off pt join b(2) in \<open>simp_all add: slab_same_blocks [OF bl], simp_all add: P'\<close>)
qed

text \<open>When a refill finds nothing.\<close>

definition exhausted :: "nat option \<Rightarrow> pool \<Rightarrow> bool" where
  "exhausted a P = (mem P = 0 \<or> (sharedHead P = 0 \<and> bumpNext P \<ge> memSlots P
     \<and> (\<not> growth P \<or> free_extent (extents P) = None \<and> a = None)))"

lemma refill_shared_frame: "refill_shared P = (B, P') \<Longrightarrow> \<exists>h. P' = P\<lparr>sharedHead := h\<rparr>"
  by (auto simp: refill_shared_def split: if_splits prod.splits) (metis pool.surjective pool.update_convs(7))

lemma pool_upd_same: "P = P\<lparr>link := link P, bumpNext := bumpNext P\<rparr>"
  by simp

lemma refill_bump_frame: "refill_bump B P = (B', P') \<Longrightarrow> \<exists>l n. P' = P\<lparr>link := l, bumpNext := n\<rparr>"
  by (auto simp: refill_bump_def Let_def split: if_splits prod.splits) (metis pool_upd_same)+

lemma refill_spec:
  assumes I: "slab_inv P c" and b: "c Batch = []" and a: "fresh_ok P a"
  shows "\<exists>new s. slab_inv (refill t a P) (c(Shared := s, Cached t := new @ c (Cached t))) \<and> length new \<le> BATCH
               \<and> (new = [] \<longleftrightarrow> exhausted a P)"
proof (cases "mem P = 0")
  case True
  then show ?thesis using I by (intro exI [of _ "[]"] exI [of _ "c Shared"]) (simp add: refill_def exhausted_def)
next
  case False
  obtain B1 P1 where r1: "refill_shared P = (B1, P1)" by (cases "refill_shared P")
  obtain B2 P2 where r2: "refill_bump B1 P1 = (B2, P2)" by (cases "refill_bump B1 P1")
  obtain B3 P3 where r3: "refill_grow a B2 P2 = (B3, P3)" by (cases "refill_grow a B2 P2")
  have R: "refill t a P = splice t B3 P3" using False r1 r2 r3 by (simp add: refill_def)
  define c1 where "c1 = c(Shared := drop BATCH (c Shared), Batch := take BATCH (c Shared))"
  have s1: "slab_inv P1 c1" "batch_ok P1 (c1 Batch) B1"
    using refill_shared_spec [OF I b r1] by (simp_all add: c1_def)
  obtain n2 where s2: "slab_inv P2 (c1(Batch := n2 @ c1 Batch))" "batch_ok P2 (n2 @ c1 Batch) B2"
    "length n2 = (if length (c1 Batch) < BATCH then min (BATCH - length (c1 Batch)) (memSlots P1 - bumpNext P1) else 0)"
    using refill_bump_spec [OF s1 r2] by auto
  obtain h where P1: "P1 = P\<lparr>sharedHead := h\<rparr>" using refill_shared_frame [OF r1] by blast
  obtain l n where P2: "P2 = P\<lparr>sharedHead := h, link := l, bumpNext := n\<rparr>" using refill_bump_frame [OF r2] P1 by auto
  have ext: "extents P2 = extents P" "growth P2 = growth P" by (simp_all add: P2)
  have a2: "fresh_ok P2 a"
    using a by (cases a) (simp_all add: fresh_block_def P2 blocks_def extent_of_def)
  define c2 where "c2 = c1(Batch := n2 @ c1 Batch)"
  have s2': "slab_inv P2 c2" "batch_ok P2 (c2 Batch) B2" using s2(1,2) by (simp_all add: c2_def)
  have b2: "c2 Batch = n2 @ c1 Batch" by (simp add: c2_def)
  obtain n3 where s3: "slab_inv P3 (c2(Batch := n3 @ c2 Batch))" "batch_ok P3 (n3 @ c2 Batch) B3"
    "length (n3 @ c2 Batch) \<le> max BATCH (length (c2 Batch))"
    "n3 @ c2 Batch = [] \<longleftrightarrow> c2 Batch = [] \<and> (\<not> growth P \<or> free_extent (extents P) = None \<and> a = None)"
    using refill_grow_spec [OF s2' a2 r3] unfolding ext by blast
  have sp: "slab_inv (refill t a P) ((c2(Batch := n3 @ c2 Batch))(Cached t := (n3 @ c2 Batch) @ c (Cached t), Batch := []))"
    using splice_spec [OF s3(1), of B3 t] s3(2) by (simp add: R c2_def c1_def)
  have c': "(c2(Batch := n3 @ c2 Batch))(Cached t := (n3 @ c2 Batch) @ c (Cached t), Batch := [])
            = c(Shared := drop BATCH (c Shared), Cached t := (n3 @ c2 Batch) @ c (Cached t))"
    using b by (auto simp: c2_def c1_def)
  have len: "length (n3 @ c2 Batch) \<le> BATCH" using s3(3) s2(3) by (auto simp: b2 c1_def min_def split: if_splits)
  have none: "c2 Batch = [] \<longleftrightarrow> sharedHead P = 0 \<and> bumpNext P \<ge> memSlots P"
    using s2(3) path_null [OF slab_invD(3) [OF I]] by (auto simp: b2 c1_def P1 BATCH_def min_def split: if_splits)
  show ?thesis using sp len s3(4) none False unfolding c' exhausted_def by (intro exI) blast
qed

section \<open>Operations\<close>

text \<open>The counters are separate from the lists.\<close>

lemma liveAdd_frame:
  "\<exists>lv nx rf. liveAdd t d P = P\<lparr>s_live := lv, s_liveNext := nx, live_ref := rf\<rparr>"
proof -
  obtain i Q where s: "liveSlot t P = (i, Q)" by (cases "liveSlot t P")
  then have Q: "Q = P\<lparr>s_liveNext := s_liveNext Q, live_ref := live_ref Q\<rparr>" by (auto simp: liveSlot_def split: option.splits)
  obtain lv where "liveAdd t d P = Q\<lparr>s_live := lv\<rparr>" using s by (auto simp: liveAdd_def Let_def)
  also have "\<dots> = P\<lparr>s_live := lv, s_liveNext := s_liveNext Q, live_ref := live_ref Q\<rparr>" by (subst Q) simp
  finally show ?thesis by blast
qed

lemma liveAdd_inv: "slab_inv (liveAdd t d P) c = slab_inv P c"
proof -
  obtain lv nx rf where P': "liveAdd t d P = P\<lparr>s_live := lv, s_liveNext := nx, live_ref := rf\<rparr>" using liveAdd_frame by blast
  show ?thesis by (simp add: P' slab_inv_def geometry_def issued_def blocks_def lists_ok_def)
qed

lemma liveAdd_sel [simp]:
  "caches (liveAdd t d P) = caches P" "link (liveAdd t d P) = link P" "sharedHead (liveAdd t d P) = sharedHead P"
  "blocks (liveAdd t d P) = blocks P" "SLOT (liveAdd t d P) = SLOT P" "mem (liveAdd t d P) = mem P"
  "memSlots (liveAdd t d P) = memSlots P" "extents (liveAdd t d P) = extents P" "bumpNext (liveAdd t d P) = bumpNext P"
  using liveAdd_frame [of t d P] by (auto simp: blocks_def)

lemma sum_list_add_at: "i < length xs \<Longrightarrow> sum_list (xs[i := xs ! i + d]) = sum_list xs + (d :: int)"
proof (induction xs arbitrary: i)
  case (Cons x xs)
  then show ?case by (cases i) auto
qed simp

lemma liveAdd_count:
  assumes "length (s_live P) = kLiveSlots"
  shows "length (s_live (liveAdd t d P)) = kLiveSlots" and "LiveCount (liveAdd t d P) = LiveCount P + d"
proof -
  obtain i Q where s: "liveSlot t P = (i, Q)" by (cases "liveSlot t P")
  then have i: "i < length (s_live P)" "s_live Q = s_live P"
    using assms by (auto simp: liveSlot_def kLiveSlots_def split: option.splits)
  obtain pk where u: "s_live (liveAdd t d P) = (s_live P)[i := \<lparr>lc_v = lc_v (s_live P ! i) + d, lc_peak = pk\<rparr>]"
    using s i(2) by (auto simp: liveAdd_def Let_def)
  have "sum_list (map lc_v (s_live (liveAdd t d P))) = sum_list ((map lc_v (s_live P))[i := map lc_v (s_live P) ! i + d])"
    using i(1) by (simp add: u map_update)
  also have "\<dots> = sum_list (map lc_v (s_live P)) + d"
    using i(1) by (intro sum_list_add_at) simp
  finally show "LiveCount (liveAdd t d P) = LiveCount P + d" by (simp add: LiveCount_def)
  show "length (s_live (liveAdd t d P)) = kLiveSlots" using assms by (simp add: u)
qed

lemma Alloc_spec:
  assumes I: "slab_inv P c" and b: "c Batch = []" and a: "fresh_ok P a" and r: "Alloc t a P = (p, P')"
  shows "if p = 0 then (\<exists>s. slab_inv P' (c(Shared := s))) \<and> c (Cached t) = [] \<and> exhausted a P
         else \<exists>s rest. slab_inv P' (c(Shared := s, Cached t := rest, Held := p # c Held)) \<and> length rest \<le> max BATCH (length (c (Cached t)))
                     \<and> \<not> (c (Cached t) = [] \<and> exhausted a P)"
proof -
  define Q where "Q = (if c_head (caches P t) = 0 then refill t a P else P)"
  have hd0: "c_head (caches P t) = 0 \<longleftrightarrow> c (Cached t) = []" by (rule path_null [OF slab_invD(4) [OF I]])
  have "\<exists>s xs. slab_inv Q (c(Shared := s, Cached t := xs)) \<and> length xs \<le> max BATCH (length (c (Cached t)))
          \<and> (xs = [] \<longleftrightarrow> c (Cached t) = [] \<and> exhausted a P)"
  proof (cases "c (Cached t) = []")
    case True
    then show ?thesis using refill_spec [OF I b a, of t] hd0 by (auto simp: Q_def)
  next
    case False
    then show ?thesis using I hd0 by (intro exI [of _ "c Shared"] exI [of _ "c (Cached t)"]) (simp add: Q_def)
  qed
  then obtain s xs where Q: "slab_inv Q (c(Shared := s, Cached t := xs))" "length xs \<le> max BATCH (length (c (Cached t)))"
    "xs = [] \<longleftrightarrow> c (Cached t) = [] \<and> exhausted a P" by blast
  let ?c = "c(Shared := s, Cached t := xs)" and ?h = "c_head (caches Q t)"
  note D = slab_invD [OF Q(1)]
  have h: "path (link Q) ?h xs 0" "c_count (caches Q t) = length xs" using D(4,5) [of t] by simp_all
  show ?thesis
  proof (cases xs)
    case Nil
    then have "p = 0" "P' = Q" "c(Shared := s, Cached t := xs) = c(Shared := s)"
      using r h Q(3) by (auto simp: Alloc_def Q_def [symmetric] Let_def)
    then show ?thesis using Q Nil by auto
  next
    case (Cons x ys)
    with h have x: "?h = x" "x \<noteq> 0" "path (link Q) (link Q x) ys 0" by auto
    have p: "p = x" and P': "P' = liveAdd t 1 (Q\<lparr>caches := (caches Q)(t := \<lparr>c_head = link Q x, c_count = length ys\<rparr>)\<rparr>)"
      using r x h(2) by (auto simp: Alloc_def Q_def [symmetric] Let_def Cons)
    let ?Q = "Q\<lparr>caches := (caches Q)(t := \<lparr>c_head = link Q x, c_count = length ys\<rparr>)\<rparr>"
    have bl: "SLOT ?Q = SLOT Q" "blocks ?Q = blocks Q" by (simp_all add: blocks_def)
    have pt: "parted (issued Q) (?c(Cached t := ys, Held := x # c Held))"
      using parted_distinct [OF D(2), of "Cached t"] parted_distinct [OF D(2), of Held] parted_disj [OF D(2), of "Cached t" Held]
      by (intro parted_move [OF D(2)]) (auto simp: Cons)
    have oth: "path (link Q) (c_head (caches Q u)) (c (Cached u)) 0 \<and> c_count (caches Q u) = length (c (Cached u))" if "u \<noteq> t" for u
      using D(4,5) [of u] that by simp
    have "slab_inv ?Q (?c(Cached t := ys, Held := x # c Held))"
      by (rule slab_invI) (use D(1,3) pt x oth in \<open>simp_all add: slab_same_blocks [OF bl]\<close>)
    then have "slab_inv P' (c(Shared := s, Cached t := ys, Held := p # c Held))" by (simp add: P' p liveAdd_inv)
    moreover have "length ys \<le> max BATCH (length (c (Cached t)))" "\<not> (c (Cached t) = [] \<and> exhausted a P)"
      using Q(2,3) Cons by auto
    ultimately have "\<exists>s rest. slab_inv P' (c(Shared := s, Cached t := rest, Held := p # c Held))
      \<and> length rest \<le> max BATCH (length (c (Cached t))) \<and> \<not> (c (Cached t) = [] \<and> exhausted a P)" by blast
    then show ?thesis using x(2) p by simp
  qed
qed

lemma last_take_nth: "0 < n \<Longrightarrow> n \<le> length xs \<Longrightarrow> last (take n xs) = xs ! (n - 1)"
  by (subst last_conv_nth) (auto simp: min_def)

lemma issued_pos: "geometry P \<Longrightarrow> s \<in> issued P \<Longrightarrow> s > 0"
  using geometryD by (fastforce simp: issued_def taken_def)

lemma flush_spec:
  assumes I: "slab_inv P c"
  shows "\<exists>s. slab_inv (flush t P) (c(Shared := s, Cached t := drop (length (c (Cached t)) - BATCH) (c (Cached t))))"
proof (cases "length (c (Cached t)) \<le> BATCH")
  case True
  then have "flush t P = P" using slab_invD(5) [OF I] by (simp add: flush_def)
  then show ?thesis using I True by (intro exI [of _ "c Shared"]) simp
next
  case False
  note D = slab_invD [OF I]
  let ?xs = "c (Cached t)" and ?n = "length (c (Cached t)) - BATCH" and ?h = "c_head (caches P t)"
  let ?m = "take ?n ?xs"
  have n: "0 < ?n" "?n < length ?xs" using False by (auto simp: BATCH_def)
  have last: "walk (link P) (?n - 1) ?h = last ?m"
    using walk_spec [OF D(4) [of t], of "?n - 1"] n by (simp add: last_take_nth)
  have cut: "path (link P) ?h ?m (?xs ! ?n)" "path (link P) (?xs ! ?n) (drop ?n ?xs) 0"
    using path_cut [OF D(4) [of t], of ?n] n by auto
  have m: "?m \<noteq> []" "distinct ?m" "set ?m \<subseteq> set ?xs" using n parted_distinct [OF D(2)] by (auto dest: in_set_takeD)
  have nxt: "link P (last ?m) = ?xs ! ?n"
  proof -
    obtain zs where "?m = zs @ [last ?m]" using m(1) by (metis append_butlast_last_id)
    then show ?thesis using cut(1) path_append [of "link P" ?h zs "[last ?m]" "?xs ! ?n"] by simp
  qed
  let ?P = "flush t P" and ?l = "(link P)(last ?m := sharedHead P)"
  have P': "?P = P\<lparr>caches := (caches P)(t := \<lparr>c_head = ?xs ! ?n, c_count = BATCH\<rparr>), link := ?l, sharedHead := ?h\<rparr>"
    using False last nxt D(5) [of t] by (simp add: flush_def Let_def)
  have bl: "SLOT ?P = SLOT P" "blocks ?P = blocks P" by (simp_all add: P' blocks_def)
  have lm: "last ?m \<in> set ?xs" using m(1,3) last_in_set by blast
  have off: "last ?m \<notin> set (c x)" if "x \<noteq> Cached t" for x using parted_disj [OF D(2) _ lm] that by metis
  have dd: "distinct (?m @ drop ?n ?xs)" using parted_distinct [OF D(2), of "Cached t"] by simp
  then have off': "last ?m \<notin> set (drop ?n ?xs)" using last_in_set [OF m(1)] unfolding distinct_append by blast
  have join: "path ?l ?h (?m @ c Shared) 0"
    using path_relink [OF cut(1) m(1,2) D(3)] m(3) parted_disj [OF D(2), of "Cached t" Shared] by blast
  have pt: "parted (issued P) (c(Shared := ?m @ c Shared, Cached t := drop ?n ?xs))"
  proof (rule parted_move [OF D(2)])
    have u: "set ?m \<union> set (drop ?n ?xs) = set ?xs" by (metis append_take_drop_id set_append)
    then show "set (?m @ c Shared) \<union> set (drop ?n ?xs) = set (c Shared) \<union> set ?xs" by auto
    have "set (c Shared) \<inter> set ?xs = {}" using parted_disj [OF D(2), of Shared "Cached t"] by blast
    then show "distinct ((?m @ c Shared) @ drop ?n ?xs)"
      using dd u parted_distinct [OF D(2), of Shared] unfolding distinct_append set_append by blast
  qed simp
  have oth: "path ?l (c_head (caches P u)) (c (Cached u)) 0" if "u \<noteq> t" for u
    using D(4) [of u] off [of "Cached u"] that by simp
  have "slab_inv ?P (c(Shared := ?m @ c Shared, Cached t := drop ?n ?xs))"
    by (rule slab_invI) (use D(1,5) pt join cut(2) oth off' n in \<open>simp_all add: slab_same_blocks [OF bl], simp_all add: P'\<close>)
  then show ?thesis by blast
qed

lemma Free_spec:
  assumes I: "slab_inv P c" and s: "s \<in> set (c Held)"
  shows "\<exists>sh xs. slab_inv (Free t s P) (c(Held := remove1 s (c Held), Shared := sh, Cached t := xs))
               \<and> length xs \<le> max (2 * BATCH) (length (c (Cached t)))"
proof -
  note D = slab_invD [OF I]
  define Q where "Q = P\<lparr>link := (link P)(s := c_head (caches P t)), caches := (caches P)(t := \<lparr>c_head = s, c_count = c_count (caches P t) + 1\<rparr>)\<rparr>"
  let ?c = "c(Held := remove1 s (c Held), Cached t := s # c (Cached t))"
  have bl: "SLOT Q = SLOT P" "blocks Q = blocks P" by (simp_all add: Q_def blocks_def)
  have off: "s \<notin> set (c x)" if "x \<noteq> Held" for x using parted_disj [OF D(2) _ s] that by metis
  have s0: "s \<noteq> 0" using issued_pos [OF D(1) parted_issued [OF D(2) s]] by simp
  have pt: "parted (issued P) ?c"
    using parted_distinct [OF D(2), of Held] parted_distinct [OF D(2), of "Cached t"] parted_disj [OF D(2), of Held "Cached t"] off s
    by (intro parted_move [OF D(2)]) (auto simp: set_remove1_eq)
  have "slab_inv Q ?c"
    by (rule slab_invI) (use D pt off s0 in \<open>simp_all add: slab_same_blocks [OF bl], simp_all add: Q_def\<close>)
  then have L: "slab_inv (liveAdd t (-1) Q) ?c" by (simp add: liveAdd_inv)
  show ?thesis
  proof (cases "length (c (Cached t)) + 1 > 2 * BATCH")
    case True
    then have F: "Free t s P = flush t (liveAdd t (-1) Q)" using D(5) [of t] by (simp add: Free_def Let_def Q_def)
    obtain sh where "slab_inv (Free t s P) (?c(Shared := sh, Cached t := drop (Suc (length (c (Cached t))) - BATCH) (s # c (Cached t))))"
      using flush_spec [OF L, of t] by (auto simp: F)
    then show ?thesis
      by (intro exI [of _ sh] exI [of _ "drop (Suc (length (c (Cached t))) - BATCH) (s # c (Cached t))"]) (simp add: fun_upd_twist)
  next
    case False
    then have "Free t s P = liveAdd t (-1) Q" using D(5) [of t] by (simp add: Free_def Let_def Q_def)
    then show ?thesis using L False by (intro exI [of _ "c Shared"] exI [of _ "s # c (Cached t)"]) (simp add: fun_upd_twist)
  qed
qed

lemma Prefault_spec:
  assumes I: "slab_inv P c"
  shows "\<exists>s. slab_inv (Prefault n P) (c(Shared := s))"
proof (cases "mem P = 0")
  case True
  then show ?thesis using I by (intro exI [of _ "c Shared"]) (simp add: Prefault_def)
next
  case False
  note D = slab_invD [OF I]
  let ?k = "min n (memSlots P - bumpNext P)"
  let ?r = "slot_range (SLOT P) (mem P) (bumpNext P) ?k"
  obtain l h where ps: "push_shared ?r (link P, sharedHead P) = (l, h)" by (metis surj_pair)
  have P': "Prefault n P = P\<lparr>link := l, sharedHead := h, bumpNext := bumpNext P + ?k\<rparr>"
    using False ps by (simp add: Prefault_def Let_def)
  have kb: "bumpNext P + ?k \<le> memSlots P"
    using geometryD [OF D(1), of "mem P" "memSlots P" "bumpNext P"] by (auto simp: blocks_def min_def)
  have bl: "SLOT (Prefault n P) = SLOT P" "blocks (Prefault n P) = (blocks P)[0 := (mem P, memSlots P, bumpNext P + ?k)]"
    by (simp_all add: P' blocks_def)
  note adv = cursor_advance [OF D(1) _ _ kb bl]
  have A: "geometry (Prefault n P)" "issued (Prefault n P) = issued P \<union> set ?r" "set ?r \<inter> issued P = {}" "0 \<notin> set ?r"
    using adv by (simp_all add: blocks_def)
  have d: "distinct ?r" using D(1) by (intro slot_range_distinct) (simp add: geometry_def)
  have out: "set ?r \<inter> set (c x) = {}" for x using A(3) parted_issued [OF D(2)] by blast
  have S: "path l h (rev ?r @ c Shared) 0" "\<forall>s. s \<notin> set ?r \<longrightarrow> l s = link P s"
    using push_shared_spec [OF D(3) d out A(4) ps] by auto
  have keep: "path l x (c y) z = path (link P) x (c y) z" for x y z
    using S(2) out [of y] by (intro path_cong) blast
  have pt: "parted (issued (Prefault n P)) (c(Shared := rev ?r @ c Shared))"
    unfolding A(2) using parted_grow [OF D(2), of "rev ?r" Shared] A(3) d by simp
  have "link (Prefault n P) = l" "sharedHead (Prefault n P) = h" "caches (Prefault n P) = caches P" by (simp_all add: P')
  then have "slab_inv (Prefault n P) (c(Shared := rev ?r @ c Shared))"
    using D A(1) pt S(1) by (intro slab_invI) (simp_all add: keep)
  then show ?thesis by blast
qed

lemma new_inv:
  assumes "SlabPool_new 0 sz b slots lazy = Some P" and "sz > 0" and "b > 0"
  shows "\<exists>s. slab_inv P ((\<lambda>_. [])(Shared := s)) \<and> length (s_live P) = kLiveSlots \<and> LiveCount P = 0 \<and> SLOT P = sz"
proof -
  obtain Q where Q: "SlabPool_new 0 sz b slots True = Some Q" by (simp add: SlabPool_new_def Let_def)
  have f: "P = Q \<or> P = Prefault slots Q" using assms(1) Q by (auto simp: SlabPool_new_def Let_def split: if_splits)
  have I: "slab_inv Q (\<lambda>_. [])"
    using Q assms(2,3) by (auto simp: SlabPool_new_def Let_def slab_inv_def geometry_def lists_ok_def parted_def issued_def blocks_def taken_def)
  have L: "length (s_live Q) = kLiveSlots \<and> LiveCount Q = 0 \<and> SLOT Q = sz"
    using Q by (auto simp: SlabPool_new_def Let_def LiveCount_def sum_list_replicate)
  have "s_live (Prefault slots Q) = s_live Q" "SLOT (Prefault slots Q) = SLOT Q"
    by (simp_all add: Prefault_def Let_def split: prod.splits)
  moreover have "slab_inv Q ((\<lambda>_. [])(Shared := []))" using I by (simp add: fun_upd_idem)
  ultimately show ?thesis using f L Prefault_spec [OF I, of slots] by (auto simp: LiveCount_def)
qed

section \<open>The system\<close>

text \<open>
  A pool in use: the slots its clients hold, and those that were in the cache of a thread when it ended (the cache is a plain
  \<^verbatim>\<open>thread_local\<close> structure, dropped with the thread). Any thread may free any slot it was given.
\<close>

record slab_sys =
  sp :: pool
  held :: "nat list"
  lost :: "nat list"

datatype slab_event = SAlloc nat "nat option" | SFree nat nat | SPrefault nat | SGrowth bool | SExit nat

fun slots_from :: "(nat \<Rightarrow> nat) \<Rightarrow> nat \<Rightarrow> nat \<Rightarrow> nat list" where
  "slots_from l 0 h = []"
| "slots_from l (Suc n) h = h # slots_from l n (l h)"

fun slab_step :: "slab_event \<Rightarrow> slab_sys \<Rightarrow> slab_sys option" where
  "slab_step (SAlloc t a) S =
     (if fresh_ok (sp S) a then
        (case Alloc t a (sp S) of (p, P) \<Rightarrow> Some (S\<lparr>sp := P, held := if p = 0 then held S else p # held S\<rparr>))
      else None)"
| "slab_step (SFree t s) S =
     (if s \<in> set (held S) then Some (S\<lparr>sp := Free t s (sp S), held := remove1 s (held S)\<rparr>) else None)"
| "slab_step (SPrefault n) S = Some (S\<lparr>sp := Prefault n (sp S)\<rparr>)"
| "slab_step (SGrowth g) S = Some (S\<lparr>sp := (sp S)\<lparr>growth := g\<rparr>\<rparr>)"
| "slab_step (SExit t) S = (let P = sp S; c = caches P t in
     Some (S\<lparr>sp := P\<lparr>caches := (caches P)(t := \<lparr>c_head = 0, c_count = 0\<rparr>), live_ref := (live_ref P)(t := None)\<rparr>,
             lost := slots_from (link P) (c_count c) (c_head c) @ lost S\<rparr>))"

definition slab_sys_inv :: "slab_sys \<Rightarrow> bool" where
  "slab_sys_inv S = ((\<exists>c. slab_inv (sp S) c \<and> c Batch = [] \<and> c Held = held S \<and> c Lost = lost S \<and> (\<forall>t. length (c (Cached t)) \<le> 2 * BATCH))
     \<and> length (s_live (sp S)) = kLiveSlots \<and> LiveCount (sp S) = int (length (held S)))"

definition slab_init :: "nat \<Rightarrow> nat \<Rightarrow> nat \<Rightarrow> bool \<Rightarrow> slab_sys" where
  "slab_init sz b slots lazy = \<lparr>sp = the (SlabPool_new 0 sz b slots lazy), held = [], lost = []\<rparr>"

lemma path_slots_from: "path l h xs 0 \<Longrightarrow> slots_from l (length xs) h = xs"
  by (induction xs arbitrary: h) auto

lemma slab_init_inv: "sz > 0 \<Longrightarrow> b > 0 \<Longrightarrow> slab_sys_inv (slab_init sz b slots lazy)"
  using new_inv [of sz b slots lazy] by (fastforce simp: slab_sys_inv_def slab_init_def SlabPool_new_def Let_def)

lemma refill_live: "s_live (refill t a P) = s_live P \<and> SLOT (refill t a P) = SLOT P"
proof (cases "mem P = 0")
  case False
  obtain B1 P1 where r1: "refill_shared P = (B1, P1)" by (cases "refill_shared P")
  obtain B2 P2 where r2: "refill_bump B1 P1 = (B2, P2)" by (cases "refill_bump B1 P1")
  obtain B3 P3 where r3: "refill_grow a B2 P2 = (B3, P3)" by (cases "refill_grow a B2 P2")
  have "s_live P2 = s_live P \<and> SLOT P2 = SLOT P" using refill_shared_frame [OF r1] refill_bump_frame [OF r2] by auto
  moreover have "s_live P3 = s_live P2 \<and> SLOT P3 = SLOT P2"
    using r3 by (auto simp: refill_grow_def grow_extent_def Let_def split: if_splits prod.splits option.splits)
  moreover have "refill t a P = splice t B3 P3" using False r1 r2 r3 by (simp add: refill_def)
  ultimately show ?thesis by (simp add: splice_def split: prod.splits)
qed (simp add: refill_def)

lemma Alloc_live:
  assumes "length (s_live P) = kLiveSlots" and "Alloc t a P = (p, P')"
  shows "length (s_live P') = kLiveSlots \<and> LiveCount P' = LiveCount P + (if p = 0 then 0 else 1)"
proof -
  define Q where "Q = (if c_head (caches P t) = 0 then refill t a P else P)"
  have Q: "s_live Q = s_live P" by (simp add: Q_def refill_live)
  show ?thesis
  proof (cases "c_head (caches Q t) = 0")
    case True
    then have "p = 0" "P' = Q" using assms(2) by (auto simp: Alloc_def Q_def [symmetric] Let_def)
    then show ?thesis using Q assms(1) by (simp add: LiveCount_def)
  next
    case False
    then obtain R where "p \<noteq> 0" "P' = liveAdd t 1 R" "s_live R = s_live Q"
      using assms(2) by (auto simp: Alloc_def Q_def [symmetric] Let_def)
    then show ?thesis using Q assms(1) liveAdd_count [of R t 1] by (simp add: LiveCount_def)
  qed
qed

lemma Free_live:
  assumes "length (s_live P) = kLiveSlots"
  shows "length (s_live (Free t s P)) = kLiveSlots \<and> LiveCount (Free t s P) = LiveCount P - 1"
proof -
  have f: "s_live (flush t Q) = s_live Q" for Q by (simp add: flush_def Let_def)
  obtain R where R: "s_live (Free t s P) = s_live (liveAdd t (-1) R)" "s_live R = s_live P"
    by (auto simp: Free_def Let_def f)
  show ?thesis using liveAdd_count [of R t "-1"] assms R by (simp add: LiveCount_def)
qed

lemma slab_sys_invD:
  assumes "slab_sys_inv S"
  obtains c where "slab_inv (sp S) c" "c Batch = []" "c Held = held S" "c Lost = lost S" "\<And>t. length (c (Cached t)) \<le> 2 * BATCH"
    "length (s_live (sp S)) = kLiveSlots" "LiveCount (sp S) = int (length (held S))"
  using assms by (auto simp: slab_sys_inv_def)

lemma slab_sys_invI:
  assumes "slab_inv (sp S) d" "d Batch = []" "d Held = held S" "d Lost = lost S" "\<And>t. length (d (Cached t)) \<le> 2 * BATCH"
    "length (s_live (sp S)) = kLiveSlots" "LiveCount (sp S) = int (length (held S))"
  shows "slab_sys_inv S"
  using assms by (auto simp: slab_sys_inv_def)

lemma alloc_keeps:
  assumes "slab_sys_inv S" and s: "slab_step (SAlloc t a) S = Some S'"
  shows "slab_sys_inv S'"
  using assms(1)
proof (rule slab_sys_invD)
  fix c
  assume c: "slab_inv (sp S) c" "c Batch = []" "c Held = held S" "c Lost = lost S" "\<And>t. length (c (Cached t)) \<le> 2 * BATCH"
    and L: "length (s_live (sp S)) = kLiveSlots" "LiveCount (sp S) = int (length (held S))"
  obtain p P where r: "Alloc t a (sp S) = (p, P)" by (cases "Alloc t a (sp S)")
  have a: "fresh_ok (sp S) a" and S': "S' = S\<lparr>sp := P, held := if p = 0 then held S else p # held S\<rparr>"
    using s r by (auto split: if_splits)
  have L': "length (s_live (sp S')) = kLiveSlots" "LiveCount (sp S') = int (length (held S'))"
    using Alloc_live [OF L(1) r] L by (simp_all add: S')
  show ?thesis
  proof (cases "p = 0")
    case True
    then obtain sh where d: "slab_inv P (c(Shared := sh))" using Alloc_spec [OF c(1,2) a r] by auto
    show ?thesis by (rule slab_sys_invI [of _ "c(Shared := sh)", OF _ _ _ _ _ L']) (use c d True in \<open>simp_all add: S'\<close>)
  next
    case False
    then obtain sh rest where d: "slab_inv P (c(Shared := sh, Cached t := rest, Held := p # c Held))"
      "length rest \<le> max BATCH (length (c (Cached t)))" using Alloc_spec [OF c(1,2) a r] by auto
    have "length rest \<le> 2 * BATCH" using d(2) c(5) [of t] by (simp add: BATCH_def)
    then show ?thesis
      by (intro slab_sys_invI [of _ "c(Shared := sh, Cached t := rest, Held := p # c Held)", OF _ _ _ _ _ L'])
        (use c d(1) False in \<open>simp_all add: S'\<close>)
  qed
qed

lemma free_keeps:
  assumes "slab_sys_inv S" and s: "slab_step (SFree t x) S = Some S'"
  shows "slab_sys_inv S'"
  using assms(1)
proof (rule slab_sys_invD)
  fix c
  assume c: "slab_inv (sp S) c" "c Batch = []" "c Held = held S" "c Lost = lost S" "\<And>t. length (c (Cached t)) \<le> 2 * BATCH"
    and L: "length (s_live (sp S)) = kLiveSlots" "LiveCount (sp S) = int (length (held S))"
  have x: "x \<in> set (c Held)" and S': "S' = S\<lparr>sp := Free t x (sp S), held := remove1 x (held S)\<rparr>"
    using s c(3) by (auto split: if_splits)
  obtain sh xs where d: "slab_inv (sp S') (c(Held := remove1 x (c Held), Shared := sh, Cached t := xs))"
    "length xs \<le> max (2 * BATCH) (length (c (Cached t)))" using Free_spec [OF c(1) x, of t] by (auto simp: S')
  have "int (length (remove1 x (held S))) = int (length (held S)) - 1" using x c(3) length_pos_if_in_set [of x "held S"] by (simp add: length_remove1 of_nat_diff Suc_le_eq)
  then have L': "length (s_live (sp S')) = kLiveSlots" "LiveCount (sp S') = int (length (held S'))"
    using Free_live [OF L(1), of t x] L by (simp_all add: S')
  show ?thesis
    by (rule slab_sys_invI [of _ "c(Held := remove1 x (c Held), Shared := sh, Cached t := xs)", OF _ _ _ _ _ L'])
      (use c d c(5) [of t] in \<open>simp_all add: S'\<close>)
qed

lemma exit_keeps:
  assumes "slab_sys_inv S" and s: "slab_step (SExit t) S = Some S'"
  shows "slab_sys_inv S'"
  using assms(1)
proof (rule slab_sys_invD)
  fix c
  assume c: "slab_inv (sp S) c" "c Batch = []" "c Held = held S" "c Lost = lost S" "\<And>t. length (c (Cached t)) \<le> 2 * BATCH"
    and L: "length (s_live (sp S)) = kLiveSlots" "LiveCount (sp S) = int (length (held S))"
  note D = slab_invD [OF c(1)]
  let ?P = "(sp S)\<lparr>caches := (caches (sp S))(t := \<lparr>c_head = 0, c_count = 0\<rparr>), live_ref := (live_ref (sp S))(t := None)\<rparr>"
  have S': "S' = S\<lparr>sp := ?P, lost := c (Cached t) @ lost S\<rparr>"
    using s path_slots_from [OF D(4) [of t]] D(5) [of t] by (simp add: Let_def)
  have pt: "parted (issued (sp S)) (c(Cached t := [], Lost := c (Cached t) @ c Lost))"
    using parted_distinct [OF D(2), of "Cached t"] parted_distinct [OF D(2), of Lost] parted_disj [OF D(2), of "Cached t" Lost]
    by (intro parted_move [OF D(2)]) auto
  have bl: "SLOT ?P = SLOT (sp S)" "blocks ?P = blocks (sp S)" by (simp_all add: blocks_def)
  have d: "slab_inv ?P (c(Cached t := [], Lost := c (Cached t) @ c Lost))"
    by (rule slab_invI) (use D pt in \<open>simp_all add: slab_same_blocks [OF bl]\<close>)
  show ?thesis
    by (rule slab_sys_invI [of _ "c(Cached t := [], Lost := c (Cached t) @ c Lost)"]) (use c d L in \<open>simp_all add: S' LiveCount_def\<close>)
qed

lemma slab_step_inv:
  assumes I: "slab_sys_inv S" and s: "slab_step e S = Some S'"
  shows "slab_sys_inv S'"
proof (cases e)
  case (SPrefault n)
  have S': "S' = S\<lparr>sp := Prefault n (sp S)\<rparr>" using s by (simp add: SPrefault)
  have l: "s_live (Prefault n (sp S)) = s_live (sp S)" by (simp add: Prefault_def Let_def split: prod.splits)
  from I show ?thesis
  proof (rule slab_sys_invD)
    fix c
    assume c: "slab_inv (sp S) c" "c Batch = []" "c Held = held S" "c Lost = lost S" "\<And>t. length (c (Cached t)) \<le> 2 * BATCH"
      and L: "length (s_live (sp S)) = kLiveSlots" "LiveCount (sp S) = int (length (held S))"
    obtain sh where d: "slab_inv (sp S') (c(Shared := sh))" using Prefault_spec [OF c(1), of n] by (auto simp: S')
    show ?thesis by (rule slab_sys_invI [OF d]) (use c L in \<open>simp_all add: S' LiveCount_def l\<close>)
  qed
next
  case (SGrowth g)
  then have S': "S' = S\<lparr>sp := (sp S)\<lparr>growth := g\<rparr>\<rparr>" using s by simp
  have "slab_inv (sp S') c = slab_inv (sp S) c" for c by (simp add: S' slab_inv_def geometry_def issued_def blocks_def lists_ok_def)
  then show ?thesis using I by (simp add: slab_sys_inv_def S' LiveCount_def)
qed (use I s alloc_keeps free_keeps exit_keeps in blast)+

lemma slab_step_SLOT: "slab_step e S = Some S' \<Longrightarrow> SLOT (sp S') = SLOT (sp S)"
proof (induction e)
  case (SAlloc t a)
  then show ?case using refill_live [of t a "sp S"] by (auto simp: Alloc_def Let_def split: if_splits)
qed (auto simp: Free_def flush_def Prefault_def Let_def split: if_splits prod.splits)

text \<open>Every run of a pool of slots of size \<open>sz\<close>.\<close>

lemma slab_run:
  assumes "sz > 0" and "b > 0"
  shows "step_invariant slab_step (slab_init sz b slots lazy) (\<lambda>S. slab_sys_inv S \<and> SLOT (sp S) = sz)"
proof
  show "slab_sys_inv (slab_init sz b slots lazy) \<and> SLOT (sp (slab_init sz b slots lazy)) = sz"
    using slab_init_inv [OF assms] by (simp add: slab_init_def SlabPool_new_def Prefault_def Let_def split: prod.splits)
qed (metis slab_step_inv slab_step_SLOT)

interpretation slab: step_invariant slab_step "slab_init (Suc sz) (Suc b) slots lazy" "\<lambda>S. slab_sys_inv S \<and> SLOT (sp S) = Suc sz" for sz b slots lazy
  by (rule slab_run) simp_all

section \<open>Addresses of slots\<close>

lemma block_hit:
  assumes "sz > (0::nat)"
  shows "b \<le> q \<and> q < b + n * sz \<and> (q - b) mod sz = 0 \<longleftrightarrow> (\<exists>k<n. q = b + k * sz)"
proof
  assume h: "b \<le> q \<and> q < b + n * sz \<and> (q - b) mod sz = 0"
  then obtain k where k: "q - b = sz * k" by (auto simp: mod_eq_0_iff_dvd)
  then have q: "q = b + k * sz" using h by (metis le_add_diff_inverse mult.commute)
  with h have "k * sz < n * sz" by linarith
  then show "\<exists>k<n. q = b + k * sz" using q by auto
next
  assume "\<exists>k<n. q = b + k * sz"
  then show "b \<le> q \<and> q < b + n * sz \<and> (q - b) mod sz = 0" using assms by auto
qed

lemma apart_hit: "apart sz (b, n) (b', n') \<Longrightarrow> b \<le> q \<and> q < b + n * sz \<Longrightarrow> \<not> (b' \<le> q \<and> q < b' + n' * sz)"
  by (auto simp: apart_def)

lemma in_extents_iff:
  assumes "sz > 0" and "sorted_wrt (apart sz) (map (\<lambda>e. (x_mem e, x_slots e)) es)"
  shows "in_extents sz es q \<longleftrightarrow> (\<exists>e \<in> set es. \<exists>k < x_slots e. q = x_mem e + k * sz)"
  using assms(2)
proof (induction es)
  case (Cons e es)
  show ?case
  proof (cases "q \<ge> x_mem e \<and> q < x_mem e + x_slots e * sz")
    case True
    have "\<not> (\<exists>k < x_slots f. q = x_mem f + k * sz)" if "f \<in> set es" for f
      using Cons.prems that apart_hit [OF _ True, of "x_mem f" "x_slots f"] block_hit [OF assms(1), of "x_mem f" q "x_slots f"] by auto
    then show ?thesis using True block_hit [OF assms(1), of "x_mem e" q "x_slots e"] by auto
  next
    case False
    then show ?thesis using Cons block_hit [OF assms(1), of "x_mem e" q "x_slots e"] by auto
  qed
qed simp

text \<open>\<open>SlotInSlab\<close> recognises exactly the slot addresses of the pool's blocks.\<close>

lemma SlotInSlab_iff:
  assumes "geometry P"
  shows "SlotInSlab P q \<longleftrightarrow> (\<exists>(b, n, u) \<in> set (blocks P). \<exists>k < n. q = b + k * SLOT P)"
proof -
  have sz: "SLOT P > 0" and pos: "memSlots P > 0 \<longrightarrow> mem P > 0" using assms by (auto simp: geometry_def blocks_def)
  have srt: "sorted_wrt (apart (SLOT P)) ((mem P, memSlots P) # map (\<lambda>e. (x_mem e, x_slots e)) (extents P))"
    using assms by (simp add: geometry_def blocks_def extent_of_def comp_def)
  note E = in_extents_iff [OF sz, of "extents P" q] and M = block_hit [OF sz, of "mem P" q "memSlots P"]
  show ?thesis
  proof (cases "q \<ge> mem P \<and> q < mem P + memSlots P * SLOT P")
    case True
    then have "mem P \<noteq> 0" using pos by (cases "memSlots P") auto
    moreover have "\<not> (\<exists>k < x_slots f. q = x_mem f + k * SLOT P)" if "f \<in> set (extents P)" for f
      using srt that apart_hit [OF _ True, of "x_mem f" "x_slots f"] block_hit [OF sz, of "x_mem f" q "x_slots f"] by auto
    ultimately show ?thesis using True M by (auto simp: SlotInSlab_def blocks_def)
  next
    case False
    then have "SlotInSlab P q = in_extents (SLOT P) (extents P) q" by (auto simp: SlotInSlab_def)
    then show ?thesis using E srt M False by (auto simp: blocks_def)
  qed
qed

lemma issued_in_slab:
  assumes g: "geometry P" and s: "s \<in> issued P"
  shows "SlotInSlab P s"
proof -
  obtain b n u k where B: "(b, n, u) \<in> set (blocks P)" "k < u" "s = b + k * SLOT P"
    using s by (auto simp: issued_def taken_def)
  then have "k < n" using geometryD [OF g B(1)] by simp
  then show ?thesis using B by (auto simp: SlotInSlab_iff [OF g] intro!: bexI [OF _ B(1)])
qed

text \<open>Two slots of a pool do not overlap.\<close>

lemma sorted_wrt_pick:
  assumes "sorted_wrt R xs" "x \<in> set xs" "y \<in> set xs" "x \<noteq> y"
  shows "R x y \<or> R y x"
  using assms by (induction xs) auto

lemma same_block_apart:
  assumes "p = b + k * sz" "q = b + j * sz" "p \<noteq> (q::nat)"
  shows "p + sz \<le> q \<or> q + sz \<le> p"
proof -
  have "Suc k * sz \<le> j * sz \<or> Suc j * sz \<le> k * sz" using assms mult_le_mono1 [of "Suc k" j sz] mult_le_mono1 [of "Suc j" k sz] by (cases "k < j") auto
  then show ?thesis using assms by auto
qed

lemma slots_apart:
  assumes g: "geometry P" and p: "SlotInSlab P p" and q: "SlotInSlab P q" and pq: "p \<noteq> q"
  shows "p + SLOT P \<le> q \<or> q + SLOT P \<le> p"
proof -
  obtain b n k where B: "(b, n) \<in> set (map extent_of (blocks P))" "k < n" "p = b + k * SLOT P"
    using p by (force simp: SlotInSlab_iff [OF g] extent_of_def image_iff)
  obtain b' n' k' where B': "(b', n') \<in> set (map extent_of (blocks P))" "k' < n'" "q = b' + k' * SLOT P"
    using q by (force simp: SlotInSlab_iff [OF g] extent_of_def image_iff)
  have "Suc k * SLOT P \<le> n * SLOT P" "Suc k' * SLOT P \<le> n' * SLOT P" by (intro mult_le_mono1 Suc_leI B(2) B'(2))+
  then have w: "p + SLOT P \<le> b + n * SLOT P" "q + SLOT P \<le> b' + n' * SLOT P" "b \<le> p" "b' \<le> q" using B B' by simp_all
  show ?thesis
  proof (cases "(b, n) = (b', n')")
    case True
    then show ?thesis using same_block_apart B(3) B'(3) pq by auto
  next
    case False
    then have "apart (SLOT P) (b, n) (b', n')"
      using sorted_wrt_pick [OF _ B(1) B'(1)] g apart_sym unfolding geometry_def by blast
    then show ?thesis using w by (auto simp: apart_def)
  qed
qed

section \<open>What the pool guarantees\<close>

lemma high_water: "geometry P \<Longrightarrow> HighWaterSlots P \<le> Capacity P"
  unfolding HighWaterSlots_def Capacity_def
  by (intro add_mono sum_list_mono) (auto simp: geometry_def blocks_def)

text \<open>C38: \<^verbatim>\<open>Alloc\<close> returns null exactly when the thread's cache is empty and nothing can be taken from the shared list, the primary
  block or an extent. Otherwise it returns the address of a slot of the pool that nobody holds and that overlaps no slot that is held,
  whichever threads allocated and freed before.\<close>

theorem slab_alloc_exclusive:
  assumes run: "exec slab_step es (slab_init sz b slots lazy) = Some S" and pos: "sz > 0" "b > 0"
    and a: "fresh_ok (sp S) a" and r: "Alloc t a (sp S) = (p, P)"
  shows "(p = 0 \<longleftrightarrow> c_head (caches (sp S) t) = 0 \<and> exhausted a (sp S))
       \<and> (p \<noteq> 0 \<longrightarrow> SlotInSlab P p \<and> (\<forall>q \<in> set (held S). p + sz \<le> q \<or> q + sz \<le> p))"
proof -
  have S: "slab_sys_inv S" "SLOT (sp S) = sz" using step_invariant.inv_exec [OF slab_run [OF pos] run] by auto
  obtain c where c: "slab_inv (sp S) c" "c Batch = []" "c Held = held S" using S(1) by (rule slab_sys_invD)
  have hd: "c_head (caches (sp S) t) = 0 \<longleftrightarrow> c (Cached t) = []" by (rule path_null [OF slab_invD(4) [OF c(1)]])
  have sz: "SLOT P = sz" using slab_step_SLOT [of "SAlloc t a" S] a r S(2) by simp
  show ?thesis
  proof (cases "p = 0")
    case True
    then show ?thesis using Alloc_spec [OF c(1,2) a r] hd by simp
  next
    case False
    then obtain s rest where d: "slab_inv P (c(Shared := s, Cached t := rest, Held := p # held S))"
      and ne: "\<not> (c (Cached t) = [] \<and> exhausted a (sp S))" using Alloc_spec [OF c(1,2) a r] c(3) by auto
    note D = slab_invD [OF d]
    have "distinct (p # held S)" using parted_distinct [OF D(2), of Held] by simp
    moreover have isl: "SlotInSlab P x" if "x \<in> set (p # held S)" for x
      using issued_in_slab [OF D(1)] parted_issued [OF D(2), of x Held] that by simp
    ultimately have "p + sz \<le> q \<or> q + sz \<le> p" if "q \<in> set (held S)" for q
      using slots_apart [OF D(1), of p q] that by (auto simp: sz)
    then show ?thesis using False ne hd isl [of p] by auto
  qed
qed

text \<open>C39: However threads allocate, free, prefault and end, every slot taken from the blocks is in exactly one place, once: the shared list,
  one thread's cache, a client's hands, or lost with a thread that ended. The links form these lists, no cache exceeds twice the batch size,
  the sharded counters add up to the number of slots held, and the high water mark stays within the capacity.\<close>

theorem slab_conserves_slots:
  assumes run: "exec slab_step es (slab_init sz b slots lazy) = Some S" and pos: "sz > 0" "b > 0"
  shows "(\<exists>c. parted (issued (sp S)) c \<and> lists_ok (sp S) c \<and> c Held = held S \<and> c Lost = lost S \<and> c Batch = [])
       \<and> (\<forall>t. c_count (caches (sp S) t) \<le> 2 * BATCH) \<and> LiveCount (sp S) = int (length (held S))
       \<and> HighWaterSlots (sp S) \<le> Capacity (sp S)"
proof -
  have "slab_sys_inv S" using step_invariant.inv_exec [OF slab_run [OF pos] run] by simp
  then show ?thesis
  proof (rule slab_sys_invD)
    fix c
    assume c: "slab_inv (sp S) c" "c Batch = []" "c Held = held S" "c Lost = lost S" "\<And>t. length (c (Cached t)) \<le> 2 * BATCH"
      and L: "LiveCount (sp S) = int (length (held S))"
    then show ?thesis using slab_invD(5) [OF c(1)] high_water [OF slab_invD(1) [OF c(1)]] by (auto simp: slab_inv_def)
  qed
qed

text \<open>The cache of a thread that ends is dropped with its slots. In a pool of two slots that may not grow, one thread that allocates, frees and
  ends leaves a pool in which nobody holds a slot and every allocation fails.\<close>

lemma slab_exit_loses_slots:
  "\<exists>S. exec slab_step [SGrowth False, SAlloc 1 None, SFree 1 32, SExit 1] (slab_init 16 16 2 True) = Some S
     \<and> held S = [] \<and> lost S = [32, 16] \<and> fst (Alloc 2 None (sp S)) = 0"
  by (rule exec_ex) code_simp

section \<open>Witnesses\<close>

lemma slab_example:
  "\<exists>S. exec slab_step [SAlloc 1 None] (slab_init 16 16 2 True) = Some S \<and> held S = [32] \<and> fst (Alloc 1 None (sp S)) = 16"
  by (rule exec_ex) code_simp

theorem slab_alloc_exclusive_witness:
  "\<exists>S P. exec slab_step [SAlloc 1 None] (slab_init 16 16 2 True) = Some S \<and> held S = [32] \<and> Alloc 1 None (sp S) = (16, P)
     \<and> SlotInSlab P 16 \<and> (\<forall>q \<in> set (held S). 16 + 16 \<le> q \<or> q + 16 \<le> (16 :: nat))"
proof -
  obtain S P where S: "exec slab_step [SAlloc 1 None] (slab_init 16 16 2 True) = Some S" "held S = [32]" "Alloc 1 None (sp S) = (16, P)"
    using slab_example by (metis prod.collapse)
  show ?thesis using S slab_alloc_exclusive [OF S(1) _ _ _ S(3)] by auto
qed

theorem slab_conserves_slots_witness:
  "\<exists>S. exec slab_step [SAlloc 1 None] (slab_init 16 16 2 True) = Some S \<and> LiveCount (sp S) = 1
     \<and> (\<exists>c. parted (issued (sp S)) c \<and> lists_ok (sp S) c \<and> c Held = [32])"
proof -
  obtain S where S: "exec slab_step [SAlloc 1 None] (slab_init 16 16 2 True) = Some S" "held S = [32]" using slab_example by blast
  show ?thesis using S slab_conserves_slots [OF S(1)] by auto
qed

end
