(* ===== verification/Task_Allocator.thy ===== *)
theory Task_Allocator
  imports Slab_Safety
begin

text \<open>
  The task allocator of \<^verbatim>\<open>include/TaskAllocator.h\<close>: four slab pools, an allocation that takes the smallest class that fits and falls
  through to the next when a class is exhausted, and a free that finds the pool by the address. Each pool has its own blocks, so each
  keeps its own links.
\<close>

section \<open>Size classes\<close>

datatype slot_class = C64 | C80 | C128 | C256

fun slot_bytes :: "slot_class \<Rightarrow> nat" where
  "slot_bytes C64 = 64"
| "slot_bytes C80 = 80"
| "slot_bytes C128 = 128"
| "slot_bytes C256 = 256"

record allocator =
  pool256 :: pool
  pool128 :: pool
  pool80 :: pool
  pool64 :: pool

fun pool_of :: "slot_class \<Rightarrow> allocator \<Rightarrow> pool" where
  "pool_of C64 A = pool64 A"
| "pool_of C80 A = pool80 A"
| "pool_of C128 A = pool128 A"
| "pool_of C256 A = pool256 A"

fun set_pool :: "slot_class \<Rightarrow> pool \<Rightarrow> allocator \<Rightarrow> allocator" where
  "set_pool C64 P A = A\<lparr>pool64 := P\<rparr>"
| "set_pool C80 P A = A\<lparr>pool80 := P\<rparr>"
| "set_pool C128 P A = A\<lparr>pool128 := P\<rparr>"
| "set_pool C256 P A = A\<lparr>pool256 := P\<rparr>"

definition classes :: "slot_class list" where
  "classes = [C64, C80, C128, C256]"

section \<open>Operations\<close>

text \<open>\<^verbatim>\<open>AllocSized\<close>; \<open>a k\<close> is what an allocation of an extent for class \<open>k\<close> returns.\<close>

fun alloc_in :: "slot_class list \<Rightarrow> nat \<Rightarrow> nat \<Rightarrow> (slot_class \<Rightarrow> nat option) \<Rightarrow> allocator \<Rightarrow> nat \<times> allocator" where
  "alloc_in [] t n a A = (0, A)"
| "alloc_in (k # ks) t n a A =
     (if n \<le> slot_bytes k then
        (case Alloc t (a k) (pool_of k A) of (p, P) \<Rightarrow>
           if p \<noteq> 0 then (p, set_pool k P A) else alloc_in ks t n a (set_pool k P A))
      else alloc_in ks t n a A)"

definition AllocSized :: "nat \<Rightarrow> nat \<Rightarrow> (slot_class \<Rightarrow> nat option) \<Rightarrow> allocator \<Rightarrow> nat \<times> allocator" where
  "AllocSized t n a A = alloc_in classes t n a A"

text \<open>\<^verbatim>\<open>FreeSized\<close> and \<^verbatim>\<open>OwnsSized\<close>.\<close>

fun free_in :: "slot_class list \<Rightarrow> nat \<Rightarrow> nat \<Rightarrow> allocator \<Rightarrow> bool \<times> allocator" where
  "free_in [] t p A = (False, A)"
| "free_in (k # ks) t p A =
     (if SlotInSlab (pool_of k A) p then (True, set_pool k (Free t p (pool_of k A)) A) else free_in ks t p A)"

definition FreeSized :: "nat \<Rightarrow> nat \<Rightarrow> allocator \<Rightarrow> bool \<times> allocator" where
  "FreeSized t p A = free_in classes t p A"

definition OwnsSized :: "allocator \<Rightarrow> nat \<Rightarrow> bool" where
  "OwnsSized A p = (SlotInSlab (pool64 A) p \<or> SlotInSlab (pool80 A) p \<or> SlotInSlab (pool128 A) p \<or> SlotInSlab (pool256 A) p)"

text \<open>\<^verbatim>\<open>TaskAllocator::Free\<close>: what no pool owns is given back to the heap (the list \<open>heap\<close> of addresses deleted).\<close>

definition Free_task :: "nat \<Rightarrow> nat \<Rightarrow> allocator \<times> nat list \<Rightarrow> allocator \<times> nat list" where
  "Free_task t p S = (case FreeSized t p (fst S) of (b, A) \<Rightarrow> if b then (A, snd S) else (A, p # snd S))"

definition Capacity_all :: "allocator \<Rightarrow> nat" where
  "Capacity_all A = Capacity (pool256 A) + Capacity (pool128 A) + Capacity (pool80 A) + Capacity (pool64 A)"

text \<open>The constructor with one size per class; \<open>b k\<close> is the memory class \<open>k\<close> gets.\<close>

definition TaskAllocator_new :: "(slot_class \<Rightarrow> nat) \<Rightarrow> (slot_class \<Rightarrow> nat) \<Rightarrow> bool \<Rightarrow> allocator" where
  "TaskAllocator_new b n lazy = \<lparr>pool256 = the (SlabPool_new 0 256 (b C256) (n C256) lazy), pool128 = the (SlabPool_new 0 128 (b C128) (n C128) lazy),
     pool80 = the (SlabPool_new 0 80 (b C80) (n C80) lazy), pool64 = the (SlabPool_new 0 64 (b C64) (n C64) lazy)\<rparr>"

section \<open>The system\<close>

record alloc_sys =
  al :: allocator
  held_in :: "slot_class \<Rightarrow> nat list"

datatype alloc_event = AAlloc nat nat "slot_class \<Rightarrow> nat option" | AFree nat nat | APrefault nat

text \<open>Memory blocks of all pools, with their extent in bytes; fresh memory is apart from all of them.\<close>

definition spans :: "slot_class \<Rightarrow> allocator \<Rightarrow> (nat \<times> nat) set" where
  "spans k A = (\<lambda>B. (fst B, fst (snd B) * slot_bytes k)) ` set (blocks (pool_of k A))"

definition bytes_apart :: "nat \<times> nat \<Rightarrow> nat \<times> nat \<Rightarrow> bool" where
  "bytes_apart X Y = (fst X + snd X \<le> fst Y \<or> fst Y + snd Y \<le> fst X)"

definition fresh_span :: "slot_class \<Rightarrow> nat option \<Rightarrow> allocator \<Rightarrow> bool" where
  "fresh_span k a A = (case a of None \<Rightarrow> True | Some b \<Rightarrow> b > 0
     \<and> list_all (\<lambda>j. list_all (\<lambda>B. bytes_apart (b, kGrowSlots * slot_bytes k) (fst B, fst (snd B) * slot_bytes j)) (blocks (pool_of j A))) classes)"

definition fresh_all :: "(slot_class \<Rightarrow> nat option) \<Rightarrow> allocator \<Rightarrow> bool" where
  "fresh_all a A = list_all (\<lambda>k. fresh_span k (a k) A) classes"

definition class_holding :: "nat \<Rightarrow> alloc_sys \<Rightarrow> slot_class option" where
  "class_holding p S = List.find (\<lambda>k. p \<in> set (held_in S k)) classes"

definition class_given :: "nat \<Rightarrow> allocator \<Rightarrow> slot_class option" where
  "class_given p A = List.find (\<lambda>k. SlotInSlab (pool_of k A) p) classes"

fun alloc_step :: "alloc_event \<Rightarrow> alloc_sys \<Rightarrow> alloc_sys option" where
  "alloc_step (AAlloc t n a) S =
     (if fresh_all a (al S) then
        (case AllocSized t n a (al S) of (p, A) \<Rightarrow>
           Some (S\<lparr>al := A, held_in := (case class_given p A of None \<Rightarrow> held_in S
                                       | Some k \<Rightarrow> if p = 0 then held_in S else (held_in S)(k := p # held_in S k))\<rparr>))
      else None)"
| "alloc_step (AFree t p) S =
     (case class_holding p S of None \<Rightarrow> None
      | Some k \<Rightarrow> Some (S\<lparr>al := snd (FreeSized t p (al S)), held_in := (held_in S)(k := remove1 p (held_in S k))\<rparr>))"
| "alloc_step (APrefault n) S = Some (S\<lparr>al := (al S)\<lparr>pool256 := Prefault n (pool256 (al S))\<rparr>\<rparr>)"

section \<open>The invariant\<close>

definition class_ok :: "allocator \<Rightarrow> (slot_class \<Rightarrow> nat list) \<Rightarrow> slot_class \<Rightarrow> bool" where
  "class_ok A H k = (\<exists>c. slab_inv (pool_of k A) c \<and> c Batch = [] \<and> c Held = H k \<and> SLOT (pool_of k A) = slot_bytes k)"

definition cross_apart :: "allocator \<Rightarrow> bool" where
  "cross_apart A = (\<forall>k j. k \<noteq> j \<longrightarrow> (\<forall>X \<in> spans k A. \<forall>Y \<in> spans j A. bytes_apart X Y))"

definition alloc_inv :: "alloc_sys \<Rightarrow> bool" where
  "alloc_inv S = ((\<forall>k. class_ok (al S) (held_in S) k) \<and> cross_apart (al S))"

lemma pool_of_set [simp]: "pool_of j (set_pool k P A) = (if j = k then P else pool_of j A)"
  by (cases k; cases j) auto

lemma set_classes [simp]: "set classes = UNIV"
  using slot_class.exhaust by (auto simp: classes_def)

lemma bytes_apart_sym: "bytes_apart X Y = bytes_apart Y X"
  by (auto simp: bytes_apart_def)

text \<open>What an operation on one pool does to its blocks.\<close>

definition ext_set :: "pool \<Rightarrow> (nat \<times> nat) set" where
  "ext_set P = set (map extent_of (blocks P))"

lemma spans_ext: "spans k A = (\<lambda>E. (fst E, snd E * slot_bytes k)) ` ext_set (pool_of k A)"
  by (simp add: spans_def ext_set_def extent_of_def image_image)

lemma refill_exhausted: "exhausted a P \<Longrightarrow> ext_set (refill t a P) = ext_set P"
  by (auto simp: exhausted_def refill_def refill_shared_def refill_bump_def refill_grow_def grow_extent_def splice_def ext_set_def blocks_def Let_def)

lemma ext_set_bump: "ext_set (Q\<lparr>link := l, extents := (extents Q)[j := (extents Q ! j)\<lparr>x_bumpNext := x\<rparr>]\<rparr>) = ext_set Q"
proof (cases "j < length (extents Q)")
  case True
  have "map (\<lambda>e. (x_mem e, x_slots e)) ((extents Q)[j := (extents Q ! j)\<lparr>x_bumpNext := x\<rparr>]) = map (\<lambda>e. (x_mem e, x_slots e)) (extents Q)"
    using True by (simp add: map_update list_update_same_conv)
  then have "set (map (\<lambda>e. (x_mem e, x_slots e)) ((extents Q)[j := (extents Q ! j)\<lparr>x_bumpNext := x\<rparr>])) = set (map (\<lambda>e. (x_mem e, x_slots e)) (extents Q))"
    by simp
  then show ?thesis by (simp add: ext_set_def blocks_def extent_of_def image_image)
qed (simp add: ext_set_def blocks_def not_less list_update_beyond)

lemma refill_ext: "ext_set (refill t a P) \<subseteq> ext_set P \<union> (case a of None \<Rightarrow> {} | Some b \<Rightarrow> {(b, kGrowSlots)})"
proof (cases "mem P = 0")
  case False
  obtain B1 P1 where r1: "refill_shared P = (B1, P1)" by (cases "refill_shared P")
  obtain B2 P2 where r2: "refill_bump B1 P1 = (B2, P2)" by (cases "refill_bump B1 P1")
  obtain B3 P3 where r3: "refill_grow a B2 P2 = (B3, P3)" by (cases "refill_grow a B2 P2")
  obtain i Q where g: "grow_extent a P2 = (i, Q)" by (cases "grow_extent a P2")
  have "ext_set P2 = ext_set P"
    using refill_shared_frame [OF r1] refill_bump_frame [OF r2] by (auto simp: ext_set_def blocks_def extent_of_def)
  moreover have "ext_set Q \<subseteq> ext_set P2 \<union> (case a of None \<Rightarrow> {} | Some b \<Rightarrow> {(b, kGrowSlots)})"
    using g by (auto simp: grow_extent_def ext_set_def blocks_def extent_of_def split: option.splits)
  moreover have "ext_set P3 = ext_set P2 \<or> ext_set P3 = ext_set Q"
  proof -
    show ?thesis
    proof (cases "snd (snd B2) = 0 \<and> growth P2 \<and> i \<noteq> None")
      case True
      then obtain j l x where "P3 = Q\<lparr>link := l, extents := (extents Q)[j := (extents Q ! j)\<lparr>x_bumpNext := x\<rparr>]\<rparr>"
        using r3 g by (auto simp: refill_grow_def Let_def split: prod.splits)
      then show ?thesis using ext_set_bump by simp
    next
      case False
      then show ?thesis using r3 g by (auto simp: refill_grow_def split: prod.splits if_splits option.splits)
    qed
  qed
  moreover have "ext_set (splice t B3 P3) = ext_set P3" by (auto simp: splice_def ext_set_def blocks_def split: prod.splits)
  moreover have "refill t a P = splice t B3 P3" using False r1 r2 r3 by (simp add: refill_def)
  ultimately show ?thesis by auto
qed (simp add: refill_def)

lemma Alloc_ext:
  assumes "Alloc t a P = (p, P')"
  shows "ext_set P' \<subseteq> ext_set P \<union> (case a of None \<Rightarrow> {} | Some b \<Rightarrow> {(b, kGrowSlots)})"
    and "exhausted a P \<Longrightarrow> ext_set P' = ext_set P"
proof -
  define Q where "Q = (if c_head (caches P t) = 0 then refill t a P else P)"
  have "ext_set P' = ext_set Q" using assms by (auto simp: Alloc_def Q_def [symmetric] Let_def ext_set_def blocks_def split: if_splits)
  then show "ext_set P' \<subseteq> ext_set P \<union> (case a of None \<Rightarrow> {} | Some b \<Rightarrow> {(b, kGrowSlots)})"
    and "exhausted a P \<Longrightarrow> ext_set P' = ext_set P"
    using refill_ext [of t a P] refill_exhausted [of a P t] by (auto simp: Q_def)
qed

lemma fresh_own:
  assumes "fresh_span k a A" and "SLOT (pool_of k A) = slot_bytes k"
  shows "fresh_ok (pool_of k A) a"
proof (cases a)
  case (Some b)
  have "list_all (\<lambda>B. bytes_apart (b, kGrowSlots * slot_bytes k) (fst B, fst (snd B) * slot_bytes k)) (blocks (pool_of k A))" "b > 0"
    using assms(1) Some by (cases k; simp add: fresh_span_def classes_def)+
  then show ?thesis using assms(2) Some by (auto simp: fresh_block_def apart_def extent_of_def bytes_apart_def list_all_iff)
qed simp

lemma fresh_span_iff:
  "fresh_span k a A = (case a of None \<Rightarrow> True | Some b \<Rightarrow> b > 0 \<and> (\<forall>j. \<forall>Y \<in> spans j A. bytes_apart (b, kGrowSlots * slot_bytes k) Y))"
  by (auto simp: fresh_span_def spans_def list_all_iff split: option.splits)

lemma fresh_spanD: "fresh_span k (Some b) A \<Longrightarrow> Y \<in> spans j A \<Longrightarrow> bytes_apart (b, kGrowSlots * slot_bytes k) Y"
  by (auto simp: fresh_span_def spans_def list_all_iff)

text \<open>Replacing the pool of one class, by one whose blocks are its old ones and perhaps a fresh one.\<close>

lemma cross_apart_set:
  assumes C: "cross_apart A" and f: "fresh_span k a A"
    and e: "ext_set P \<subseteq> ext_set (pool_of k A) \<union> (case a of None \<Rightarrow> {} | Some b \<Rightarrow> {(b, kGrowSlots)})"
  shows "cross_apart (set_pool k P A)"
proof -
  have sp: "spans k (set_pool k P A) \<subseteq> spans k A \<union> (case a of None \<Rightarrow> {} | Some b \<Rightarrow> {(b, kGrowSlots * slot_bytes k)})"
    using e by (auto simp: spans_ext split: option.splits)
  have other: "spans j (set_pool k P A) = spans j A" if "j \<noteq> k" for j using that by (simp add: spans_ext)
  have one: "bytes_apart X Y" if X: "X \<in> spans k (set_pool k P A)" and Y: "Y \<in> spans j A" "j \<noteq> k" for X Y j
  proof (cases "X \<in> spans k A")
    case True
    then show ?thesis using C Y unfolding cross_apart_def by metis
  next
    case False
    then obtain b where "a = Some b" "X = (b, kGrowSlots * slot_bytes k)" using False subsetD [OF sp X] by (cases a) auto
    then show ?thesis using fresh_spanD f Y(1) by metis
  qed
  show ?thesis unfolding cross_apart_def
  proof (intro allI impI ballI)
    fix i j X Y
    assume ij: "i \<noteq> j" and X: "X \<in> spans i (set_pool k P A)" and Y: "Y \<in> spans j (set_pool k P A)"
    show "bytes_apart X Y"
    proof (cases "i = k \<or> j = k")
      case True
      then show ?thesis using ij X Y other one [of X Y j] one [of Y X i] bytes_apart_sym by auto
    next
      case False
      then show ?thesis using ij X Y other C by (auto simp: cross_apart_def)
    qed
  qed
qed

lemma class_replace:
  assumes I: "alloc_inv \<lparr>al = A, held_in = H\<rparr>" and P: "slab_inv P c" "c Batch = []" "c Held = xs" "SLOT P = slot_bytes k"
    and f: "fresh_span k a A" and e: "ext_set P \<subseteq> ext_set (pool_of k A) \<union> (case a of None \<Rightarrow> {} | Some b \<Rightarrow> {(b, kGrowSlots)})"
  shows "alloc_inv \<lparr>al = set_pool k P A, held_in = H(k := xs)\<rparr>"
proof -
  have "class_ok (set_pool k P A) (H(k := xs)) j" for j
    using I P by (cases "j = k") (auto simp: alloc_inv_def class_ok_def)
  moreover have "cross_apart (set_pool k P A)" using I by (intro cross_apart_set [OF _ f e]) (simp add: alloc_inv_def)
  ultimately show ?thesis by (simp add: alloc_inv_def)
qed

lemma alloc_in_spec:
  assumes "alloc_inv \<lparr>al = A, held_in = H\<rparr>" and "\<And>k. fresh_span k (a k) A" and "alloc_in ks t n a A = (p, A')"
  shows "if p = 0 then alloc_inv \<lparr>al = A', held_in = H\<rparr>
         else \<exists>k. n \<le> slot_bytes k \<and> alloc_inv \<lparr>al = A', held_in = H(k := p # H k)\<rparr>"
  using assms
proof (induction ks arbitrary: A)
  case (Cons k ks)
  show ?case
  proof (cases "n \<le> slot_bytes k")
    case True
    obtain q P where r: "Alloc t (a k) (pool_of k A) = (q, P)" by (cases "Alloc t (a k) (pool_of k A)")
    obtain c where c: "slab_inv (pool_of k A) c" "c Batch = []" "c Held = H k" and sz: "SLOT (pool_of k A) = slot_bytes k"
      using Cons.prems(1) by (auto simp: alloc_inv_def class_ok_def)
    have f: "fresh_ok (pool_of k A) (a k)" by (rule fresh_own [OF Cons.prems(2) sz])
    note spec = Alloc_spec [OF c(1,2) f r]
    have szP: "SLOT P = slot_bytes k"
      using slab_step_SLOT [of "SAlloc t (a k)" "\<lparr>sp = pool_of k A, held = [], lost = []\<rparr>"] f r sz by auto
    note replace = class_replace [OF Cons.prems(1) _ _ _ szP Cons.prems(2) Alloc_ext(1) [OF r]]
    show ?thesis
    proof (cases "q = 0")
      case q: True
      then obtain s where s: "slab_inv P (c(Shared := s))" and ex: "exhausted (a k) (pool_of k A)" using spec by auto
      have inv: "alloc_inv \<lparr>al = set_pool k P A, held_in = H\<rparr>" using replace [OF s] c(2,3) by simp
      have "spans j (set_pool k P A) = spans j A" for j using Alloc_ext(2) [OF r ex] by (simp add: spans_ext)
      then have "fresh_span j (a j) (set_pool k P A)" for j
        using Cons.prems(2) [of j] by (cases "a j") (simp_all add: fresh_span_iff)
      then show ?thesis using Cons.IH [OF inv] Cons.prems(3) True r q by auto
    next
      case False
      then obtain s rest where s: "slab_inv P (c(Shared := s, Cached t := rest, Held := q # c Held))" using spec by auto
      have "alloc_inv \<lparr>al = set_pool k P A, held_in = H(k := q # H k)\<rparr>" using replace [OF s] c(2,3) by simp
      then show ?thesis using Cons.prems(3) True r False by auto
    qed
  next
    case False
    then show ?thesis using Cons.IH [OF Cons.prems(1,2)] Cons.prems(3) by simp
  qed
qed simp

section \<open>Routing by address\<close>

lemma SlotInSlab_span:
  assumes "class_ok A H k" and "SlotInSlab (pool_of k A) p"
  shows "\<exists>X \<in> spans k A. fst X \<le> p \<and> p + slot_bytes k \<le> fst X + snd X"
proof -
  obtain b n u m where B: "(b, n, u) \<in> set (blocks (pool_of k A))" "m < n" "p = b + m * slot_bytes k"
    using assms by (auto simp: class_ok_def slab_inv_def SlotInSlab_iff)
  have "Suc m * slot_bytes k \<le> n * slot_bytes k" using B(2) by (intro mult_le_mono1) simp
  then have "fst (b, n * slot_bytes k) \<le> p \<and> p + slot_bytes k \<le> fst (b, n * slot_bytes k) + snd (b, n * slot_bytes k)" using B(3) by simp
  moreover have "(b, n * slot_bytes k) \<in> spans k A" using B(1) by (force simp: spans_def image_iff)
  ultimately show ?thesis by blast
qed

lemma slot_bytes_pos [simp]: "slot_bytes k > 0"
  by (cases k) auto

text \<open>Slots of different classes do not overlap, so at most one pool claims an address.\<close>

lemma classes_disjoint:
  assumes I: "alloc_inv S" and "SlotInSlab (pool_of k (al S)) p" "SlotInSlab (pool_of j (al S)) q" "k \<noteq> j"
  shows "p + slot_bytes k \<le> q \<or> q + slot_bytes j \<le> p"
proof -
  obtain X Y where X: "X \<in> spans k (al S)" "fst X \<le> p" "p + slot_bytes k \<le> fst X + snd X"
    and Y: "Y \<in> spans j (al S)" "fst Y \<le> q" "q + slot_bytes j \<le> fst Y + snd Y"
    using SlotInSlab_span assms by (metis alloc_inv_def)
  have "bytes_apart X Y" using I X(1) Y(1) assms(4) by (auto simp: alloc_inv_def cross_apart_def)
  then show ?thesis using X Y by (auto simp: bytes_apart_def)
qed

lemma one_owner:
  assumes I: "alloc_inv S" and "SlotInSlab (pool_of k (al S)) p"
  shows "SlotInSlab (pool_of j (al S)) p \<longleftrightarrow> j = k"
  using classes_disjoint [OF I assms(2), of j p] assms(2) slot_bytes_pos [of k] slot_bytes_pos [of j] by force

lemma held_in_slab:
  assumes "alloc_inv S" and "p \<in> set (held_in S k)"
  shows "SlotInSlab (pool_of k (al S)) p"
proof -
  obtain c where c: "slab_inv (pool_of k (al S)) c" "c Held = held_in S k" using assms(1) by (auto simp: alloc_inv_def class_ok_def)
  show ?thesis using issued_in_slab parted_issued slab_invD(1,2) [OF c(1)] assms(2) c(2) by metis
qed

lemma free_in_hit:
  "\<forall>j. SlotInSlab (pool_of j A) p \<longleftrightarrow> j = k \<Longrightarrow> k \<in> set ks \<Longrightarrow> free_in ks t p A = (True, set_pool k (Free t p (pool_of k A)) A)"
  by (induction ks) auto

lemma find_unique: "\<forall>j. P j \<longleftrightarrow> j = k \<Longrightarrow> k \<in> set ks \<Longrightarrow> List.find P ks = Some k"
  by (induction ks) auto

lemma FreeSized_routes:
  assumes I: "alloc_inv S" and p: "p \<in> set (held_in S k)"
  shows "FreeSized t p (al S) = (True, set_pool k (Free t p (pool_of k (al S))) (al S))"
  unfolding FreeSized_def by (rule free_in_hit) (simp_all add: one_owner [OF I held_in_slab [OF I p]])

lemma class_given_held:
  assumes I: "alloc_inv S" and p: "p \<in> set (held_in S k)"
  shows "class_given p (al S) = Some k" and "class_holding p S = Some k"
proof -
  show "class_given p (al S) = Some k"
    unfolding class_given_def by (rule find_unique) (simp_all add: one_owner [OF I held_in_slab [OF I p]])
  have "p \<in> set (held_in S j) \<longleftrightarrow> j = k" for j
    using one_owner [OF I held_in_slab [OF I p]] held_in_slab [OF I] p by blast
  then show "class_holding p S = Some k" unfolding class_holding_def by (intro find_unique) simp_all
qed

lemma free_class_inv:
  assumes I: "alloc_inv S" and p: "p \<in> set (held_in S k)"
  shows "alloc_inv (S\<lparr>al := set_pool k (Free t p (pool_of k (al S))) (al S), held_in := (held_in S)(k := remove1 p (held_in S k))\<rparr>)"
proof -
  let ?P = "Free t p (pool_of k (al S))"
  obtain c where c: "slab_inv (pool_of k (al S)) c" "c Batch = []" "c Held = held_in S k" and sz: "SLOT (pool_of k (al S)) = slot_bytes k"
    using I by (auto simp: alloc_inv_def class_ok_def)
  obtain sh xs where d: "slab_inv ?P (c(Held := remove1 p (c Held), Shared := sh, Cached t := xs))"
    using Free_spec [OF c(1), of p t] p c(3) by auto
  have bl: "blocks ?P = blocks (pool_of k (al S))" "SLOT ?P = SLOT (pool_of k (al S))"
    by (auto simp: Free_def flush_def Let_def blocks_def)
  have "alloc_inv \<lparr>al = set_pool k ?P (al S), held_in = (held_in S)(k := remove1 p (held_in S k))\<rparr>"
    using I c sz by (intro class_replace [where a = None, OF _ d]) (simp_all add: alloc_inv_def fresh_span_def ext_set_def bl)
  then show ?thesis by (simp add: alloc_inv_def)
qed

section \<open>Runs\<close>

lemma alloc_step_inv:
  assumes I: "alloc_inv S" and s: "alloc_step e S = Some S'"
  shows "alloc_inv S'"
proof (cases e)
  case (AAlloc t n a)
  obtain p A where r: "AllocSized t n a (al S) = (p, A)" by (cases "AllocSized t n a (al S)")
  have f: "\<And>k. fresh_span k (a k) (al S)" using s by (auto simp: AAlloc fresh_all_def list_all_iff split: if_splits)
  have I': "alloc_inv \<lparr>al = al S, held_in = held_in S\<rparr>" using I by (simp add: alloc_inv_def)
  note spec = alloc_in_spec [OF I' f r [unfolded AllocSized_def]]
  have S': "S' = S\<lparr>al := A, held_in := (case class_given p A of None \<Rightarrow> held_in S
      | Some k \<Rightarrow> if p = 0 then held_in S else (held_in S)(k := p # held_in S k))\<rparr>"
    using s r by (simp add: AAlloc split: if_splits)
  show ?thesis
  proof (cases "p = 0")
    case True
    then show ?thesis using spec by (auto simp: S' alloc_inv_def split: option.splits)
  next
    case False
    then obtain k where k: "alloc_inv \<lparr>al = A, held_in = (held_in S)(k := p # held_in S k)\<rparr>" using spec by auto
    then have "class_given p A = Some k" using class_given_held(1) [OF k, of p k] by simp
    then show ?thesis using k False by (simp add: S' alloc_inv_def)
  qed
next
  case (AFree t p)
  then obtain k where k: "class_holding p S = Some k"
    and S': "S' = S\<lparr>al := snd (FreeSized t p (al S)), held_in := (held_in S)(k := remove1 p (held_in S k))\<rparr>"
    using s by (auto split: option.splits)
  have "p \<in> set (held_in S k)" using k by (auto simp: class_holding_def find_Some_iff)
  then show ?thesis using free_class_inv [OF I] FreeSized_routes [OF I] by (simp add: S')
next
  case (APrefault n)
  let ?P = "Prefault n (pool_of C256 (al S))"
  have S': "S' = S\<lparr>al := set_pool C256 ?P (al S)\<rparr>" using s by (simp add: APrefault)
  obtain c where c: "slab_inv (pool_of C256 (al S)) c" "c Batch = []" "c Held = held_in S C256" and sz: "SLOT (pool_of C256 (al S)) = 256"
    using I by (auto simp: alloc_inv_def class_ok_def dest: spec [of _ C256])
  obtain s where d: "slab_inv ?P (c(Shared := s))" using Prefault_spec [OF c(1)] by blast
  have e: "ext_set ?P = ext_set (pool_of C256 (al S))" "SLOT ?P = SLOT (pool_of C256 (al S))"
    by (simp_all add: Prefault_def Let_def ext_set_def blocks_def extent_of_def split: prod.splits)
  have "alloc_inv \<lparr>al = set_pool C256 ?P (al S), held_in = (held_in S)(C256 := held_in S C256)\<rparr>"
    using I c sz e by (intro class_replace [where a = None, OF _ d]) (simp_all add: alloc_inv_def fresh_span_def)
  then show ?thesis by (simp add: alloc_inv_def S')
qed

text \<open>The memory of the four classes at construction: not null, and apart from each other.\<close>

definition layout_ok :: "(slot_class \<Rightarrow> nat) \<Rightarrow> (slot_class \<Rightarrow> nat) \<Rightarrow> bool" where
  "layout_ok b n = list_all (\<lambda>k. b k > 0 \<and> list_all (\<lambda>j. k = j \<or> n k = 0 \<or> n j = 0
     \<or> bytes_apart (b k, n k * slot_bytes k) (b j, n j * slot_bytes j)) classes) classes"

definition alloc_init :: "(slot_class \<Rightarrow> nat) \<Rightarrow> (slot_class \<Rightarrow> nat) \<Rightarrow> bool \<Rightarrow> alloc_sys" where
  "alloc_init b n lazy = \<lparr>al = TaskAllocator_new b n lazy, held_in = (\<lambda>_. [])\<rparr>"

lemma pool_of_new: "pool_of k (TaskAllocator_new b n lazy) = the (SlabPool_new 0 (slot_bytes k) (b k) (n k) lazy)"
  by (cases k) (simp_all add: TaskAllocator_new_def)

lemma new_ext: "ext_set (the (SlabPool_new 0 sz b n lazy)) = {(if n = 0 then 0 else b, n)}"
  by (simp add: SlabPool_new_def Prefault_def Let_def ext_set_def blocks_def extent_of_def split: prod.splits)

lemma alloc_init_inv:
  assumes "layout_ok b n"
  shows "alloc_inv (alloc_init b n lazy)"
proof -
  have "class_ok (TaskAllocator_new b n lazy) (\<lambda>_. []) k" for k
  proof -
    obtain P where P: "SlabPool_new 0 (slot_bytes k) (b k) (n k) lazy = Some P" by (simp add: SlabPool_new_def Let_def)
    moreover have "b k > 0" using assms by (auto simp: layout_ok_def list_all_iff)
    ultimately show ?thesis using new_inv [OF P] by (auto simp: class_ok_def pool_of_new)
  qed
  moreover have "cross_apart (TaskAllocator_new b n lazy)"
    unfolding cross_apart_def spans_ext pool_of_new new_ext
  proof (intro allI impI)
    fix k j :: slot_class
    assume kj: "k \<noteq> j"
    have "n k = 0 \<or> n j = 0 \<or> bytes_apart (b k, n k * slot_bytes k) (b j, n j * slot_bytes j)"
      using assms kj unfolding layout_ok_def list_all_iff set_classes by blast
    then show "\<forall>X \<in> (\<lambda>E. (fst E, snd E * slot_bytes k)) ` {(if n k = 0 then 0 else b k, n k)}.
        \<forall>Y \<in> (\<lambda>E. (fst E, snd E * slot_bytes j)) ` {(if n j = 0 then 0 else b j, n j)}. bytes_apart X Y"
      by (auto simp: bytes_apart_def)
  qed
  ultimately show ?thesis by (simp add: alloc_inv_def alloc_init_def)
qed

lemma alloc_run: "layout_ok b n \<Longrightarrow> step_invariant alloc_step (alloc_init b n lazy) alloc_inv"
  by unfold_locales (rule alloc_init_inv, assumption, rule alloc_step_inv)

section \<open>What the allocator guarantees\<close>

text \<open>C40: A block that \<^verbatim>\<open>AllocSized\<close> returns is at least as large as asked for, overlaps no block held from any class, and is owned by
  exactly one pool; \<^verbatim>\<open>FreeSized\<close> of its address, on whatever thread, returns it to that pool and to no other. This holds after every
  sequence of allocations and frees, with extents added on the way.\<close>

theorem allocator_roundtrip:
  assumes run: "exec alloc_step es (alloc_init b m lazy) = Some S" and lay: "layout_ok b m" and f: "fresh_all a (al S)"
    and r: "AllocSized t n a (al S) = (p, A)" and p: "p \<noteq> 0"
  shows "\<exists>k. n \<le> slot_bytes k \<and> (\<forall>j. SlotInSlab (pool_of j A) p \<longleftrightarrow> j = k)
           \<and> (\<forall>j. \<forall>q \<in> set (held_in S j). p + slot_bytes k \<le> q \<or> q + slot_bytes j \<le> p)
           \<and> FreeSized u p A = (True, set_pool k (Free u p (pool_of k A)) A)"
proof -
  have I: "alloc_inv \<lparr>al = al S, held_in = held_in S\<rparr>"
    using step_invariant.inv_exec [OF alloc_run [OF lay] run] by (simp add: alloc_inv_def)
  have "\<And>k. fresh_span k (a k) (al S)" using f by (simp add: fresh_all_def list_all_iff)
  then obtain k where k: "n \<le> slot_bytes k" "alloc_inv \<lparr>al = A, held_in = (held_in S)(k := p # held_in S k)\<rparr>"
    using alloc_in_spec [OF I _ r [unfolded AllocSized_def]] p by auto
  let ?S = "\<lparr>al = A, held_in = (held_in S)(k := p # held_in S k)\<rparr>"
  have pk: "p \<in> set (held_in ?S k)" by simp
  have own: "SlotInSlab (pool_of k A) p" using held_in_slab [OF k(2) pk] by simp
  have same: "p + slot_bytes k \<le> q \<or> q + slot_bytes k \<le> p" if "q \<in> set (held_in S k)" for q
  proof -
    obtain c where c: "slab_inv (pool_of k A) c" "c Held = p # held_in S k" "SLOT (pool_of k A) = slot_bytes k"
      using k(2) by (auto simp: alloc_inv_def class_ok_def dest: spec [of _ k])
    have "p \<noteq> q" using parted_distinct [OF slab_invD(2) [OF c(1)], of Held] that by (auto simp: c(2))
    moreover have "SlotInSlab (pool_of k A) q" using held_in_slab [OF k(2), of q k] that by simp
    ultimately show ?thesis using slots_apart [OF slab_invD(1) [OF c(1)] own] by (simp add: c(3))
  qed
  have "p + slot_bytes k \<le> q \<or> q + slot_bytes j \<le> p" if "q \<in> set (held_in S j)" for j q
  proof (cases "j = k")
    case False
    then have "SlotInSlab (pool_of j A) q" using held_in_slab [OF k(2), of q j] that by simp
    then show ?thesis using classes_disjoint [OF k(2), of k p j q] own False by simp
  qed (use same that in simp)
  moreover have "\<forall>j. SlotInSlab (pool_of j A) p \<longleftrightarrow> j = k" using one_owner [OF k(2), of k p] own by simp
  moreover have "FreeSized u p A = (True, set_pool k (Free u p (pool_of k A)) A)" using FreeSized_routes [OF k(2) pk] by simp
  ultimately show ?thesis using k(1) by blast
qed

theorem allocator_roundtrip_witness:
  "\<exists>S p A k. exec alloc_step [] (alloc_init (\<lambda>k. slot_bytes k * 2) (\<lambda>k. if k = C80 then 1 else 0) True) = Some S
     \<and> AllocSized 1 70 (\<lambda>_. None) (al S) = (p, A) \<and> p \<noteq> 0 \<and> 70 \<le> slot_bytes k \<and> (\<forall>j. SlotInSlab (pool_of j A) p \<longleftrightarrow> j = k)
     \<and> FreeSized 2 p A = (True, set_pool k (Free 2 p (pool_of k A)) A)"
proof -
  let ?b = "\<lambda>k. slot_bytes k * 2" and ?n = "\<lambda>k. if k = C80 then (1::nat) else 0"
  let ?S = "alloc_init ?b ?n True"
  obtain p A where r: "AllocSized 1 70 (\<lambda>_. None) (al ?S) = (p, A)" by (cases "AllocSized 1 70 (\<lambda>_. None) (al ?S)")
  have e: "exec alloc_step [] ?S = Some ?S" by simp
  have lay: "layout_ok ?b ?n" by (simp add: layout_ok_def classes_def)
  have "fst (AllocSized 1 70 (\<lambda>_. None) (al ?S)) \<noteq> 0"
    by code_simp
  then have p: "p \<noteq> 0" unfolding r by simp
  have f: "fresh_all (\<lambda>_. None) (al ?S)" by (simp add: fresh_all_def fresh_span_def classes_def)
  show ?thesis using allocator_roundtrip [OF e lay f r p, of 2] e r p by blast
qed

end
