(* ===== verification/Fiber_Event.thy ===== *)
theory Fiber_Event
  imports Timer_Wheel
begin

text \<open>
  Fibers that wait for an event, and the calls that wake them (\<^verbatim>\<open>include/Fiber.h\<close>, \<^verbatim>\<open>include/Event.h\<close>, \<^verbatim>\<open>TaskScheduler::WaitOnEvent\<close>
  and the part of \<^verbatim>\<open>Thread::Worker\<close> that handles a fiber that has switched out). Every atomic access of the status word, of the
  waiter slots and of the occupancy bitmap is a step of its own, so a fiber that is parking, the worker it leaves, fibers that withdraw
  because they are cancelled, and any number of calls of \<^verbatim>\<open>SignalAll\<close>, \<^verbatim>\<open>SignalOne\<close> and \<^verbatim>\<open>CancelWaiters\<close> interleave freely.
  A fiber and the task assigned to it are named by the fiber's pool index.
\<close>

section \<open>State\<close>

datatype fiber_status = READY | RUNNING | WANTS_YIELD | WANTS_SUSPEND | SUSPEND_SIGNALED | SUSPENDED | DEAD

text \<open>
  Where a fiber is: in its task's code, in \<^verbatim>\<open>WaitOnEvent\<close> (about to store its slot, to set its bit, to look at its cancellation,
  to withdraw, to switch out), in the hands of the worker it left, parked, in a run queue, or finished. \<open>FClash\<close> is the
  error: the fiber was put into a run queue although its stack was in use, or it was queued already.
\<close>

datatype fiber_pc = FBody | FStore | FMark | FCheck | FUnmark | FTakeBack | FRestore | FSwitch
  | FReturned | FYielded | FPark | FSignaled | FRequeue | FParked | FQueued | FDead | FClash

text \<open>A thread in \<^verbatim>\<open>SignalAll\<close>, \<^verbatim>\<open>CancelWaiters\<close> or \<^verbatim>\<open>SignalOne\<close>, with the local variables of the call.\<close>

datatype wake_mode = MAll | MCancel | MOne

datatype waker_pc = WIdle | WLoad | WXchg | WBits | WClear nat | WTake nat | WRes nat | WCas nat fiber_status | WFlush bool

record waker =
  wk_mode :: wake_mode
  wk_word :: nat
  wk_bits :: u64
  wk_hi :: "nat list"
  wk_lo :: "nat list"
  wk_fl :: "nat list"
  wpc :: waker_pc

record event_sys =
  fiberCount :: nat
  table :: bool
  slots :: "nat \<Rightarrow> bool"
  occupied_words :: "nat \<Rightarrow> u64"
  status :: "nat \<Rightarrow> fiber_status"
  fpc :: "nat \<Rightarrow> fiber_pc"
  cancelled :: "nat \<Rightarrow> bool"
  lowLatency :: "nat \<Rightarrow> bool"
  runq :: "nat list"
  wk :: "nat \<Rightarrow> waker"

definition words :: "event_sys \<Rightarrow> nat" where
  "words S = (fiberCount S + 63) div 64"

definition slot_bit :: "nat \<Rightarrow> u64" where
  "slot_bit i = push_bit (i mod 64) 1"

definition idle_waker :: waker where
  "idle_waker = \<lparr>wk_mode = MAll, wk_word = 0, wk_bits = 0, wk_hi = [], wk_lo = [], wk_fl = [], wpc = WIdle\<rparr>"

definition event_init :: "nat \<Rightarrow> (nat \<Rightarrow> bool) \<Rightarrow> event_sys" where
  "event_init n lane = \<lparr>fiberCount = n, table = False, slots = (\<lambda>_. False), occupied_words = (\<lambda>_. 0),
     status = (\<lambda>i. if i < n then READY else DEAD), fpc = (\<lambda>i. if i < n then FQueued else FDead),
     cancelled = (\<lambda>_. False), lowLatency = lane, runq = [0..<n], wk = (\<lambda>_. idle_waker)\<rparr>"

section \<open>Waiting\<close>

definition set_fiber :: "nat \<Rightarrow> fiber_pc \<Rightarrow> event_sys \<Rightarrow> event_sys" where
  "set_fiber i p S = S\<lparr>fpc := (fpc S)(i := p)\<rparr>"

definition set_status :: "nat \<Rightarrow> fiber_status \<Rightarrow> event_sys \<Rightarrow> event_sys" where
  "set_status i s S = S\<lparr>status := (status S)(i := s)\<rparr>"

definition set_slot_of :: "nat \<Rightarrow> bool \<Rightarrow> event_sys \<Rightarrow> event_sys" where
  "set_slot_of i b S = S\<lparr>slots := (slots S)(i := b)\<rparr>"

definition set_word :: "nat \<Rightarrow> u64 \<Rightarrow> event_sys \<Rightarrow> event_sys" where
  "set_word w v S = S\<lparr>occupied_words := (occupied_words S)(w := v)\<rparr>"

text \<open>
  Putting a fiber into a run queue, which only appends to the queue: whether that is right depends on where the fiber is. Its saved context may be used only once it has switched out and
  the worker it left has let go of it.
\<close>

definition off_stack :: "fiber_pc \<Rightarrow> bool" where
  "off_stack p = (p \<in> {FRequeue, FParked, FDead})"

definition enqueue :: "nat \<Rightarrow> event_sys \<Rightarrow> event_sys" where
  "enqueue i S = set_fiber i (if off_stack (fpc S i) then FQueued else FClash) (S\<lparr>runq := runq S @ [i]\<rparr>)"

text \<open>
  \<^verbatim>\<open>WaitOnEvent\<close> up to the first store; \<open>cancellable\<close> for \<^verbatim>\<open>WaitOnEventCancellable\<close>, which returns at once in a cancelled task. \<^verbatim>\<open>Reserve\<close>
  makes the waiter table; \<open>mem\<close> tells whether there is memory for it. Without it the call throws, and the task runs on.
\<close>

definition wait_begin :: "nat \<Rightarrow> bool \<Rightarrow> bool \<Rightarrow> event_sys \<Rightarrow> event_sys option" where
  "wait_begin i cancellable mem S =
     (if fpc S i \<noteq> FBody then None
      else if cancellable \<and> cancelled S i then Some S
      else if table S \<or> mem then Some (set_fiber i FStore (set_status i WANTS_SUSPEND (S\<lparr>table := True\<rparr>)))
      else Some S)"

text \<open>The rest of \<^verbatim>\<open>WaitOnEvent\<close>: \<^verbatim>\<open>AddWaiter\<close>, the check, \<^verbatim>\<open>SelfRemove\<close> and the switch.\<close>

definition wait_step :: "nat \<Rightarrow> event_sys \<Rightarrow> event_sys option" where
  "wait_step i S = (case fpc S i of
      FStore \<Rightarrow> Some (if i \<ge> fiberCount S then set_fiber i FCheck S else set_fiber i FMark (set_slot_of i True S))
    | FMark \<Rightarrow> Some (set_fiber i FCheck (set_word (i div 64) (occupied_words S (i div 64) OR slot_bit i) S))
    | FCheck \<Rightarrow> Some (set_fiber i (if cancelled S i \<and> i < fiberCount S then FUnmark else FSwitch) S)
    | FUnmark \<Rightarrow> Some (set_fiber i FTakeBack (set_word (i div 64) (occupied_words S (i div 64) AND NOT (slot_bit i)) S))
    | FTakeBack \<Rightarrow> Some (set_fiber i (if slots S i then FRestore else FSwitch) (set_slot_of i False S))
    | FRestore \<Rightarrow> Some (set_fiber i FBody (set_status i RUNNING S))
    | FSwitch \<Rightarrow> Some (set_fiber i FReturned S)
    | _ \<Rightarrow> None)"

text \<open>
  The worker a fiber has switched back to: a finished fiber goes back to its pool, a yielding one is queued again, a suspending one is parked unless it was
  signalled meanwhile.
\<close>

definition OnFiberReturned :: "nat \<Rightarrow> event_sys \<Rightarrow> event_sys option" where
  "OnFiberReturned i S = (case fpc S i of
      FReturned \<Rightarrow> Some (set_fiber i (case status S i of DEAD \<Rightarrow> FDead | WANTS_YIELD \<Rightarrow> FYielded | _ \<Rightarrow> FPark) S)
    | FYielded \<Rightarrow> Some (set_fiber i FRequeue (set_status i READY S))
    | FPark \<Rightarrow> Some (if status S i = WANTS_SUSPEND then set_fiber i FParked (set_status i SUSPENDED S)
                    else if status S i = SUSPEND_SIGNALED then set_fiber i FSignaled S
                    else set_fiber i FParked S)
    | FSignaled \<Rightarrow> Some (set_fiber i FRequeue (set_status i READY S))
    | FRequeue \<Rightarrow> Some (enqueue i S)
    | _ \<Rightarrow> None)"

definition fiber_step :: "nat \<Rightarrow> event_sys \<Rightarrow> event_sys option" where
  "fiber_step i S = (case wait_step i S of None \<Rightarrow> OnFiberReturned i S | Some S' \<Rightarrow> Some S')"

section \<open>Waking\<close>

definition set_waker :: "nat \<Rightarrow> waker \<Rightarrow> event_sys \<Rightarrow> event_sys" where
  "set_waker k W S = S\<lparr>wk := (wk S)(k := W)\<rparr>"

text \<open>After \<^verbatim>\<open>ResumeQueueless\<close>: a fiber that became ready goes to the buffer of its lane, which is emptied when it holds 64.\<close>

definition resumed :: "nat \<Rightarrow> bool \<Rightarrow> event_sys \<Rightarrow> waker \<Rightarrow> waker" where
  "resumed i r S W =
     (if wk_mode W = MOne then (if r then W\<lparr>wk_fl := [i], wpc := WFlush True\<rparr> else W\<lparr>wpc := WIdle\<rparr>)
      else if \<not> r then W\<lparr>wpc := WBits\<rparr>
      else if lowLatency S i then
        (if length (wk_hi W) + 1 = 64 then W\<lparr>wk_hi := [], wk_fl := wk_hi W @ [i], wpc := WFlush False\<rparr>
         else W\<lparr>wk_hi := wk_hi W @ [i], wpc := WBits\<rparr>)
      else
        (if length (wk_lo W) + 1 = 64 then W\<lparr>wk_lo := [], wk_fl := wk_lo W @ [i], wpc := WFlush False\<rparr>
         else W\<lparr>wk_lo := wk_lo W @ [i], wpc := WBits\<rparr>))"

definition wake_begin :: "nat \<Rightarrow> wake_mode \<Rightarrow> event_sys \<Rightarrow> event_sys option" where
  "wake_begin k m S =
     (if wpc (wk S k) \<noteq> WIdle then None
      else if \<not> table S then Some S
      else Some (set_waker k (idle_waker\<lparr>wk_mode := m, wpc := WLoad\<rparr>) S))"

text \<open>The loops of \<^verbatim>\<open>SignalAll\<close>, \<^verbatim>\<open>CancelWaiters\<close> and \<^verbatim>\<open>SignalOne\<close>, with \<^verbatim>\<open>TakeSlot\<close>, \<^verbatim>\<open>WakeOne\<close> and \<^verbatim>\<open>ResumeQueueless\<close>.\<close>

definition take_slot :: "nat \<Rightarrow> nat \<Rightarrow> waker \<Rightarrow> event_sys \<Rightarrow> event_sys" where
  "take_slot k i W S =
     (if slots S i then
        (let S = set_waker k (W\<lparr>wpc := WRes i\<rparr>) (set_slot_of i False S)
         in if wk_mode W = MCancel then S\<lparr>cancelled := (cancelled S)(i := True)\<rparr> else S)
      else set_waker k (W\<lparr>wpc := WBits\<rparr>) S)"

definition cas_resume :: "nat \<Rightarrow> nat \<Rightarrow> fiber_status \<Rightarrow> waker \<Rightarrow> event_sys \<Rightarrow> event_sys" where
  "cas_resume k i s W S =
     (if s = SUSPENDED then
        (if status S i = SUSPENDED then set_waker k (resumed i True S W) (set_status i READY S)
         else set_waker k (resumed i False S W) S)
      else
        (if status S i = WANTS_SUSPEND then set_waker k (resumed i False S W) (set_status i SUSPEND_SIGNALED S)
         else set_waker k (W\<lparr>wpc := WRes i\<rparr>) S))"

definition waker_step :: "nat \<Rightarrow> event_sys \<Rightarrow> event_sys option" where
  "waker_step k S = (let W = wk S k; w = wk_word W in case wpc W of
      WIdle \<Rightarrow> None
    | WLoad \<Rightarrow> Some (
        if w < words S then
          (if wk_mode W = MAll then
             (if occupied_words S w = 0 then set_waker k (W\<lparr>wk_word := w + 1\<rparr>) S else set_waker k (W\<lparr>wpc := WXchg\<rparr>) S)
           else set_waker k (W\<lparr>wk_bits := occupied_words S w, wpc := WBits\<rparr>) S)
        else if wk_mode W = MOne then set_waker k (W\<lparr>wpc := WIdle\<rparr>) S
        else set_waker k (W\<lparr>wk_hi := [], wk_lo := [], wk_fl := wk_hi W @ wk_lo W, wpc := WFlush True\<rparr>) S)
    | WXchg \<Rightarrow> Some (set_waker k (W\<lparr>wk_bits := occupied_words S w, wpc := WBits\<rparr>) (set_word w 0 S))
    | WBits \<Rightarrow> Some (
        if wk_bits W = 0 then set_waker k (W\<lparr>wk_word := w + 1, wpc := WLoad\<rparr>) S
        else (let b = CountTrailingZeros64 (wk_bits W); W = W\<lparr>wk_bits := wk_bits W AND (wk_bits W - 1)\<rparr>
              in set_waker k (W\<lparr>wpc := (if wk_mode W = MAll then WTake (w * 64 + b) else WClear (w * 64 + b))\<rparr>) S))
    | WClear i \<Rightarrow>
        Some (set_waker k (W\<lparr>wpc := (if bit (occupied_words S w) (i mod 64) then WTake i else WBits)\<rparr>)
          (set_word w (occupied_words S w AND NOT (slot_bit i)) S))
    | WTake i \<Rightarrow> Some (take_slot k i W S)
    | WRes i \<Rightarrow>
        Some (if status S i = SUSPENDED \<or> status S i = WANTS_SUSPEND then set_waker k (W\<lparr>wpc := WCas i (status S i)\<rparr>) S
              else set_waker k (resumed i False S W) S)
    | WCas i s \<Rightarrow> Some (cas_resume k i s W S)
    | WFlush fin \<Rightarrow>
        (case wk_fl W of
           [] \<Rightarrow> Some (set_waker k (W\<lparr>wpc := (if fin then WIdle else WBits)\<rparr>) S)
         | i # r \<Rightarrow> Some (enqueue i (set_waker k (W\<lparr>wk_fl := r\<rparr>) S))))"

section \<open>The system\<close>

text \<open>
  The events: a task calls \<^verbatim>\<open>WaitOnEvent\<close>, yields or returns; a fiber, or the worker it left, performs its next access; a
  worker picks a fiber from a run queue and switches to it; a finished fiber is reused for a new task; a task is cancelled through its scope; a
  thread calls one of the three wake operations or performs its next access.
\<close>

datatype event_op = EWait nat bool bool | EYield nat | EReturn nat | EFiber nat | ERun nat | EReuse nat | EScope nat
  | EWake nat wake_mode | EWaker nat

fun event_step :: "event_op \<Rightarrow> event_sys \<Rightarrow> event_sys option" where
  "event_step (EWait i c m) S = wait_begin i c m S"
| "event_step (EYield i) S = (if fpc S i = FBody then Some (set_fiber i FSwitch (set_status i WANTS_YIELD S)) else None)"
| "event_step (EReturn i) S = (if fpc S i = FBody then Some (set_fiber i FSwitch (set_status i DEAD S)) else None)"
| "event_step (EFiber i) S = fiber_step i S"
| "event_step (ERun i) S =
     (if i \<in> set (runq S) then Some (set_fiber i FBody (set_status i RUNNING (S\<lparr>runq := remove1 i (runq S)\<rparr>))) else None)"
| "event_step (EReuse i) S =
     (if fpc S i = FDead \<and> i < fiberCount S
      then Some (enqueue i (set_status i READY (S\<lparr>cancelled := (cancelled S)(i := False)\<rparr>))) else None)"
| "event_step (EScope i) S = Some (S\<lparr>cancelled := (cancelled S)(i := True)\<rparr>)"
| "event_step (EWake k m) S = wake_begin k m S"
| "event_step (EWaker k) S = waker_step k S"

end
