(* ===== verification/Fiber_Safety.thy ===== *)
theory Fiber_Safety
  imports Fiber_Event
begin

text \<open>
  What waiting for an event guarantees: a fiber is in at most one place and is run by a worker only when it has left the stack it
  runs on; no wakeup is lost, whatever the interleaving of parking, withdrawing, signalling and cancelling; and \<^verbatim>\<open>SignalAll\<close> comes to an end having
  woken everybody that waits.
\<close>

section \<open>Selectors\<close>

lemma set_sel [simp]:
  "fpc (set_fiber i p S) = (fpc S)(i := p)" "status (set_fiber i p S) = status S" "slots (set_fiber i p S) = slots S"
  "occupied_words (set_fiber i p S) = occupied_words S" "runq (set_fiber i p S) = runq S" "wk (set_fiber i p S) = wk S"
  "fiberCount (set_fiber i p S) = fiberCount S" "table (set_fiber i p S) = table S"
  "fpc (set_status i s S) = fpc S" "status (set_status i s S) = (status S)(i := s)" "slots (set_status i s S) = slots S"
  "occupied_words (set_status i s S) = occupied_words S" "runq (set_status i s S) = runq S" "wk (set_status i s S) = wk S"
  "fiberCount (set_status i s S) = fiberCount S" "table (set_status i s S) = table S"
  "fpc (set_slot_of i b S) = fpc S" "status (set_slot_of i b S) = status S" "slots (set_slot_of i b S) = (slots S)(i := b)"
  "occupied_words (set_slot_of i b S) = occupied_words S" "runq (set_slot_of i b S) = runq S" "wk (set_slot_of i b S) = wk S"
  "fiberCount (set_slot_of i b S) = fiberCount S" "table (set_slot_of i b S) = table S"
  "fpc (set_word w v S) = fpc S" "status (set_word w v S) = status S" "slots (set_word w v S) = slots S"
  "occupied_words (set_word w v S) = (occupied_words S)(w := v)" "runq (set_word w v S) = runq S" "wk (set_word w v S) = wk S"
  "fiberCount (set_word w v S) = fiberCount S" "table (set_word w v S) = table S"
  "fpc (set_waker k W S) = fpc S" "status (set_waker k W S) = status S" "slots (set_waker k W S) = slots S"
  "occupied_words (set_waker k W S) = occupied_words S" "runq (set_waker k W S) = runq S" "wk (set_waker k W S) = (wk S)(k := W)"
  "fiberCount (set_waker k W S) = fiberCount S" "table (set_waker k W S) = table S"
  by (simp_all add: set_fiber_def set_status_def set_slot_of_def set_word_def set_waker_def)

lemma enqueue_sel [simp]:
  "off_stack (fpc S i) \<Longrightarrow> fpc (enqueue i S) = (fpc S)(i := FQueued)" "status (enqueue i S) = status S" "slots (enqueue i S) = slots S"
  "occupied_words (enqueue i S) = occupied_words S" "runq (enqueue i S) = runq S @ [i]" "wk (enqueue i S) = wk S"
  "fiberCount (enqueue i S) = fiberCount S" "table (enqueue i S) = table S"
  by (simp_all add: enqueue_def)

lemma off_stack_simps [simp]: "off_stack FRequeue" "off_stack FParked" "off_stack FDead"
  by (simp_all add: off_stack_def)

lemmas fiber_step_defs = fiber_step_def wait_step_def OnFiberReturned_def

section \<open>Where a fiber can be found\<close>

text \<open>
  The places that may hold a fiber: its slot, the hand of a call that took it from the slot, the buffers of a call that made it ready, a run
  queue.
\<close>

datatype place = PSlot | PHand nat | PBuf nat | PQueue

definition in_hand :: "waker \<Rightarrow> nat \<Rightarrow> bool" where
  "in_hand W i = (case wpc W of WRes j \<Rightarrow> j = i | WCas j s \<Rightarrow> j = i | _ \<Rightarrow> False)"

definition buffers :: "waker \<Rightarrow> nat list" where
  "buffers W = wk_hi W @ wk_lo W @ wk_fl W"

fun at_place :: "event_sys \<Rightarrow> nat \<Rightarrow> place \<Rightarrow> bool" where
  "at_place S i PSlot = slots S i"
| "at_place S i (PHand k) = in_hand (wk S k) i"
| "at_place S i (PBuf k) = (i \<in> set (buffers (wk S k)))"
| "at_place S i PQueue = (i \<in> set (runq S))"

text \<open>The states of a fiber that is in no place, and of one that is in a given place.\<close>

definition waiting_pc :: "fiber_pc \<Rightarrow> bool" where
  "waiting_pc p = (p \<in> {FMark, FCheck, FUnmark, FTakeBack, FSwitch, FReturned, FPark})"

definition alone_ok :: "fiber_pc \<Rightarrow> fiber_status \<Rightarrow> bool" where
  "alone_ok p s = ((p, s) \<in> {(FBody, RUNNING), (FStore, WANTS_SUSPEND), (FRestore, WANTS_SUSPEND), (FSignaled, SUSPEND_SIGNALED),
       (FYielded, WANTS_YIELD), (FRequeue, READY), (FDead, DEAD)}
     \<or> (waiting_pc p \<and> s = SUSPEND_SIGNALED) \<or> (p \<in> {FSwitch, FReturned} \<and> s \<in> {WANTS_YIELD, DEAD}))"

definition waits_ok :: "fiber_pc \<Rightarrow> fiber_status \<Rightarrow> bool" where
  "waits_ok p s = ((waiting_pc p \<and> s = WANTS_SUSPEND) \<or> (p = FParked \<and> s = SUSPENDED))"

fun placed_ok :: "place \<Rightarrow> fiber_pc \<Rightarrow> fiber_status \<Rightarrow> bool" where
  "placed_ok PSlot p s = waits_ok p s"
| "placed_ok (PHand k) p s = waits_ok p s"
| "placed_ok (PBuf k) p s = (p = FParked \<and> s = READY)"
| "placed_ok PQueue p s = (p = FQueued \<and> s = READY)"

definition one_place :: "event_sys \<Rightarrow> nat \<Rightarrow> bool" where
  "one_place S i = ((\<forall>p q. at_place S i p \<longrightarrow> at_place S i q \<longrightarrow> p = q)
     \<and> (\<forall>p. at_place S i p \<longrightarrow> placed_ok p (fpc S i) (status S i))
     \<and> ((\<forall>p. \<not> at_place S i p) \<longrightarrow> alone_ok (fpc S i) (status S i)))"

definition bufs_ok :: "waker \<Rightarrow> bool" where
  "bufs_ok W = (distinct (buffers W) \<and> (wk_mode W = MOne \<longrightarrow> wk_hi W = [] \<and> wk_lo W = [])
     \<and> (wpc W = WIdle \<longrightarrow> buffers W = []) \<and> ((\<forall>f. wpc W \<noteq> WFlush f) \<longrightarrow> wk_fl W = [])
     \<and> (wpc W = WFlush True \<longrightarrow> wk_hi W = [] \<and> wk_lo W = []))"

definition cas_ok :: "event_sys \<Rightarrow> waker \<Rightarrow> bool" where
  "cas_ok S W = (case wpc W of WCas i s \<Rightarrow> s = WANTS_SUSPEND \<or> s = SUSPENDED \<and> status S i = SUSPENDED | _ \<Rightarrow> True)"

definition waker_ok :: "event_sys \<Rightarrow> waker \<Rightarrow> bool" where
  "waker_ok S W = (bufs_ok W \<and> cas_ok S W)"

definition places_inv :: "event_sys \<Rightarrow> bool" where
  "places_inv S = ((\<forall>i. one_place S i) \<and> distinct (runq S) \<and> (\<forall>k. waker_ok S (wk S k)))"

lemma waker_ok_frame:
  assumes "waker_ok S W" and "\<And>i. wpc W = WCas i SUSPENDED \<Longrightarrow> status S' i = status S i"
  shows "waker_ok S' W"
  using assms by (auto simp: waker_ok_def cas_ok_def split: waker_pc.splits)

text \<open>A step that concerns one fiber.\<close>

lemma one_place_other:
  assumes "one_place S j" and "\<And>p. at_place S' j p = at_place S j p" and "fpc S' j = fpc S j" and "status S' j = status S j"
  shows "one_place S' j"
  using assms by (simp add: one_place_def)

lemma one_placeI:
  assumes "\<And>q. at_place S i q \<longleftrightarrow> q = p" and "placed_ok p (fpc S i) (status S i)"
  shows "one_place S i"
  using assms by (auto simp: one_place_def)

lemma one_placeI_none:
  assumes "\<And>q. \<not> at_place S i q" and "alone_ok (fpc S i) (status S i)"
  shows "one_place S i"
  using assms by (auto simp: one_place_def)

lemma one_placeE:
  assumes "one_place S i"
  obtains (none) "\<And>q. \<not> at_place S i q" "alone_ok (fpc S i) (status S i)"
    | (at) p where "\<And>q. at_place S i q \<longleftrightarrow> q = p" "placed_ok p (fpc S i) (status S i)"
  using assms unfolding one_place_def by metis

lemma places_invI:
  assumes "\<And>i. one_place S i" "distinct (runq S)" "\<And>k. waker_ok S (wk S k)"
  shows "places_inv S"
  using assms by (simp add: places_inv_def)

lemma places_invD:
  assumes "places_inv S"
  shows "one_place S i" "distinct (runq S)" "waker_ok S (wk S k)"
  using assms by (auto simp: places_inv_def)

lemmas status_rules = alone_ok_def waits_ok_def waiting_pc_def

lemma hand_status:
  assumes "places_inv S" and "wpc (wk S k) = WCas i s"
  shows "waits_ok (fpc S i) (status S i)"
proof -
  have "at_place S i (PHand k)" using assms(2) by (simp add: in_hand_def)
  then show ?thesis using places_invD(1) [OF assms(1), of i] unfolding one_place_def by (metis placed_ok.simps(2))
qed

text \<open>Steps of fiber \<open>i\<close> that leave every place as it was.\<close>

lemma fiber_moves:
  assumes I: "places_inv S" and i: "fpc S i \<noteq> FParked"
    and S': "slots S' = slots S" "runq S' = runq S" "wk S' = wk S" "fpc S' = (fpc S)(i := p)" "status S' = (status S)(i := s)"
    and ok: "waits_ok (fpc S i) (status S i) \<Longrightarrow> waits_ok p s" "alone_ok (fpc S i) (status S i) \<Longrightarrow> alone_ok p s"
    and q: "fpc S i \<noteq> FQueued"
  shows "places_inv S'"
proof (rule places_invI)
  have pl: "at_place S' j r = at_place S j r" for j r by (cases r) (simp_all add: S')
  show "one_place S' j" for j
  proof (cases "j = i")
    case True
    from places_invD(1) [OF I, of i] show ?thesis
    proof (cases rule: one_placeE)
      case none
      then show ?thesis using ok(2) by (intro one_placeI_none) (simp_all add: True S' pl)
    next
      case (at r)
      then show ?thesis using ok(1) i q by (intro one_placeI [of _ _ r]) (cases r; simp add: True S' pl)+
    qed
  next
    case False
    then show ?thesis by (intro one_place_other [OF places_invD(1) [OF I]]) (simp_all add: pl S')
  qed
  show "distinct (runq S')" using places_invD(2) [OF I] by (simp add: S')
  show "waker_ok S' (wk S' k)" for k
  proof -
    have "wpc (wk S k) \<noteq> WCas i SUSPENDED"
      using hand_status [OF I, of k i SUSPENDED] places_invD(3) [OF I, of k] i by (auto simp: waker_ok_def cas_ok_def waits_ok_def)
    then show ?thesis unfolding S'(3) by (intro waker_ok_frame [OF places_invD(3) [OF I]]) (auto simp: S')
  qed
qed

text \<open>A fiber that is in no place is put into its slot or into a run queue.\<close>

lemma fiber_placed:
  assumes I: "places_inv S" and none: "\<And>q. \<not> at_place S i q"
    and pl: "\<And>j r. at_place S' j r \<longleftrightarrow> at_place S j r \<or> (j = i \<and> r = p)"
    and S': "wk S' = wk S" "\<And>j. j \<noteq> i \<Longrightarrow> fpc S' j = fpc S j \<and> status S' j = status S j" "placed_ok p (fpc S' i) (status S' i)"
    and d: "distinct (runq S')"
  shows "places_inv S'"
proof (rule places_invI)
  show "one_place S' j" for j
  proof (cases "j = i")
    case True
    then show ?thesis using none S'(3) by (intro one_placeI [of _ _ p]) (simp_all add: pl)
  next
    case False
    then show ?thesis using S'(2) by (intro one_place_other [OF places_invD(1) [OF I]]) (simp_all add: pl)
  qed
  show "distinct (runq S')" by (rule d)
  have "wpc (wk S k) \<noteq> WCas i s" for k s using none [of "PHand k"] by (auto simp: in_hand_def)
  then show "waker_ok S' (wk S' k)" for k
    unfolding S'(1) using S'(2) by (intro waker_ok_frame [OF places_invD(3) [OF I]]) metis
qed

text \<open>A fiber leaves its place and is in none.\<close>

lemma fiber_freed:
  assumes I: "places_inv S" and at: "at_place S i p"
    and pl: "\<And>j r. at_place S' j r \<longleftrightarrow> at_place S j r \<and> \<not> (j = i \<and> r = p)"
    and S': "\<And>j. j \<noteq> i \<Longrightarrow> fpc S' j = fpc S j \<and> status S' j = status S j" "alone_ok (fpc S' i) (status S' i)"
    and d: "distinct (runq S')" "\<And>k. waker_ok S' (wk S' k)"
  shows "places_inv S'"
proof (rule places_invI)
  have one: "at_place S i q \<Longrightarrow> q = p" for q using places_invD(1) [OF I, of i] at by (auto simp: one_place_def)
  show "one_place S' j" for j
  proof (cases "j = i")
    case True
    then show ?thesis using one S'(2) by (intro one_placeI_none) (auto simp: pl)
  next
    case False
    then show ?thesis using S'(1) by (intro one_place_other [OF places_invD(1) [OF I]]) (simp_all add: pl)
  qed
qed (use d in auto)

text \<open>A fiber goes from one place to another.\<close>

lemma fiber_handed:
  assumes I: "places_inv S" and at: "at_place S i p"
    and pl: "\<And>j r. at_place S' j r \<longleftrightarrow> (if j = i then r = q else at_place S j r)"
    and S': "\<And>j. j \<noteq> i \<Longrightarrow> fpc S' j = fpc S j \<and> status S' j = status S j" "placed_ok q (fpc S' i) (status S' i)"
    and d: "distinct (runq S')" "\<And>k. waker_ok S' (wk S' k)"
  shows "places_inv S'"
proof (rule places_invI)
  show "one_place S' j" for j
  proof (cases "j = i")
    case True
    then show ?thesis using S'(2) by (intro one_placeI [of _ _ q]) (auto simp: pl)
  next
    case False
    then show ?thesis using S'(1) by (intro one_place_other [OF places_invD(1) [OF I]]) (simp_all add: pl)
  qed
qed (use d in auto)

lemma alone_places:
  assumes "places_inv S" and "\<not> waits_ok (fpc S i) (status S i)" and "fpc S i \<noteq> FParked" and "fpc S i \<noteq> FQueued"
  shows "\<not> at_place S i q" and "alone_ok (fpc S i) (status S i)"
proof -
  from places_invD(1) [OF assms(1), of i] have *: "(\<forall>q. \<not> at_place S i q) \<and> alone_ok (fpc S i) (status S i)"
  proof (cases rule: one_placeE)
    case (at p)
    then show ?thesis using assms by (cases p) auto
  qed auto
  then show "\<not> at_place S i q" and "alone_ok (fpc S i) (status S i)" by auto
qed

section \<open>Fibers and workers keep the places\<close>

lemma FStore_keeps:
  assumes I: "places_inv S" and p: "fpc S i = FStore" and n: "i < fiberCount S"
  shows "places_inv (set_fiber i FMark (set_slot_of i True S))"
proof -
  have w: "\<not> waits_ok (fpc S i) (status S i)" by (simp add: p status_rules)
  note none = alone_places [OF I w]
  have "status S i = WANTS_SUSPEND" using none(2) by (simp add: p status_rules)
  moreover have "at_place (set_fiber i FMark (set_slot_of i True S)) j r \<longleftrightarrow> at_place S j r \<or> (j = i \<and> r = PSlot)" for j r
    by (cases r) auto
  ultimately show ?thesis using none(1) places_invD(2) [OF I]
    by (intro fiber_placed [OF I, of i _ PSlot]) (simp_all add: p status_rules)
qed

lemma FTakeBack_keeps:
  assumes I: "places_inv S" and p: "fpc S i = FTakeBack" and s: "slots S i"
  shows "places_inv (set_fiber i FRestore (set_slot_of i False S))"
proof (rule fiber_freed [OF I, of i PSlot])
  have "waits_ok (fpc S i) (status S i)" using places_invD(1) [OF I, of i] s unfolding one_place_def by (metis at_place.simps(1) placed_ok.simps(1))
  then show "alone_ok (fpc (set_fiber i FRestore (set_slot_of i False S)) i) (status (set_fiber i FRestore (set_slot_of i False S)) i)"
    by (simp add: p status_rules)
  show "at_place (set_fiber i FRestore (set_slot_of i False S)) j r \<longleftrightarrow> at_place S j r \<and> \<not> (j = i \<and> r = PSlot)" for j r
    by (cases r) auto
  show "waker_ok (set_fiber i FRestore (set_slot_of i False S)) (wk (set_fiber i FRestore (set_slot_of i False S)) k)" for k
    using waker_ok_frame [OF places_invD(3) [OF I, of k]] by simp
qed (use s places_invD(2) [OF I] in simp_all)

lemma queued_none:
  assumes I: "places_inv S" and i: "\<And>q. \<not> at_place S i q" and s: "status S' i = READY"
    and S': "slots S' = slots S" "wk S' = wk S" "runq S' = runq S @ [i]" "fpc S' = (fpc S)(i := FQueued)"
      "\<And>j. j \<noteq> i \<Longrightarrow> status S' j = status S j"
  shows "places_inv S'"
proof (rule fiber_placed [OF I, of i S' PQueue])
  show "at_place S' j r \<longleftrightarrow> at_place S j r \<or> (j = i \<and> r = PQueue)" for j r by (cases r) (auto simp: S')
  show "distinct (runq S')" using places_invD(2) [OF I] i [of PQueue] by (simp add: S')
qed (use i s in \<open>simp_all add: S'\<close>)

lemma fiber_step_keeps:
  assumes I: "places_inv S" and s: "fiber_step i S = Some S'" and n: "fpc S i = FStore \<Longrightarrow> i < fiberCount S"
  shows "places_inv S'"
proof (cases "fpc S i")
  case FStore
  then show ?thesis using FStore_keeps [OF I FStore] n s by (simp add: fiber_step_defs)
next
  case FTakeBack
  show ?thesis
  proof (cases "slots S i")
    case True
    then show ?thesis using FTakeBack_keeps [OF I FTakeBack] s by (simp add: fiber_step_defs FTakeBack)
  next
    case False
    then have "S' = set_fiber i FSwitch (set_slot_of i False S)" "(slots S)(i := False) = slots S"
      using s by (auto simp: fiber_step_defs FTakeBack fun_upd_idem)
    then show ?thesis by (intro fiber_moves [OF I, of i S' FSwitch "status S i"]) (simp_all add: FTakeBack status_rules)
  qed
next
  case FRequeue
  have w: "\<not> waits_ok (fpc S i) (status S i)" by (simp add: FRequeue status_rules)
  note none = alone_places [OF I w]
  show ?thesis using none s by (intro queued_none [OF I, of i]) (auto simp: fiber_step_defs FRequeue status_rules)
next
  case FPark
  have "alone_ok (fpc S i) (status S i) \<or> waits_ok (fpc S i) (status S i)"
    using alone_places(2) [OF I, of i] FPark by auto
  then have st: "status S i = WANTS_SUSPEND \<or> status S i = SUSPEND_SIGNALED" by (auto simp: FPark status_rules)
  show ?thesis
  proof (cases "status S i = WANTS_SUSPEND")
    case True
    then have "S' = set_fiber i FParked (set_status i SUSPENDED S)" using s by (simp add: fiber_step_defs FPark)
    then show ?thesis using True by (intro fiber_moves [OF I, of i S' FParked SUSPENDED]) (simp_all add: FPark status_rules)
  next
    case False
    then have "S' = set_fiber i FSignaled S" "status S i = SUSPEND_SIGNALED" using st s by (auto simp: fiber_step_defs FPark)
    then show ?thesis by (intro fiber_moves [OF I, of i S' FSignaled SUSPEND_SIGNALED]) (simp_all add: FPark status_rules fun_upd_idem)
  qed
qed (use s in \<open>auto simp: fiber_step_defs status_rules fun_upd_idem split: fiber_status.splits intro!: fiber_moves [OF I, where i = i]\<close>)

section \<open>Wakers keep the places\<close>

text \<open>Steps of a waker that change neither what it holds nor any fiber.\<close>

lemma waker_quiet:
  assumes I: "places_inv S" and S': "slots S' = slots S" "runq S' = runq S" "fpc S' = fpc S" "status S' = status S" "wk S' = (wk S)(k := W)"
    and h: "\<And>i. in_hand W i = in_hand (wk S k) i" and b: "set (buffers W) = set (buffers (wk S k))" and ok: "waker_ok S W"
  shows "places_inv S'"
proof (rule places_invI)
  have pl: "at_place S' j r = at_place S j r" for j r by (cases r) (auto simp: S' h b)
  show "one_place S' j" for j by (rule one_place_other [OF places_invD(1) [OF I]]) (simp_all add: pl S')
  show "distinct (runq S')" using places_invD(2) [OF I] by (simp add: S')
  show "waker_ok S' (wk S' j)" for j
    using waker_ok_frame [OF ok, of S'] waker_ok_frame [OF places_invD(3) [OF I, of j], of S'] by (simp add: S')
qed

lemma take_slot_keeps:
  assumes I: "places_inv S" and p: "wpc (wk S k) = WTake i"
  shows "places_inv (take_slot k i (wk S k) S)"
proof (cases "slots S i")
  case False
  have ok: "waker_ok S ((wk S k)\<lparr>wpc := WBits\<rparr>)"
    using places_invD(3) [OF I, of k] p by (auto simp: waker_ok_def bufs_ok_def cas_ok_def buffers_def)
  show ?thesis
    by (rule waker_quiet [OF I, of _ k "(wk S k)\<lparr>wpc := WBits\<rparr>"]) (use False ok in \<open>simp_all add: take_slot_def in_hand_def p buffers_def\<close>)
next
  case True
  let ?S = "take_slot k i (wk S k) S"
  have f: "slots ?S = (slots S)(i := False)" "runq ?S = runq S" "fpc ?S = fpc S" "status ?S = status S" "wk ?S = (wk S)(k := (wk S k)\<lparr>wpc := WRes i\<rparr>)"
    using True by (auto simp: take_slot_def Let_def)
  have at: "at_place S i PSlot" using True by simp
  then have one: "at_place S i r \<longleftrightarrow> r = PSlot" for r using places_invD(1) [OF I, of i] unfolding one_place_def by metis
  show ?thesis
  proof (rule fiber_handed [OF I at, of ?S "PHand k"])
    show "at_place ?S j r \<longleftrightarrow> (if j = i then r = PHand k else at_place S j r)" for j r
      using one [of r] p by (cases r) (auto simp: f in_hand_def buffers_def split: if_splits)
    show "placed_ok (PHand k) (fpc ?S i) (status ?S i)" using places_invD(1) [OF I, of i] at unfolding one_place_def by (metis f(3,4) placed_ok.simps(1,2))
    have "waker_ok S ((wk S k)\<lparr>wpc := WRes i\<rparr>)"
      using places_invD(3) [OF I, of k] p by (auto simp: waker_ok_def bufs_ok_def cas_ok_def buffers_def)
    then show "waker_ok ?S (wk ?S j)" for j
      using waker_ok_frame [of S _ ?S] places_invD(3) [OF I, of j] by (auto simp: f)
  qed (use places_invD(2) [OF I] in \<open>simp_all add: f\<close>)
qed

lemma resumed_True:
  assumes "wpc W = WCas i s" and "bufs_ok W" and "i \<notin> set (buffers W)"
  shows "bufs_ok (resumed i True S W)" and "set (buffers (resumed i True S W)) = insert i (set (buffers W))"
    and "wpc (resumed i True S W) \<in> {WBits, WFlush True, WFlush False}"
  using assms by (auto simp: resumed_def bufs_ok_def buffers_def)

lemma resumed_False:
  assumes "bufs_ok W" and "\<And>f. wpc W \<noteq> WFlush f"
  shows "bufs_ok (resumed i False S W)" and "buffers (resumed i False S W) = buffers W"
    and "wpc (resumed i False S W) \<in> {WBits, WIdle}"
  using assms by (auto simp: resumed_def bufs_ok_def buffers_def)

lemma cas_facts:
  assumes I: "places_inv S" and p: "wpc (wk S k) = WCas i s"
  shows "at_place S i (PHand k)" and "at_place S i r \<longleftrightarrow> r = PHand k" and "bufs_ok (wk S k)"
    and "s = SUSPENDED \<and> status S i = SUSPENDED \<or> s = WANTS_SUSPEND" and "waits_ok (fpc S i) (status S i)"
    and "in_hand (wk S k) j \<longleftrightarrow> j = i" and "i \<notin> set (buffers (wk S k))"
proof -
  show at: "at_place S i (PHand k)" using p by (simp add: in_hand_def)
  show one: "at_place S i r \<longleftrightarrow> r = PHand k" for r using places_invD(1) [OF I, of i] at unfolding one_place_def by metis
  show "bufs_ok (wk S k)" and "s = SUSPENDED \<and> status S i = SUSPENDED \<or> s = WANTS_SUSPEND"
    using places_invD(3) [OF I, of k] p by (auto simp: waker_ok_def cas_ok_def)
  show "waits_ok (fpc S i) (status S i)" by (rule hand_status [OF I p])
  show "in_hand (wk S k) j \<longleftrightarrow> j = i" using p by (auto simp: in_hand_def)
  show "i \<notin> set (buffers (wk S k))" using one [of "PBuf k"] by simp
qed

text \<open>The other wakers do not notice that the holder of a fiber changes its status.\<close>

lemma cas_wakers:
  assumes I: "places_inv S" and p: "wpc (wk S k) = WCas i s" and V: "bufs_ok V" "\<And>j q. wpc V \<noteq> WCas j q"
    and S': "S' = set_waker k V (set_status i x S)"
  shows "waker_ok S' (wk S' j)"
proof (cases "j = k")
  case True
  then show ?thesis using V by (auto simp: S' waker_ok_def cas_ok_def split: waker_pc.splits)
next
  case False
  then have "wpc (wk S j) \<noteq> WCas i q" for q using cas_facts(2) [OF I p, of "PHand j"] by (auto simp: in_hand_def)
  then have "waker_ok S' (wk S j)" by (intro waker_ok_frame [OF places_invD(3) [OF I, of j]]) (auto simp: S')
  then show ?thesis using False by (simp add: S')
qed

lemma cas_ready_keeps:
  assumes I: "places_inv S" and p: "wpc (wk S k) = WCas i SUSPENDED"
  shows "places_inv (cas_resume k i SUSPENDED (wk S k) S)"
proof -
  note F = cas_facts [OF I p]
  let ?S = "cas_resume k i SUSPENDED (wk S k) S" and ?V = "resumed i True S (wk S k)"
  note V = resumed_True [OF p F(3,7), of S]
  have S': "?S = set_waker k ?V (set_status i READY S)" and st: "fpc S i = FParked" using F(4,5) by (auto simp: cas_resume_def status_rules)
  have hV: "\<not> in_hand ?V j" for j using V(3) by (auto simp: in_hand_def)
  show ?thesis
  proof (rule fiber_handed [OF I F(1), of ?S "PBuf k"])
    show "at_place ?S j r \<longleftrightarrow> (if j = i then r = PBuf k else at_place S j r)" for j r
      using F(2) [of r] hV F(6) [of j] V(2) by (cases r) (auto simp: S')
    show "waker_ok ?S (wk ?S j)" for j by (rule cas_wakers [OF I p V(1) _ S']) (use V(3) in auto)
  qed (use places_invD(2) [OF I] st in \<open>simp_all add: S'\<close>)
qed

lemma cas_signal_keeps:
  assumes I: "places_inv S" and p: "wpc (wk S k) = WCas i WANTS_SUSPEND"
  shows "places_inv (cas_resume k i WANTS_SUSPEND (wk S k) S)"
proof (cases "status S i = WANTS_SUSPEND")
  case True
  note F = cas_facts [OF I p]
  let ?S = "cas_resume k i WANTS_SUSPEND (wk S k) S" and ?V = "resumed i False S (wk S k)"
  note V = resumed_False [OF F(3), of i S]
  have S': "?S = set_waker k ?V (set_status i SUSPEND_SIGNALED S)" using True by (simp add: cas_resume_def)
  have hV: "\<not> in_hand ?V j" for j using V(3) p by (auto simp: in_hand_def)
  show ?thesis
  proof (rule fiber_freed [OF I F(1), of ?S])
    show "at_place ?S j r \<longleftrightarrow> at_place S j r \<and> \<not> (j = i \<and> r = PHand k)" for j r
      using hV F(6) [of j] V(2) p by (cases r) (auto simp: S')
    show "alone_ok (fpc ?S i) (status ?S i)" using F(5) True by (auto simp: S' status_rules)
    show "waker_ok ?S (wk ?S j)" for j by (rule cas_wakers [OF I p _ _ S']) (use V(1,3) p in auto)
  qed (use places_invD(2) [OF I] in \<open>simp_all add: S'\<close>)
next
  case False
  note F = cas_facts [OF I p]
  have ok: "waker_ok S ((wk S k)\<lparr>wpc := WRes i\<rparr>)" using F(3) p by (auto simp: waker_ok_def cas_ok_def bufs_ok_def buffers_def)
  show ?thesis
    by (rule waker_quiet [OF I, of _ k "(wk S k)\<lparr>wpc := WRes i\<rparr>"]) (use False ok F(6) in \<open>auto simp: cas_resume_def in_hand_def buffers_def\<close>)
qed

lemma flush_keeps:
  assumes I: "places_inv S" and p: "wpc (wk S k) = WFlush fin" and fl: "wk_fl (wk S k) = i # r"
  shows "places_inv (enqueue i (set_waker k ((wk S k)\<lparr>wk_fl := r\<rparr>) S))"
proof -
  let ?S = "enqueue i (set_waker k ((wk S k)\<lparr>wk_fl := r\<rparr>) S)"
  have at: "at_place S i (PBuf k)" by (simp add: buffers_def fl)
  have one: "at_place S i q \<longleftrightarrow> q = PBuf k" for q using places_invD(1) [OF I, of i] at unfolding one_place_def by metis
  have st: "status S i = READY" "fpc S i = FParked" using places_invD(1) [OF I, of i] at unfolding one_place_def by (metis placed_ok.simps(3))+
  have b: "bufs_ok (wk S k)" using places_invD(3) [OF I, of k] by (simp add: waker_ok_def)
  have mem: "j \<in> set (buffers ((wk S k)\<lparr>wk_fl := r\<rparr>)) \<longleftrightarrow> j \<in> set (buffers (wk S k)) \<and> j \<noteq> i" for j
    using b by (auto simp: bufs_ok_def buffers_def fl)
  show ?thesis
  proof (rule fiber_handed [OF I at, of ?S PQueue])
    show "at_place ?S j q \<longleftrightarrow> (if j = i then q = PQueue else at_place S j q)" for j q
      using one [of q] mem by (cases q) (auto simp: in_hand_def)
    show "distinct (runq ?S)" using places_invD(2) [OF I] one [of PQueue] by simp
    have "bufs_ok ((wk S k)\<lparr>wk_fl := r\<rparr>)" using b p by (auto simp: bufs_ok_def buffers_def fl)
    then have "waker_ok S ((wk S k)\<lparr>wk_fl := r\<rparr>)" using p by (simp add: waker_ok_def cas_ok_def)
    then show "waker_ok ?S (wk ?S j)" for j
      using waker_ok_frame [of S _ ?S] places_invD(3) [OF I, of j] by auto
  qed (use st in simp_all)
qed

text \<open>The steps of the scan itself.\<close>

fun walking :: "waker_pc \<Rightarrow> bool" where
  "walking WLoad = True"
| "walking WXchg = True"
| "walking WBits = True"
| "walking (WClear i) = True"
| "walking (WTake i) = True"
| "walking _ = False"

lemma walking_facts: "walking (wpc W) \<Longrightarrow> \<not> in_hand W i" "walking (wpc W) \<Longrightarrow> cas_ok S W" "walking (wpc W) \<Longrightarrow> wpc W \<noteq> WIdle"
  "walking (wpc W) \<Longrightarrow> wpc W \<noteq> WFlush f"
  by (cases "wpc W"; simp add: in_hand_def cas_ok_def)+

lemma waker_walks:
  assumes I: "places_inv S" and S': "S' = set_waker k V R" "slots R = slots S" "runq R = runq S" "fpc R = fpc S" "status R = status S" "wk R = wk S"
    and V: "walking (wpc (wk S k))" "walking (wpc V)" "wk_hi V = wk_hi (wk S k)" "wk_lo V = wk_lo (wk S k)" "wk_fl V = wk_fl (wk S k)" "wk_mode V = wk_mode (wk S k)"
  shows "places_inv S'"
proof (rule waker_quiet [OF I, of S' k V])
  have "bufs_ok (wk S k)" using places_invD(3) [OF I, of k] by (simp add: waker_ok_def)
  then have "bufs_ok V" using V walking_facts(3,4) by (auto simp: bufs_ok_def buffers_def)
  then show "waker_ok S V" using walking_facts(2) [OF V(2)] by (simp add: waker_ok_def)
qed (use walking_facts(1) V in \<open>simp_all add: S' buffers_def\<close>)

lemma waker_ends:
  assumes I: "places_inv S" and p: "wpc (wk S k) = WLoad"
  shows "wk_mode (wk S k) = MOne \<Longrightarrow> places_inv (set_waker k ((wk S k)\<lparr>wpc := WIdle\<rparr>) S)"
    and "places_inv (set_waker k ((wk S k)\<lparr>wk_hi := [], wk_lo := [], wk_fl := wk_hi (wk S k) @ wk_lo (wk S k), wpc := WFlush True\<rparr>) S)"
proof -
  have b: "bufs_ok (wk S k)" using places_invD(3) [OF I, of k] by (simp add: waker_ok_def)
  let ?V = "(wk S k)\<lparr>wk_hi := [], wk_lo := [], wk_fl := wk_hi (wk S k) @ wk_lo (wk S k), wpc := WFlush True\<rparr>"
  have "waker_ok S ?V" using b p by (auto simp: waker_ok_def cas_ok_def bufs_ok_def buffers_def)
  then show "places_inv (set_waker k ?V S)"
    using b p by (intro waker_quiet [OF I, of _ k ?V]) (simp_all add: in_hand_def buffers_def bufs_ok_def)
  assume m: "wk_mode (wk S k) = MOne"
  have "waker_ok S ((wk S k)\<lparr>wpc := WIdle\<rparr>)" using b p m by (simp add: waker_ok_def cas_ok_def bufs_ok_def buffers_def)
  then show "places_inv (set_waker k ((wk S k)\<lparr>wpc := WIdle\<rparr>) S)"
    using p by (intro waker_quiet [OF I, of _ k "(wk S k)\<lparr>wpc := WIdle\<rparr>"]) (simp_all add: in_hand_def buffers_def)
qed

lemma res_keeps:
  assumes I: "places_inv S" and p: "wpc (wk S k) = WRes i" and s: "waker_step k S = Some S'"
  shows "places_inv S'"
proof -
  let ?V = "(wk S k)\<lparr>wpc := WCas i (status S i)\<rparr>"
  have "at_place S i (PHand k)" using p by (simp add: in_hand_def)
  then have "waits_ok (fpc S i) (status S i)" using places_invD(1) [OF I, of i] unfolding one_place_def by (metis placed_ok.simps(2))
  then have st: "status S i = SUSPENDED \<or> status S i = WANTS_SUSPEND" by (auto simp: status_rules)
  then have S': "S' = set_waker k ?V S" using s p by (simp add: waker_step_def Let_def)
  have "bufs_ok (wk S k)" using places_invD(3) [OF I, of k] by (simp add: waker_ok_def)
  then have "waker_ok S ?V" using st p by (auto simp: waker_ok_def cas_ok_def bufs_ok_def buffers_def)
  then show ?thesis by (intro waker_quiet [OF I, of _ k ?V]) (simp_all add: S' in_hand_def p buffers_def)
qed

lemma flush_end_keeps:
  assumes I: "places_inv S" and p: "wpc (wk S k) = WFlush fin" and fl: "wk_fl (wk S k) = []"
  shows "places_inv (set_waker k ((wk S k)\<lparr>wpc := (if fin then WIdle else WBits)\<rparr>) S)"
proof -
  let ?V = "(wk S k)\<lparr>wpc := (if fin then WIdle else WBits)\<rparr>"
  have "bufs_ok (wk S k)" using places_invD(3) [OF I, of k] by (simp add: waker_ok_def)
  then have "waker_ok S ?V" using p fl by (cases fin) (auto simp: waker_ok_def cas_ok_def bufs_ok_def buffers_def)
  then show ?thesis by (intro waker_quiet [OF I, of _ k ?V]) (simp_all add: in_hand_def p buffers_def)
qed

lemma waker_step_keeps:
  assumes I: "places_inv S" and s: "waker_step k S = Some S'"
  shows "places_inv S'"
proof (cases "wpc (wk S k)")
  case (WTake i)
  then show ?thesis using take_slot_keeps [OF I WTake] s by (simp add: waker_step_def Let_def)
next
  case (WCas i t)
  have "t = SUSPENDED \<or> t = WANTS_SUSPEND" using cas_facts(4) [OF I WCas] by auto
  then show ?thesis using cas_ready_keeps [OF I, of k i] cas_signal_keeps [OF I, of k i] WCas s by (auto simp: waker_step_def Let_def)
next
  case (WFlush fin)
  then show ?thesis using flush_keeps [OF I WFlush] flush_end_keeps [OF I WFlush] s by (cases "wk_fl (wk S k)") (auto simp: waker_step_def Let_def)
next
  case (WRes i)
  then show ?thesis by (rule res_keeps [OF I _ s])
next
  case WLoad
  then consider "S' = set_waker k ((wk S k)\<lparr>wk_word := wk_word (wk S k) + 1\<rparr>) S" | "S' = set_waker k ((wk S k)\<lparr>wpc := WXchg\<rparr>) S"
    | "S' = set_waker k ((wk S k)\<lparr>wk_bits := occupied_words S (wk_word (wk S k)), wpc := WBits\<rparr>) S"
    | "S' = set_waker k ((wk S k)\<lparr>wpc := WIdle\<rparr>) S" "wk_mode (wk S k) = MOne"
    | "S' = set_waker k ((wk S k)\<lparr>wk_hi := [], wk_lo := [], wk_fl := wk_hi (wk S k) @ wk_lo (wk S k), wpc := WFlush True\<rparr>) S"
    using s by (auto simp: waker_step_def Let_def split: if_splits)
  then show ?thesis
  proof cases
    case 1
    then show ?thesis by (rule waker_walks [OF I]) (simp_all add: WLoad)
  next
    case 2
    then show ?thesis by (rule waker_walks [OF I]) (simp_all add: WLoad)
  next
    case 3
    then show ?thesis by (rule waker_walks [OF I]) (simp_all add: WLoad)
  next
    case 4
    then show ?thesis using waker_ends(1) [OF I WLoad] by simp
  next
    case 5
    then show ?thesis using waker_ends(2) [OF I WLoad] by simp
  qed
next
  case WXchg
  have "S' = set_waker k ((wk S k)\<lparr>wk_bits := occupied_words S (wk_word (wk S k)), wpc := WBits\<rparr>) (set_word (wk_word (wk S k)) 0 S)"
    using s WXchg by (simp add: waker_step_def Let_def)
  then show ?thesis by (rule waker_walks [OF I]) (simp_all add: WXchg)
next
  case WBits
  let ?b = "CountTrailingZeros64 (wk_bits (wk S k))" and ?w = "wk_word (wk S k)"
  consider "S' = set_waker k ((wk S k)\<lparr>wk_word := ?w + 1, wpc := WLoad\<rparr>) S"
    | "S' = set_waker k ((wk S k)\<lparr>wk_bits := wk_bits (wk S k) AND (wk_bits (wk S k) - 1),
          wpc := (if wk_mode (wk S k) = MAll then WTake (?w * 64 + ?b) else WClear (?w * 64 + ?b))\<rparr>) S"
    using s WBits by (cases "wk_bits (wk S k) = 0") (simp_all add: waker_step_def Let_def)
  then show ?thesis
  proof cases
    case 1
    then show ?thesis by (rule waker_walks [OF I]) (simp_all add: WBits)
  next
    case 2
    then show ?thesis by (rule waker_walks [OF I]) (simp_all add: WBits)
  qed
next
  case (WClear i)
  let ?w = "wk_word (wk S k)"
  have "S' = set_waker k ((wk S k)\<lparr>wpc := (if bit (occupied_words S ?w) (i mod 64) then WTake i else WBits)\<rparr>)
      (set_word ?w (occupied_words S ?w AND NOT (slot_bit i)) S)" using s WClear by (simp add: waker_step_def Let_def)
  then show ?thesis by (rule waker_walks [OF I]) (simp_all add: WClear)
next
  case WIdle
  then show ?thesis using s by (simp add: waker_step_def Let_def)
qed

section \<open>Bits in the map\<close>

lemma bit_slot_bit: "n < 64 \<Longrightarrow> bit (slot_bit i) n \<longleftrightarrow> n = i mod 64"
  by (auto simp: slot_bit_def bit_simps)

definition marked :: "event_sys \<Rightarrow> nat \<Rightarrow> bool" where
  "marked S i = bit (occupied_words S (i div 64)) (i mod 64)"

text \<open>A call of \<^verbatim>\<open>SignalAll\<close> that has exchanged a word answers for the bits it took; any call answers for the slot it is about to take.\<close>

definition pending :: "waker \<Rightarrow> nat \<Rightarrow> bool" where
  "pending W i = (wpc W = WTake i \<or> (wk_mode W = MAll \<and> wk_word W = i div 64 \<and> bit (wk_bits W) (i mod 64)))"

definition scan_ok :: "waker \<Rightarrow> bool" where
  "scan_ok W = ((wk_mode W = MAll \<and> wpc W \<in> {WIdle, WLoad, WXchg, WFlush True} \<longrightarrow> wk_bits W = 0)
     \<and> (wpc W = WXchg \<longrightarrow> wk_mode W = MAll) \<and> (\<forall>i. wpc W = WClear i \<longrightarrow> wk_mode W \<noteq> MAll \<and> wk_word W = i div 64))"

definition registered :: "event_sys \<Rightarrow> nat \<Rightarrow> bool" where
  "registered S i = (marked S i \<or> fpc S i \<in> {FMark, FTakeBack} \<or> (\<exists>k. pending (wk S k) i))"

definition marks_inv :: "event_sys \<Rightarrow> bool" where
  "marks_inv S = ((\<forall>i. slots S i \<longrightarrow> registered S i) \<and> (\<forall>k. scan_ok (wk S k)) \<and> (\<forall>i. fpc S i \<noteq> FDead \<longrightarrow> i < fiberCount S)
     \<and> (\<forall>i. fpc S i = FStore \<or> slots S i \<longrightarrow> table S))"

lemma marked_word:
  "occupied_words S' = (occupied_words S)(i div 64 := occupied_words S (i div 64) OR slot_bit i) \<Longrightarrow> marked S' j \<longleftrightarrow> marked S j \<or> j = i"
  "occupied_words S' = (occupied_words S)(i div 64 := occupied_words S (i div 64) AND NOT (slot_bit i)) \<Longrightarrow> marked S' j \<longleftrightarrow> marked S j \<and> j \<noteq> i"
proof -
  have eq: "j div 64 = i div 64 \<and> j mod 64 = i mod 64 \<longleftrightarrow> j = i" by (metis div_mult_mod_eq)
  have b: "bit (slot_bit i) (j mod 64) \<longleftrightarrow> j mod 64 = i mod 64" by (rule bit_slot_bit) simp
  show "occupied_words S' = (occupied_words S)(i div 64 := occupied_words S (i div 64) OR slot_bit i) \<Longrightarrow> marked S' j \<longleftrightarrow> marked S j \<or> j = i"
    using eq b by (auto simp: marked_def bit_or_iff)
  show "occupied_words S' = (occupied_words S)(i div 64 := occupied_words S (i div 64) AND NOT (slot_bit i)) \<Longrightarrow> marked S' j \<longleftrightarrow> marked S j \<and> j \<noteq> i"
    using eq b by (auto simp: marked_def bit_and_iff bit_not_iff)
qed

lemma marks_invD:
  assumes "marks_inv S"
  shows "slots S i \<Longrightarrow> registered S i" "scan_ok (wk S k)" "fpc S i \<noteq> FDead \<Longrightarrow> i < fiberCount S" "fpc S i = FStore \<or> slots S i \<Longrightarrow> table S"
  using assms by (auto simp: marks_inv_def)

lemma marks_invI:
  assumes "\<And>i. slots S i \<Longrightarrow> registered S i" "\<And>k. scan_ok (wk S k)" "\<And>i. fpc S i \<noteq> FDead \<Longrightarrow> i < fiberCount S"
    "\<And>i. fpc S i = FStore \<or> slots S i \<Longrightarrow> table S"
  shows "marks_inv S"
  using assms by (auto simp: marks_inv_def)

text \<open>Steps of one fiber, and steps of one waker.\<close>

lemma fiber_marks:
  assumes I: "marks_inv S" and S': "wk S' = wk S" "fiberCount S' = fiberCount S" "fpc S' = (fpc S)(i := p)" "\<And>j. j \<noteq> i \<Longrightarrow> slots S' j = slots S j"
      "\<And>j. j \<noteq> i \<Longrightarrow> marked S' j = marked S j" "table S \<Longrightarrow> table S'"
    and r: "slots S' i \<Longrightarrow> registered S' i" and n: "p \<noteq> FDead \<Longrightarrow> i < fiberCount S" and tb: "p = FStore \<or> slots S' i \<Longrightarrow> table S'"
  shows "marks_inv S'"
proof (rule marks_invI)
  show "registered S' j" if "slots S' j" for j
    using that r marks_invD(1) [OF I, of j] S' by (cases "j = i") (auto simp: registered_def)
  show "scan_ok (wk S' k)" for k using marks_invD(2) [OF I] by (simp add: S')
  show "j < fiberCount S'" if "fpc S' j \<noteq> FDead" for j using that marks_invD(3) [OF I, of j] n by (auto simp: S' split: if_splits)
  show "table S'" if "fpc S' j = FStore \<or> slots S' j" for j
    using that marks_invD(4) [OF I, of j] tb S' by (cases "j = i") auto
qed

lemma waker_marks:
  assumes I: "marks_inv S" and S': "wk S' = (wk S)(k := V)" "fiberCount S' = fiberCount S" "fpc S' = fpc S" "table S' = table S"
    and sl: "\<And>j. slots S' j \<Longrightarrow> slots S j" and ok: "scan_ok V"
    and keep: "\<And>j. slots S' j \<Longrightarrow> marked S j \<or> pending (wk S k) j \<Longrightarrow> marked S' j \<or> pending V j"
  shows "marks_inv S'"
proof (rule marks_invI)
  show "registered S' j" if j: "slots S' j" for j
  proof -
    have "registered S j" using marks_invD(1) [OF I sl [OF j]] .
    then consider "marked S j \<or> pending (wk S k) j" | "fpc S j \<in> {FMark, FTakeBack}" | l where "l \<noteq> k" "pending (wk S l) j"
      unfolding registered_def by metis
    then show ?thesis
    proof cases
      case 1
      then show ?thesis using keep [OF j] by (auto simp: registered_def S')
    qed (auto simp: registered_def S')
  qed
  show "scan_ok (wk S' l)" for l using marks_invD(2) [OF I, of l] ok by (simp add: S')
qed (use marks_invD(3,4) [OF I] sl in \<open>auto simp: S'\<close>)

lemma fiber_step_marks:
  assumes I: "marks_inv S" and s: "fiber_step i S = Some S'"
  shows "marks_inv S'"
proof -
  have carry: "marks_inv R" if R: "wk R = wk S" "fiberCount R = fiberCount S" "fpc R = (fpc S)(i := p)" "slots R = slots S" "occupied_words R = occupied_words S"
      "table R = table S" and q: "fpc S i \<notin> {FMark, FTakeBack, FDead}" "p \<noteq> FStore" for R p
  proof (rule fiber_marks [OF I R(1-3)])
    have m: "marked R j = marked S j" for j by (simp add: marked_def R)
    show "marked R j = marked S j" for j by (rule m)
    show "registered R i" if "slots R i"
      using that marks_invD(1) [OF I, of i] q(1) by (auto simp: registered_def m R)
    show "i < fiberCount S" using marks_invD(3) [OF I, of i] q(1) by simp
    show "table R" if "p = FStore \<or> slots R i" using that q(2) marks_invD(4) [OF I, of i] by (auto simp: R)
  qed (simp_all add: R)
  show ?thesis
  proof (cases "fpc S i")
    case FStore
    have n: "i < fiberCount S" using marks_invD(3) [OF I, of i] FStore by simp
    then have S': "S' = set_fiber i FMark (set_slot_of i True S)" using s FStore by (simp add: fiber_step_defs)
    show ?thesis using n marks_invD(4) [OF I, of i] FStore
      by (intro fiber_marks [OF I, of S' i FMark]) (simp_all add: S' marked_def registered_def)
  next
    case FMark
    have S': "S' = set_fiber i FCheck (set_word (i div 64) (occupied_words S (i div 64) OR slot_bit i) S)" using s FMark by (simp add: fiber_step_defs)
    have m: "marked S' j \<longleftrightarrow> marked S j \<or> j = i" for j by (rule marked_word(1)) (simp add: S')
    show ?thesis using marks_invD(3,4) [OF I, of i] FMark
      by (intro fiber_marks [OF I, of S' i FCheck]) (simp_all add: S' m [unfolded S'] registered_def)
  next
    case FUnmark
    have S': "S' = set_fiber i FTakeBack (set_word (i div 64) (occupied_words S (i div 64) AND NOT (slot_bit i)) S)" using s FUnmark by (simp add: fiber_step_defs)
    have m: "marked S' j \<longleftrightarrow> marked S j \<and> j \<noteq> i" for j by (rule marked_word(2)) (simp add: S')
    show ?thesis using marks_invD(3,4) [OF I, of i] FUnmark
      by (intro fiber_marks [OF I, of S' i FTakeBack]) (simp_all add: S' m [unfolded S'] registered_def)
  next
    case FTakeBack
    obtain p where S': "S' = set_fiber i p (set_slot_of i False S)" "p = FRestore \<or> p = FSwitch" using s FTakeBack by (auto simp: fiber_step_defs)
    show ?thesis using marks_invD(3) [OF I, of i] FTakeBack S'(2)
      by (intro fiber_marks [OF I, of S' i p]) (auto simp: S'(1) marked_def)
  qed (use s in \<open>auto simp: fiber_step_defs split: fiber_status.splits if_splits intro!: carry\<close>)
qed

lemma resumed_scan: "wk_mode (resumed i r S W) = wk_mode W" "wk_word (resumed i r S W) = wk_word W" "wk_bits (resumed i r S W) = wk_bits W"
  by (simp_all add: resumed_def)

lemma resumed_scan_ok: "scan_ok (resumed i r S W)"
  by (auto simp: scan_ok_def resumed_def)

lemma waker_still:
  assumes I: "marks_inv S" and S': "wk S' = (wk S)(k := V)" "fiberCount S' = fiberCount S" "fpc S' = fpc S" "table S' = table S"
      "slots S' = slots S" "occupied_words S' = occupied_words S"
    and V: "wk_mode V = wk_mode (wk S k)" "wk_word V = wk_word (wk S k)" "wk_bits V = wk_bits (wk S k)" "scan_ok V"
    and p: "\<And>i. wpc (wk S k) = WTake i \<Longrightarrow> \<not> slots S i"
  shows "marks_inv S'"
proof (rule waker_marks [OF I S'(1-4) _ V(4)])
  show "marked S' j \<or> pending V j" if "slots S' j" "marked S j \<or> pending (wk S k) j" for j
    using that p [of j] V by (auto simp: pending_def marked_def S')
qed (simp add: S')

lemma waker_still_set:
  assumes "marks_inv S" "S' = set_waker k V S" "scan_ok V" "wk_mode V = wk_mode (wk S k)" "wk_word V = wk_word (wk S k)"
    "wk_bits V = wk_bits (wk S k)" "\<And>i. wpc (wk S k) \<noteq> WTake i"
  shows "marks_inv S'"
  using assms by (intro waker_still [OF assms(1), of S' k V]) auto

lemma waker_marks_set:
  assumes "marks_inv S" "S' = set_waker k V S" "scan_ok V" "\<And>j. slots S j \<Longrightarrow> pending (wk S k) j \<Longrightarrow> marked S j \<or> pending V j"
  shows "marks_inv S'"
  using assms by (intro waker_marks [OF assms(1), of S' k V]) (auto simp: marked_def)

lemma take_marks:
  assumes I: "marks_inv S" and p: "wpc (wk S k) = WTake i"
  shows "marks_inv (take_slot k i (wk S k) S)"
proof (cases "slots S i")
  case True
  let ?V = "(wk S k)\<lparr>wpc := WRes i\<rparr>" and ?S = "take_slot k i (wk S k) S"
  have f: "wk ?S = (wk S)(k := ?V)" "fiberCount ?S = fiberCount S" "fpc ?S = fpc S" "table ?S = table S" "slots ?S = (slots S)(i := False)"
    "occupied_words ?S = occupied_words S" using True by (auto simp: take_slot_def Let_def)
  have "scan_ok ?V" by (simp add: scan_ok_def)
  then show ?thesis
    by (intro waker_marks [OF I f(1-4)]) (use p in \<open>auto simp: f(5,6) marked_def pending_def split: if_splits\<close>)
next
  case False
  then show ?thesis using p
    by (intro waker_still [OF I, of _ k "(wk S k)\<lparr>wpc := WBits\<rparr>"]) (simp_all add: take_slot_def scan_ok_def)
qed

lemma clear_marks:
  assumes I: "marks_inv S" and p: "wpc (wk S k) = WClear i" and s: "waker_step k S = Some S'"
  shows "marks_inv S'"
proof -
  let ?V = "(wk S k)\<lparr>wpc := (if marked S i then WTake i else WBits)\<rparr>" and ?w = "wk_word (wk S k)"
  have m: "wk_mode (wk S k) \<noteq> MAll" "?w = i div 64" using marks_invD(2) [OF I, of k] p by (auto simp: scan_ok_def)
  have S': "S' = set_waker k ?V (set_word ?w (occupied_words S ?w AND NOT (slot_bit i)) S)"
    using s p m(2) by (simp add: waker_step_def Let_def marked_def)
  have mk: "marked S' j \<longleftrightarrow> marked S j \<and> j \<noteq> i" for j by (rule marked_word(2)) (simp add: S' m(2))
  show ?thesis
    by (rule waker_marks [OF I, of _ k ?V]) (use m p mk in \<open>auto simp: S' pending_def scan_ok_def\<close>)
qed

lemma xchg_marks:
  assumes I: "marks_inv S" and p: "wpc (wk S k) = WXchg" and s: "waker_step k S = Some S'"
  shows "marks_inv S'"
proof -
  let ?w = "wk_word (wk S k)"
  let ?V = "(wk S k)\<lparr>wk_bits := occupied_words S ?w, wpc := WBits\<rparr>"
  have m: "wk_mode (wk S k) = MAll" "wk_bits (wk S k) = 0" using marks_invD(2) [OF I, of k] p by (auto simp: scan_ok_def)
  have S': "S' = set_waker k ?V (set_word ?w 0 S)" using s p by (simp add: waker_step_def Let_def)
  show ?thesis
    by (rule waker_marks [OF I, of _ k ?V]) (use m p in \<open>auto simp: S' pending_def scan_ok_def marked_def\<close>)
qed

lemma bits_marks:
  assumes I: "marks_inv S" and p: "wpc (wk S k) = WBits" and s: "waker_step k S = Some S'"
  shows "marks_inv S'"
proof (cases "wk_bits (wk S k) = 0")
  case True
  then have S': "S' = set_waker k ((wk S k)\<lparr>wk_word := wk_word (wk S k) + 1, wpc := WLoad\<rparr>) S"
    using s p by (simp add: waker_step_def Let_def)
  show ?thesis by (rule waker_marks_set [OF I S']) (use True p in \<open>auto simp: pending_def scan_ok_def\<close>)
next
  case False
  let ?b = "CountTrailingZeros64 (wk_bits (wk S k))" and ?w = "wk_word (wk S k)"
  let ?V = "(wk S k)\<lparr>wk_bits := wk_bits (wk S k) AND (wk_bits (wk S k) - 1),
    wpc := (if wk_mode (wk S k) = MAll then WTake (?w * 64 + ?b) else WClear (?w * 64 + ?b))\<rparr>"
  have S': "S' = set_waker k ?V S" using s p False by (simp add: waker_step_def Let_def)
  have b: "?b < 64" by (rule ctz_props(1) [OF False])
  have "pending ?V j" if "pending (wk S k) j" for j
  proof -
    have j: "wk_mode (wk S k) = MAll" "?w = j div 64" "bit (wk_bits (wk S k)) (j mod 64)" using that p by (auto simp: pending_def)
    have "?w * 64 + ?b = j" if "j mod 64 = ?b" using j(2) that div_mult_mod_eq [of j 64] by simp
    then show ?thesis using j bit_clear_lowest [OF False, of "j mod 64"] by (auto simp: pending_def)
  qed
  moreover have "scan_ok ?V" using b by (auto simp: scan_ok_def)
  ultimately show ?thesis by (intro waker_marks [OF I, of _ k ?V]) (auto simp: S' marked_def)
qed

lemma flush_marks:
  assumes I: "marks_inv S" and P: "places_inv S" and p: "wpc (wk S k) = WFlush fin" and fl: "wk_fl (wk S k) = i # r"
  shows "marks_inv (enqueue i (set_waker k ((wk S k)\<lparr>wk_fl := r\<rparr>) S))"
proof -
  let ?R = "set_waker k ((wk S k)\<lparr>wk_fl := r\<rparr>) S"
  have at: "at_place S i (PBuf k)" by (simp add: buffers_def fl)
  have f: "\<not> at_place S i PSlot" "fpc S i = FParked"
    using places_invD(1) [OF P, of i] at unfolding one_place_def by (metis place.distinct(3), metis placed_ok.simps(3))
  then have i: "\<not> slots S i" "i < fiberCount S" using marks_invD(3) [OF I, of i] by simp_all
  have "scan_ok ((wk S k)\<lparr>wk_fl := r\<rparr>)" using marks_invD(2) [OF I, of k] by (simp add: scan_ok_def)
  then have R: "marks_inv ?R" using p by (intro waker_still [OF I, of _ k "(wk S k)\<lparr>wk_fl := r\<rparr>"]) simp_all
  show ?thesis using i f(2) by (intro fiber_marks [OF R, of _ i FQueued]) (simp_all add: marked_def)
qed

lemma cas_resume_form:
  "\<exists>V x. cas_resume k i t W S = set_waker k V (set_status i x S)
     \<and> (V = resumed i True S W \<or> V = resumed i False S W \<or> V = W\<lparr>wpc := WRes i\<rparr>)"
proof -
  have same: "set_status i (status S i) S = S" by (simp add: set_status_def)
  consider "cas_resume k i t W S = set_waker k (resumed i True S W) (set_status i READY S)"
    | "cas_resume k i t W S = set_waker k (resumed i False S W) (set_status i (status S i) S)"
    | "cas_resume k i t W S = set_waker k (resumed i False S W) (set_status i SUSPEND_SIGNALED S)"
    | "cas_resume k i t W S = set_waker k (W\<lparr>wpc := WRes i\<rparr>) (set_status i (status S i) S)"
    unfolding same by (cases "t = SUSPENDED"; cases "status S i = SUSPENDED"; cases "status S i = WANTS_SUSPEND"; simp add: cas_resume_def)
  then show ?thesis by cases blast+
qed

lemma load_marks:
  assumes I: "marks_inv S" and p: "wpc (wk S k) = WLoad" and s: "waker_step k S = Some S'"
  shows "marks_inv S'"
proof -
  have sc: "scan_ok (wk S k)" by (rule marks_invD(2) [OF I])
  let ?W = "wk S k"
  consider (skip) "S' = set_waker k (?W\<lparr>wk_word := wk_word ?W + 1\<rparr>) S" "wk_mode ?W = MAll" | (xchg) "S' = set_waker k (?W\<lparr>wpc := WXchg\<rparr>) S" "wk_mode ?W = MAll"
    | (scan) "S' = set_waker k (?W\<lparr>wk_bits := occupied_words S (wk_word ?W), wpc := WBits\<rparr>) S" "wk_mode ?W \<noteq> MAll"
    | (idle) "S' = set_waker k (?W\<lparr>wpc := WIdle\<rparr>) S"
    | (fin) "S' = set_waker k (?W\<lparr>wk_hi := [], wk_lo := [], wk_fl := wk_hi ?W @ wk_lo ?W, wpc := WFlush True\<rparr>) S"
    using s p by (auto simp: waker_step_def Let_def split: if_splits)
  then show ?thesis
  proof cases
    case skip
    show ?thesis by (rule waker_marks_set [OF I skip(1)]) (use sc p skip(2) in \<open>auto simp: scan_ok_def pending_def\<close>)
  next
    case xchg
    show ?thesis by (rule waker_still_set [OF I xchg(1)]) (use sc p xchg(2) in \<open>simp_all add: scan_ok_def\<close>)
  next
    case scan
    show ?thesis by (rule waker_marks_set [OF I scan(1)]) (use sc p scan(2) in \<open>auto simp: scan_ok_def pending_def\<close>)
  next
    case idle
    show ?thesis by (rule waker_still_set [OF I idle]) (use sc p in \<open>simp_all add: scan_ok_def\<close>)
  next
    case fin
    show ?thesis by (rule waker_still_set [OF I fin]) (use sc p in \<open>simp_all add: scan_ok_def\<close>)
  qed
qed

lemma waker_step_marks:
  assumes I: "marks_inv S" and P: "places_inv S" and s: "waker_step k S = Some S'"
  shows "marks_inv S'"
proof (cases "wpc (wk S k)")
  case WLoad
  then show ?thesis by (rule load_marks [OF I _ s])
next
  case (WTake i)
  then show ?thesis using take_marks [OF I WTake] s by (simp add: waker_step_def Let_def)
next
  case (WRes i)
  consider "S' = set_waker k ((wk S k)\<lparr>wpc := WCas i (status S i)\<rparr>) S" | "S' = set_waker k (resumed i False S (wk S k)) S"
    using s WRes by (cases "status S i = SUSPENDED \<or> status S i = WANTS_SUSPEND") (simp_all add: waker_step_def Let_def)
  then show ?thesis
  proof cases
    case 1
    then show ?thesis by (rule waker_still_set [OF I]) (simp_all add: scan_ok_def WRes)
  next
    case 2
    then show ?thesis by (rule waker_still_set [OF I]) (simp_all add: resumed_scan resumed_scan_ok WRes)
  qed
next
  case (WCas i t)
  obtain V x where V: "cas_resume k i t (wk S k) S = set_waker k V (set_status i x S)"
    "V = resumed i True S (wk S k) \<or> V = resumed i False S (wk S k) \<or> V = (wk S k)\<lparr>wpc := WRes i\<rparr>" using cas_resume_form by blast
  have S': "S' = set_waker k V (set_status i x S)" using s WCas V(1) by (simp add: waker_step_def Let_def)
  have "scan_ok ((wk S k)\<lparr>wpc := WRes i\<rparr>)" by (simp add: scan_ok_def)
  then have "wk_mode V = wk_mode (wk S k)" "wk_word V = wk_word (wk S k)" "wk_bits V = wk_bits (wk S k)" "scan_ok V"
    using V(2) resumed_scan resumed_scan_ok by (elim disjE; simp)+
  then show ?thesis using WCas by (intro waker_still [OF I, of _ k V]) (simp_all add: S')
next
  case (WFlush fin)
  show ?thesis
  proof (cases "wk_fl (wk S k)")
    case Nil
    have "scan_ok ((wk S k)\<lparr>wpc := (if fin then WIdle else WBits)\<rparr>)" using marks_invD(2) [OF I, of k] WFlush by (auto simp: scan_ok_def)
    then show ?thesis using s WFlush Nil
      by (intro waker_still [OF I, of _ k "(wk S k)\<lparr>wpc := (if fin then WIdle else WBits)\<rparr>"]) (auto simp: waker_step_def Let_def)
  next
    case (Cons i r)
    then show ?thesis using flush_marks [OF I P WFlush Cons] s WFlush by (simp add: waker_step_def Let_def)
  qed
next
  case WIdle
  then show ?thesis using s by (simp add: waker_step_def Let_def)
next
  case WXchg
  then show ?thesis by (rule xchg_marks [OF I _ s])
next
  case WBits
  then show ?thesis by (rule bits_marks [OF I _ s])
next
  case (WClear i)
  then show ?thesis by (rule clear_marks [OF I _ s])
qed

section \<open>Every event keeps the invariants\<close>

definition event_inv :: "event_sys \<Rightarrow> bool" where
  "event_inv S = (places_inv S \<and> marks_inv S)"

lemma body_leaves:
  assumes P: "places_inv S" and M: "marks_inv S" and b: "fpc S i = FBody" and tb: "tb = table S \<or> tb"
    and ps: "(p, s) \<in> {(FStore, WANTS_SUSPEND), (FSwitch, WANTS_YIELD), (FSwitch, DEAD)}" "p = FStore \<Longrightarrow> tb"
  shows "event_inv (set_fiber i p (set_status i s (S\<lparr>table := tb\<rparr>)))"
proof -
  let ?S = "set_fiber i p (set_status i s (S\<lparr>table := tb\<rparr>))"
  have "places_inv ?S" by (rule fiber_moves [OF P, of i _ p s]) (use b ps in \<open>auto simp: status_rules\<close>)
  moreover have "\<not> slots S i" using alone_places(1) [OF P, of i PSlot] b by (simp add: status_rules)
  then have "marks_inv ?S" using marks_invD(3) [OF M, of i] b tb ps(2) by (intro fiber_marks [OF M, of _ i p]) (auto simp: marked_def)
  ultimately show ?thesis by (simp add: event_inv_def)
qed

lemma run_keeps:
  assumes P: "places_inv S" and M: "marks_inv S" and q: "i \<in> set (runq S)"
  shows "event_inv (set_fiber i FBody (set_status i RUNNING (S\<lparr>runq := remove1 i (runq S)\<rparr>)))"
proof -
  let ?S = "set_fiber i FBody (set_status i RUNNING (S\<lparr>runq := remove1 i (runq S)\<rparr>))"
  have at: "at_place S i PQueue" using q by simp
  have one: "at_place S i r \<longleftrightarrow> r = PQueue" for r using places_invD(1) [OF P, of i] at unfolding one_place_def by metis
  have f: "fpc S i = FQueued" using places_invD(1) [OF P, of i] at unfolding one_place_def by (metis placed_ok.simps(4))
  have nc: "wpc (wk S k) \<noteq> WCas i s" for k s using one [of "PHand k"] by (auto simp: in_hand_def)
  have "places_inv ?S"
  proof (rule fiber_freed [OF P at])
    show "at_place ?S j r \<longleftrightarrow> at_place S j r \<and> \<not> (j = i \<and> r = PQueue)" for j r
      using places_invD(2) [OF P] by (cases r) (auto simp: set_remove1_eq)
    show "waker_ok ?S (wk ?S k)" for k using waker_ok_frame [OF places_invD(3) [OF P, of k], of ?S] nc by fastforce
  qed (use places_invD(2) [OF P] in \<open>simp_all add: status_rules\<close>)
  moreover have "marks_inv ?S"
    using one [of PSlot] marks_invD(3) [OF M, of i] f by (intro fiber_marks [OF M, of _ i FBody]) (simp_all add: marked_def)
  ultimately show ?thesis by (simp add: event_inv_def)
qed

lemma reuse_keeps:
  assumes P: "places_inv S" and M: "marks_inv S" and d: "fpc S i = FDead" "i < fiberCount S"
  shows "event_inv (enqueue i (set_status i READY (S\<lparr>cancelled := c\<rparr>)))"
proof -
  note none = alone_places(1) [OF P, of i]
  have "places_inv (enqueue i (set_status i READY (S\<lparr>cancelled := c\<rparr>)))"
    using none d by (intro queued_none [OF P, of i]) (simp_all add: status_rules)
  moreover have "marks_inv (enqueue i (set_status i READY (S\<lparr>cancelled := c\<rparr>)))"
    using none [of PSlot] d by (intro fiber_marks [OF M, of _ i FQueued]) (simp_all add: marked_def status_rules)
  ultimately show ?thesis by (simp add: event_inv_def)
qed

lemma wake_begin_keeps:
  assumes P: "places_inv S" and M: "marks_inv S" and w: "wpc (wk S k) = WIdle"
  shows "event_inv (set_waker k (idle_waker\<lparr>wk_mode := m, wpc := WLoad\<rparr>) S)"
proof -
  let ?V = "idle_waker\<lparr>wk_mode := m, wpc := WLoad\<rparr>"
  have b: "buffers (wk S k) = []" using places_invD(3) [OF P, of k] w by (simp add: waker_ok_def bufs_ok_def)
  have "waker_ok S ?V" by (simp add: waker_ok_def bufs_ok_def cas_ok_def buffers_def idle_waker_def)
  then have "places_inv (set_waker k ?V S)"
    using w b by (intro waker_quiet [OF P, of _ k ?V]) (simp_all add: in_hand_def buffers_def idle_waker_def)
  moreover have "marks_inv (set_waker k ?V S)"
    by (rule waker_marks_set [OF M refl]) (use marks_invD(2) [OF M, of k] w in \<open>auto simp: scan_ok_def pending_def idle_waker_def\<close>)
  ultimately show ?thesis by (simp add: event_inv_def)
qed

lemma event_step_keeps:
  assumes I: "event_inv S" and s: "event_step e S = Some S'"
  shows "event_inv S'"
proof -
  have P: "places_inv S" and M: "marks_inv S" using I by (auto simp: event_inv_def)
  have tab: "S\<lparr>table := table S\<rparr> = S" by simp
  show ?thesis
  proof (cases e)
    case (EWait i c m)
    then show ?thesis using s I body_leaves [OF P M, of i True FStore WANTS_SUSPEND]
      by (auto simp: wait_begin_def split: if_splits)
  next
    case (EYield i)
    then show ?thesis using s body_leaves [OF P M, of i "table S" FSwitch WANTS_YIELD] by (auto split: if_splits)
  next
    case (EReturn i)
    then show ?thesis using s body_leaves [OF P M, of i "table S" FSwitch DEAD] by (auto split: if_splits)
  next
    case (EFiber i)
    have n: "fpc S i = FStore \<Longrightarrow> i < fiberCount S" using marks_invD(3) [OF M, of i] by simp
    show ?thesis using fiber_step_keeps [OF P _ n, of S'] fiber_step_marks [OF M, of i S'] s EFiber by (simp add: event_inv_def)
  next
    case (ERun i)
    then show ?thesis using s run_keeps [OF P M, of i] by (auto split: if_splits)
  next
    case (EReuse i)
    then show ?thesis using s reuse_keeps [OF P M, of i] by (auto split: if_splits)
  next
    case (EScope i)
    let ?S = "S\<lparr>cancelled := (cancelled S)(i := True)\<rparr>"
    have pl: "at_place ?S j r = at_place S j r" for j r by (cases r) simp_all
    have "places_inv ?S"
      by (rule places_invI) (use P pl in \<open>auto simp: places_inv_def one_place_def waker_ok_def cas_ok_def split: waker_pc.splits\<close>)
    moreover have "marks_inv ?S" using M by (simp add: marks_inv_def registered_def marked_def)
    ultimately show ?thesis using s EScope by (simp add: event_inv_def)
  next
    case (EWake k m)
    then show ?thesis using s I wake_begin_keeps [OF P M, of k m] by (auto simp: wake_begin_def split: if_splits)
  next
    case (EWaker k)
    then show ?thesis using s waker_step_keeps [OF P] waker_step_marks [OF M P] by (simp add: event_inv_def)
  qed
qed

lemma event_init_inv: "event_inv (event_init n lane)"
proof -
  let ?S = "event_init n lane"
  have pl: "at_place ?S i r \<longleftrightarrow> r = PQueue \<and> i < n" for i r
    by (cases r) (simp_all add: event_init_def idle_waker_def in_hand_def buffers_def)
  have "one_place ?S i" for i
    by (cases "i < n") (simp_all add: one_place_def pl, simp_all add: event_init_def status_rules)
  then have "places_inv ?S"
    by (intro places_invI) (simp_all add: event_init_def waker_ok_def bufs_ok_def cas_ok_def buffers_def idle_waker_def)
  moreover have "marks_inv ?S" by (simp add: marks_inv_def event_init_def scan_ok_def idle_waker_def)
  ultimately show ?thesis by (simp add: event_inv_def)
qed

interpretation ev: step_invariant event_step "event_init n lane" event_inv for n lane
  by unfold_locales (rule event_init_inv, rule event_step_keeps)

end
