(* ===== verification/Fiber_Wakeup.thy ===== *)
theory Fiber_Wakeup
  imports Fiber_Safety
begin

text \<open>
  What fibers and events guarantee in every run: no fiber is run twice or while it is still on a stack, no wakeup is lost, and a call of
  \<^verbatim>\<open>SignalAll\<close> that nothing disturbs ends with every waiting fiber in a run queue.
\<close>

section \<open>Parked fibers\<close>

lemma parked_places:
  assumes I: "event_inv S" and p: "fpc S i = FParked"
  obtains (slot) "slots S i" "status S i = SUSPENDED" "registered S i"
    | (hand) k where "in_hand (wk S k) i" "status S i = SUSPENDED"
    | (buf) k where "i \<in> set (buffers (wk S k))" "status S i = READY"
proof -
  have P: "places_inv S" and M: "marks_inv S" using I by (auto simp: event_inv_def)
  from places_invD(1) [OF P, of i] show thesis
  proof (cases rule: one_placeE)
    case none
    then show ?thesis using p by (simp add: status_rules)
  next
    case (at q)
    have q: "at_place S i q" "placed_ok q FParked (status S i)" using at(1) [of q] at(2) p by simp_all
    show ?thesis
    proof (cases q)
      case PSlot
      then have "slots S i" "status S i = SUSPENDED" using q by (simp_all add: status_rules)
      then show ?thesis using slot marks_invD(1) [OF M] by blast
    next
      case (PHand k)
      then have "in_hand (wk S k) i" "status S i = SUSPENDED" using q by (simp_all add: status_rules)
      then show ?thesis by (rule hand)
    next
      case (PBuf k)
      then have "i \<in> set (buffers (wk S k))" "status S i = READY" using q by simp_all
      then show ?thesis by (rule buf)
    next
      case PQueue
      then show ?thesis using q(2) by simp
    qed
  qed
qed

lemma place_no_clash:
  assumes "one_place S i"
  shows "fpc S i \<noteq> FClash"
  using assms
proof (cases rule: one_placeE)
  case none
  from none(2) show ?thesis by (auto simp: status_rules)
next
  case (at p)
  from at(2) show ?thesis by (cases p) (auto simp: status_rules)
qed

lemma idle_waker_empty:
  assumes "event_inv S" and "wpc (wk S k) = WIdle"
  shows "\<not> in_hand (wk S k) i" "buffers (wk S k) = []" "\<not> pending (wk S k) i"
proof -
  have "waker_ok S (wk S k)" "scan_ok (wk S k)" using assms(1) by (auto simp: event_inv_def places_inv_def marks_inv_def)
  then show "\<not> in_hand (wk S k) i" "buffers (wk S k) = []" "\<not> pending (wk S k) i"
    using assms(2) by (auto simp: in_hand_def waker_ok_def bufs_ok_def scan_ok_def pending_def)
qed

text \<open>C15: No fiber is put into a run queue while its stack is in use: in every run a fiber that a waking call or a worker queues has switched out, has been let go by the worker it
  left, and is not queued already. So no run queue holds a fiber twice, a fiber in one is ready, and at any time a fiber is in at most one of: its event slot, the hands of
  one waking call, the buffers of one waking call, a run queue.\<close>

theorem fiber_never_run_twice:
  assumes "exec event_step es (event_init n lane) = Some S"
  shows "(\<forall>i. fpc S i \<noteq> FClash) \<and> distinct (runq S) \<and> (\<forall>i. i \<in> set (runq S) \<longrightarrow> fpc S i = FQueued \<and> status S i = READY)
       \<and> (\<forall>i p q. at_place S i p \<longrightarrow> at_place S i q \<longrightarrow> p = q)"
proof -
  have P: "places_inv S" using ev.inv_exec [OF assms] by (simp add: event_inv_def)
  have "fpc S i \<noteq> FClash" for i using places_invD(1) [OF P, of i] by (rule place_no_clash)
  moreover have "fpc S i = FQueued \<and> status S i = READY" if "i \<in> set (runq S)" for i
    using places_invD(1) [OF P, of i] that unfolding one_place_def by (metis at_place.simps(4) placed_ok.simps(4))
  moreover have "at_place S i p \<Longrightarrow> at_place S i q \<Longrightarrow> p = q" for i p q
    using places_invD(1) [OF P, of i] unfolding one_place_def by blast
  ultimately show ?thesis using places_invD(2) [OF P] by blast
qed

text \<open>C16: No wakeup is lost. Whatever interleaving of waits, withdrawals, signals and cancellations came before, when no waking call is in progress a
  parked fiber is suspended, its task is in its slot and its bit is set in the map, so that the next signal finds it.\<close>

theorem event_no_lost_wakeup:
  assumes run: "exec event_step es (event_init n lane) = Some S" and idle: "\<forall>k. wpc (wk S k) = WIdle" and p: "fpc S i = FParked"
  shows "status S i = SUSPENDED \<and> slots S i \<and> marked S i \<and> i < fiberCount S"
proof -
  have I: "event_inv S" by (rule ev.inv_exec [OF run])
  then have M: "marks_inv S" by (simp add: event_inv_def)
  from I p show ?thesis
  proof (cases rule: parked_places)
    case slot
    then have "marked S i" using idle_waker_empty(3) [OF I] idle p by (auto simp: registered_def)
    then show ?thesis using slot marks_invD(3) [OF M, of i] p by simp
  qed (use idle idle_waker_empty [OF I] in auto)
qed

section \<open>An undisturbed call of SignalAll\<close>

definition at_rest :: "event_sys \<Rightarrow> bool" where
  "at_rest S = (\<forall>i. fpc S i \<in> {FBody, FParked, FQueued, FDead})"

definition cleared :: "waker \<Rightarrow> nat" where
  "cleared W = (if wpc W \<in> {WIdle, WLoad, WXchg, WFlush True} then wk_word W else Suc (wk_word W))"

definition sole :: "nat \<Rightarrow> event_sys \<Rightarrow> bool" where
  "sole k S = (event_inv S \<and> wk_mode (wk S k) = MAll \<and> (\<forall>j. j \<noteq> k \<longrightarrow> wpc (wk S j) = WIdle) \<and> at_rest S
     \<and> (\<forall>i s. wpc (wk S k) = WCas i s \<longrightarrow> s = SUSPENDED) \<and> (\<forall>v < cleared (wk S k). occupied_words S v = 0)
     \<and> (wpc (wk S k) \<notin> {WIdle, WLoad, WFlush True} \<longrightarrow> wk_word (wk S k) < words S)
     \<and> (wpc (wk S k) \<in> {WIdle, WFlush True} \<longrightarrow> words S \<le> wk_word (wk S k)))"

definition bits_left :: "u64 \<Rightarrow> nat" where
  "bits_left w = card {n. bit w n}"

fun rank :: "waker \<Rightarrow> waker_pc \<Rightarrow> nat" where
  "rank W (WTake i) = 203"
| "rank W (WRes i) = 202"
| "rank W (WCas i s) = 201"
| "rank W (WFlush f) = Suc (length (wk_fl W))"
| "rank W _ = 0"

definition effort :: "nat \<Rightarrow> event_sys \<Rightarrow> nat \<times> nat \<times> nat" where
  "effort k S = (let W = wk S k in
     (if wpc W \<in> {WIdle, WFlush True} then 0 else Suc (words S - wk_word W),
      if wpc W = WLoad then 66 else if wpc W = WXchg then 65 else bits_left (wk_bits W), rank W (wpc W)))"

definition effort_less :: "((nat \<times> nat \<times> nat) \<times> (nat \<times> nat \<times> nat)) set" where
  "effort_less = less_than <*lex*> less_than <*lex*> less_than"

lemma bits_below: "{n. bit (w :: u64) n} \<subseteq> {..<64}"
  using bit_imp_le_length [of w] by auto

lemma bits_left_bound: "bits_left w \<le> 64"
proof -
  have "card {n. bit w n} \<le> card {..<64::nat}" by (rule card_mono [OF _ bits_below]) simp
  then show ?thesis by (simp add: bits_left_def)
qed

lemma bits_left_drop:
  assumes "w \<noteq> 0"
  shows "bits_left (w AND (w - 1)) < bits_left w"
  unfolding bits_left_def bit_clear_lowest [OF assms]
proof (rule psubset_card_mono)
  show "finite {n. bit w n}" by (rule finite_subset [OF bits_below]) simp
  show "{n. bit w n \<and> n \<noteq> CountTrailingZeros64 w} \<subset> {n. bit w n}" using ctz_props(2) [OF assms] by blast
qed

lemma words_same: "fiberCount S' = fiberCount S \<Longrightarrow> words S' = words S"
  by (simp add: words_def)

lemma soleI:
  assumes S: "sole k S" and s: "waker_step k S = Some S'" and wk: "wk S' = (wk S)(k := V)" and r: "at_rest S'" and n: "fiberCount S' = fiberCount S"
    and V: "wk_mode V = MAll" "\<And>i s. wpc V = WCas i s \<Longrightarrow> s = SUSPENDED" "\<And>v. v < cleared V \<Longrightarrow> occupied_words S' v = 0"
      "wpc V \<notin> {WIdle, WLoad, WFlush True} \<Longrightarrow> wk_word V < words S" "wpc V \<in> {WIdle, WFlush True} \<Longrightarrow> words S \<le> wk_word V"
  shows "sole k S'"
proof -
  have "event_inv S'" using event_step_keeps [of S "EWaker k" S'] S s by (simp add: sole_def)
  then show ?thesis using S r V words_same [OF n] unfolding sole_def wk by simp
qed

lemma sole_hand:
  assumes S: "sole k S" and h: "in_hand (wk S k) i"
  shows "status S i = SUSPENDED"
proof -
  have P: "places_inv S" and r: "at_rest S" using S by (auto simp: sole_def event_inv_def)
  have "at_place S i (PHand k)" using h by simp
  then have "waits_ok (fpc S i) (status S i)" using places_invD(1) [OF P, of i] unfolding one_place_def by (metis placed_ok.simps(2))
  then show ?thesis using r unfolding at_rest_def status_rules by (metis empty_iff fiber_pc.distinct insert_iff)
qed

lemma sole_load:
  assumes S: "sole k S" and p: "wpc (wk S k) = WLoad"
  shows "\<exists>S'. waker_step k S = Some S' \<and> sole k S' \<and> (effort k S', effort k S) \<in> effort_less \<and> (\<forall>i. fpc S' i = fpc S i)"
proof -
  let ?W = "wk S k" and ?w = "wk_word (wk S k)"
  have c: "\<And>v. v < ?w \<Longrightarrow> occupied_words S v = 0" "at_rest S" "wk_mode ?W = MAll" using S p by (auto simp: sole_def cleared_def)
  consider (skip) "?w < words S" "occupied_words S ?w = 0" | (xchg) "?w < words S" "occupied_words S ?w \<noteq> 0" | (fin) "words S \<le> ?w" by linarith
  then show ?thesis
  proof cases
    case skip
    let ?V = "?W\<lparr>wk_word := ?w + 1\<rparr>"
    have s: "waker_step k S = Some (set_waker k ?V S)" using skip p c(3) by (simp add: waker_step_def Let_def)
    have "sole k (set_waker k ?V S)"
      by (rule soleI [OF S s, of ?V]) (use c skip p in \<open>auto simp: at_rest_def cleared_def less_Suc_eq\<close>)
    then show ?thesis using s skip p by (auto simp: effort_def effort_less_def Let_def words_def)
  next
    case xchg
    let ?V = "?W\<lparr>wpc := WXchg\<rparr>"
    have s: "waker_step k S = Some (set_waker k ?V S)" using xchg p c(3) by (simp add: waker_step_def Let_def)
    have "sole k (set_waker k ?V S)"
      by (rule soleI [OF S s, of ?V]) (use c xchg p in \<open>auto simp: at_rest_def cleared_def\<close>)
    then show ?thesis using s p by (auto simp: effort_def effort_less_def Let_def words_def)
  next
    case fin
    let ?V = "?W\<lparr>wk_hi := [], wk_lo := [], wk_fl := wk_hi ?W @ wk_lo ?W, wpc := WFlush True\<rparr>"
    have s: "waker_step k S = Some (set_waker k ?V S)" using fin p c(3) by (simp add: waker_step_def Let_def)
    have "sole k (set_waker k ?V S)"
      by (rule soleI [OF S s, of ?V]) (use c fin p in \<open>auto simp: at_rest_def cleared_def\<close>)
    then show ?thesis using s p by (auto simp: effort_def effort_less_def Let_def words_def)
  qed
qed

lemma sole_scan:
  assumes S: "sole k S" and p: "wpc (wk S k) = WXchg \<or> wpc (wk S k) = WBits"
  shows "\<exists>S'. waker_step k S = Some S' \<and> sole k S' \<and> (effort k S', effort k S) \<in> effort_less \<and> (\<forall>i. fpc S' i = fpc S i)"
proof -
  let ?W = "wk S k" and ?w = "wk_word (wk S k)"
  have c: "at_rest S" "wk_mode ?W = MAll" "?w < words S" using S p by (auto simp: sole_def)
  have cl: "occupied_words S v = 0" if "v < cleared ?W" for v using S that by (simp add: sole_def)
  consider (xchg) "wpc ?W = WXchg" | (next_word) "wpc ?W = WBits" "wk_bits ?W = 0" | (pick) "wpc ?W = WBits" "wk_bits ?W \<noteq> 0" using p by blast
  then show ?thesis
  proof cases
    case xchg
    let ?V = "?W\<lparr>wk_bits := occupied_words S ?w, wpc := WBits\<rparr>"
    have s: "waker_step k S = Some (set_waker k ?V (set_word ?w 0 S))" using xchg by (simp add: waker_step_def Let_def)
    have "sole k (set_waker k ?V (set_word ?w 0 S))"
      by (rule soleI [OF S s, of ?V]) (use c cl xchg in \<open>auto simp: at_rest_def cleared_def less_Suc_eq\<close>)
    then show ?thesis using s xchg bits_left_bound [of "occupied_words S ?w"] by (auto simp: effort_def effort_less_def Let_def words_def)
  next
    case next_word
    let ?V = "?W\<lparr>wk_word := ?w + 1, wpc := WLoad\<rparr>"
    have s: "waker_step k S = Some (set_waker k ?V S)" using next_word by (simp add: waker_step_def Let_def)
    have "sole k (set_waker k ?V S)"
      by (rule soleI [OF S s, of ?V]) (use c cl next_word in \<open>auto simp: at_rest_def cleared_def\<close>)
    then show ?thesis using s next_word c(3) by (auto simp: effort_def effort_less_def Let_def words_def)
  next
    case pick
    let ?V = "?W\<lparr>wk_bits := wk_bits ?W AND (wk_bits ?W - 1), wpc := WTake (?w * 64 + CountTrailingZeros64 (wk_bits ?W))\<rparr>"
    have s: "waker_step k S = Some (set_waker k ?V S)" using pick c(2) by (simp add: waker_step_def Let_def)
    have "sole k (set_waker k ?V S)"
      by (rule soleI [OF S s, of ?V]) (use c cl pick in \<open>auto simp: at_rest_def cleared_def\<close>)
    then show ?thesis using s pick bits_left_drop [OF pick(2)] by (auto simp: effort_def effort_less_def Let_def words_def)
  qed
qed


lemma resumed_sole:
  assumes "wk_mode W = MAll" and "wk_fl W = []" and "wpc W = WCas i SUSPENDED"
  shows "cleared (resumed i r S W) = cleared W" "wpc (resumed i r S W) \<in> {WBits, WFlush False}"
    "rank (resumed i r S W) (wpc (resumed i r S W)) < 201"
  using assms by (auto simp: resumed_def cleared_def)

lemma sole_wake:
  assumes S: "sole k S" and p: "wpc (wk S k) = WTake i \<or> wpc (wk S k) = WRes i \<or> wpc (wk S k) = WCas i s"
  shows "\<exists>S'. waker_step k S = Some S' \<and> sole k S' \<and> (effort k S', effort k S) \<in> effort_less \<and> (\<forall>i. fpc S' i = fpc S i)"
proof -
  let ?W = "wk S k" and ?w = "wk_word (wk S k)"
  have c: "at_rest S" "wk_mode ?W = MAll" "?w < words S" using S p by (auto simp: sole_def)
  have cl: "occupied_words S v = 0" if "v < cleared ?W" for v using S that by (simp add: sole_def)
  have fl: "wk_fl ?W = []" using S p by (auto simp: sole_def event_inv_def places_inv_def waker_ok_def bufs_ok_def)
  consider (take) "wpc ?W = WTake i" "slots S i" | (empty) "wpc ?W = WTake i" "\<not> slots S i" | (res) "wpc ?W = WRes i"
    | (cas) "wpc ?W = WCas i SUSPENDED" using p S by (auto simp: sole_def)
  then show ?thesis
  proof cases
    case take
    let ?V = "?W\<lparr>wpc := WRes i\<rparr>"
    have s: "waker_step k S = Some (set_waker k ?V (set_slot_of i False S))"
      using take c(2) by (simp add: waker_step_def take_slot_def Let_def)
    have "sole k (set_waker k ?V (set_slot_of i False S))"
      by (rule soleI [OF S s, of ?V]) (use c cl take in \<open>auto simp: at_rest_def cleared_def\<close>)
    then show ?thesis using s take by (auto simp: effort_def effort_less_def Let_def words_def)
  next
    case empty
    let ?V = "?W\<lparr>wpc := WBits\<rparr>"
    have s: "waker_step k S = Some (set_waker k ?V S)" using empty by (simp add: waker_step_def take_slot_def Let_def)
    have "sole k (set_waker k ?V S)"
      by (rule soleI [OF S s, of ?V]) (use c cl empty in \<open>auto simp: at_rest_def cleared_def\<close>)
    then show ?thesis using s empty by (auto simp: effort_def effort_less_def Let_def words_def)
  next
    case res
    let ?V = "?W\<lparr>wpc := WCas i SUSPENDED\<rparr>"
    have "status S i = SUSPENDED" using sole_hand [OF S, of i] res by (simp add: in_hand_def)
    then have s: "waker_step k S = Some (set_waker k ?V S)" using res by (simp add: waker_step_def Let_def)
    have "sole k (set_waker k ?V S)"
      by (rule soleI [OF S s, of ?V]) (use c cl res in \<open>auto simp: at_rest_def cleared_def\<close>)
    then show ?thesis using s res by (auto simp: effort_def effort_less_def Let_def words_def)
  next
    case cas
    let ?V = "resumed i True S ?W" and ?S = "set_waker k (resumed i True S (wk S k)) (set_status i READY S)"
    note V = resumed_scan [of i True S ?W] resumed_sole [OF c(2) fl cas, of True S]
    have "status S i = SUSPENDED" using sole_hand [OF S, of i] cas by (simp add: in_hand_def)
    then have s: "waker_step k S = Some ?S" using cas by (simp add: waker_step_def cas_resume_def Let_def)
    have "sole k ?S"
      by (rule soleI [OF S s, of ?V]) (use c cl V in \<open>auto simp: at_rest_def\<close>)
    moreover have "(effort k ?S, effort k S) \<in> effort_less"
      using V cas by (auto simp: effort_def effort_less_def Let_def words_def)
    ultimately show ?thesis using s by auto
  qed
qed

lemma sole_flush:
  assumes S: "sole k S" and p: "wpc (wk S k) = WFlush f"
  shows "\<exists>S'. waker_step k S = Some S' \<and> sole k S' \<and> (effort k S', effort k S) \<in> effort_less
    \<and> (\<forall>i. fpc S' i = fpc S i \<or> fpc S i = FParked \<and> fpc S' i = FQueued)"
proof -
  let ?W = "wk S k" and ?w = "wk_word (wk S k)"
  have c: "at_rest S" "wk_mode ?W = MAll" "\<not> f \<Longrightarrow> ?w < words S" "f \<Longrightarrow> words S \<le> ?w" using S p by (auto simp: sole_def)
  have cl: "occupied_words S v = 0" if "v < cleared ?W" for v using S that by (simp add: sole_def)
  show ?thesis
  proof (cases "wk_fl ?W")
    case Nil
    let ?V = "?W\<lparr>wpc := (if f then WIdle else WBits)\<rparr>"
    have s: "waker_step k S = Some (set_waker k ?V S)" using Nil p by (simp add: waker_step_def Let_def)
    have "sole k (set_waker k ?V S)"
      by (rule soleI [OF S s, of ?V]) (use c cl p in \<open>auto simp: at_rest_def cleared_def split: if_splits\<close>)
    then show ?thesis using s p by (auto simp: effort_def effort_less_def Let_def words_def)
  next
    case (Cons i r)
    let ?V = "?W\<lparr>wk_fl := r\<rparr>"
    have s: "waker_step k S = Some (enqueue i (set_waker k ?V S))" using Cons p by (simp add: waker_step_def Let_def)
    have f: "fpc S i = FParked"
    proof -
      have "at_place S i (PBuf k)" using Cons by (simp add: buffers_def)
      moreover have "one_place S i" using S by (simp add: sole_def event_inv_def places_inv_def)
      ultimately show ?thesis unfolding one_place_def by (metis placed_ok.simps(3))
    qed
    have "cleared ?V = cleared ?W" by (simp add: cleared_def)
    then have "sole k (enqueue i (set_waker k ?V S))"
      by (intro soleI [OF S s, of ?V]) (use c cl p f in \<open>auto simp: at_rest_def\<close>)
    then show ?thesis using s p Cons f by (auto simp: effort_def effort_less_def Let_def words_def)
  qed
qed

lemma sole_step:
  assumes S: "sole k S" and p: "wpc (wk S k) \<noteq> WIdle"
  shows "\<exists>S'. waker_step k S = Some S' \<and> sole k S' \<and> (effort k S', effort k S) \<in> effort_less
    \<and> (\<forall>i. fpc S' i = fpc S i \<or> fpc S i = FParked \<and> fpc S' i = FQueued)"
proof (cases "wpc (wk S k)")
  case (WClear i)
  have "scan_ok (wk S k)" using S by (simp add: sole_def event_inv_def marks_inv_def)
  then show ?thesis using WClear S by (simp add: sole_def scan_ok_def)
next
  case (WFlush f)
  then show ?thesis using sole_flush [OF S] by blast
qed (use p sole_load [OF S] sole_scan [OF S] sole_wake [OF S] in blast)+

text \<open>The call ends: the remaining words, the remaining bits of the current one and the work on the fiber at hand decrease.\<close>

lemma sole_ends:
  assumes "sole k S"
  shows "\<exists>m S'. exec event_step (replicate m (EWaker k)) S = Some S' \<and> sole k S' \<and> wpc (wk S' k) = WIdle
    \<and> (\<forall>i. fpc S i \<in> {FParked, FQueued} \<longrightarrow> fpc S' i \<in> {FParked, FQueued})"
proof -
  have wf: "wf (inv_image effort_less (effort k))" by (simp add: effort_less_def wf_lex_prod wf_inv_image)
  show ?thesis using assms
  proof (induction S rule: wf_induct_rule [OF wf])
    case (1 S)
    show ?case
    proof (cases "wpc (wk S k) = WIdle")
      case True
      then show ?thesis using 1(2) by (intro exI [of _ 0] exI [of _ S]) simp
    next
      case False
      obtain S1 where S1: "waker_step k S = Some S1" "sole k S1" "(effort k S1, effort k S) \<in> effort_less"
        "\<forall>i. fpc S1 i = fpc S i \<or> fpc S i = FParked \<and> fpc S1 i = FQueued" using sole_step [OF 1(2) False] by blast
      then obtain m S' where m: "exec event_step (replicate m (EWaker k)) S1 = Some S'" "sole k S'" "wpc (wk S' k) = WIdle"
        "\<forall>i. fpc S1 i \<in> {FParked, FQueued} \<longrightarrow> fpc S' i \<in> {FParked, FQueued}" using 1(1) [of S1] by auto
      have "fpc S' i \<in> {FParked, FQueued}" if "fpc S i \<in> {FParked, FQueued}" for i using that S1(4) m(4) by (metis insert_iff)
      then show ?thesis using S1(1) m by (intro exI [of _ "Suc m"] exI [of _ S']) simp
    qed
  qed
qed

lemma sole_begins:
  assumes I: "event_inv S" and idle: "\<forall>j. wpc (wk S j) = WIdle" and r: "at_rest S" and t: "table S"
  shows "\<exists>S'. event_step (EWake k MAll) S = Some S' \<and> sole k S' \<and> fpc S' = fpc S"
proof -
  let ?S = "set_waker k (idle_waker\<lparr>wk_mode := MAll, wpc := WLoad\<rparr>) S"
  have s: "event_step (EWake k MAll) S = Some ?S" using idle t by (simp add: wake_begin_def)
  moreover have "event_inv ?S" by (rule event_step_keeps [OF I s])
  then have "sole k ?S" using idle r by (simp add: sole_def at_rest_def cleared_def idle_waker_def)
  ultimately show ?thesis by auto
qed

lemma queued_place:
  assumes "event_inv S" and "fpc S i = FQueued"
  shows "i \<in> set (runq S) \<and> status S i = READY"
proof -
  have "one_place S i" using assms(1) by (simp add: event_inv_def places_inv_def)
  then show ?thesis
  proof (cases rule: one_placeE)
    case none
    then show ?thesis using assms(2) by (simp add: status_rules)
  next
    case (at q)
    have "placed_ok q FQueued (status S i)" "at_place S i q" using at(1) [of q] at(2) assms(2) by simp_all
    then show ?thesis by (cases q) (auto simp: status_rules)
  qed
qed

lemma sole_done:
  assumes S: "sole k S" and p: "wpc (wk S k) = WIdle"
  shows "fpc S i \<noteq> FParked"
proof
  assume f: "fpc S i = FParked"
  have I: "event_inv S" and idle: "\<And>j. wpc (wk S j) = WIdle" using S p by (auto simp: sole_def)
  from I f show False
  proof (cases rule: parked_places)
    case slot
    then have m: "marked S i" using idle_waker_empty(3) [OF I idle] f by (simp add: registered_def)
    have "i < fiberCount S" using I f marks_invD(3) [of S i] by (simp add: event_inv_def)
    then have "i div 64 < words S" by (simp add: words_def)
    then have "occupied_words S (i div 64) = 0" using S p by (auto simp: sole_def cleared_def)
    then show ?thesis using m by (simp add: marked_def)
  qed (use idle_waker_empty [OF I idle] in auto)
qed

text \<open>C17: \<^verbatim>\<open>SignalAll\<close> wakes everybody. Called when no other waking call is in progress and the fibers are in their tasks, parked, queued or
  finished, it ends after finitely many accesses, and every fiber that was parked is then ready and in a run queue.\<close>

theorem signal_all_wakes_everyone:
  assumes run: "exec event_step es (event_init n lane) = Some S" and idle: "\<forall>j. wpc (wk S j) = WIdle" and r: "at_rest S"
  shows "\<exists>m S'. exec event_step (EWake k MAll # replicate m (EWaker k)) S = Some S' \<and> wpc (wk S' k) = WIdle
    \<and> (\<forall>i. fpc S i = FParked \<longrightarrow> fpc S' i = FQueued \<and> status S' i = READY \<and> i \<in> set (runq S'))"
proof -
  have I: "event_inv S" by (rule ev.inv_exec [OF run])
  show ?thesis
  proof (cases "table S")
    case True
    obtain S1 where S1: "event_step (EWake k MAll) S = Some S1" "sole k S1" "fpc S1 = fpc S"
      using sole_begins [OF I idle r True] by blast
    obtain m S' where m: "exec event_step (replicate m (EWaker k)) S1 = Some S'" "sole k S'" "wpc (wk S' k) = WIdle"
      "\<forall>i. fpc S1 i \<in> {FParked, FQueued} \<longrightarrow> fpc S' i \<in> {FParked, FQueued}" using sole_ends [OF S1(2)] by blast
    have q: "fpc S' i = FQueued" if "fpc S i = FParked" for i using m(4) S1(3) that sole_done [OF m(2,3), of i] by auto
    have "event_inv S'" using m(2) by (simp add: sole_def)
    then show ?thesis using queued_place q S1(1) m(1,3) by (intro exI [of _ m] exI [of _ S']) simp
  next
    case False
    have "fpc S i \<noteq> FParked" for i
    proof
      assume "fpc S i = FParked"
      with I show False
      proof (cases rule: parked_places)
        case slot
        then show ?thesis using False I marks_invD(4) [of S i] by (simp add: event_inv_def)
      qed (use idle_waker_empty [OF I] idle in auto)
    qed
    then show ?thesis using idle False by (intro exI [of _ 0] exI [of _ S]) (simp add: wake_begin_def)
  qed
qed


lemmas event_run_defs = event_init_def wait_begin_def fiber_step_defs set_fiber_def set_status_def set_slot_of_def set_word_def enqueue_def
  slot_bit_def idle_waker_def words_def wake_begin_def

text \<open>A run in which a fiber waits and parks.\<close>

definition parking :: "event_op list" where
  "parking = [ERun 0, EWait 0 False True, EFiber 0, EFiber 0, EFiber 0, EFiber 0, EFiber 0, EFiber 0]"

lemma parked_run:
  "\<exists>S. exec event_step parking (event_init 2 (\<lambda>_. False)) = Some S
     \<and> (\<forall>k. wpc (wk S k) = WIdle) \<and> fpc S 0 = FParked \<and> fpc S 1 = FQueued \<and> runq S = [1] \<and> (\<forall>i. 1 < i \<longrightarrow> fpc S i = FDead)"
  by (rule exec_ex) (simp add: event_run_defs parking_def upt_rec [of _ 2])

theorem fiber_never_run_twice_witness:
  "\<exists>S. exec event_step parking (event_init 2 (\<lambda>_. False)) = Some S
     \<and> runq S = [1] \<and> distinct (runq S) \<and> status S 1 = READY \<and> fpc S 0 \<noteq> FClash"
proof -
  obtain S where S: "exec event_step parking (event_init 2 (\<lambda>_. False)) = Some S"
    "runq S = [1]" using parked_run by blast
  then show ?thesis using fiber_never_run_twice [OF S(1)] by simp
qed

theorem event_no_lost_wakeup_witness:
  "\<exists>S. exec event_step parking (event_init 2 (\<lambda>_. False)) = Some S
     \<and> fpc S 0 = FParked \<and> slots S 0 \<and> marked S 0"
proof -
  obtain S where S: "exec event_step parking (event_init 2 (\<lambda>_. False)) = Some S"
    "\<forall>k. wpc (wk S k) = WIdle" "fpc S 0 = FParked" using parked_run by blast
  then show ?thesis using event_no_lost_wakeup [OF S] by simp
qed

theorem signal_all_wakes_everyone_witness:
  "\<exists>S m S'. exec event_step parking (event_init 2 (\<lambda>_. False)) = Some S
     \<and> fpc S 0 = FParked \<and> exec event_step (EWake 7 MAll # replicate m (EWaker 7)) S = Some S' \<and> 0 \<in> set (runq S')"
proof -
  obtain S where S: "exec event_step parking (event_init 2 (\<lambda>_. False)) = Some S"
    "\<forall>k. wpc (wk S k) = WIdle" "fpc S 0 = FParked" "fpc S 1 = FQueued" "\<forall>i. 1 < i \<longrightarrow> fpc S i = FDead" using parked_run by blast
  have "fpc S i \<in> {FParked, FQueued, FDead}" for i using S(3-5) by (cases "i = 0"; cases "i = 1") auto
  then have "at_rest S" by (force simp: at_rest_def)
  then obtain m S' where "exec event_step (EWake 7 MAll # replicate m (EWaker 7)) S = Some S'"
    "\<forall>i. fpc S i = FParked \<longrightarrow> fpc S' i = FQueued \<and> status S' i = READY \<and> i \<in> set (runq S')"
    using signal_all_wakes_everyone [OF S(1,2), of 7] by blast
  then show ?thesis using S(1,3) by blast
qed

end
