(* ===== verification/Hazard_Pointer.thy ===== *)
theory Hazard_Pointer
  imports Sched_Prelude
begin

text \<open>
  Hazard pointers, \<^verbatim>\<open>include/Hazard.h\<close> and \<^verbatim>\<open>src/Hazard.cpp\<close>: the table of cells with one row per reader (fiber, worker or other thread), the guard
  with \<^verbatim>\<open>Protect\<close>, the batch of retired pointers each thread keeps, the scan, and the store for the batches of threads that ended. Every atomic access
  is one step. Stores to cells and to the links of the clients' structures wait in the store buffer of their reader or thread until they are flushed,
  at the latest by its next fence; the two fences the code has are what its argument rests on.
\<close>

section \<open>The table\<close>

definition kCellsPerReader :: nat where
  "kCellsPerReader = 4"

definition kExternalReaders :: nat where
  "kExternalReaders = 64"

text \<open>
  A reader inside \<^verbatim>\<open>Protect(k, src)\<close>: about to load the link, to publish what it loaded, to fence, to load the link again.
  A thread inside \<^verbatim>\<open>Scan\<close>: at cell \<open>i\<close> with the pointers seen so far, sweeping its batch, sweeping the orphans.
\<close>

datatype reader_pc = RIdle | RLoad nat nat | RSet nat nat nat | RFence nat nat nat | RCheck nat nat nat

datatype thread_pc = TIdle | TScan nat "nat list" | TSweep "nat list" | TOrphans "nat list"

datatype object = OFree | OLive | ORetired

text \<open>
  Pointers, links, readers and threads are numbers; 0 is the null pointer. \<open>hold r k\<close> is the pointer the client got from \<^verbatim>\<open>Protect(k, _)\<close> and relies
  on, 0 if none; \<open>obj\<close> is the memory behind a pointer.
\<close>

record hazard =
  scheduler :: "(nat \<times> nat) option"
  table :: bool
  fiberCount :: nat
  workerCount :: nat
  externalOwners :: "nat \<Rightarrow> u64"
  cells :: "nat \<Rightarrow> nat"
  rbuf :: "nat \<Rightarrow> (nat \<times> nat) list"
  guards :: "nat \<Rightarrow> nat"
  rpc :: "nat \<Rightarrow> reader_pc"
  hold :: "nat \<Rightarrow> nat \<Rightarrow> nat"
  threads :: nat
  links :: nat
  src :: "nat \<Rightarrow> nat"
  sbuf :: "nat \<Rightarrow> (nat \<times> nat) list"
  obj :: "nat \<Rightarrow> object"
  batch :: "nat \<Rightarrow> nat list"
  retireDead :: "nat \<Rightarrow> bool"
  orphans :: "nat list"
  orphanTotal :: nat
  tpc :: "nat \<Rightarrow> thread_pc"

definition hazard_init :: "nat \<Rightarrow> nat \<Rightarrow> hazard" where
  "hazard_init nt nl = \<lparr>scheduler = None, table = False, fiberCount = 0, workerCount = 0, externalOwners = (\<lambda>_. 0), cells = (\<lambda>_. 0),
     rbuf = (\<lambda>_. []), guards = (\<lambda>_. 0), rpc = (\<lambda>_. RIdle), hold = (\<lambda>_ _. 0), threads = nt, links = nl, src = (\<lambda>_. 0), sbuf = (\<lambda>_. []),
     obj = (\<lambda>_. OFree), batch = (\<lambda>_. []), retireDead = (\<lambda>_. False), orphans = [], orphanTotal = 0, tpc = (\<lambda>_. TIdle)\<rparr>"

text \<open>The table is built when the scheduler is up, with a row per fiber, per worker and per reserved external reader.\<close>

definition EnsureTable :: "hazard \<Rightarrow> hazard" where
  "EnsureTable H = (if table H then H else
     (case scheduler H of None \<Rightarrow> H
      | Some (f, w) \<Rightarrow> H\<lparr>table := True, fiberCount := f, workerCount := w, externalOwners := (\<lambda>_. 0), cells := (\<lambda>_. 0)\<rparr>))"

definition readerCount :: "hazard \<Rightarrow> nat" where
  "readerCount H = (if table H then fiberCount H + workerCount H + kExternalReaders else 0)"

definition IsFiberReader :: "hazard \<Rightarrow> nat \<Rightarrow> bool" where
  "IsFiberReader H r = (r < fiberCount H)"

definition cell_index :: "nat \<Rightarrow> nat \<Rightarrow> nat" where
  "cell_index r k = r * kCellsPerReader + k"

definition cell_count :: "hazard \<Rightarrow> nat" where
  "cell_count H = readerCount H * kCellsPerReader"

text \<open>
  The row of the calling context: a fiber's pool index, a worker's index behind the fibers, a row an external thread owns or claims. \<open>Inl\<close> is
  \<^verbatim>\<open>FatalCellOverflow\<close>; \<open>None\<close> is \<^verbatim>\<open>kNoReader\<close>. A thread's identity is never 0.
\<close>

datatype context_kind = OnFiber nat | OnWorker nat | External u64

definition ThisThreadId :: "u64 \<Rightarrow> u64" where
  "ThisThreadId h = h OR 1"

datatype hazard_error = FatalCellOverflow | FatalNestedWorkerGuard

definition owned_row :: "u64 \<Rightarrow> hazard \<Rightarrow> nat option" where
  "owned_row me H = find (\<lambda>i. externalOwners H i = me) [0..<kExternalReaders]"

definition CurrentReader :: "context_kind \<Rightarrow> hazard \<Rightarrow> hazard_error + (nat option \<times> hazard)" where
  "CurrentReader c H0 = (let H = EnsureTable H0 in
     if \<not> table H then Inr (None, H)
     else (case c of
        OnFiber i \<Rightarrow> Inr (Some i, H)
      | OnWorker q \<Rightarrow> Inr (Some (fiberCount H + q), H)
      | External h \<Rightarrow>
          (let me = ThisThreadId h; base = fiberCount H + workerCount H in
           case owned_row me H of Some i \<Rightarrow> Inr (Some (base + i), H)
           | None \<Rightarrow>
             (case owned_row 0 H of
                Some i \<Rightarrow> Inr (Some (base + i), H\<lparr>externalOwners := (externalOwners H)(i := me)\<rparr>)
              | None \<Rightarrow> Inl FatalCellOverflow))))"

section \<open>Guards\<close>

text \<open>The constructor, once the reader is known: on a row that is not a fiber's a second guard is fatal.\<close>

definition HazardGuard_new :: "nat \<Rightarrow> hazard \<Rightarrow> hazard_error + hazard" where
  "HazardGuard_new r H =
     (if \<not> IsFiberReader H r \<and> guards H r \<noteq> 0 then Inl FatalNestedWorkerGuard
      else Inr (H\<lparr>guards := (guards H)(r := guards H r + 1)\<rparr>))"

definition store_cell :: "nat \<Rightarrow> nat \<Rightarrow> nat \<Rightarrow> hazard \<Rightarrow> hazard" where
  "store_cell r k p H = H\<lparr>rbuf := (rbuf H)(r := rbuf H r @ [(cell_index r k, p)])\<rparr>"

definition set_hold :: "nat \<Rightarrow> nat \<Rightarrow> nat \<Rightarrow> hazard \<Rightarrow> hazard" where
  "set_hold r k p H = H\<lparr>hold := (hold H)(r := (hold H r)(k := p))\<rparr>"

definition set_rpc :: "nat \<Rightarrow> reader_pc \<Rightarrow> hazard \<Rightarrow> hazard" where
  "set_rpc r p H = H\<lparr>rpc := (rpc H)(r := p)\<rparr>"

text \<open>The destructor clears the whole row. What was protected counts as relied on until the last guard of the row is gone.\<close>

definition HazardGuard_end :: "nat \<Rightarrow> hazard \<Rightarrow> hazard" where
  "HazardGuard_end r H =
     (let H = fold (\<lambda>k. store_cell r k 0) [0..<kCellsPerReader] H;
          H = H\<lparr>guards := (guards H)(r := guards H r - 1)\<rparr>
      in if guards H r = 0 then H\<lparr>hold := (hold H)(r := (\<lambda>_. 0))\<rparr> else H)"

definition Set_cell :: "nat \<Rightarrow> nat \<Rightarrow> nat \<Rightarrow> hazard \<Rightarrow> hazard" where
  "Set_cell r k p H = (if k \<ge> kCellsPerReader then H else set_hold r k 0 (store_cell r k p H))"

definition Clear_cell :: "nat \<Rightarrow> nat \<Rightarrow> hazard \<Rightarrow> hazard" where
  "Clear_cell r k H = Set_cell r k 0 H"

text \<open>A reader sees its own pending stores.\<close>

definition drain :: "(nat \<times> nat) list \<Rightarrow> (nat \<Rightarrow> nat) \<Rightarrow> nat \<Rightarrow> nat" where
  "drain b m = fold (\<lambda>(i, v) m. m(i := v)) b m"

definition Swap_cells :: "nat \<Rightarrow> nat \<Rightarrow> nat \<Rightarrow> hazard \<Rightarrow> hazard" where
  "Swap_cells r a b H =
     (let m = drain (rbuf H r) (cells H); va = m (cell_index r a); vb = m (cell_index r b);
          ha = hold H r a; hb = hold H r b
      in set_hold r b ha (set_hold r a hb (store_cell r b va (store_cell r a vb H))))"

definition reader_step :: "nat \<Rightarrow> hazard \<Rightarrow> hazard option" where
  "reader_step r H = (case rpc H r of
      RIdle \<Rightarrow> None
    | RLoad k s \<Rightarrow> Some (set_rpc r (RSet k s (src H s)) H)
    | RSet k s p \<Rightarrow> Some (set_rpc r (RFence k s p) (Set_cell r k p H))
    | RFence k s p \<Rightarrow> Some (set_rpc r (RCheck k s p) (H\<lparr>cells := drain (rbuf H r) (cells H), rbuf := (rbuf H)(r := [])\<rparr>))
    | RCheck k s p \<Rightarrow>
        Some (if src H s = p then set_rpc r RIdle (set_hold r k p H) else set_rpc r (RLoad k s) H))"

section \<open>Retiring\<close>

text \<open>A fence, or taking a mutex, completes the thread's stores.\<close>

definition fence :: "nat \<Rightarrow> hazard \<Rightarrow> hazard" where
  "fence t H = H\<lparr>src := drain (sbuf H t) (src H), sbuf := (sbuf H)(t := [])\<rparr>"

definition AdoptOrphans :: "nat \<Rightarrow> nat list \<Rightarrow> hazard \<Rightarrow> hazard" where
  "AdoptOrphans t from H =
     (if from = [] then H
      else (let H = fence t H in H\<lparr>orphans := orphans H @ from, orphanTotal := orphanTotal H + length from\<rparr>))"

definition set_tpc :: "nat \<Rightarrow> thread_pc \<Rightarrow> hazard \<Rightarrow> hazard" where
  "set_tpc t p H = H\<lparr>tpc := (tpc H)(t := p)\<rparr>"

definition Scan :: "nat \<Rightarrow> hazard \<Rightarrow> hazard" where
  "Scan t H0 = (let H = EnsureTable H0 in
     if (batch H t = [] \<and> orphans H = []) \<or> \<not> table H then H else set_tpc t (TScan 0 []) (fence t H))"

definition threshold :: "hazard \<Rightarrow> nat" where
  "threshold H = (if cell_count H = 0 then 64 else 2 * cell_count H)"

definition Retire :: "nat \<Rightarrow> nat \<Rightarrow> hazard \<Rightarrow> hazard" where
  "Retire t p H0 =
     (if p = 0 then H0
      else if retireDead H0 t then AdoptOrphans t [p] H0
      else (let H = EnsureTable H0; H = H\<lparr>batch := (batch H)(t := batch H t @ [p])\<rparr>
            in if threshold H \<le> length (batch H t) then Scan t H else H))"

definition release :: "nat list \<Rightarrow> hazard \<Rightarrow> hazard" where
  "release ps H = H\<lparr>obj := (\<lambda>p. if p \<in> set ps then OFree else obj H p)\<rparr>"

text \<open>The rest of \<^verbatim>\<open>Scan\<close>; the code sorts the pointers seen and searches by bisection.\<close>

definition thread_step :: "nat \<Rightarrow> hazard \<Rightarrow> hazard option" where
  "thread_step t H = (case tpc H t of
      TIdle \<Rightarrow> None
    | TScan i named \<Rightarrow>
        Some (if i < cell_count H then set_tpc t (TScan (i + 1) (if cells H i \<noteq> 0 then named @ [cells H i] else named)) H
              else set_tpc t (TSweep named) H)
    | TSweep named \<Rightarrow>
        Some (set_tpc t (TOrphans named)
          ((release (filter (\<lambda>p. p \<notin> set named) (batch H t)) H)\<lparr>batch := (batch H)(t := filter (\<lambda>p. p \<in> set named) (batch H t))\<rparr>))
    | TOrphans named \<Rightarrow>
        Some (set_tpc t TIdle
          (if orphans H = [] then H
           else (release (filter (\<lambda>p. p \<notin> set named) (orphans H)) (fence t H))\<lparr>orphans := filter (\<lambda>p. p \<in> set named) (orphans H)\<rparr>)))"

text \<open>The batch of a thread that ends.\<close>

definition RetireBatch_end :: "nat \<Rightarrow> hazard \<Rightarrow> hazard" where
  "RetireBatch_end t H = (AdoptOrphans t (batch H t) H)\<lparr>retireDead := (retireDead H)(t := True), batch := (batch H)(t := [])\<rparr>"

section \<open>The system\<close>

text \<open>
  Clients allocate objects, store pointers to them in the links of their structures, and retire an object once, when no link holds it in the view of
  the retiring thread and no other thread is about to store it.
\<close>

definition unlinked :: "nat \<Rightarrow> nat \<Rightarrow> hazard \<Rightarrow> bool" where
  "unlinked t p H = (p \<noteq> 0 \<and> obj H p = OLive \<and> list_all (\<lambda>s. drain (sbuf H t) (src H) s \<noteq> p) [0..<links H]
     \<and> list_all (\<lambda>u. u = t \<or> p \<notin> snd ` set (sbuf H u)) [0..<threads H])"

datatype hazard_op = HInit nat nat | HGuard nat | HProtect nat nat nat | HSet nat nat nat | HSwap nat nat nat | HLeave nat | HReader nat | HFlush nat
  | HAlloc nat | HStore nat nat nat | HSync nat | HRetire nat nat | HScan nat | HThread nat | HExit nat

definition idle_thread :: "nat \<Rightarrow> hazard \<Rightarrow> bool" where
  "idle_thread t H = (t < threads H \<and> tpc H t = TIdle)"

definition idle_reader :: "nat \<Rightarrow> hazard \<Rightarrow> bool" where
  "idle_reader r H = (guards H r \<noteq> 0 \<and> rpc H r = RIdle)"

fun hazard_step :: "hazard_op \<Rightarrow> hazard \<Rightarrow> hazard option" where
  "hazard_step (HInit f w) H = (if scheduler H = None then Some (EnsureTable (H\<lparr>scheduler := Some (f, w)\<rparr>)) else None)"
| "hazard_step (HGuard r) H =
     (if r < readerCount H \<and> rpc H r = RIdle then (case HazardGuard_new r H of Inl e \<Rightarrow> None | Inr H' \<Rightarrow> Some H') else None)"
| "hazard_step (HProtect r k s) H =
     (if idle_reader r H \<and> k < kCellsPerReader \<and> s < links H then Some (set_rpc r (RLoad k s) (set_hold r k 0 H)) else None)"
| "hazard_step (HSet r k p) H = (if idle_reader r H then Some (Set_cell r k p H) else None)"
| "hazard_step (HSwap r a b) H =
     (if idle_reader r H \<and> a < kCellsPerReader \<and> b < kCellsPerReader then Some (Swap_cells r a b H) else None)"
| "hazard_step (HLeave r) H = (if idle_reader r H then Some (HazardGuard_end r H) else None)"
| "hazard_step (HReader r) H = reader_step r H"
| "hazard_step (HFlush r) H = (case rbuf H r of [] \<Rightarrow> None
     | (i, v) # b \<Rightarrow> Some (H\<lparr>cells := (cells H)(i := v), rbuf := (rbuf H)(r := b)\<rparr>))"
| "hazard_step (HAlloc p) H = (if p \<noteq> 0 \<and> obj H p = OFree then Some (H\<lparr>obj := (obj H)(p := OLive)\<rparr>) else None)"
| "hazard_step (HStore t s p) H =
     (if idle_thread t H \<and> s < links H \<and> (p = 0 \<or> obj H p = OLive)
      then Some (H\<lparr>sbuf := (sbuf H)(t := sbuf H t @ [(s, p)])\<rparr>) else None)"
| "hazard_step (HSync t) H = (case sbuf H t of [] \<Rightarrow> None
     | (s, v) # b \<Rightarrow> Some (H\<lparr>src := (src H)(s := v), sbuf := (sbuf H)(t := b)\<rparr>))"
| "hazard_step (HRetire t p) H =
     (if idle_thread t H \<and> unlinked t p H then Some (Retire t p (H\<lparr>obj := (obj H)(p := ORetired)\<rparr>)) else None)"
| "hazard_step (HScan t) H = (if idle_thread t H \<and> \<not> retireDead H t then Some (Scan t H) else None)"
| "hazard_step (HThread t) H = thread_step t H"
| "hazard_step (HExit t) H = (if idle_thread t H \<and> \<not> retireDead H t then Some (RetireBatch_end t H) else None)"

text \<open>
  The conditions under which protection holds: no \<^verbatim>\<open>Swap\<close>, no second guard on a row, and a batch is handed over to the orphans only
  while nobody scans.
\<close>

definition nobody_scans :: "hazard \<Rightarrow> bool" where
  "nobody_scans H = list_all (\<lambda>t. tpc H t = TIdle) [0..<threads H]"

fun careful :: "hazard_op \<Rightarrow> hazard \<Rightarrow> bool" where
  "careful (HSwap r a b) H = False"
| "careful (HGuard r) H = (guards H r = 0)"
| "careful (HExit t) H = nobody_scans H"
| "careful (HRetire t p) H = (retireDead H t \<longrightarrow> nobody_scans H)"
| "careful _ H = True"

definition careful_step :: "hazard_op \<Rightarrow> hazard \<Rightarrow> hazard option" where
  "careful_step a H = (if careful a H then hazard_step a H else None)"

end
