(* ===== verification/Hazard_Safety.thy ===== *)
theory Hazard_Safety
  imports Hazard_Pointer
begin

text \<open>
  What hazard pointers guarantee: a pointer that \<^verbatim>\<open>Protect\<close> returned is not freed while the client relies on it, under the conditions of
  \<open>careful\<close>; what happens without each of them; a scan gives back all but as many pointers as there are cells; readers do not share rows.
\<close>

section \<open>Store buffers\<close>

lemma drain_simps [simp]: "drain [] m = m" "drain ((i, v) # b) m = drain b (m(i := v))"
  by (simp_all add: drain_def)

lemma drain_append: "drain (b @ [(i, v)]) m = (drain b m)(i := v)"
  by (simp add: drain_def)

lemma drain_absent: "i \<notin> fst ` set b \<Longrightarrow> drain b m i = m i"
  by (induction b arbitrary: m) auto

lemma drain_cong: "m i = m' i \<or> i \<in> fst ` set b \<Longrightarrow> drain b m i = drain b m' i"
proof (induction b arbitrary: m m')
  case (Cons x b)
  then show ?case by (cases x) auto
qed simp

lemma drain_cases: "(i, drain b m i) \<in> set b \<or> i \<notin> fst ` set b \<and> drain b m i = m i"
proof (induction b arbitrary: m)
  case (Cons x b)
  obtain j v where x: "x = (j, v)" by (cases x)
  have "(i, drain b (m(j := v)) i) \<in> set b \<or> i \<notin> fst ` set b \<and> drain b (m(j := v)) i = (m(j := v)) i" by (rule Cons)
  then show ?case unfolding x drain_simps by (cases "i = j") (simp_all, blast)
qed simp

section \<open>Selectors\<close>

lemma hz_sel [simp]:
  "cells (set_hold r k p H) = cells H" "rbuf (set_hold r k p H) = rbuf H" "guards (set_hold r k p H) = guards H" "rpc (set_hold r k p H) = rpc H"
  "hold (set_hold r k p H) = (hold H)(r := (hold H r)(k := p))" "threads (set_hold r k p H) = threads H" "links (set_hold r k p H) = links H"
  "src (set_hold r k p H) = src H" "sbuf (set_hold r k p H) = sbuf H" "obj (set_hold r k p H) = obj H" "batch (set_hold r k p H) = batch H"
  "orphans (set_hold r k p H) = orphans H" "tpc (set_hold r k p H) = tpc H" "table (set_hold r k p H) = table H" "cell_count (set_hold r k p H) = cell_count H"
  "scheduler (set_hold r k p H) = scheduler H" "retireDead (set_hold r k p H) = retireDead H"
  "cells (set_rpc r q H) = cells H" "rbuf (set_rpc r q H) = rbuf H" "guards (set_rpc r q H) = guards H" "rpc (set_rpc r q H) = (rpc H)(r := q)"
  "hold (set_rpc r q H) = hold H" "threads (set_rpc r q H) = threads H" "links (set_rpc r q H) = links H" "src (set_rpc r q H) = src H"
  "sbuf (set_rpc r q H) = sbuf H" "obj (set_rpc r q H) = obj H" "batch (set_rpc r q H) = batch H" "orphans (set_rpc r q H) = orphans H"
  "tpc (set_rpc r q H) = tpc H" "table (set_rpc r q H) = table H" "cell_count (set_rpc r q H) = cell_count H"
  "scheduler (set_rpc r q H) = scheduler H" "retireDead (set_rpc r q H) = retireDead H"
  "cells (store_cell r k p H) = cells H" "rbuf (store_cell r k p H) = (rbuf H)(r := rbuf H r @ [(cell_index r k, p)])"
  "guards (store_cell r k p H) = guards H" "rpc (store_cell r k p H) = rpc H" "hold (store_cell r k p H) = hold H"
  "threads (store_cell r k p H) = threads H" "links (store_cell r k p H) = links H" "src (store_cell r k p H) = src H"
  "sbuf (store_cell r k p H) = sbuf H" "obj (store_cell r k p H) = obj H" "batch (store_cell r k p H) = batch H"
  "orphans (store_cell r k p H) = orphans H" "tpc (store_cell r k p H) = tpc H" "table (store_cell r k p H) = table H"
  "cell_count (store_cell r k p H) = cell_count H" "scheduler (store_cell r k p H) = scheduler H" "retireDead (store_cell r k p H) = retireDead H"
  by (simp_all add: set_hold_def set_rpc_def store_cell_def cell_count_def readerCount_def)

lemma hz_thread_sel [simp]:
  "cells (set_tpc t q H) = cells H" "rbuf (set_tpc t q H) = rbuf H" "guards (set_tpc t q H) = guards H" "rpc (set_tpc t q H) = rpc H"
  "hold (set_tpc t q H) = hold H" "threads (set_tpc t q H) = threads H" "links (set_tpc t q H) = links H" "src (set_tpc t q H) = src H"
  "sbuf (set_tpc t q H) = sbuf H" "obj (set_tpc t q H) = obj H" "batch (set_tpc t q H) = batch H" "orphans (set_tpc t q H) = orphans H"
  "tpc (set_tpc t q H) = (tpc H)(t := q)" "table (set_tpc t q H) = table H" "cell_count (set_tpc t q H) = cell_count H"
  "scheduler (set_tpc t q H) = scheduler H" "retireDead (set_tpc t q H) = retireDead H"
  "cells (fence t H) = cells H" "rbuf (fence t H) = rbuf H" "guards (fence t H) = guards H" "rpc (fence t H) = rpc H" "hold (fence t H) = hold H"
  "threads (fence t H) = threads H" "links (fence t H) = links H" "src (fence t H) = drain (sbuf H t) (src H)"
  "sbuf (fence t H) = (sbuf H)(t := [])" "obj (fence t H) = obj H" "batch (fence t H) = batch H" "orphans (fence t H) = orphans H"
  "tpc (fence t H) = tpc H" "table (fence t H) = table H" "cell_count (fence t H) = cell_count H"
  "scheduler (fence t H) = scheduler H" "retireDead (fence t H) = retireDead H"
  "cells (release ps H) = cells H" "rbuf (release ps H) = rbuf H" "guards (release ps H) = guards H" "rpc (release ps H) = rpc H"
  "hold (release ps H) = hold H" "threads (release ps H) = threads H" "links (release ps H) = links H" "src (release ps H) = src H"
  "sbuf (release ps H) = sbuf H" "obj (release ps H) = (\<lambda>p. if p \<in> set ps then OFree else obj H p)" "batch (release ps H) = batch H"
  "orphans (release ps H) = orphans H" "tpc (release ps H) = tpc H" "table (release ps H) = table H" "cell_count (release ps H) = cell_count H"
  "scheduler (release ps H) = scheduler H" "retireDead (release ps H) = retireDead H"
  by (simp_all add: set_tpc_def fence_def release_def cell_count_def readerCount_def)

lemma cell_index_row: "k < kCellsPerReader \<Longrightarrow> cell_index r k div kCellsPerReader = r"
  by (simp add: cell_index_def kCellsPerReader_def)

lemma cell_index_eq: "k < kCellsPerReader \<Longrightarrow> k' < kCellsPerReader \<Longrightarrow> cell_index r k = cell_index r' k' \<longleftrightarrow> r = r' \<and> k = k'"
  unfolding cell_index_def kCellsPerReader_def by presburger

lemma cell_index_less: "k < kCellsPerReader \<Longrightarrow> cell_index r k < cell_count H \<longleftrightarrow> r < readerCount H"
  by (auto simp: cell_index_def cell_count_def kCellsPerReader_def)

section \<open>The invariant\<close>

text \<open>Readers: a pending store concerns the reader's own row; what is held is published, and so is what is about to be checked.\<close>

definition cell_is :: "hazard \<Rightarrow> nat \<Rightarrow> nat \<Rightarrow> nat \<Rightarrow> bool" where
  "cell_is H r k p = (k < kCellsPerReader \<and> cell_index r k < cell_count H \<and> cells H (cell_index r k) = p
     \<and> cell_index r k \<notin> fst ` set (rbuf H r))"

fun protecting :: "hazard \<Rightarrow> nat \<Rightarrow> reader_pc \<Rightarrow> bool" where
  "protecting H r RIdle = True"
| "protecting H r (RLoad k s) = (k < kCellsPerReader \<and> guards H r \<noteq> 0)"
| "protecting H r (RSet k s p) = (k < kCellsPerReader \<and> guards H r \<noteq> 0)"
| "protecting H r (RFence k s p) = (k < kCellsPerReader \<and> guards H r \<noteq> 0 \<and> drain (rbuf H r) (cells H) (cell_index r k) = p)"
| "protecting H r (RCheck k s p) = (guards H r \<noteq> 0 \<and> cell_is H r k p)"

definition readers_ok :: "hazard \<Rightarrow> bool" where
  "readers_ok H = ((\<forall>r. \<forall>i \<in> fst ` set (rbuf H r). i div kCellsPerReader = r) \<and> (\<forall>r. guards H r \<noteq> 0 \<longrightarrow> guards H r = 1 \<and> r < readerCount H)
     \<and> (\<forall>r. protecting H r (rpc H r)) \<and> (\<forall>r k. hold H r k \<noteq> 0 \<longrightarrow> cell_is H r k (hold H r k)))"

text \<open>Objects: what waits in a batch or with the orphans is retired and waits once.\<close>

definition objects_ok :: "hazard \<Rightarrow> bool" where
  "objects_ok H = ((\<forall>t. distinct (batch H t)) \<and> distinct (orphans H) \<and> (\<forall>t. set (batch H t) \<inter> set (orphans H) = {})
     \<and> (\<forall>t u. t \<noteq> u \<longrightarrow> set (batch H t) \<inter> set (batch H u) = {}) \<and> (\<forall>t. \<forall>p \<in> set (batch H t). obj H p = ORetired)
     \<and> (\<forall>p \<in> set (orphans H). obj H p = ORetired) \<and> (\<forall>t. retireDead H t \<longrightarrow> batch H t = []))"

text \<open>Links: a pointer that is in a link, or about to be stored there, is live, or a thread that has not scanned since has retired it and will overwrite it.\<close>

definition in_link :: "hazard \<Rightarrow> nat \<Rightarrow> nat \<Rightarrow> bool" where
  "in_link H s p = (src H s = p \<or> (\<exists>t. (s, p) \<in> set (sbuf H t)))"

definition outgoing :: "hazard \<Rightarrow> nat \<Rightarrow> nat \<Rightarrow> nat \<Rightarrow> bool" where
  "outgoing H t s p = (p \<in> set (batch H t) \<and> tpc H t = TIdle \<and> drain (sbuf H t) (src H) s \<noteq> p \<and> (\<forall>u. u \<noteq> t \<longrightarrow> (s, p) \<notin> set (sbuf H u)))"

definition links_ok :: "hazard \<Rightarrow> bool" where
  "links_ok H = ((\<forall>s p. p \<noteq> 0 \<longrightarrow> in_link H s p \<longrightarrow> obj H p = OLive \<or> (\<exists>t. outgoing H t s p))
     \<and> (\<forall>s \<ge> links H. src H s = 0) \<and> (\<forall>t. \<forall>s \<in> fst ` set (sbuf H t). s < links H \<and> t < threads H)
     \<and> (\<forall>t. tpc H t \<noteq> TIdle \<longrightarrow> t < threads H))"

text \<open>Scans: a candidate that is held has been seen or will be.\<close>

fun seen :: "thread_pc \<Rightarrow> nat \<Rightarrow> nat \<Rightarrow> bool" where
  "seen TIdle i p = True"
| "seen (TScan j named) i p = (p \<in> set named \<or> j \<le> i)"
| "seen (TSweep named) i p = (p \<in> set named)"
| "seen (TOrphans named) i p = (p \<in> set named)"

definition scans_ok :: "hazard \<Rightarrow> bool" where
  "scans_ok H = (\<forall>t r k. hold H r k \<noteq> 0 \<longrightarrow> hold H r k \<in> set (batch H t) \<union> set (orphans H) \<longrightarrow> seen (tpc H t) (cell_index r k) (hold H r k))"

definition held_alive :: "hazard \<Rightarrow> bool" where
  "held_alive H = (\<forall>r k. hold H r k \<noteq> 0 \<longrightarrow> obj H (hold H r k) \<noteq> OFree)"

definition hazard_inv :: "hazard \<Rightarrow> bool" where
  "hazard_inv H = (readers_ok H \<and> objects_ok H \<and> links_ok H \<and> scans_ok H \<and> held_alive H)"

lemma hazard_init_inv: "hazard_inv (hazard_init nt nl)"
  by (simp add: hazard_inv_def hazard_init_def readers_ok_def objects_ok_def links_ok_def scans_ok_def held_alive_def in_link_def)


section \<open>Steps of a reader\<close>

lemma readers_frame:
  assumes "readers_ok H" and "rbuf H' = rbuf H" "guards H' = guards H" "rpc H' = rpc H" "hold H' = hold H" "cells H' = cells H" "readerCount H' = readerCount H"
  shows "readers_ok H'"
proof -
  have c: "cell_is H' = cell_is H" using assms(2-) by (simp add: cell_is_def cell_count_def fun_eq_iff)
  then have "protecting H' r q = protecting H r q" for r q using assms(2-) by (cases q) auto
  then show ?thesis using assms c by (simp add: readers_ok_def)
qed

lemma reader_keeps:
  assumes I: "hazard_inv H" and r: "readers_ok H'" and h: "\<And>r k. hold H' r k \<noteq> 0 \<Longrightarrow> hold H' r k = hold H r k"
    and s: "threads H' = threads H" "links H' = links H" "src H' = src H" "sbuf H' = sbuf H" "obj H' = obj H" "batch H' = batch H" "orphans H' = orphans H"
      "tpc H' = tpc H" "retireDead H' = retireDead H"
  shows "hazard_inv H'"
proof -
  have "objects_ok H'" using I s by (simp add: hazard_inv_def objects_ok_def)
  moreover have "links_ok H'" using I s by (simp add: hazard_inv_def links_ok_def in_link_def outgoing_def)
  moreover have "scans_ok H'" using I s h unfolding hazard_inv_def scans_ok_def by metis
  moreover have "held_alive H'" using I s h unfolding hazard_inv_def held_alive_def by metis
  ultimately show ?thesis using r by (simp add: hazard_inv_def)
qed

lemma cell_is_other:
  assumes "cell_is H r' k' p" and "\<And>i. i div kCellsPerReader \<noteq> r \<Longrightarrow> cells H' i = cells H i" and "\<And>q. q \<noteq> r \<Longrightarrow> rbuf H' q = rbuf H q"
    and "readerCount H' = readerCount H" and "r' \<noteq> r"
  shows "cell_is H' r' k' p"
  using assms cell_index_row [of k' r'] by (simp add: cell_is_def cell_count_def)

text \<open>A step of one reader, which changes its own row, its buffer, its position and what it holds.\<close>

lemma readers_step:
  assumes R: "readers_ok H" and c: "\<And>i. i div kCellsPerReader \<noteq> r \<Longrightarrow> cells H' i = cells H i"
    and o: "\<And>q. q \<noteq> r \<Longrightarrow> rbuf H' q = rbuf H q \<and> guards H' q = guards H q \<and> rpc H' q = rpc H q \<and> hold H' q = hold H q"
    and n: "readerCount H' = readerCount H"
    and b: "\<And>i. i \<in> fst ` set (rbuf H' r) \<Longrightarrow> i div kCellsPerReader = r" and g: "guards H' r \<noteq> 0 \<Longrightarrow> guards H' r = 1 \<and> r < readerCount H"
    and p: "protecting H' r (rpc H' r)" and h: "\<And>k. hold H' r k \<noteq> 0 \<Longrightarrow> cell_is H' r k (hold H' r k)"
  shows "readers_ok H'"
proof -
  have ci: "cell_is H' q k v" if "cell_is H q k v" "q \<noteq> r" for q k v using cell_is_other [OF that(1) c _ n that(2)] o by simp
  have dr: "drain (rbuf H q) (cells H') (cell_index q k) = drain (rbuf H q) (cells H) (cell_index q k)" if "k < kCellsPerReader" "q \<noteq> r" for q k
    by (rule drain_cong) (use c [of "cell_index q k"] cell_index_row [OF that(1), of q] that(2) in simp)
  have "protecting H' q (rpc H' q)" for q
  proof (cases "q = r")
    case False
    have "protecting H q (rpc H q)" using R by (simp add: readers_ok_def)
    then show ?thesis using o [OF False] ci dr False by (cases "rpc H q") auto
  qed (use p in simp)
  moreover have "hold H' q k \<noteq> 0 \<Longrightarrow> cell_is H' q k (hold H' q k)" for q k
    using h o [of q] ci [of q] R by (cases "q = r") (auto simp: readers_ok_def)
  moreover have "i div kCellsPerReader = q" if "i \<in> fst ` set (rbuf H' q)" for i q
    using that b o [of q] R by (cases "q = r") (auto simp: readers_ok_def)
  moreover have "guards H' q = 1 \<and> q < readerCount H'" if "guards H' q \<noteq> 0" for q
    using that g o [of q] R n by (cases "q = r") (auto simp: readers_ok_def)
  ultimately show ?thesis by (simp add: readers_ok_def)
qed

lemma readers_okD:
  assumes "readers_ok H"
  shows "i \<in> fst ` set (rbuf H r) \<Longrightarrow> i div kCellsPerReader = r" "guards H r \<noteq> 0 \<Longrightarrow> guards H r = 1 \<and> r < readerCount H" "protecting H r (rpc H r)"
    "hold H r k \<noteq> 0 \<Longrightarrow> cell_is H r k (hold H r k)"
  using assms by (auto simp: readers_ok_def)


lemma readerCount_sel [simp]:
  "readerCount (set_hold r k p H) = readerCount H" "readerCount (set_rpc r q H) = readerCount H" "readerCount (store_cell r k p H) = readerCount H"
  "readerCount (set_tpc t a H) = readerCount H" "readerCount (fence t H) = readerCount H" "readerCount (release ps H) = readerCount H"
  by (simp_all add: set_hold_def set_rpc_def store_cell_def set_tpc_def fence_def release_def readerCount_def)

lemma guard_keeps:
  assumes I: "hazard_inv H" and r: "r < readerCount H" "rpc H r = RIdle" "guards H r = 0" and s: "HazardGuard_new r H = Inr H'"
  shows "hazard_inv H'"
proof -
  have R: "readers_ok H" using I by (simp add: hazard_inv_def)
  have H': "H' = H\<lparr>guards := (guards H)(r := 1)\<rparr>" using s r(3) by (simp add: HazardGuard_new_def)
  have n: "readerCount H' = readerCount H" by (simp add: H' readerCount_def)
  have "readers_ok H'"
    by (rule readers_step [OF R, of r]) (use readers_okD [OF R] r n in \<open>simp_all add: H' cell_is_def cell_count_def\<close>)
  then show ?thesis by (rule reader_keeps [OF I]) (simp_all add: H')
qed

lemma protect_keeps:
  assumes I: "hazard_inv H" and r: "idle_reader r H" "k < kCellsPerReader"
  shows "hazard_inv (set_rpc r (RLoad k s) (set_hold r k 0 H))"
proof -
  have R: "readers_ok H" using I by (simp add: hazard_inv_def)
  have "readers_ok (set_rpc r (RLoad k s) (set_hold r k 0 H))"
    by (rule readers_step [OF R, of r]) (use readers_okD [OF R] r in \<open>simp_all add: idle_reader_def cell_is_def split: if_splits\<close>)
  then show ?thesis by (rule reader_keeps [OF I]) (simp_all split: if_splits)
qed

lemma set_cell_sel:
  "k < kCellsPerReader \<Longrightarrow> Set_cell r k p H = set_hold r k 0 (store_cell r k p H)" "\<not> k < kCellsPerReader \<Longrightarrow> Set_cell r k p H = H"
  by (simp_all add: Set_cell_def)

text \<open>A store to the reader's own row that gives the held pointer up.\<close>

lemma set_keeps:
  assumes I: "hazard_inv H" and r: "guards H r \<noteq> 0" "k < kCellsPerReader" and q: "q = RIdle \<or> q = RFence k s p"
  shows "hazard_inv (set_rpc r q (Set_cell r k p H))"
proof -
  have R: "readers_ok H" using I by (simp add: hazard_inv_def)
  let ?H = "set_rpc r q (set_hold r k 0 (store_cell r k p H))"
  have "readers_ok ?H"
  proof (rule readers_step [OF R, of r])
    show "\<And>i. i \<in> fst ` set (rbuf ?H r) \<Longrightarrow> i div kCellsPerReader = r" using readers_okD(1) [OF R] cell_index_row [OF r(2)] by auto
    show "guards ?H r \<noteq> 0 \<Longrightarrow> guards ?H r = 1 \<and> r < readerCount H" using readers_okD(2) [OF R, of r] by simp
    show "protecting ?H r (rpc ?H r)" using q r by (auto simp: drain_append)
    show "cell_is ?H r k' (hold ?H r k')" if "hold ?H r k' \<noteq> 0" for k'
    proof -
      have n: "k' \<noteq> k" "hold H r k' \<noteq> 0" using that by (auto split: if_splits)
      then have "cell_is H r k' (hold H r k')" using readers_okD(4) [OF R] by simp
      then show ?thesis using n cell_index_eq [of k' k r r] r(2) by (auto simp: cell_is_def)
    qed
  qed simp_all
  then show ?thesis unfolding set_cell_sel(1) [OF r(2)] by (rule reader_keeps [OF I]) (simp_all split: if_splits)
qed

lemma leave_keeps:
  assumes I: "hazard_inv H" and r: "idle_reader r H"
  shows "hazard_inv (HazardGuard_end r H)"
proof -
  have R: "readers_ok H" using I by (simp add: hazard_inv_def)
  have g: "guards H r = 1" "r < readerCount H" "rpc H r = RIdle" using r readers_okD(2) [OF R, of r] by (auto simp: idle_reader_def)
  let ?H = "HazardGuard_end r H" and ?S = "store_cell r 3 0 (store_cell r 2 0 (store_cell r 1 0 (store_cell r 0 0 H)))"
  have u: "[0..<kCellsPerReader] = [0, 1, 2, 3]" by (simp add: kCellsPerReader_def upt_rec)
  have H: "?H = ?S\<lparr>guards := (guards H)(r := 0), hold := (hold H)(r := (\<lambda>_. 0))\<rparr>" by (simp add: HazardGuard_end_def u g)
  have n: "readerCount ?H = readerCount H" by (simp add: H readerCount_def store_cell_def)
  have "readers_ok ?H"
    by (rule readers_step [OF R, of r, OF _ _ n])
      (use readers_okD(1) [OF R, of _ r] g cell_index_row [of _ r] in \<open>auto simp: H kCellsPerReader_def\<close>)
  then show ?thesis by (rule reader_keeps [OF I]) (simp_all add: H split: if_splits)
qed

lemma cell_flush_keeps:
  assumes I: "hazard_inv H" and b: "rbuf H r = (i, v) # b" and H': "H' = H\<lparr>cells := (cells H)(i := v), rbuf := (rbuf H)(r := b)\<rparr>"
  shows "hazard_inv H'"
proof -
  have R: "readers_ok H" using I by (simp add: hazard_inv_def)
  have i: "i div kCellsPerReader = r" using readers_okD(1) [OF R, of i r] b by simp
  have n: "readerCount H' = readerCount H" by (simp add: H' readerCount_def)
  have c: "cell_is H' r k p" if "cell_is H r k p" for k p using that b n by (auto simp: cell_is_def cell_count_def H')
  have "readers_ok H'"
  proof (rule readers_step [OF R, of r, OF _ _ n])
    show "protecting H' r (rpc H' r)" using readers_okD(3) [OF R, of r] c b by (cases "rpc H r") (auto simp: H')
    show "cell_is H' r k (hold H' r k)" if "hold H' r k \<noteq> 0" for k using readers_okD(4) [OF R, of r k] that c by (simp add: H')
  qed (use readers_okD(1) [OF R, of _ r] readers_okD(2) [OF R, of r] b i in \<open>auto simp: H'\<close>)
  then show ?thesis by (rule reader_keeps [OF I]) (simp_all add: H')
qed


lemma fence_reader_keeps:
  assumes I: "hazard_inv H" and q: "rpc H r = RFence k s p"
    and H': "H' = set_rpc r (RCheck k s p) (H\<lparr>cells := drain (rbuf H r) (cells H), rbuf := (rbuf H)(r := [])\<rparr>)"
  shows "hazard_inv H'"
proof -
  have R: "readers_ok H" using I by (simp add: hazard_inv_def)
  have n: "readerCount H' = readerCount H" by (simp add: H' readerCount_def set_rpc_def)
  have f: "guards H r = 1" "k < kCellsPerReader" "drain (rbuf H r) (cells H) (cell_index r k) = p" "r < readerCount H"
    using readers_okD(2,3) [OF R, of r] q by auto
  have "readers_ok H'"
  proof (rule readers_step [OF R, of r, OF _ _ n])
    show "cells H' i = cells H i" if "i div kCellsPerReader \<noteq> r" for i
      using drain_absent [of i "rbuf H r"] readers_okD(1) [OF R, of i r] that by (auto simp: H')
    show "protecting H' r (rpc H' r)" using f cell_index_less [OF f(2), of r H'] n by (simp add: H' cell_is_def)
    show "cell_is H' r j (hold H' r j)" if "hold H' r j \<noteq> 0" for j
      using readers_okD(4) [OF R, of r j] that n drain_absent [of "cell_index r j" "rbuf H r"] by (simp add: H' cell_is_def cell_count_def)
  qed (use f in \<open>simp_all add: H'\<close>)
  then show ?thesis by (rule reader_keeps [OF I]) (simp_all add: H')
qed

lemma objects_okD:
  assumes "objects_ok H"
  shows "distinct (batch H t)" "distinct (orphans H)" "p \<in> set (batch H t) \<Longrightarrow> p \<notin> set (orphans H)"
    "p \<in> set (batch H t) \<Longrightarrow> p \<in> set (batch H u) \<Longrightarrow> t = u" "p \<in> set (batch H t) \<union> set (orphans H) \<Longrightarrow> obj H p = ORetired"
    "retireDead H t \<Longrightarrow> batch H t = []"
  using assms unfolding objects_ok_def by blast+

lemma objects_okI:
  assumes "\<And>t. distinct (batch H t)" "distinct (orphans H)" "\<And>t p. p \<in> set (batch H t) \<Longrightarrow> p \<notin> set (orphans H)"
    "\<And>t u p. p \<in> set (batch H t) \<Longrightarrow> p \<in> set (batch H u) \<Longrightarrow> t = u" "\<And>t p. p \<in> set (batch H t) \<Longrightarrow> obj H p = ORetired"
    "\<And>p. p \<in> set (orphans H) \<Longrightarrow> obj H p = ORetired" "\<And>t. retireDead H t \<Longrightarrow> batch H t = []"
  shows "objects_ok H"
  using assms unfolding objects_ok_def by blast

text \<open>The check that succeeds: the pointer is still in the link, so nobody who scans now has it among its candidates.\<close>

lemma linked_not_candidate:
  assumes I: "hazard_inv H" and p: "p \<noteq> 0" "src H s = p"
  shows "obj H p \<noteq> OFree" and "p \<in> set (batch H t) \<union> set (orphans H) \<Longrightarrow> tpc H t = TIdle"
proof -
  have L: "obj H p = OLive \<or> (\<exists>t. outgoing H t s p)" using I p by (auto simp: hazard_inv_def links_ok_def in_link_def)
  have O: "objects_ok H" using I by (simp add: hazard_inv_def)
  show "obj H p \<noteq> OFree" using L O by (auto simp: outgoing_def objects_ok_def)
  assume c: "p \<in> set (batch H t) \<union> set (orphans H)"
  then have "obj H p \<noteq> OLive" using O by (auto simp: objects_ok_def)
  then obtain u where u: "p \<in> set (batch H u)" "tpc H u = TIdle" using L by (auto simp: outgoing_def)
  have "p \<notin> set (orphans H)" "t \<noteq> u \<Longrightarrow> p \<notin> set (batch H t)" using objects_okD(3,4) [OF O u(1)] by blast+
  then show "tpc H t = TIdle" using c u(2) by (cases "t = u") auto
qed

lemma checked_keeps:
  assumes I: "hazard_inv H" and q: "rpc H r = RCheck k s p" and e: "src H s = p"
  shows "hazard_inv (set_rpc r RIdle (set_hold r k p H))"
proof -
  let ?H = "set_rpc r RIdle (set_hold r k p H)"
  have R: "readers_ok H" using I by (simp add: hazard_inv_def)
  have f: "guards H r = 1" "cell_is H r k p" "r < readerCount H" using readers_okD(2,3) [OF R, of r] q by auto
  have "readers_ok ?H"
    by (rule readers_step [OF R, of r]) (use f readers_okD(1,4) [OF R] in \<open>auto simp: cell_is_def split: if_splits\<close>)
  moreover have "scans_ok ?H"
    unfolding scans_ok_def
  proof (intro allI impI)
    fix t r' k'
    assume h: "hold ?H r' k' \<noteq> 0" "hold ?H r' k' \<in> set (batch ?H t) \<union> set (orphans ?H)"
    show "seen (tpc ?H t) (cell_index r' k') (hold ?H r' k')"
    proof (cases "r' = r \<and> k' = k")
      case True
      then have "tpc H t = TIdle" using h linked_not_candidate(2) [OF I, of p s t] e by simp
      then show ?thesis by simp
    next
      case False
      then have "hold ?H r' k' = hold H r' k'" by auto
      then show ?thesis using h I unfolding hazard_inv_def scans_ok_def by auto
    qed
  qed
  moreover have "held_alive ?H"
    using I linked_not_candidate(1) [OF I, of p s] e by (auto simp: hazard_inv_def held_alive_def)
  ultimately show ?thesis using I by (simp add: hazard_inv_def objects_ok_def links_ok_def in_link_def outgoing_def)
qed

lemma recheck_keeps:
  assumes I: "hazard_inv H" and r: "guards H r \<noteq> 0" and q: "q = RLoad k s \<or> q = RSet k s p" and k: "k < kCellsPerReader"
  shows "hazard_inv (set_rpc r q H)"
proof -
  have R: "readers_ok H" using I by (simp add: hazard_inv_def)
  have "readers_ok (set_rpc r q H)"
    by (rule readers_step [OF R, of r]) (use readers_okD [OF R] r q k in \<open>auto simp: cell_is_def\<close>)
  then show ?thesis by (rule reader_keeps [OF I]) simp_all
qed

lemma reader_step_keeps:
  assumes I: "hazard_inv H" and s: "reader_step r H = Some H'"
  shows "hazard_inv H'"
proof -
  have p: "protecting H r (rpc H r)" using I readers_okD(3) [of H r] by (simp add: hazard_inv_def)
  show ?thesis
  proof (cases "rpc H r")
    case RIdle
    then show ?thesis using s by (simp add: reader_step_def)
  next
    case (RLoad k l)
    then show ?thesis using s p recheck_keeps [OF I, of r _ k l "src H l"] by (auto simp: reader_step_def)
  next
    case (RSet k l v)
    then show ?thesis using s p set_keeps [OF I, of r k "RFence k l v" l v] by (auto simp: reader_step_def)
  next
    case (RFence k l v)
    then show ?thesis using s fence_reader_keeps [OF I RFence] by (auto simp: reader_step_def)
  next
    case (RCheck k l v)
    have "k < kCellsPerReader" "guards H r \<noteq> 0" using RCheck p by (auto simp: cell_is_def)
    then show ?thesis using s RCheck checked_keeps [OF I RCheck] recheck_keeps [OF I, of r "RLoad k l" k l]
      by (auto simp: reader_step_def split: if_splits)
  qed
qed


section \<open>Steps of a thread\<close>

lemma thread_keeps:
  assumes I: "hazard_inv H" and "objects_ok H'" "links_ok H'" "scans_ok H'" "held_alive H'"
    and "rbuf H' = rbuf H" "guards H' = guards H" "rpc H' = rpc H" "hold H' = hold H" "cells H' = cells H" "readerCount H' = readerCount H"
  shows "hazard_inv H'"
  using assms readers_frame [of H H'] by (simp add: hazard_inv_def)

lemma links_okD:
  assumes "links_ok H"
  shows "p \<noteq> 0 \<Longrightarrow> in_link H s p \<Longrightarrow> obj H p = OLive \<or> (\<exists>t. outgoing H t s p)" "links H \<le> s \<Longrightarrow> src H s = 0"
    "s \<in> fst ` set (sbuf H t) \<Longrightarrow> s < links H \<and> t < threads H" "tpc H t \<noteq> TIdle \<Longrightarrow> t < threads H"
  using assms unfolding links_ok_def by blast+

lemma links_okI:
  assumes "\<And>s p. p \<noteq> 0 \<Longrightarrow> in_link H s p \<Longrightarrow> obj H p \<noteq> OLive \<Longrightarrow> \<exists>t. outgoing H t s p" "\<And>s. links H \<le> s \<Longrightarrow> src H s = 0"
    "\<And>t s. s \<in> fst ` set (sbuf H t) \<Longrightarrow> s < links H \<and> t < threads H" "\<And>t. tpc H t \<noteq> TIdle \<Longrightarrow> t < threads H"
  shows "links_ok H"
  using assms unfolding links_ok_def by blast

lemma no_table:
  assumes "readers_ok H" and "\<not> table H"
  shows "guards H r = 0" "rpc H r = RIdle" "hold H r k = 0"
proof -
  have n: "readerCount H = 0" "cell_count H = 0" using assms(2) by (simp_all add: readerCount_def cell_count_def)
  show g: "guards H r = 0" using readers_okD(2) [OF assms(1), of r] n by auto
  show "rpc H r = RIdle" using readers_okD(3) [OF assms(1), of r] g by (cases "rpc H r") auto
  show "hold H r k = 0" using readers_okD(4) [OF assms(1), of r k] n by (auto simp: cell_is_def)
qed

lemma EnsureTable_keeps:
  assumes "hazard_inv H"
  shows "hazard_inv (EnsureTable H)"
proof (cases "table H \<or> scheduler H = None")
  case True
  then show ?thesis using assms by (auto simp: EnsureTable_def)
next
  case False
  have R: "readers_ok H" using assms by (simp add: hazard_inv_def)
  note n = no_table [OF R, simplified False]
  obtain f w where e: "EnsureTable H = H\<lparr>table := True, fiberCount := f, workerCount := w, externalOwners := (\<lambda>_. 0), cells := (\<lambda>_. 0)\<rparr>"
    using False by (auto simp: EnsureTable_def)
  have "readers_ok (EnsureTable H)" using readers_okD(1) [OF R] n False by (simp add: readers_ok_def e)
  then show ?thesis by (rule reader_keeps [OF assms]) (simp_all add: e)
qed

text \<open>A fence: the thread has nothing left to overwrite.\<close>

lemma fence_links:
  assumes L: "links_ok H" and p: "p \<noteq> 0" "in_link (fence t H) s p"
  shows "obj H p = OLive \<or> (\<exists>u. u \<noteq> t \<and> outgoing (fence t H) u s p)"
proof -
  have l: "in_link H s p" and c: "(drain (sbuf H t) (src H) s = p) \<or> (\<exists>u. u \<noteq> t \<and> (s, p) \<in> set (sbuf H u))"
    using p(2) drain_cases [of s "sbuf H t" "src H"] by (auto simp: in_link_def split: if_splits)
  show ?thesis
  proof (cases "obj H p = OLive")
    case False
    then obtain u where u: "outgoing H u s p" using links_okD(1) [OF L p(1) l] by blast
    have "u \<noteq> t" using u c by (auto simp: outgoing_def)
    moreover have "drain (sbuf H u) (drain (sbuf H t) (src H)) s \<noteq> p"
    proof (cases "s \<in> fst ` set (sbuf H u)")
      case True
      then show ?thesis using u drain_cong [of "drain (sbuf H t) (src H)" s "src H" "sbuf H u"] by (simp add: outgoing_def)
    next
      case False
      then have "src H s \<noteq> p" using u drain_absent [of s "sbuf H u" "src H"] by (simp add: outgoing_def)
      moreover have "(s, p) \<notin> set (sbuf H t)" using u \<open>u \<noteq> t\<close> by (simp add: outgoing_def)
      ultimately show ?thesis using drain_cases [of s "sbuf H t" "src H"] False drain_absent [of s "sbuf H u"] by auto
    qed
    ultimately show ?thesis using u by (auto simp: outgoing_def)
  qed simp
qed

lemma fence_keeps:
  assumes I: "hazard_inv H"
  shows "hazard_inv (fence t H)"
proof (rule thread_keeps [OF I])
  have L: "links_ok H" using I by (simp add: hazard_inv_def)
  show "links_ok (fence t H)"
  proof (rule links_okI)
    show "src (fence t H) s = 0" if "links (fence t H) \<le> s" for s
      using that links_okD(2,3) [OF L, of s] drain_absent [of s "sbuf H t" "src H"] by fastforce
    show "\<exists>u. outgoing (fence t H) u s p" if "p \<noteq> 0" "in_link (fence t H) s p" "obj (fence t H) p \<noteq> OLive" for s p
      using fence_links [OF L that(1,2)] that(3) by auto
    show "s < links (fence t H) \<and> u < threads (fence t H)" if "s \<in> fst ` set (sbuf (fence t H) u)" for s u
      using that links_okD(3) [OF L, of s u] by (simp split: if_splits)
    show "u < threads (fence t H)" if "tpc (fence t H) u \<noteq> TIdle" for u using that links_okD(4) [OF L] by simp
  qed
qed (use I in \<open>simp_all add: hazard_inv_def objects_ok_def scans_ok_def held_alive_def\<close>)

lemma scan_keeps:
  assumes I: "hazard_inv H" and t: "idle_thread t H"
  shows "hazard_inv (Scan t H)"
proof -
  let ?G = "EnsureTable H" and ?H = "set_tpc t (TScan 0 []) (fence t (EnsureTable H))"
  have G: "hazard_inv ?G" and F: "hazard_inv (fence t ?G)" using EnsureTable_keeps [OF I] fence_keeps by auto
  have th: "t < threads ?G" "tpc ?G t = TIdle" using t by (auto simp: idle_thread_def EnsureTable_def split: option.splits)
  have "hazard_inv ?H"
  proof (rule thread_keeps [OF F])
    have L: "links_ok ?G" and LF: "links_ok (fence t ?G)" using G F by (simp_all add: hazard_inv_def)
    show "links_ok ?H"
    proof (rule links_okI)
      fix s p
      assume p: "p \<noteq> 0" "in_link ?H s p" "obj ?H p \<noteq> OLive"
      have "in_link (fence t ?G) s p" using p(2) by (simp add: in_link_def)
      then obtain u where "u \<noteq> t" "outgoing (fence t ?G) u s p" using fence_links [OF L p(1), of t s] p(3) by auto
      then have "outgoing ?H u s p" by (simp add: outgoing_def)
      then show "\<exists>u. outgoing ?H u s p" by blast
    qed (use links_okD(2-) [OF LF] th in \<open>auto split: if_splits\<close>)
    show "scans_ok ?H" using F by (auto simp: hazard_inv_def scans_ok_def)
  qed (use F in \<open>simp_all add: hazard_inv_def objects_ok_def held_alive_def\<close>)
  then show ?thesis using G by (simp add: Scan_def Let_def)
qed

lemma new_object_keeps:
  assumes I: "hazard_inv H" and p: "obj H p = OFree"
  shows "hazard_inv (H\<lparr>obj := (obj H)(p := OLive)\<rparr>)"
proof (rule thread_keeps [OF I])
  let ?H = "H\<lparr>obj := (obj H)(p := OLive)\<rparr>"
  have O: "objects_ok H" and L: "links_ok H" and A: "held_alive H" using I by (simp_all add: hazard_inv_def)
  have n: "p \<notin> set (batch H t)" "p \<notin> set (orphans H)" for t using objects_okD(5) [OF O, of p t] p by auto
  show "objects_ok ?H"
  proof (rule objects_okI)
    show "obj ?H q = ORetired" if "q \<in> set (batch ?H t)" for t q using that objects_okD(5) [OF O, of q t] n(1) [of t] by auto
    show "obj ?H q = ORetired" if "q \<in> set (orphans ?H)" for q using that objects_okD(5) [OF O, of q] n(2) by auto
    show "t = u" if "q \<in> set (batch ?H t)" "q \<in> set (batch ?H u)" for t u q using that objects_okD(4) [OF O, of q t u] by simp
  qed (use objects_okD(1,2,3,6) [OF O] in simp_all)
  show "links_ok ?H"
  proof (rule links_okI)
    show "\<exists>t. outgoing ?H t s q" if "q \<noteq> 0" "in_link ?H s q" "obj ?H q \<noteq> OLive" for s q
      using that links_okD(1) [OF L that(1), of s] by (auto simp: in_link_def outgoing_def split: if_splits)
  qed (use links_okD(2-) [OF L] in simp_all)
  show "scans_ok ?H" using I by (simp add: hazard_inv_def scans_ok_def)
  show "held_alive ?H" using A by (simp add: held_alive_def)
qed (simp_all add: readerCount_def)

text \<open>The steps that change links only.\<close>

lemma link_step_keeps:
  assumes I: "hazard_inv H" and H': "H' = H\<lparr>src := m, sbuf := (sbuf H)(t := b)\<rparr>" and "links_ok H'"
  shows "hazard_inv H'"
  by (rule thread_keeps [OF I])
    (use I assms(3) in \<open>simp_all add: H' hazard_inv_def objects_ok_def scans_ok_def held_alive_def readerCount_def\<close>)

lemma store_keeps:
  assumes I: "hazard_inv H" and t: "idle_thread t H" "s < links H" "p = 0 \<or> obj H p = OLive"
  shows "hazard_inv (H\<lparr>sbuf := (sbuf H)(t := sbuf H t @ [(s, p)])\<rparr>)"
proof -
  let ?H = "H\<lparr>src := src H, sbuf := (sbuf H)(t := sbuf H t @ [(s, p)])\<rparr>"
  have L: "links_ok H" using I by (simp add: hazard_inv_def)
  have "hazard_inv ?H"
  proof (rule link_step_keeps [OF I refl], rule links_okI)
    fix s' q
    assume q: "q \<noteq> 0" "in_link ?H s' q" "obj ?H q \<noteq> OLive"
    have "q \<noteq> p" using q t(3) by auto
    then have "in_link H s' q" using q(2) by (auto simp: in_link_def split: if_splits)
    then obtain u where u: "outgoing H u s' q" using links_okD(1) [OF L q(1)] q(3) by auto
    then have "outgoing ?H u s' q" using \<open>q \<noteq> p\<close> by (auto simp: outgoing_def drain_append)
    then show "\<exists>u. outgoing ?H u s' q" by blast
  qed (use links_okD(2-) [OF L] t in \<open>auto simp: idle_thread_def split: if_splits\<close>)
  then show ?thesis by simp
qed

lemma sync_keeps:
  assumes I: "hazard_inv H" and b: "sbuf H t = (s, v) # b"
  shows "hazard_inv (H\<lparr>src := (src H)(s := v), sbuf := (sbuf H)(t := b)\<rparr>)"
proof -
  let ?H = "H\<lparr>src := (src H)(s := v), sbuf := (sbuf H)(t := b)\<rparr>"
  have L: "links_ok H" using I by (simp add: hazard_inv_def)
  show ?thesis
  proof (rule link_step_keeps [OF I refl], rule links_okI)
    fix s' q
    assume q: "q \<noteq> 0" "in_link ?H s' q" "obj ?H q \<noteq> OLive"
    have "(s, v) \<in> set (sbuf H t)" "set b \<subseteq> set (sbuf H t)" using b by auto
    then have "in_link H s' q" using q(2) unfolding in_link_def by (auto split: if_splits)
    then obtain u where u: "outgoing H u s' q" using links_okD(1) [OF L q(1)] q(3) by auto
    have "outgoing ?H u s' q"
    proof (cases "u = t")
      case True
      then show ?thesis using u b by (auto simp: outgoing_def)
    next
      case False
      have o: "w = u" if "(s', q) \<in> set (sbuf H w)" for w using that u by (auto simp: outgoing_def)
      have "(s', q) \<notin> set (sbuf H t)" using o [of t] False by blast
      then have "(s', q) \<in> set (sbuf H u) \<or> s' \<noteq> s" using q(2) o b by (auto simp: in_link_def split: if_splits)
      then have "s' \<in> fst ` set (sbuf H u) \<or> s' \<noteq> s" by force
      then have "drain (sbuf H u) ((src H)(s := v)) s' = drain (sbuf H u) (src H) s'" by (intro drain_cong) auto
      then show ?thesis using u b False by (auto simp: outgoing_def)
    qed
    then show "\<exists>u. outgoing ?H u s' q" by blast
  next
    have s: "s < links H" using links_okD(3) [OF L, of s t] b by simp
    show "src ?H s' = 0" if "links ?H \<le> s'" for s' using links_okD(2) [OF L] that s by simp
    show "s' < links ?H \<and> u < threads ?H" if "s' \<in> fst ` set (sbuf ?H u)" for s' u
      using links_okD(3) [OF L, of s' u] that b by (auto split: if_splits)
    show "u < threads ?H" if "tpc ?H u \<noteq> TIdle" for u using links_okD(4) [OF L] that by simp
  qed
qed


text \<open>An object is added to the batch of a thread that has unlinked it.\<close>

lemma retired_keeps:
  assumes I: "hazard_inv H" and t: "idle_thread t H" and p: "unlinked t p H"
    and H': "H' = H\<lparr>obj := (obj H)(p := ORetired), batch := (batch H)(t := batch H t @ [p]), retireDead := (retireDead H)(t := False)\<rparr>"
  shows "hazard_inv H'"
proof (rule thread_keeps [OF I])
  have O: "objects_ok H" and L: "links_ok H" and A: "held_alive H" and C: "scans_ok H" using I by (simp_all add: hazard_inv_def)
  have live: "obj H p = OLive" and un: "s < links H \<Longrightarrow> drain (sbuf H t) (src H) s \<noteq> p" "u < threads H \<Longrightarrow> u \<noteq> t \<Longrightarrow> (s, p) \<notin> set (sbuf H u)" for s u
    using p by (force simp: unlinked_def list_all_iff)+
  have n: "p \<notin> set (batch H u)" "p \<notin> set (orphans H)" for u using objects_okD(5) [OF O, of p u] live by auto
  show "objects_ok H'"
  proof (rule objects_okI)
    show "u = w" if "q \<in> set (batch H' u)" "q \<in> set (batch H' w)" for u w q
      using that objects_okD(4) [OF O, of q u w] n(1) by (auto simp: H' split: if_splits)
    show "obj H' q = ORetired" if "q \<in> set (batch H' u)" for u q
      using that objects_okD(5) [OF O, of q u] by (auto simp: H' split: if_splits)
    show "obj H' q = ORetired" if "q \<in> set (orphans H')" for q using that objects_okD(5) [OF O, of q] by (auto simp: H')
  qed (use objects_okD(1,2,3,6) [OF O] n in \<open>auto simp: H' split: if_splits\<close>)
  show "links_ok H'"
  proof (rule links_okI)
    fix s q
    assume q: "q \<noteq> 0" "in_link H' s q" "obj H' q \<noteq> OLive"
    have l: "in_link H s q" using q(2) by (simp add: in_link_def H')
    show "\<exists>u. outgoing H' u s q"
    proof (cases "q = p")
      case True
      have "s < links H" using l q(1) links_okD(2,3) [OF L, of s] unfolding in_link_def by (metis fst_conv image_eqI not_le)
      then have "drain (sbuf H t) (src H) s \<noteq> p" by (rule un)
      moreover have "(s, p) \<notin> set (sbuf H u)" if "u \<noteq> t" for u
      proof
        assume m: "(s, p) \<in> set (sbuf H u)"
        then have "u < threads H" using links_okD(3) [OF L, of s u] by force
        then show False using un(2) that m by blast
      qed
      ultimately have "outgoing H' t s q" using t True by (simp add: outgoing_def H' idle_thread_def)
      then show ?thesis by blast
    next
      case False
      then obtain u where "outgoing H u s q" using links_okD(1) [OF L q(1) l] q(3) by (auto simp: H')
      then have "outgoing H' u s q" by (auto simp: outgoing_def H')
      then show ?thesis by blast
    qed
  qed (use links_okD(2-) [OF L] in \<open>auto simp: H'\<close>)
  show "scans_ok H'"
    unfolding scans_ok_def
  proof (intro allI impI)
    fix u r k
    assume h: "hold H' r k \<noteq> 0" "hold H' r k \<in> set (batch H' u) \<union> set (orphans H')"
    show "seen (tpc H' u) (cell_index r k) (hold H' r k)"
    proof (cases "u = t")
      case True
      then show ?thesis using t by (simp add: H' idle_thread_def)
    next
      case False
      then show ?thesis using h C by (auto simp: H' scans_ok_def)
    qed
  qed
  show "held_alive H'" using A by (simp add: held_alive_def H')
qed (simp_all add: H' readerCount_def)

text \<open>A batch is handed over while nobody scans.\<close>

lemma adopt_keeps:
  assumes I: "hazard_inv H" and i: "\<And>u. tpc H u = TIdle"
    and H': "H' = (fence t H)\<lparr>orphans := orphans H @ batch H t, orphanTotal := n, batch := (batch H)(t := []), retireDead := (retireDead H)(t := True)\<rparr>"
  shows "hazard_inv H'"
proof (rule thread_keeps [OF fence_keeps [OF I, of t]])
  have O: "objects_ok H" and L: "links_ok H" and LF: "links_ok (fence t H)" and A: "held_alive H"
    using I fence_keeps [OF I, of t] by (simp_all add: hazard_inv_def)
  show "objects_ok H'"
  proof (rule objects_okI)
    show "u = w" if "q \<in> set (batch H' u)" "q \<in> set (batch H' w)" for u w q
      using that objects_okD(4) [OF O, of q u w] by (auto simp: H' split: if_splits)
    show "q \<notin> set (orphans H')" if "q \<in> set (batch H' u)" for u q
      using that objects_okD(3) [OF O, of q u] objects_okD(4) [OF O, of q u t] by (auto simp: H' split: if_splits)
    show "obj H' q = ORetired" if "q \<in> set (orphans H')" for q using that objects_okD(5) [OF O, of q t] by (auto simp: H')
    show "distinct (orphans H')" using objects_okD(1,2) [OF O] objects_okD(3) [OF O, of _ t] by (auto simp: H')
  qed (use objects_okD(1,5,6) [OF O] in \<open>auto simp: H' split: if_splits\<close>)
  show "links_ok H'"
  proof (rule links_okI)
    fix s p
    assume p: "p \<noteq> 0" "in_link H' s p" "obj H' p \<noteq> OLive"
    have "in_link (fence t H) s p" using p(2) by (simp add: in_link_def H')
    then obtain u where "u \<noteq> t" "outgoing (fence t H) u s p" using fence_links [OF L p(1), of t s] p(3) by (auto simp: H')
    then have "outgoing H' u s p" by (simp add: outgoing_def H')
    then show "\<exists>u. outgoing H' u s p" by blast
  qed (use links_okD(2-) [OF LF] in \<open>auto simp: H' split: if_splits\<close>)
  show "scans_ok H'" using i by (simp add: scans_ok_def H')
  show "held_alive H'" using A by (simp add: held_alive_def H')
qed (simp_all add: H' readerCount_def fence_def)


lemma EnsureTable_sel [simp]:
  "batch (EnsureTable H) = batch H" "orphans (EnsureTable H) = orphans H" "obj (EnsureTable H) = obj H" "tpc (EnsureTable H) = tpc H"
  "threads (EnsureTable H) = threads H" "retireDead (EnsureTable H) = retireDead H" "sbuf (EnsureTable H) = sbuf H" "src (EnsureTable H) = src H"
  "links (EnsureTable H) = links H" "hold (EnsureTable H) = hold H"
  by (simp_all add: EnsureTable_def split: option.splits)

lemma EnsureTable_obj: "EnsureTable (H\<lparr>obj := f\<rparr>) = (EnsureTable H)\<lparr>obj := f\<rparr>"
  by (simp add: EnsureTable_def split: option.splits)

lemma nobody_scans_all:
  assumes "hazard_inv H" and "nobody_scans H"
  shows "tpc H u = TIdle"
  using assms links_okD(4) [of H u] by (force simp: hazard_inv_def nobody_scans_def list_all_iff)

lemma alive_idem:
  "\<not> retireDead G t \<Longrightarrow> G\<lparr>obj := f, batch := b, retireDead := (retireDead G)(t := False)\<rparr> = G\<lparr>obj := f, batch := b\<rparr>"
  by (cases G) (simp add: fun_upd_idem)

lemma retire_keeps:
  assumes I: "hazard_inv H" and t: "idle_thread t H" and p: "unlinked t p H" and c: "retireDead H t \<Longrightarrow> nobody_scans H"
  shows "hazard_inv (Retire t p (H\<lparr>obj := (obj H)(p := ORetired)\<rparr>))"
proof -
  let ?H = "H\<lparr>obj := (obj H)(p := ORetired)\<rparr>"
  have O: "objects_ok H" using I by (simp add: hazard_inv_def)
  consider (dead) "p \<noteq> 0" "retireDead H t" | (live) "p \<noteq> 0" "\<not> retireDead H t" using p by (auto simp: unlinked_def)
  then show ?thesis
  proof cases
    case dead
    let ?R = "H\<lparr>obj := (obj H)(p := ORetired), batch := (batch H)(t := batch H t @ [p]), retireDead := (retireDead H)(t := False)\<rparr>"
    have R: "hazard_inv ?R" by (rule retired_keeps [OF I t p refl])
    have e: "batch H t = []" by (rule objects_okD(6) [OF O dead(2)])
    have i: "tpc ?R u = TIdle" for u using nobody_scans_all [OF I c [OF dead(2)], of u] by simp
    have "Retire t p ?H = (fence t ?R)\<lparr>orphans := orphans ?R @ batch ?R t, orphanTotal := orphanTotal H + 1, batch := (batch ?R)(t := []),
        retireDead := (retireDead ?R)(t := True)\<rparr>"
      using dead e by (simp add: Retire_def AdoptOrphans_def Let_def fence_def fun_upd_idem)
    then show ?thesis by (rule adopt_keeps [OF R i])
  next
    case live
    let ?G = "EnsureTable H"
    let ?R = "?G\<lparr>obj := (obj ?G)(p := ORetired), batch := (batch ?G)(t := batch ?G t @ [p])\<rparr>"
    have t': "idle_thread t ?G" and p': "unlinked t p ?G" and d: "\<not> retireDead ?G t" using t p live(2) by (simp_all add: idle_thread_def unlinked_def)
    have R: "hazard_inv ?R" using retired_keeps [OF EnsureTable_keeps [OF I] t' p' refl] unfolding alive_idem [OF d] .
    have "Retire t p ?H = (if threshold ?R \<le> length (batch ?R t) then Scan t ?R else ?R)"
      using live by (simp add: Retire_def Let_def EnsureTable_obj)
    moreover have "idle_thread t ?R" using t' by (simp add: idle_thread_def)
    ultimately show ?thesis using R scan_keeps [OF R, of t] by simp
  qed
qed

lemma batch_end_keeps:
  assumes I: "hazard_inv H" and n: "nobody_scans H"
  shows "hazard_inv (RetireBatch_end t H)"
proof (cases "batch H t = []")
  case True
  have "objects_ok (RetireBatch_end t H)" using I True by (auto simp: RetireBatch_end_def AdoptOrphans_def hazard_inv_def objects_ok_def)
  then show ?thesis using True
    by (intro thread_keeps [OF I])
      (use I in \<open>simp_all add: RetireBatch_end_def AdoptOrphans_def hazard_inv_def links_ok_def in_link_def outgoing_def scans_ok_def held_alive_def readerCount_def fun_upd_idem\<close>)
next
  case False
  have "RetireBatch_end t H = (fence t H)\<lparr>orphans := orphans H @ batch H t, orphanTotal := orphanTotal H + length (batch H t),
      batch := (batch H)(t := []), retireDead := (retireDead H)(t := True)\<rparr>"
    using False by (simp add: RetireBatch_end_def AdoptOrphans_def Let_def fence_def)
  then show ?thesis by (rule adopt_keeps [OF I nobody_scans_all [OF I n]])
qed

section \<open>Scanning\<close>

text \<open>Giving back candidates that nobody holds.\<close>

lemma release_keeps:
  assumes I: "hazard_inv H" and t: "tpc H t \<noteq> TIdle"
    and ps: "set ps \<subseteq> set (batch H t) \<union> set (orphans H)" "\<And>r k. hold H r k \<noteq> 0 \<Longrightarrow> hold H r k \<notin> set ps"
    and H': "H' = (release ps H)\<lparr>batch := (batch H)(t := b), orphans := os, tpc := (tpc H)(t := q)\<rparr>"
    and b: "b = filter (\<lambda>p. p \<notin> set ps) (batch H t)" "os = filter (\<lambda>p. p \<notin> set ps) (orphans H)"
    and q: "q = TIdle \<or> (\<exists>named. tpc H t = TSweep named \<and> q = TOrphans named)"
  shows "hazard_inv H'"
proof (rule thread_keeps [OF I])
  have O: "objects_ok H" and L: "links_ok H" and A: "held_alive H" and C: "scans_ok H" using I by (simp_all add: hazard_inv_def)
  have sub: "p \<in> set (batch H' u) \<Longrightarrow> p \<in> set (batch H u) \<and> (u = t \<longrightarrow> p \<notin> set ps)" "p \<in> set (orphans H') \<Longrightarrow> p \<in> set (orphans H) \<and> p \<notin> set ps" for p u
    by (auto simp: H' b split: if_splits)
  have other: "p \<notin> set ps" if "p \<in> set (batch H u)" "u \<noteq> t" for p u
    using objects_okD(3,4) [OF O that(1)] that(2) ps(1) by blast
  show "objects_ok H'"
  proof (rule objects_okI)
    show "u = w" if "p \<in> set (batch H' u)" "p \<in> set (batch H' w)" for u w p using that sub(1) objects_okD(4) [OF O, of p u w] by blast
    show "p \<notin> set (orphans H')" if "p \<in> set (batch H' u)" for u p using that sub objects_okD(3) [OF O, of p u] by blast
    show "obj H' p = ORetired" if "p \<in> set (batch H' u)" for u p
      using sub(1) [OF that] objects_okD(5) [OF O, of p u] other [of p u] by (cases "u = t") (auto simp: H')
    show "obj H' p = ORetired" if "p \<in> set (orphans H')" for p using sub(2) [OF that] objects_okD(5) [OF O, of p] by (auto simp: H')
  qed (use objects_okD(1,2,6) [OF O] in \<open>auto simp: H' b split: if_splits\<close>)
  show "links_ok H'"
  proof (rule links_okI)
    fix s p
    assume p: "p \<noteq> 0" "in_link H' s p" "obj H' p \<noteq> OLive"
    have l: "in_link H s p" using p(2) by (simp add: in_link_def H')
    have "obj H p \<noteq> OLive" using p(3) ps(1) objects_okD(5) [OF O, of p t] by (auto simp: H' split: if_splits)
    then obtain u where u: "outgoing H u s p" using links_okD(1) [OF L p(1) l] by blast
    then have "u \<noteq> t" using t by (auto simp: outgoing_def)
    then have "outgoing H' u s p" using u by (simp add: outgoing_def H')
    then show "\<exists>u. outgoing H' u s p" by blast
  qed (use links_okD(2-) [OF L] t in \<open>auto simp: H' split: if_splits\<close>)
  show "scans_ok H'"
    unfolding scans_ok_def
  proof (intro allI impI)
    fix u r k
    assume h: "hold H' r k \<noteq> 0" "hold H' r k \<in> set (batch H' u) \<union> set (orphans H')"
    have "hold H r k \<in> set (batch H u) \<union> set (orphans H)" using h(2) sub by (auto simp: H')
    then have "seen (tpc H u) (cell_index r k) (hold H r k)" using C h(1) unfolding scans_ok_def by (auto simp: H')
    then show "seen (tpc H' u) (cell_index r k) (hold H' r k)" using q by (auto simp: H')
  qed
  show "held_alive H'" using A ps(2) by (auto simp: held_alive_def H')
qed (simp_all add: H' readerCount_def release_def)


lemma walk_keeps:
  assumes I: "hazard_inv H" and t: "tpc H t = TScan i named"
    and q: "q = TScan (i + 1) (if cells H i \<noteq> 0 then named @ [cells H i] else named) \<or> cell_count H \<le> i \<and> q = TSweep named"
  shows "hazard_inv (set_tpc t q H)"
proof (rule thread_keeps [OF I])
  let ?H = "set_tpc t q H"
  have R: "readers_ok H" and L: "links_ok H" and C: "scans_ok H" using I by (simp_all add: hazard_inv_def)
  show "links_ok ?H"
  proof (rule links_okI)
    fix s p
    assume p: "p \<noteq> 0" "in_link ?H s p" "obj ?H p \<noteq> OLive"
    then obtain u where u: "outgoing H u s p" using links_okD(1) [OF L p(1), of s] by (auto simp: in_link_def)
    then have "u \<noteq> t" using t by (auto simp: outgoing_def)
    then have "outgoing ?H u s p" using u by (simp add: outgoing_def)
    then show "\<exists>u. outgoing ?H u s p" by blast
  qed (use links_okD(2-) [OF L] t in \<open>auto split: if_splits\<close>)
  show "scans_ok ?H"
    unfolding scans_ok_def
  proof (intro allI impI)
    fix u r k
    assume h: "hold ?H r k \<noteq> 0" "hold ?H r k \<in> set (batch ?H u) \<union> set (orphans ?H)"
    have s: "seen (tpc H u) (cell_index r k) (hold H r k)" using h C by (auto simp: scans_ok_def)
    have c: "cells H (cell_index r k) = hold H r k" "cell_index r k < cell_count H" using readers_okD(4) [OF R, of r k] h(1) by (auto simp: cell_is_def)
    show "seen (tpc ?H u) (cell_index r k) (hold ?H r k)"
    proof (cases "u = t")
      case True
      then have "hold H r k \<in> set named \<or> i \<le> cell_index r k" using s t by simp
      then show ?thesis using True q c h(1) by (cases "cell_index r k = i") auto
    qed (use s in simp)
  qed
qed (use I in \<open>simp_all add: hazard_inv_def objects_ok_def held_alive_def\<close>)

lemma thread_step_keeps:
  assumes I: "hazard_inv H" and s: "thread_step t H = Some H'"
  shows "hazard_inv H'"
proof -
  have O: "objects_ok H" and C: "scans_ok H" using I by (simp_all add: hazard_inv_def)
  have seen: "seen (tpc H t) (cell_index r k) (hold H r k)" if "hold H r k \<noteq> 0" "hold H r k \<in> set (batch H t) \<union> set (orphans H)" for r k
    using that C by (auto simp: scans_ok_def)
  show ?thesis
  proof (cases "tpc H t")
    case TIdle
    then show ?thesis using s by (simp add: thread_step_def)
  next
    case (TScan i named)
    have "\<exists>q. H' = set_tpc t q H \<and> (q = TScan (i + 1) (if cells H i \<noteq> 0 then named @ [cells H i] else named) \<or> cell_count H \<le> i \<and> q = TSweep named)"
      using s TScan by (auto simp: thread_step_def split: if_splits)
    then show ?thesis using walk_keeps [OF I TScan] by blast
  next
    case (TSweep named)
    let ?ps = "filter (\<lambda>p. p \<notin> set named) (batch H t)"
    have b: "filter (\<lambda>p. p \<in> set named) (batch H t) = filter (\<lambda>p. p \<notin> set ?ps) (batch H t)"
      "filter (\<lambda>p. p \<notin> set ?ps) (orphans H) = orphans H"
      using objects_okD(3) [OF O, of _ t] by (auto intro!: filter_cong simp: filter_id_conv)
    have e: "H' = (release ?ps H)\<lparr>batch := (batch H)(t := filter (\<lambda>p. p \<in> set named) (batch H t)), orphans := orphans H, tpc := (tpc H)(t := TOrphans named)\<rparr>"
      using s TSweep by (simp add: thread_step_def set_tpc_def release_def)
    show ?thesis
      by (rule release_keeps [OF I _ _ _ e b(1) b(2) [symmetric]]) (use TSweep seen in auto)
  next
    case (TOrphans named)
    let ?F = "if orphans H = [] then H else fence t H"
    let ?ps = "filter (\<lambda>p. p \<notin> set named) (orphans H)"
    have F: "hazard_inv ?F" using I fence_keeps [OF I, of t] by simp
    have b: "filter (\<lambda>p. p \<notin> set ?ps) (batch ?F t) = batch H t"
      "filter (\<lambda>p. p \<in> set named) (orphans H) = filter (\<lambda>p. p \<notin> set ?ps) (orphans ?F)"
      using objects_okD(3) [OF O, of _ t] by (auto intro!: filter_cong simp: filter_id_conv)
    have e: "H' = (release ?ps ?F)\<lparr>batch := (batch ?F)(t := batch H t), orphans := filter (\<lambda>p. p \<in> set named) (orphans H), tpc := (tpc ?F)(t := TIdle)\<rparr>"
      using s TOrphans by (auto simp: thread_step_def set_tpc_def release_def fence_def cong: if_cong)
    show ?thesis
      by (rule release_keeps [OF F _ _ _ e b(1) [symmetric] b(2)]) (use TOrphans seen in auto)
  qed
qed

section \<open>Protection\<close>

lemma init_keeps:
  assumes "hazard_inv H"
  shows "hazard_inv (EnsureTable (H\<lparr>scheduler := x\<rparr>))"
proof (rule EnsureTable_keeps, rule reader_keeps [OF assms])
  show "readers_ok (H\<lparr>scheduler := x\<rparr>)" by (rule readers_frame [of H]) (use assms in \<open>simp_all add: hazard_inv_def readerCount_def\<close>)
qed simp_all

lemma set_idle_keeps:
  assumes I: "hazard_inv H" and r: "idle_reader r H"
  shows "hazard_inv (Set_cell r k p H)"
proof (cases "k < kCellsPerReader")
  case True
  have "set_rpc r RIdle (Set_cell r k p H) = Set_cell r k p H"
    using r True by (simp add: set_rpc_def set_cell_sel idle_reader_def set_hold_def store_cell_def fun_upd_idem)
  then show ?thesis using set_keeps [OF I _ True, of r RIdle 0 p] r by (simp add: idle_reader_def)
qed (use I in \<open>simp add: set_cell_sel\<close>)

lemma careful_step_keeps:
  assumes I: "hazard_inv H" and s: "careful_step a H = Some H'"
  shows "hazard_inv H'"
proof -
  have c: "careful a H" and h: "hazard_step a H = Some H'" using s by (auto simp: careful_step_def split: if_splits)
  show ?thesis
  proof (cases a)
    case (HGuard r)
    then show ?thesis using c h guard_keeps [OF I, of r H'] by (auto split: if_splits sum.splits)
  next
    case (HFlush r)
    then show ?thesis using h cell_flush_keeps [OF I, of r] by (auto split: list.splits)
  next
    case (HSync t)
    then show ?thesis using h sync_keeps [OF I, of t] by (auto split: list.splits)
  next
    case (HRetire t p)
    then show ?thesis using c h retire_keeps [OF I, of t p] by (auto split: if_splits)
  next
    case (HScan t)
    then show ?thesis using h scan_keeps [OF I, of t] by (auto split: if_splits)
  next
    case (HExit t)
    then show ?thesis using c h batch_end_keeps [OF I, of t] by (auto split: if_splits)
  qed (use c h init_keeps [OF I] protect_keeps [OF I] set_idle_keeps [OF I] leave_keeps [OF I] reader_step_keeps [OF I] new_object_keeps [OF I]
        store_keeps [OF I] thread_step_keeps [OF I] in \<open>auto split: if_splits\<close>)
qed

interpretation hz: step_invariant careful_step "hazard_init nt nl" hazard_inv for nt nl
  by unfold_locales (auto intro: hazard_init_inv careful_step_keeps)

end
