(* ===== verification/Hazard_Protection.thy ===== *)
theory Hazard_Protection
  imports Hazard_Safety
begin

text \<open>
  What clients of hazard pointers get: protection, under the conditions of \<open>careful\<close>; three executions, one for each of these conditions, in which an
  object is freed although its reader relies on it; a bound on what a scan leaves behind; and rows that readers do not share.
\<close>

section \<open>Protection\<close>

lemma step_frees:
  assumes "hazard_step a H = Some H'" and "obj H p \<noteq> OFree" and "obj H' p = OFree"
  shows "hold H' = hold H"
proof (cases a)
  case (HThread t)
  then show ?thesis using assms by (auto simp: thread_step_def split: thread_pc.splits if_splits)
next
  case (HRetire t q)
  then show ?thesis using assms by (auto simp: Retire_def AdoptOrphans_def Scan_def Let_def split: if_splits)
next
  case (HReader r)
  then show ?thesis using assms by (auto simp: reader_step_def Set_cell_def split: reader_pc.splits if_splits)
next
  case (HLeave r)
  have "obj (fold (\<lambda>k. store_cell r k 0) ks H) = obj H" for ks by (induction ks arbitrary: H) auto
  then show ?thesis using assms HLeave by (auto simp: HazardGuard_end_def Let_def split: if_splits)
qed (use assms in \<open>auto simp: HazardGuard_new_def Set_cell_def Swap_cells_def Scan_def RetireBatch_end_def AdoptOrphans_def Let_def
      split: if_splits list.splits\<close>)

text \<open>C34: A pointer that \<^verbatim>\<open>Protect\<close> returned stays published in its cell and is not freed by any step of any thread while the client relies on it, whatever the delays of the
  store buffers, in every execution that does without \<^verbatim>\<open>Swap\<close>, has one guard at a time on a row, and hands batches over to the orphans only while nobody scans.\<close>

theorem hazard_protects:
  assumes run: "exec careful_step es (hazard_init nt nl) = Some H" and p: "hold H r k = p" "p \<noteq> 0" and s: "careful_step a H = Some H'"
  shows "cells H (cell_index r k) = p \<and> obj H p \<noteq> OFree \<and> obj H' p \<noteq> OFree"
proof -
  have I: "hazard_inv H" by (rule hz.inv_exec [OF run])
  have I': "hazard_inv H'" by (rule careful_step_keeps [OF I s])
  have c: "cells H (cell_index r k) = p" using I readers_okD(4) [of H r k] p by (auto simp: hazard_inv_def cell_is_def)
  have o: "obj H p \<noteq> OFree" using I p by (auto simp: hazard_inv_def held_alive_def)
  moreover have "obj H' p \<noteq> OFree"
  proof
    assume f: "obj H' p = OFree"
    have "hazard_step a H = Some H'" using s by (auto simp: careful_step_def split: if_splits)
    then have "hold H' r k = p" using step_frees [OF _ o f] p by simp
    then show False using I' p(2) f by (auto simp: hazard_inv_def held_alive_def)
  qed
  ultimately show ?thesis using c by simp
qed

section \<open>Walking over empty cells\<close>

lemma walk:
  assumes "\<And>G. step (HThread t) G = thread_step t G" and "tpc H t = TScan i named" and "\<And>j. i \<le> j \<Longrightarrow> j < i + n \<Longrightarrow> cells H j = 0" and "i + n \<le> cell_count H"
  shows "exec step (replicate n (HThread t) @ as) H = exec step as (set_tpc t (TScan (i + n) named) H)"
  using assms(2-)
proof (induction n arbitrary: H i)
  case 0
  have "set_tpc t (TScan i named) H = H" using 0(1) by (simp add: set_tpc_def fun_upd_idem)
  then show ?case by simp
next
  case (Suc n)
  let ?H = "set_tpc t (TScan (i + 1) named) H"
  have "thread_step t H = Some ?H" using Suc.prems by (simp add: thread_step_def)
  moreover have "exec step (replicate n (HThread t) @ as) ?H = exec step as (set_tpc t (TScan (i + 1 + n) named) ?H)"
    by (rule Suc.IH) (use Suc.prems in auto)
  ultimately show ?case using assms(1) by (simp add: set_tpc_def)
qed

definition pass :: "nat \<Rightarrow> hazard_op list" where
  "pass t = replicate 264 (HThread t)"

lemmas run_defs = hazard_init_def EnsureTable_def readerCount_def cell_count_def kCellsPerReader_def kExternalReaders_def HazardGuard_new_def IsFiberReader_def
  idle_reader_def idle_thread_def unlinked_def reader_step_def Set_cell_def set_hold_def set_rpc_def store_cell_def cell_index_def drain_def
  Retire_def Scan_def threshold_def fence_def set_tpc_def AdoptOrphans_def RetireBatch_end_def Swap_cells_def HazardGuard_end_def release_def

definition publish_and_protect :: "hazard_op list" where
  "publish_and_protect = [HInit 1 1, HAlloc 5, HStore 1 0 5, HSync 1, HGuard 0, HProtect 0 0 0, HReader 0, HReader 0, HReader 0, HReader 0]"

lemma publish_and_protect_run:
  "\<exists>H. exec careful_step publish_and_protect (hazard_init 2 1) = Some H \<and> hold H 0 0 = 5"
  by (rule exec_ex) (simp add: publish_and_protect_def careful_step_def run_defs Let_def)


lemma pass_run:
  assumes "\<And>G. step (HThread t) G = thread_step t G" and "tpc H t = TScan 0 []" and "\<forall>j. cells H j = 0" and "cell_count H = 264"
  shows "exec step (pass t @ as) H = exec step as (set_tpc t (TScan 264 []) H)"
  using walk [of step t H 0 "[]" 264 as] assms by (simp add: pass_def)

definition orphaned_early :: "hazard_op list" where
  "orphaned_early = [HInit 1 1, HAlloc 5, HStore 1 0 5, HSync 1, HAlloc 7, HRetire 0 7, HScan 0] @ pass 0 @
     [HThread 0, HGuard 0, HProtect 0 0 0, HReader 0, HReader 0, HReader 0, HReader 0, HStore 1 0 0, HRetire 1 5, HExit 1, HThread 0, HThread 0]"

definition swapped :: "hazard_op list" where
  "swapped = publish_and_protect @ [HSwap 0 0 1, HFlush 0, HStore 1 0 0, HRetire 1 5, HScan 1] @ pass 1 @ [HThread 1, HFlush 0, HThread 1]"

definition nested :: "hazard_op list" where
  "nested = publish_and_protect @ [HGuard 0, HLeave 0, HFlush 0, HFlush 0, HFlush 0, HFlush 0, HStore 1 0 0, HRetire 1 5, HScan 1] @ pass 1 @ [HThread 1, HThread 1]"

text \<open>C35: Each of the three conditions is needed. An object retired by a thread that ends while another scans is swept with the set of pointers collected before, and is
  freed although a reader protected it in between; \<^verbatim>\<open>Swap\<close> leaves a pointer in no cell between its two stores, and a scan in between frees it; a second guard on the row of a fiber is
  accepted, and its destructor clears what the first one published.\<close>

theorem hazard_frees_under_reader:
  "(\<exists>H. exec hazard_step orphaned_early (hazard_init 2 1) = Some H \<and> hold H 0 0 = 5 \<and> obj H 5 = OFree)
 \<and> (\<exists>H. exec hazard_step swapped (hazard_init 2 1) = Some H \<and> hold H 0 1 = 5 \<and> cells H 1 = 5 \<and> obj H 5 = OFree)
 \<and> (\<exists>H. exec hazard_step nested (hazard_init 2 1) = Some H \<and> guards H 0 = 1 \<and> hold H 0 0 = 5 \<and> obj H 5 = OFree)"
proof (intro conjI)
  show "\<exists>H. exec hazard_step orphaned_early (hazard_init 2 1) = Some H \<and> hold H 0 0 = 5 \<and> obj H 5 = OFree"
    by (rule exec_ex) (auto simp: orphaned_early_def run_defs pass_run thread_step_def Let_def list_all_iff)
  show "\<exists>H. exec hazard_step swapped (hazard_init 2 1) = Some H \<and> hold H 0 1 = 5 \<and> cells H 1 = 5 \<and> obj H 5 = OFree"
    by (rule exec_ex) (auto simp: swapped_def publish_and_protect_def run_defs pass_run thread_step_def Let_def list_all_iff)
  show "\<exists>H. exec hazard_step nested (hazard_init 2 1) = Some H \<and> guards H 0 = 1 \<and> hold H 0 0 = 5 \<and> obj H 5 = OFree"
    by (rule exec_ex) (auto simp: nested_def publish_and_protect_def run_defs pass_run thread_step_def Let_def list_all_iff upt_rec [of _ 4])
qed


definition rest :: "nat \<Rightarrow> hazard_op list" where
  "rest t = replicate 263 (HThread t)"

lemma rest_run:
  assumes "\<And>G. step (HThread t) G = thread_step t G" and "tpc H t = TScan (Suc 0) named" and "\<forall>j > 0. cells H j = 0" and "cell_count H = 264"
  shows "exec step (rest t @ as) H = exec step as (set_tpc t (TScan 264 named) H)"
  using walk [of step t H 1 named 263 as] assms by (simp add: rest_def)

definition scanned :: "hazard_op list" where
  "scanned = publish_and_protect @ [HStore 1 0 0, HRetire 1 5, HScan 1, HThread 1] @ rest 1 @ [HThread 1]"

lemma scanned_run:
  "\<exists>H. exec careful_step scanned (hazard_init 2 1) = Some H
     \<and> hold H 0 0 = 5 \<and> tpc H 1 = TSweep [5] \<and> batch H 1 = [5] \<and> (\<exists>H'. careful_step (HThread 1) H = Some H')"
  by (rule exec_ex) (auto simp: scanned_def publish_and_protect_def careful_step_def run_defs rest_run thread_step_def Let_def list_all_iff)

theorem hazard_protects_witness:
  "\<exists>H H'. exec careful_step scanned (hazard_init 2 1) = Some H
     \<and> hold H 0 0 = 5 \<and> careful_step (HThread 1) H = Some H' \<and> obj H' 5 \<noteq> OFree"
proof -
  obtain H H' where H: "exec careful_step scanned (hazard_init 2 1) = Some H" "hold H 0 0 = 5" "careful_step (HThread 1) H = Some H'"
    using scanned_run by blast
  then show ?thesis using hazard_protects [OF H(1,2) _ H(3)] by auto
qed

section \<open>What a scan leaves behind\<close>

definition counted :: "hazard \<Rightarrow> bool" where
  "counted H = (hazard_inv H \<and> (\<forall>t. case tpc H t of TIdle \<Rightarrow> True | TScan i named \<Rightarrow> table H \<and> length named \<le> i \<and> i \<le> cell_count H
     | TSweep named \<Rightarrow> table H \<and> length named \<le> cell_count H | TOrphans named \<Rightarrow> table H))"

lemma table_stays:
  assumes s: "hazard_step a H = Some H'" and b: "table H"
  shows "table H' \<and> cell_count H' = cell_count H"
proof (cases a)
  case (HInit f w)
  then show ?thesis using s b by (auto simp: EnsureTable_def cell_count_def readerCount_def split: if_splits)
next
  case (HGuard r)
  then show ?thesis using s b by (auto simp: HazardGuard_new_def cell_count_def readerCount_def split: if_splits)
next
  case (HSet r k p)
  then show ?thesis using s b by (auto simp: Set_cell_def split: if_splits)
next
  case (HSwap r i j)
  then show ?thesis using s b by (auto simp: Swap_cells_def Let_def split: if_splits)
next
  case (HLeave r)
  have "table (fold (\<lambda>k. store_cell r k 0) ks G) = table G \<and> fiberCount (fold (\<lambda>k. store_cell r k 0) ks G) = fiberCount G
      \<and> workerCount (fold (\<lambda>k. store_cell r k 0) ks G) = workerCount G" for ks G
    by (induction ks arbitrary: G) (auto simp: store_cell_def)
  then show ?thesis using s b HLeave by (auto simp: HazardGuard_end_def Let_def cell_count_def readerCount_def split: if_splits)
next
  case (HReader r)
  have "cell_count (H\<lparr>cells := c, rbuf := u\<rparr>) = cell_count H" for c u by (simp add: cell_count_def readerCount_def)
  then show ?thesis using s b HReader by (cases "rpc H r") (auto simp: reader_step_def Set_cell_def split: if_splits)
next
  case (HRetire t p)
  then show ?thesis using s b
    by (auto simp: Retire_def Scan_def AdoptOrphans_def EnsureTable_def Let_def cell_count_def readerCount_def fence_def set_tpc_def split: if_splits)
next
  case (HScan t)
  then show ?thesis using s b by (auto simp: Scan_def EnsureTable_def Let_def split: if_splits)
next
  case (HThread t)
  have "cell_count (G\<lparr>batch := c\<rparr>) = cell_count G" "cell_count (G\<lparr>orphans := u\<rparr>) = cell_count G" for c u G
    by (simp_all add: cell_count_def readerCount_def)
  then show ?thesis using s b HThread by (cases "tpc H t") (auto simp: thread_step_def split: if_splits)
next
  case (HExit t)
  then show ?thesis using s b
    by (auto simp: RetireBatch_end_def AdoptOrphans_def Let_def cell_count_def readerCount_def fence_def split: if_splits)
qed (use s b in \<open>auto simp: cell_count_def readerCount_def set_rpc_def set_hold_def split: if_splits list.splits\<close>)

text \<open>Only a thread's own scan, or its call of \<^verbatim>\<open>Scan\<close> or \<^verbatim>\<open>Retire\<close>, moves it.\<close>

lemma tpc_moves:
  assumes s: "hazard_step a H = Some H'" and m: "tpc H' t \<noteq> tpc H t"
  shows "a = HThread t \<or> (tpc H t = TIdle \<and> tpc H' t = TScan 0 [] \<and> table H')"
proof (cases a)
  case (HLeave r)
  have "tpc (fold (\<lambda>k. store_cell r k 0) ks G) = tpc G" for ks G by (induction ks arbitrary: G) auto
  then show ?thesis using s m HLeave by (auto simp: HazardGuard_end_def Let_def split: if_splits)
next
  case (HReader r)
  then show ?thesis using s m by (cases "rpc H r") (auto simp: reader_step_def Set_cell_def split: if_splits)
next
  case (HRetire u p)
  then show ?thesis using s m by (auto simp: idle_thread_def Retire_def Scan_def AdoptOrphans_def Let_def split: if_splits)
next
  case (HThread u)
  then show ?thesis using s m by (cases "tpc H u") (auto simp: thread_step_def split: if_splits)
qed (use s m in \<open>auto simp: idle_thread_def HazardGuard_new_def Set_cell_def Swap_cells_def Scan_def RetireBatch_end_def AdoptOrphans_def Let_def split: if_splits list.splits\<close>)


lemma countedD:
  assumes "counted H"
  shows "tpc H t = TScan i named \<Longrightarrow> table H \<and> length named \<le> i \<and> i \<le> cell_count H"
    "tpc H t = TSweep named \<Longrightarrow> table H \<and> length named \<le> cell_count H" "tpc H t \<noteq> TIdle \<Longrightarrow> table H" "hazard_inv H"
proof -
  have "case tpc H t of TIdle \<Rightarrow> True | TScan i named \<Rightarrow> table H \<and> length named \<le> i \<and> i \<le> cell_count H
     | TSweep named \<Rightarrow> table H \<and> length named \<le> cell_count H | TOrphans named \<Rightarrow> table H" using assms unfolding counted_def by blast
  then show "tpc H t = TScan i named \<Longrightarrow> table H \<and> length named \<le> i \<and> i \<le> cell_count H"
    "tpc H t = TSweep named \<Longrightarrow> table H \<and> length named \<le> cell_count H" "tpc H t \<noteq> TIdle \<Longrightarrow> table H"
    by (auto split: thread_pc.splits)
  show "hazard_inv H" using assms by (simp add: counted_def)
qed

lemma counted_step:
  assumes C: "counted H" and s: "careful_step a H = Some H'"
  shows "counted H'"
proof -
  have h: "hazard_step a H = Some H'" using s by (auto simp: careful_step_def split: if_splits)
  have "case tpc H' t of TIdle \<Rightarrow> True | TScan i named \<Rightarrow> table H' \<and> length named \<le> i \<and> i \<le> cell_count H'
     | TSweep named \<Rightarrow> table H' \<and> length named \<le> cell_count H' | TOrphans named \<Rightarrow> table H'" (is "?ok") for t
  proof -
    consider (same) "tpc H' t = tpc H t" | (begun) "tpc H' t = TScan 0 []" "table H'" | (own) "a = HThread t" using tpc_moves [OF h, of t] by blast
    then show ?ok
    proof cases
      case same
      then show ?thesis using table_stays [OF h] countedD(3) [OF C, of t] countedD(1,2) [OF C] by (auto split: thread_pc.splits)
    next
      case own
      then have e: "thread_step t H = Some H'" using h by simp
      then have "tpc H t \<noteq> TIdle" by (auto simp: thread_step_def)
      then have b: "table H' \<and> cell_count H' = cell_count H" using table_stays [OF h] countedD(3) [OF C, of t] by blast
      show ?thesis
        using e b countedD(1,2) [OF C, of t] by (cases "tpc H t") (fastforce simp: thread_step_def split: if_splits)+
    qed simp
  qed
  then show ?thesis using careful_step_keeps [OF countedD(4) [OF C] s] by (simp add: counted_def)
qed

interpretation hzc: step_invariant careful_step "hazard_init nt nl" counted for nt nl
proof
  show "counted (hazard_init nt nl)" using hazard_init_inv by (simp add: counted_def hazard_init_def)
qed (rule counted_step)

text \<open>What a scan has named at its end: what a cell held all the time is among it, and all of it was in some cell at some time during the scan.\<close>

lemma scan_names:
  assumes "counted G" and "exec careful_step bs G = Some H" and "\<forall>F \<in> set (visited careful_step bs G). tpc F t \<noteq> TIdle" and "tpc H t = TSweep named"
  shows "(case tpc G t of TScan i nm \<Rightarrow>
        set nm \<subseteq> set named \<and> (\<forall>j p. i \<le> j \<and> j < cell_count G \<and> p \<noteq> 0 \<and> (\<forall>F \<in> set (visited careful_step bs G). cells F j = p) \<longrightarrow> p \<in> set named)
        \<and> (\<forall>p \<in> set named. p \<in> set nm \<or> (\<exists>j < cell_count G. \<exists>F \<in> set (visited careful_step bs G). cells F j = p))
      | TSweep nm \<Rightarrow> named = nm | _ \<Rightarrow> False)"
  using assms
proof (induction bs arbitrary: G)
  case (Cons a bs)
  obtain G' where s: "careful_step a G = Some G'" and r: "exec careful_step bs G' = Some H" using Cons.prems(2) by (auto split: option.splits)
  have h: "hazard_step a G = Some G'" using s by (auto simp: careful_step_def split: if_splits)
  have ni: "tpc G t \<noteq> TIdle" "tpc G' t \<noteq> TIdle" using Cons.prems(3) s visited_first [of G' careful_step bs] by auto
  have n: "cell_count G' = cell_count G" using table_stays [OF h] countedD(3) [OF Cons.prems(1) ni(1)] by blast
  note IH = Cons.IH [OF counted_step [OF Cons.prems(1) s] r _ Cons.prems(4)]
  have ih: "\<forall>F \<in> set (visited careful_step bs G'). tpc F t \<noteq> TIdle" using Cons.prems(3) s by simp
  have v: "set (visited careful_step (a # bs) G) = insert G (set (visited careful_step bs G'))" using s by simp
  show ?case
  proof (cases "tpc G' t = tpc G t")
    case True
    then show ?thesis using IH [OF ih] n unfolding v by (cases "tpc G t") (simp_all, blast)
  next
    case False
    then have e: "thread_step t G = Some G'" using tpc_moves [OF h False] ni h by auto
    show ?thesis
    proof (cases "tpc G t")
      case (TScan i nm)
      show ?thesis
      proof (cases "i < cell_count G")
        case True
        then have t': "tpc G' t = TScan (i + 1) (if cells G i \<noteq> 0 then nm @ [cells G i] else nm)" using e TScan by (auto simp: thread_step_def)
        have "p \<in> set named" if "i \<le> j" "j < cell_count G" "p \<noteq> 0" "\<forall>F \<in> insert G (set (visited careful_step bs G')). cells F j = p" for j p
        proof (cases "j = i")
          case False
          then have "Suc i \<le> j" using that(1) by simp
          then show ?thesis using IH [OF ih] t' that n by (auto split: if_splits)
        qed (use IH [OF ih] t' that in \<open>auto split: if_splits\<close>)
        moreover have "p \<in> set nm \<or> (\<exists>j < cell_count G. \<exists>F \<in> insert G (set (visited careful_step bs G')). cells F j = p)" if "p \<in> set named" for p
        proof -
          have "p \<in> set nm \<or> p = cells G i \<or> (\<exists>j < cell_count G. \<exists>F \<in> set (visited careful_step bs G'). cells F j = p)"
            using IH [OF ih] t' n that by (auto split: if_splits)
          then show ?thesis using True by blast
        qed
        moreover have "set nm \<subseteq> set named" using IH [OF ih] t' by (auto split: if_splits)
        ultimately show ?thesis unfolding v TScan by simp
      next
        case False
        then have "tpc G' t = TSweep nm" using e TScan by (auto simp: thread_step_def)
        then show ?thesis using IH [OF ih] TScan False by auto
      qed
    qed (use e IH [OF ih] ni in \<open>auto simp: thread_step_def\<close>)
  qed
qed simp

text \<open>C36: Take a scan by thread \<open>t\<close>, from its fence to the end of its walk over the cells, with anything the other threads and the readers do in between; no \<^verbatim>\<open>Swap\<close>, one
  guard at a time on a row, batches handed over to the orphans only while nobody scans. The sweep that follows keeps every pointer of the batch that some cell held throughout the walk,
  frees exactly the pointers it does not keep, and keeps only pointers that some cell held at some time during the walk. It keeps at most as many as there are cells, so a scan
  that the threshold has set off gives back at least half of the batch.\<close>

theorem hazard_scan_bound:
  assumes run: "exec careful_step es (hazard_init nt nl) = Some G" "tpc G t = TScan 0 []"
    and walk: "exec careful_step bs G = Some H" "\<forall>F \<in> set (visited careful_step bs G). tpc F t \<noteq> TIdle" "tpc H t = TSweep named"
    and s: "careful_step (HThread t) H = Some H'"
  shows "(\<forall>p \<in> set (batch H t). p \<noteq> 0 \<and> (\<exists>j < cell_count G. \<forall>F \<in> set (visited careful_step bs G). cells F j = p) \<longrightarrow> p \<in> set (batch H' t))
    \<and> (\<forall>p \<in> set (batch H t). obj H' p = OFree \<longleftrightarrow> p \<notin> set (batch H' t))
    \<and> (\<forall>p \<in> set (batch H' t). p \<in> set (batch H t) \<and> (\<exists>j < cell_count G. \<exists>F \<in> set (visited careful_step bs G). cells F j = p))
    \<and> length (batch H' t) \<le> cell_count H \<and> (threshold H \<le> length (batch H t) \<longrightarrow> 2 * length (batch H' t) \<le> length (batch H t))"
proof -
  have CG: "counted G" by (rule hzc.inv_exec [OF run(1)])
  have C: "counted H" by (rule hzc.inv_exec_from [OF CG walk(1)])
  have O: "objects_ok H" using countedD(4) [OF C] by (simp add: hazard_inv_def)
  have named: "\<And>j p. j < cell_count G \<Longrightarrow> p \<noteq> 0 \<Longrightarrow> \<forall>F \<in> set (visited careful_step bs G). cells F j = p \<Longrightarrow> p \<in> set named"
    "\<And>p. p \<in> set named \<Longrightarrow> \<exists>j < cell_count G. \<exists>F \<in> set (visited careful_step bs G). cells F j = p"
    using scan_names [OF CG walk] run(2) by auto
  have o: "obj H' p = OFree \<longleftrightarrow> p \<notin> set named" if "p \<in> set (batch H t)" for p
    using s walk(3) that objects_okD(5) [OF O, of p t] by (auto simp: careful_step_def thread_step_def)
  have b: "batch H' t = filter (\<lambda>p. p \<in> set named) (batch H t)" using s walk(3) by (auto simp: careful_step_def thread_step_def)
  have "length (batch H' t) = card (set (batch H' t))" using objects_okD(1) [OF O, of t] distinct_card [of "batch H' t"] by (simp add: b)
  also have "\<dots> \<le> card (set named)" by (rule card_mono) (auto simp: b)
  also have "\<dots> \<le> length named" by (rule card_length)
  finally have l: "length (batch H' t) \<le> cell_count H" using countedD(2) [OF C walk(3)] by simp
  moreover have "2 * length (batch H' t) \<le> length (batch H t)" if "threshold H \<le> length (batch H t)"
    using that l by (auto simp: threshold_def split: if_splits)
  ultimately show ?thesis using o b named by auto
qed

lemma visited_walk:
  assumes "\<And>F. step (HThread t) F = thread_step t F" and "tpc G t = TScan i nm" and "i + n \<le> Suc (cell_count G)"
  shows "\<forall>F \<in> set (visited step (replicate n (HThread t)) G). cells F = cells G \<and> tpc F t \<noteq> TIdle"
  using assms(2,3)
proof (induction n arbitrary: G i nm)
  case (Suc n)
  show ?case
  proof (cases "i < cell_count G")
    case True
    then obtain G' nm' where "thread_step t G = Some G'" "tpc G' t = TScan (Suc i) nm'" "cells G' = cells G" "cell_count G' = cell_count G"
      using Suc.prems by (auto simp: thread_step_def)
    then show ?thesis using Suc.IH [of G' "Suc i" nm'] Suc.prems assms(1) by simp
  next
    case False
    then have n: "n = 0" using Suc.prems by simp
    show ?thesis using False Suc.prems by (auto simp: n assms(1) thread_step_def)
  qed
qed simp

definition begun :: "hazard_op list" where
  "begun = publish_and_protect @ [HStore 1 0 0, HRetire 1 5, HScan 1]"

lemma begun_run:
  "\<exists>G. exec careful_step begun (hazard_init 2 1) = Some G \<and> tpc G 1 = TScan 0 [] \<and> cell_count G = 264 \<and> cells G 0 = 5
     \<and> (\<exists>H. exec careful_step (replicate 265 (HThread 1)) G = Some H \<and> tpc H 1 = TSweep [5] \<and> batch H 1 = [5] \<and> (\<exists>H'. careful_step (HThread 1) H = Some H'))"
proof -
  have e: "replicate 265 (HThread 1) = HThread 1 # rest 1 @ [HThread 1]" by (simp add: rest_def replicate_append_same numeral_eq_Suc)
  show ?thesis unfolding e
    by (rule exec_ex) (auto simp: begun_def publish_and_protect_def careful_step_def run_defs rest_run thread_step_def Let_def list_all_iff)
qed

theorem hazard_scan_bound_witness:
  "\<exists>G H H'. exec careful_step begun (hazard_init 2 1) = Some G \<and> exec careful_step (replicate 265 (HThread 1)) G = Some H
     \<and> careful_step (HThread 1) H = Some H' \<and> 5 \<in> set (batch H' 1)"
proof -
  obtain G H H' where G: "exec careful_step begun (hazard_init 2 1) = Some G" "tpc G 1 = TScan 0 []" "cell_count G = 264" "cells G 0 = 5"
    and H: "exec careful_step (replicate 265 (HThread 1)) G = Some H" "tpc H 1 = TSweep [5]" "batch H 1 = [5]" "careful_step (HThread 1) H = Some H'"
    using begun_run by blast
  have v: "\<forall>F \<in> set (visited careful_step (replicate 265 (HThread 1)) G). cells F = cells G \<and> tpc F 1 \<noteq> TIdle"
    by (rule visited_walk [OF _ G(2)]) (simp_all add: careful_step_def G(3))
  then have "5 \<in> set (batch H' 1)" using hazard_scan_bound [OF G(1,2) H(1) _ H(2,4)] G(3,4) H(3) by auto
  then show ?thesis using G(1) H(1,4) by blast
qed

section \<open>A scan with no reader\<close>

text \<open>When no cell names anything, a scan ends and frees the whole batch and all orphans.\<close>

lemma hazard_scan_drains:
  assumes t: "idle_thread t H" "\<not> retireDead H t" "table H" and c: "\<forall>j. cells H j = 0" and b: "batch H t \<noteq> [] \<or> orphans H \<noteq> []"
  shows "\<exists>H'. exec hazard_step (HScan t # replicate (cell_count H) (HThread t) @ [HThread t, HThread t, HThread t]) H = Some H'
    \<and> tpc H' t = TIdle \<and> batch H' t = [] \<and> orphans H' = [] \<and> (\<forall>p \<in> set (batch H t) \<union> set (orphans H). obj H' p = OFree)"
proof -
  let ?S = "set_tpc t (TScan 0 []) (fence t H)"
  have "Scan t H = ?S" using t b by (auto simp: Scan_def EnsureTable_def)
  moreover have "exec hazard_step (replicate (cell_count H) (HThread t) @ [HThread t, HThread t, HThread t]) ?S
      = exec hazard_step [HThread t, HThread t, HThread t] (set_tpc t (TScan (0 + cell_count H) []) ?S)"
    by (rule walk) (use c in simp_all)
  ultimately show ?thesis using t by (auto simp: thread_step_def filter_empty_conv)
qed

section \<open>Rows\<close>

definition owners_ok :: "hazard \<Rightarrow> bool" where
  "owners_ok H = inj_on (externalOwners H) {i. i < kExternalReaders \<and> externalOwners H i \<noteq> 0}"

fun valid_context :: "hazard \<Rightarrow> context_kind \<Rightarrow> bool" where
  "valid_context H (OnFiber i) = (i < fiberCount H)"
| "valid_context H (OnWorker q) = (q < workerCount H)"
| "valid_context H (External h) = True"

fun same_reader :: "context_kind \<Rightarrow> context_kind \<Rightarrow> bool" where
  "same_reader (External h) (External h') = (ThisThreadId h = ThisThreadId h')"
| "same_reader c c' = (c = c')"

lemma ThisThreadId_nonzero: "ThisThreadId h \<noteq> 0"
proof
  assume "ThisThreadId h = 0"
  then have "bit (ThisThreadId h) 0 = bit (0 :: u64) 0" by simp
  then show False by (simp add: ThisThreadId_def bit_or_iff)
qed

lemma owned_row_SomeD: "owned_row me H = Some i \<Longrightarrow> i < kExternalReaders \<and> externalOwners H i = me"
  by (auto simp: owned_row_def find_Some_iff)

lemma owned_row_None: "owned_row me H = None \<longleftrightarrow> (\<forall>i < kExternalReaders. externalOwners H i \<noteq> me)"
  by (auto simp: owned_row_def find_None_iff)

lemma CurrentReader_cases:
  assumes "CurrentReader c H = Inr (Some r, H')" and "table H"
  obtains (fiber) i where "c = OnFiber i" "r = i" "H' = H" | (worker) q where "c = OnWorker q" "r = fiberCount H + q" "H' = H"
    | (owned) h i where "c = External h" "r = fiberCount H + workerCount H + i" "H' = H" "i < kExternalReaders" "externalOwners H i = ThisThreadId h"
    | (claimed) h i where "c = External h" "r = fiberCount H + workerCount H + i" "i < kExternalReaders" "externalOwners H i = 0"
        "\<forall>j < kExternalReaders. externalOwners H j \<noteq> ThisThreadId h" "H' = H\<lparr>externalOwners := (externalOwners H)(i := ThisThreadId h)\<rparr>"
proof -
  have e: "EnsureTable H = H" using assms(2) by (simp add: EnsureTable_def)
  show thesis
  proof (cases c)
    case (OnFiber i)
    moreover from this have "r = i" "H' = H" using assms e by (auto simp: CurrentReader_def)
    ultimately show thesis by (rule fiber)
  next
    case (OnWorker q)
    moreover from this have "r = fiberCount H + q" "H' = H" using assms e by (auto simp: CurrentReader_def)
    ultimately show thesis by (rule worker)
  next
    case (External h)
    show thesis
    proof (cases "owned_row (ThisThreadId h) H")
      case None
      then obtain i where i: "owned_row 0 H = Some i" using assms External e by (cases "owned_row 0 H") (simp_all add: CurrentReader_def Let_def)
      have "r = fiberCount H + workerCount H + i" "H' = H\<lparr>externalOwners := (externalOwners H)(i := ThisThreadId h)\<rparr>"
        using assms External e None i by (auto simp: CurrentReader_def Let_def)
      then show thesis using claimed [OF External] owned_row_SomeD [OF i] None [unfolded owned_row_None] by blast
    next
      case (Some i)
      then have "r = fiberCount H + workerCount H + i" "H' = H" using assms External e by (auto simp: CurrentReader_def Let_def)
      then show thesis using owned [OF External] owned_row_SomeD [OF Some] by blast
    qed
  qed
qed

lemma owners_okD: "owners_ok H \<Longrightarrow> i < kExternalReaders \<Longrightarrow> j < kExternalReaders \<Longrightarrow> externalOwners H i = externalOwners H j \<Longrightarrow> externalOwners H i \<noteq> 0 \<Longrightarrow> i = j"
  by (auto simp: owners_ok_def inj_on_def)

lemma CurrentReader_owners:
  assumes "CurrentReader c H = Inr (Some r, H')" and T: "table H" and O: "owners_ok H"
  shows "owners_ok H' \<and> table H' \<and> fiberCount H' = fiberCount H \<and> workerCount H' = workerCount H"
  using assms(1) T
proof (cases rule: CurrentReader_cases)
  case (claimed h i)
  have "a = b" if "a < kExternalReaders" "b < kExternalReaders" "externalOwners H' a = externalOwners H' b" "externalOwners H' a \<noteq> 0" for a b
    using that claimed(5,6) owners_okD [OF O, of a b] by (metis fun_upd_apply hazard.select_convs(5) hazard.surjective hazard.update_convs(5))
  then show ?thesis using claimed(6) T by (auto simp: owners_ok_def inj_on_def)
qed (use O T in auto)

text \<open>Two contexts get the same row exactly when they are the same reader, and every row is in the table.\<close>

lemma reader_rows:
  assumes T: "table H" and O: "owners_ok H" and c: "CurrentReader c H = Inr (Some r, H1)" "CurrentReader c' H1 = Inr (Some r', H2)"
    and v: "valid_context H c" "valid_context H c'"
  shows "r < readerCount H \<and> r' < readerCount H \<and> (r = r' \<longleftrightarrow> same_reader c c')"
proof -
  have k: "owners_ok H1" "table H1" "fiberCount H1 = fiberCount H" "workerCount H1 = workerCount H" using CurrentReader_owners [OF c(1) T O] by auto
  have own: "\<exists>i. r = fiberCount H + workerCount H + i \<and> i < kExternalReaders \<and> externalOwners H1 i = ThisThreadId h" if "c = External h" for h
    using c(1) T that by (cases rule: CurrentReader_cases) auto
  have own': "\<exists>i. r' = fiberCount H + workerCount H + i \<and> i < kExternalReaders
      \<and> (externalOwners H1 i = ThisThreadId h \<or> externalOwners H1 i = 0 \<and> (\<forall>j < kExternalReaders. externalOwners H1 j \<noteq> ThisThreadId h))" if "c' = External h" for h
    using c(2) k(2) that k(3,4) by (cases rule: CurrentReader_cases) auto
  have in_c: "c = OnFiber i \<Longrightarrow> r = i" "c = OnWorker q \<Longrightarrow> r = fiberCount H + q" for i q
    using c(1) T by (cases rule: CurrentReader_cases; simp)+
  have in_c': "c' = OnFiber i \<Longrightarrow> r' = i" "c' = OnWorker q \<Longrightarrow> r' = fiberCount H + q" for i q
    using c(2) k(2,3) by (cases rule: CurrentReader_cases; simp)+
  have ext: "r = r' \<longleftrightarrow> ThisThreadId h = ThisThreadId h'" if e: "c = External h" "c' = External h'" for h h'
  proof -
    obtain i j where ij: "r = fiberCount H + workerCount H + i" "i < kExternalReaders" "externalOwners H1 i = ThisThreadId h"
      "r' = fiberCount H + workerCount H + j" "j < kExternalReaders"
      "externalOwners H1 j = ThisThreadId h' \<or> externalOwners H1 j = 0 \<and> (\<forall>j < kExternalReaders. externalOwners H1 j \<noteq> ThisThreadId h')"
      using own [OF e(1)] own' [OF e(2)] by blast
    then show ?thesis using owners_okD [OF k(1) ij(2,5)] ThisThreadId_nonzero [of h] by auto
  qed
  show ?thesis
    using T v own own' in_c in_c' ext by (cases c; cases c') (fastforce simp: readerCount_def)+
qed

end
