(* ===== verification/Parallel_For.thy ===== *)
theory Parallel_For
  imports Sched_Prelude "HOL-Library.Multiset"
begin

text \<open>
  \<^verbatim>\<open>TaskScheduler::ParallelFor\<close>: a range of indices is probed, and then run by the caller alone, by lazy binary splitting over the threads' deques
  (\<^verbatim>\<open>RunLazyRange\<close>), or by lanes that pull slices from a shared cursor (\<^verbatim>\<open>RunCursorRange\<close>). The decisions are functions of the configuration and of what
  the clock reads; the two parallel forms are systems whose steps interleave freely. The body is represented by the sub-ranges it is called with.
  Integers are those of the code: 32 bits. A signed operation whose result does not fit is undefined, and the model says so (\<open>PUndefined\<close>, \<open>KUndef\<close>); the addition on
  the atomic cursor is defined to wrap around (\<open>wrap32\<close>).
\<close>

definition INT_MAX :: int where
  "INT_MAX = 2 ^ 31 - 1"

definition wrap32 :: "int \<Rightarrow> int" where
  "wrap32 x = (x + 2 ^ 31) mod 2 ^ 32 - 2 ^ 31"

definition fits_int :: "int \<Rightarrow> bool" where
  "fits_int x = (- (2 ^ 31) \<le> x \<and> x \<le> INT_MAX)"

section \<open>The costs of bodies\<close>

text \<open>A table with the measured cost of a loop body, found by linear probing over eight slots; \<open>key\<close> 0 marks a free slot.\<close>

definition kBodyCostSlots :: nat where
  "kBodyCostSlots = 64"

record body_cost =
  key :: nat
  nsPerMega :: int
  uses :: nat

type_synonym cost_table = "nat \<Rightarrow> body_cost"

fun find_slot :: "nat \<Rightarrow> nat list \<Rightarrow> cost_table \<Rightarrow> (nat \<times> cost_table) option" where
  "find_slot k [] T = None"
| "find_slot k (i # js) T =
     (if key (T i) = k then Some (i, T)
      else if key (T i) = 0 then Some (i, T(i := (T i)\<lparr>key := k\<rparr>))
      else find_slot k js T)"

definition FindBodySlot :: "nat \<Rightarrow> cost_table \<Rightarrow> (nat \<times> cost_table) option" where
  "FindBodySlot k T = (let k = (if k = 0 then 1 else k) in find_slot k (map (\<lambda>i. (k mod kBodyCostSlots + i) mod kBodyCostSlots) [0..<8]) T)"

section \<open>Probing\<close>

definition kProbeFloorNs :: int where
  "kProbeFloorNs = 500"

definition kReprobeInterval :: nat where
  "kReprobeInterval = 64"

definition kMinGrain :: int where
  "kMinGrain = 16"

text \<open>
  Growing chunks are run and timed until one takes long enough, or the 32nd part of the range is used up; \<open>clock i\<close> is what the \<open>i\<close>-th reading returns.
  The result: the calls of the body, the number of indices used, the time and the length of the longest timed chunk.
\<close>

partial_function (option) probe :: "(nat \<Rightarrow> int) \<Rightarrow> int \<Rightarrow> int \<Rightarrow> nat \<Rightarrow> int \<Rightarrow> int \<Rightarrow> int \<Rightarrow> int \<Rightarrow> int \<Rightarrow> ((int \<times> int) list \<times> int \<times> int \<times> int) option" where
  "probe clock begin probeCap i chunk probed tPrev probeNs probeLen =
     (if probed < probeCap then
        (let take = (if chunk > probeCap - probed then probeCap - probed else chunk);
             tNow = clock i;
             d = (if tNow > tPrev then tNow - tPrev else 1);
             want = (take * kProbeFloorNs) div d;
             want = (if want < take * 2 then take * 2 else want);
             want = (if want > probeCap then probeCap else want);
             longer = (tNow > tPrev \<and> take \<ge> probeLen);
             ns = (if longer then tNow - tPrev else probeNs);
             len = (if longer then take else probeLen);
             call = (begin + probed, begin + probed + take)
         in if ns \<ge> kProbeFloorNs then Some ([call], probed + take, ns, len)
            else Option.bind (probe clock begin probeCap (i + 1) want (probed + take) tNow ns len) (\<lambda>(cs, r). Some (call # cs, r)))
      else Some ([], probed, probeNs, probeLen))"

section \<open>The decision\<close>

record pf_config =
  serial :: bool
  poolActive :: bool
  workers :: nat
  measuredWidth :: bool
  rememberedCost :: bool
  minItersPerWorker :: int
  wakeCostNs :: int
  leavesPerWorker :: nat

text \<open>How a range is run: not at all, by one call of the body, or in parallel with a grain; or the behaviour is undefined.\<close>

datatype plan = PUndefined | PDone | PSerial int int | PFan int int int

text \<open>The square root of \<open>W / c\<close>, rounded down and bounded by the number of workers.\<close>

definition width :: "pf_config \<Rightarrow> int \<Rightarrow> nat" where
  "width cfg W = (let c = (if wakeCostNs cfg > 0 then wakeCostNs cfg else 1)
     in last (filter (\<lambda>k. int k * int k * c \<le> W) [0..<workers cfg + 1]))"

definition fan_out :: "pf_config \<Rightarrow> nat \<Rightarrow> int \<Rightarrow> int \<Rightarrow> int \<Rightarrow> plan" where
  "fan_out cfg fanWidth b e grain =
     (let maxLeaves = int (fanWidth * leavesPerWorker cfg);
          floorGrain = (e - b + maxLeaves - 1) div maxLeaves
      in PFan b e (max (max grain floorGrain) kMinGrain))"

definition measure_range :: "pf_config \<Rightarrow> (nat \<Rightarrow> int) \<Rightarrow> nat option \<Rightarrow> int \<Rightarrow> int \<Rightarrow> int \<Rightarrow> cost_table \<Rightarrow> ((int \<times> int) list \<times> plan \<times> cost_table) option" where
  "measure_range cfg clock slot b e grain T =
     (let len = e - b; probeCap = (if len div 32 < 1 then 1 else len div 32) in
      case probe clock b probeCap 1 1 0 (clock 0) 0 0 of None \<Rightarrow> None
      | Some (calls, probed, probeNs, probeLen0) \<Rightarrow>
        (let probeLen = (if probeLen0 \<le> 0 then (if probed > 0 then probed else 1) else probeLen0); b = b + probed in
         if b \<ge> e then Some (calls, PDone, T)
         else if probeNs < kProbeFloorNs then Some (calls, PSerial b e, T)
         else
           (let W = (probeNs * len) div probeLen;
                sample = (probeNs * 1000000) div probeLen;
                T = (case slot of None \<Rightarrow> T
                     | Some i \<Rightarrow> T(i := (T i)\<lparr>nsPerMega := (if nsPerMega (T i) > 0 then (nsPerMega (T i) * 3 + sample) div 4 else sample)\<rparr>));
                k = width cfg W
            in if k < 2 then Some (calls, PSerial b e, T) else Some (calls, fan_out cfg k b e grain, T))))"

definition ParallelFor :: "pf_config \<Rightarrow> (nat \<Rightarrow> int) \<Rightarrow> nat \<Rightarrow> int \<Rightarrow> int \<Rightarrow> int \<Rightarrow> cost_table \<Rightarrow> ((int \<times> int) list \<times> plan \<times> cost_table) option" where
  "ParallelFor cfg clock hash b e grain0 T =
     (if \<not> fits_int (e - b) then Some ([], PUndefined, T)
      else if e - b \<le> 0 then Some ([], PDone, T)
      else (let grain = max 1 grain0 in
        if serial cfg \<or> \<not> poolActive cfg \<or> workers cfg = 0 then Some ([], PSerial b e, T)
        else if measuredWidth cfg then
          (case (if rememberedCost cfg then FindBodySlot hash T else None) of
             None \<Rightarrow> measure_range cfg clock None b e grain T
           | Some (i, T) \<Rightarrow>
             (let ns = nsPerMega (T i); u = uses (T i); T = T(i := (T i)\<lparr>uses := u + 1\<rparr>) in
              if ns > 0 \<and> u mod kReprobeInterval \<noteq> 0 then
                (let k = width cfg ((ns * (e - b)) div 1000000)
                 in if k < 2 then Some ([], PSerial b e, T) else Some ([], fan_out cfg k b e grain, T))
              else measure_range cfg clock (Some i) b e grain T))
        else if e - b < int (workers cfg) * minItersPerWorker cfg then Some ([], PSerial b e, T)
        else Some ([], fan_out cfg (workers cfg) b e grain, T)))"

section \<open>Lazy splitting\<close>

text \<open>
  A thread in \<^verbatim>\<open>RunLazyRange(lo, hi)\<close>: at the loop test, after counting a task for the upper half from \<open>mid\<close>, about to call the body, after it. The flag tells
  whether the range is a task counted in the wait group, or the caller's own.
\<close>

datatype frame = FIdle | FLoop bool int int | FAdded bool int int int | FCall bool int int | FDone bool

record lazy_sys =
  grain :: int
  splitCap :: nat
  nthreads :: nat
  caller :: nat
  hasLane :: "nat \<Rightarrow> bool"
  lanes :: "nat \<Rightarrow> (int \<times> int) list"
  frames :: "nat \<Rightarrow> frame"
  wg :: nat
  rootDone :: bool
  returned :: bool
  calls :: "(int \<times> int) list"

definition lazy_init :: "int \<Rightarrow> nat \<Rightarrow> nat \<Rightarrow> nat \<Rightarrow> (nat \<Rightarrow> bool) \<Rightarrow> int \<Rightarrow> int \<Rightarrow> lazy_sys" where
  "lazy_init g cap n c lane b e = \<lparr>grain = g, splitCap = cap, nthreads = n, caller = c, hasLane = lane, lanes = (\<lambda>_. []),
     frames = (\<lambda>_. FIdle)(c := FLoop False b e), wg = 0, rootDone = False, returned = False, calls = []\<rparr>"

definition set_frame :: "nat \<Rightarrow> frame \<Rightarrow> lazy_sys \<Rightarrow> lazy_sys" where
  "set_frame t f S = S\<lparr>frames := (frames S)(t := f)\<rparr>"

text \<open>The loop of \<^verbatim>\<open>RunLazyRange\<close>; \<open>ok\<close> tells whether a task could be allocated, or pushed.\<close>

definition RunLazyRange :: "nat \<Rightarrow> bool \<Rightarrow> lazy_sys \<Rightarrow> lazy_sys option" where
  "RunLazyRange t ok S = (case frames S t of
      FLoop c lo hi \<Rightarrow>
        Some (if \<not> (hasLane S t \<and> hi - lo > grain S) \<or> (splitCap S \<noteq> 0 \<and> length (lanes S t) > splitCap S) \<or> \<not> ok
              then set_frame t (FCall c lo hi) S
              else set_frame t (FAdded c lo (lo + (hi - lo) div 2) hi) (S\<lparr>wg := wg S + 1\<rparr>))
    | FAdded c lo mid hi \<Rightarrow>
        Some (if ok then set_frame t (FLoop c lo mid) (S\<lparr>lanes := (lanes S)(t := lanes S t @ [(mid, hi)])\<rparr>)
              else set_frame t (FCall c lo hi) (S\<lparr>wg := wg S - 1\<rparr>))
    | FCall c lo hi \<Rightarrow> Some (set_frame t (FDone c) (S\<lparr>calls := calls S @ [(lo, hi)]\<rparr>))
    | FDone c \<Rightarrow> Some (set_frame t FIdle (if c then S\<lparr>wg := wg S - 1\<rparr> else S\<lparr>rootDone := True\<rparr>))
    | FIdle \<Rightarrow> None)"

text \<open>
  A thread without a range takes the newest task of its own deque or the oldest of another one. The caller does so only while it waits for the group, and
  returns when the count is zero.
\<close>

definition may_take :: "nat \<Rightarrow> lazy_sys \<Rightarrow> bool" where
  "may_take t S = (t < nthreads S \<and> frames S t = FIdle \<and> (t = caller S \<longrightarrow> rootDone S \<and> \<not> returned S \<and> wg S > 0))"

datatype lazy_op = LRange nat bool | LPop nat | LSteal nat nat | LReturn

fun lazy_step :: "lazy_op \<Rightarrow> lazy_sys \<Rightarrow> lazy_sys option" where
  "lazy_step (LRange t ok) S = (if t < nthreads S then RunLazyRange t ok S else None)"
| "lazy_step (LPop t) S =
     (if may_take t S \<and> lanes S t \<noteq> []
      then Some (set_frame t (FLoop True (fst (last (lanes S t))) (snd (last (lanes S t)))) (S\<lparr>lanes := (lanes S)(t := butlast (lanes S t))\<rparr>))
      else None)"
| "lazy_step (LSteal t v) S =
     (if may_take t S \<and> v < nthreads S \<and> lanes S v \<noteq> []
      then Some (set_frame t (FLoop True (fst (hd (lanes S v))) (snd (hd (lanes S v)))) (S\<lparr>lanes := (lanes S)(v := List.tl (lanes S v))\<rparr>))
      else None)"
| "lazy_step LReturn S =
     (if frames S (caller S) = FIdle \<and> rootDone S \<and> \<not> returned S \<and> wg S = 0 then Some (S\<lparr>returned := True\<rparr>) else None)"

section \<open>Pulling from a cursor\<close>

text \<open>The grain and the number of lanes \<^verbatim>\<open>RunCursorRange\<close> chooses for \<open>W\<close> workers.\<close>

definition cursor_grain :: "nat \<Rightarrow> int \<Rightarrow> int \<Rightarrow> int \<Rightarrow> int" where
  "cursor_grain W b e g = max (max g ((e - b + int W * 64 - 1) div (int W * 64))) 64"

definition cursor_lanes :: "nat \<Rightarrow> int \<Rightarrow> int \<Rightarrow> int \<Rightarrow> nat" where
  "cursor_lanes W b e g = nat (min (int W) (max 1 ((e - b + g - 1) div g)))"

text \<open>A puller: not started, at the cursor, in a slice, finished, or past an addition that overflowed. Number 0 is the caller, the others are the lanes.\<close>

datatype puller = KNew | KPull | KRun int int | KDone | KUndef

record cursor_sys =
  c_end :: int
  c_grain :: int
  c_lanes :: nat
  spawned :: nat
  cursor :: int
  pullers :: "nat \<Rightarrow> puller"
  c_wg :: nat
  c_returned :: bool
  c_calls :: "(int \<times> int) list"

definition cursor_init :: "nat \<Rightarrow> int \<Rightarrow> int \<Rightarrow> int \<Rightarrow> cursor_sys" where
  "cursor_init W b e g0 = (let g = cursor_grain W b e g0; n = cursor_lanes W b e g
     in \<lparr>c_end = e, c_grain = g, c_lanes = n, spawned = 0, cursor = b, pullers = (\<lambda>_. KNew), c_wg = n, c_returned = False, c_calls = []\<rparr>)"

definition set_puller :: "nat \<Rightarrow> puller \<Rightarrow> cursor_sys \<Rightarrow> cursor_sys" where
  "set_puller p q S = S\<lparr>pullers := (pullers S)(p := q)\<rparr>"

datatype cursor_op = KSpawn bool | KStep nat | KReturn

definition pull :: "nat \<Rightarrow> cursor_sys \<Rightarrow> cursor_sys" where
  "pull p S0 =
     (let lo = cursor S0; S = S0\<lparr>cursor := wrap32 (lo + c_grain S0)\<rparr> in
      if lo \<ge> c_end S then set_puller p KDone (if p = 0 then S else S\<lparr>c_wg := c_wg S - 1\<rparr>)
      else if \<not> fits_int (lo + c_grain S) then set_puller p KUndef S
      else set_puller p (KRun lo (if lo + c_grain S > c_end S then c_end S else lo + c_grain S)) S)"

text \<open>\<open>KSpawn ok\<close> is one turn of the loop that creates the lanes; the caller pulls when it is over.\<close>

fun cursor_step :: "cursor_op \<Rightarrow> cursor_sys \<Rightarrow> cursor_sys option" where
  "cursor_step (KSpawn ok) S =
     (if spawned S < c_lanes S
      then (let S' = S\<lparr>spawned := spawned S + 1\<rparr>; S' = (if spawned S' = c_lanes S then set_puller 0 KPull S' else S')
            in Some (if ok then set_puller (spawned S + 1) KPull S' else set_puller (spawned S + 1) KDone (S'\<lparr>c_wg := c_wg S - 1\<rparr>)))
      else None)"
| "cursor_step (KStep p) S = (case pullers S p of
      KPull \<Rightarrow> Some (pull p S)
    | KRun lo hi \<Rightarrow> Some (set_puller p KPull (S\<lparr>c_calls := c_calls S @ [(lo, hi)]\<rparr>))
    | _ \<Rightarrow> None)"
| "cursor_step KReturn S = (if pullers S 0 = KDone \<and> c_wg S = 0 \<and> \<not> c_returned S then Some (S\<lparr>c_returned := True\<rparr>) else None)"

end
