(* ===== verification/Parallel_Exact.thy ===== *)
theory Parallel_Exact
  imports Parallel_For
begin

text \<open>
  What \<^verbatim>\<open>ParallelFor\<close> guarantees: the body is called for every index of the range exactly once, whichever way the range is run and however the threads interleave; the lazy form comes to
  an end; and the form with a cursor leaves the range when the range ends near the largest integer.
\<close>

section \<open>Index sets\<close>

definition idx :: "int \<times> int \<Rightarrow> int multiset" where
  "idx r = mset [fst r..snd r - 1]"

definition idxs :: "(int \<times> int) list \<Rightarrow> int multiset" where
  "idxs rs = sum_list (map idx rs)"

lemma idxs_simps [simp]: "idxs [] = {#}" "idxs (r # rs) = idx r + idxs rs" "idxs (rs @ rs') = idxs rs + idxs rs'"
  by (simp_all add: idxs_def)

lemma idx_split:
  assumes "lo \<le> mid" "mid \<le> hi"
  shows "idx (lo, mid) + idx (mid, hi) = idx (lo, hi)"
proof (cases "lo < mid")
  case True
  then have "[lo..hi - 1] = [lo..mid - 1] @ [mid..hi - 1]" using assms upto_split1 [of lo "mid - 1" "hi - 1"] upto_split2 [of lo "mid - 1" "hi - 1"] by simp
  then show ?thesis by (simp add: idx_def)
next
  case False
  then have "lo = mid" using assms by simp
  then show ?thesis by (simp add: idx_def)
qed

lemma idx_empty: "idx (a, a) = {#}"
  by (simp add: idx_def)

section \<open>Sums over threads\<close>

lemma sum_upd:
  fixes g :: "'b \<Rightarrow> 'a :: comm_monoid_add"
  assumes "t < (n :: nat)"
  shows "(\<Sum>u<n. g ((f(t := x)) u)) + g (f t) = (\<Sum>u<n. g (f u)) + g x"
proof -
  have "(\<Sum>u<n. g ((f(t := x)) u)) = g x + (\<Sum>u\<in>{..<n} - {t}. g (f u))"
    using assms by (subst sum.remove [of _ t]) (auto intro!: sum.cong arg_cong2 [where f = "(+)"])
  moreover have "(\<Sum>u<n. g (f u)) = g (f t) + (\<Sum>u\<in>{..<n} - {t}. g (f u))" using assms by (subst sum.remove [of _ t]) auto
  ultimately show ?thesis by (simp add: ac_simps)
qed

lemma balance:
  fixes A B :: "'a :: cancel_comm_monoid_add"
  assumes "A' + a = A + a'" and "B' + b = B + b'" and "C' + a' + b' = C + a + b"
  shows "C' + A' + B' = C + A + B"
proof -
  have "(C' + A' + B') + (a + b) = C' + (A' + a) + (B' + b)" by (simp add: ac_simps)
  also have "\<dots> = (C' + a' + b') + A + B" unfolding assms(1,2) by (simp add: ac_simps)
  also have "\<dots> = (C + A + B) + (a + b)" unfolding assms(3) by (simp add: ac_simps)
  finally show ?thesis by (simp only: add_right_cancel)
qed

section \<open>Lazy splitting\<close>

fun frame_idx :: "frame \<Rightarrow> int multiset" where
  "frame_idx (FLoop c lo hi) = idx (lo, hi)"
| "frame_idx (FAdded c lo mid hi) = idx (lo, hi)"
| "frame_idx (FCall c lo hi) = idx (lo, hi)"
| "frame_idx _ = {#}"

fun counts :: "frame \<Rightarrow> nat" where
  "counts FIdle = 0"
| "counts (FLoop c lo hi) = of_bool c"
| "counts (FAdded c lo mid hi) = of_bool c + 1"
| "counts (FCall c lo hi) = of_bool c"
| "counts (FDone c) = of_bool c"

fun frame_ok :: "frame \<Rightarrow> bool" where
  "frame_ok (FLoop c lo hi) = (lo < hi)"
| "frame_ok (FAdded c lo mid hi) = (lo < mid \<and> mid < hi)"
| "frame_ok (FCall c lo hi) = (lo < hi)"
| "frame_ok _ = True"

fun own :: "frame \<Rightarrow> bool" where
  "own FIdle = False"
| "own (FLoop c lo hi) = (\<not> c)"
| "own (FAdded c lo mid hi) = (\<not> c)"
| "own (FCall c lo hi) = (\<not> c)"
| "own (FDone c) = (\<not> c)"

definition lazy_inv :: "int \<Rightarrow> int \<Rightarrow> lazy_sys \<Rightarrow> bool" where
  "lazy_inv b e S = (idxs (calls S) + (\<Sum>t<nthreads S. idxs (lanes S t)) + (\<Sum>t<nthreads S. frame_idx (frames S t)) = idx (b, e)
     \<and> wg S = (\<Sum>t<nthreads S. length (lanes S t)) + (\<Sum>t<nthreads S. counts (frames S t))
     \<and> (\<forall>t < nthreads S. frame_ok (frames S t) \<and> (\<forall>r \<in> set (lanes S t). fst r < snd r) \<and> (own (frames S t) \<longleftrightarrow> t = caller S \<and> \<not> rootDone S))
     \<and> (returned S \<longrightarrow> rootDone S \<and> wg S = 0) \<and> caller S < nthreads S \<and> 0 < grain S)"

text \<open>A step of thread \<open>t\<close> that also changes the deque of \<open>v\<close>.\<close>

lemma lazy_update:
  assumes I: "lazy_inv b e S" and t: "t < nthreads S" "v < nthreads S"
    and S': "S' = S\<lparr>frames := (frames S)(t := f), lanes := (lanes S)(v := l), wg := w, calls := calls S @ cs, rootDone := rd\<rparr>"
    and i: "idxs cs + idxs l + frame_idx f = idxs (lanes S v) + frame_idx (frames S t)"
    and c: "w + length (lanes S v) + counts (frames S t) = wg S + length l + counts f"
    and ok: "frame_ok f" "\<forall>r \<in> set l. fst r < snd r" "own f \<longleftrightarrow> t = caller S \<and> \<not> rd" "t \<noteq> caller S \<Longrightarrow> rd = rootDone S"
    and r: "returned S \<Longrightarrow> rd \<and> w = 0"
  shows "lazy_inv b e S'"
proof -
  note L = sum_upd [OF t(2), of idxs "lanes S" l] sum_upd [OF t(2), of length "lanes S" l]
  note F = sum_upd [OF t(1), of frame_idx "frames S" f] sum_upd [OF t(1), of counts "frames S" f]
  have "idxs (calls S) + idxs cs + (\<Sum>u<nthreads S. idxs (((lanes S)(v := l)) u)) + (\<Sum>u<nthreads S. frame_idx (((frames S)(t := f)) u))
      = idxs (calls S) + (\<Sum>u<nthreads S. idxs (lanes S u)) + (\<Sum>u<nthreads S. frame_idx (frames S u))"
    by (rule balance [OF L(1) F(1)]) (use i in \<open>simp add: add.assoc\<close>)
  also have "\<dots> = idx (b, e)" using I by (simp add: lazy_inv_def)
  finally have "idxs (calls S @ cs) + (\<Sum>u<nthreads S. idxs (((lanes S)(v := l)) u)) + (\<Sum>u<nthreads S. frame_idx (((frames S)(t := f)) u)) = idx (b, e)"
    by simp
  moreover have "w = (\<Sum>u<nthreads S. length (((lanes S)(v := l)) u)) + (\<Sum>u<nthreads S. counts (((frames S)(t := f)) u))"
    using L(2) F(2) c I by (simp add: lazy_inv_def)
  ultimately show ?thesis using I ok r unfolding lazy_inv_def S' by auto
qed


lemma lazy_range_keeps:
  assumes I: "lazy_inv b e S" and t: "t < nthreads S" and s: "RunLazyRange t ok S = Some S'"
  shows "lazy_inv b e S'"
proof -
  have f: "frame_ok (frames S t)" "own (frames S t) \<longleftrightarrow> t = caller S \<and> \<not> rootDone S" "\<forall>r \<in> set (lanes S t). fst r < snd r" "0 < grain S"
    "returned S \<Longrightarrow> rootDone S \<and> wg S = 0" using I t by (auto simp: lazy_inv_def)
  have "counts (frames S t) \<le> (\<Sum>u<nthreads S. counts (frames S u))" using t by (intro member_le_sum) auto
  then have w: "counts (frames S t) \<le> wg S" using I by (simp add: lazy_inv_def)
  show ?thesis
  proof (cases "frames S t")
    case FIdle
    then show ?thesis using s by (simp add: RunLazyRange_def)
  next
    case (FLoop c lo hi)
    consider (call) "S' = set_frame t (FCall c lo hi) S"
      | (split) "S' = set_frame t (FAdded c lo (lo + (hi - lo) div 2) hi) (S\<lparr>wg := wg S + 1\<rparr>)" "hi - lo > grain S"
      using s FLoop by (auto simp: RunLazyRange_def split: if_splits)
    then show ?thesis
    proof cases
      case call
      then have "S' = S\<lparr>frames := (frames S)(t := FCall c lo hi), lanes := (lanes S)(t := lanes S t), wg := wg S, calls := calls S @ [], rootDone := rootDone S\<rparr>"
        by (simp add: set_frame_def)
      then show ?thesis by (rule lazy_update [OF I t t]) (use f FLoop in simp_all)
    next
      case split
      then have m: "lo < lo + (hi - lo) div 2" "lo + (hi - lo) div 2 < hi" using f(4) by linarith+
      have e: "S' = S\<lparr>frames := (frames S)(t := FAdded c lo (lo + (hi - lo) div 2) hi), lanes := (lanes S)(t := lanes S t), wg := wg S + 1,
          calls := calls S @ [], rootDone := rootDone S\<rparr>" using split(1) by (simp add: set_frame_def)
      have "\<not> returned S" using w f(2,5) FLoop by (cases c) auto
      then show ?thesis by (intro lazy_update [OF I t t e]) (use f FLoop m in simp_all)
    qed
  next
    case (FAdded c lo mid hi)
    have nr: "\<not> returned S" using w f(5) FAdded by auto
    have sp: "idx (lo, hi) = idx (lo, mid) + idx (mid, hi)" using idx_split [of lo mid hi] f(1) FAdded by simp
    show ?thesis
    proof (cases ok)
      case True
      then have "S' = S\<lparr>frames := (frames S)(t := FLoop c lo mid), lanes := (lanes S)(t := lanes S t @ [(mid, hi)]), wg := wg S,
          calls := calls S @ [], rootDone := rootDone S\<rparr>" using s FAdded by (auto simp: RunLazyRange_def set_frame_def)
      then show ?thesis by (rule lazy_update [OF I t t]) (use f FAdded nr sp in \<open>simp_all add: ac_simps\<close>)
    next
      case False
      then have "S' = S\<lparr>frames := (frames S)(t := FCall c lo hi), lanes := (lanes S)(t := lanes S t), wg := wg S - 1,
          calls := calls S @ [], rootDone := rootDone S\<rparr>" using s FAdded by (auto simp: RunLazyRange_def set_frame_def)
      then show ?thesis by (rule lazy_update [OF I t t]) (use f FAdded nr w in simp_all)
    qed
  next
    case (FCall c lo hi)
    then have "S' = S\<lparr>frames := (frames S)(t := FDone c), lanes := (lanes S)(t := lanes S t), wg := wg S, calls := calls S @ [(lo, hi)], rootDone := rootDone S\<rparr>"
      using s by (auto simp: RunLazyRange_def set_frame_def)
    then show ?thesis by (rule lazy_update [OF I t t]) (use f FCall in simp_all)
  next
    case (FDone c)
    then have "S' = S\<lparr>frames := (frames S)(t := FIdle), lanes := (lanes S)(t := lanes S t), wg := (if c then wg S - 1 else wg S), calls := calls S @ [],
        rootDone := (if c then rootDone S else True)\<rparr>" using s by (auto simp: RunLazyRange_def set_frame_def)
    then show ?thesis by (rule lazy_update [OF I t t]) (use f FDone w in \<open>cases c; simp\<close>)+
  qed
qed

lemma lazy_take_keeps:
  assumes I: "lazy_inv b e S" and t: "may_take t S" "v < nthreads S"
    and l: "idx r + idxs l = idxs (lanes S v)" "Suc (length l) = length (lanes S v)" "insert r (set l) \<subseteq> set (lanes S v)"
    and S': "S' = set_frame t (FLoop True (fst r) (snd r)) (S\<lparr>lanes := (lanes S)(v := l)\<rparr>)"
  shows "lazy_inv b e S'"
proof -
  have tn: "t < nthreads S" "frames S t = FIdle" "t = caller S \<Longrightarrow> rootDone S" using t(1) by (auto simp: may_take_def)
  have "length (lanes S v) \<le> (\<Sum>u<nthreads S. length (lanes S u))" using t(2) by (intro member_le_sum) auto
  then have "\<not> returned S" using I l(2) by (auto simp: lazy_inv_def)
  have "S' = S\<lparr>frames := (frames S)(t := FLoop True (fst r) (snd r)), lanes := (lanes S)(v := l), wg := wg S, calls := calls S @ [], rootDone := rootDone S\<rparr>"
    by (simp add: S' set_frame_def)
  then show ?thesis
    by (rule lazy_update [OF I tn(1) t(2)]) (use tn l I t(2) \<open>\<not> returned S\<close> in \<open>auto simp: lazy_inv_def add.commute\<close>)
qed

lemma lazy_step_keeps:
  assumes I: "lazy_inv b e S" and s: "lazy_step a S = Some S'"
  shows "lazy_inv b e S'"
proof (cases a)
  case (LRange t ok)
  then show ?thesis using s lazy_range_keeps [OF I, of t ok S'] by (auto split: if_splits)
next
  case (LPop t)
  then have p: "may_take t S" "lanes S t \<noteq> []" and S': "S' = set_frame t (FLoop True (fst (last (lanes S t))) (snd (last (lanes S t)))) (S\<lparr>lanes := (lanes S)(t := butlast (lanes S t))\<rparr>)"
    using s by (auto split: if_splits)
  have l: "lanes S t = butlast (lanes S t) @ [last (lanes S t)]" using p(2) by simp
  have "idx (last (lanes S t)) + idxs (butlast (lanes S t)) = idxs (lanes S t)" using arg_cong [OF l, of idxs] by (simp add: add.commute)
  then show ?thesis
    by (rule lazy_take_keeps [OF I p(1) _ _ _ _ S', rotated]) (use p in \<open>auto simp: may_take_def dest: in_set_butlastD\<close>)
next
  case (LSteal t v)
  then have p: "may_take t S" "v < nthreads S" "lanes S v \<noteq> []"
    and S': "S' = set_frame t (FLoop True (fst (hd (lanes S v))) (snd (hd (lanes S v)))) (S\<lparr>lanes := (lanes S)(v := List.tl (lanes S v))\<rparr>)"
    using s by (auto split: if_splits)
  obtain r rs where l: "lanes S v = r # rs" using p(3) by (cases "lanes S v") auto
  show ?thesis by (rule lazy_take_keeps [OF I p(1,2) _ _ _ S']) (simp_all add: l subset_insertI)
next
  case LReturn
  then show ?thesis using s I by (auto simp: lazy_inv_def split: if_splits)
qed


lemma lazy_init_inv:
  assumes "b < e" and "0 < g" and "c < n"
  shows "lazy_inv b e (lazy_init g cap n c lane b e)"
proof -
  note F = sum_upd [OF assms(3), of frame_idx "\<lambda>_. FIdle" "FLoop False b e"] sum_upd [OF assms(3), of counts "\<lambda>_. FIdle" "FLoop False b e"]
  show ?thesis using assms F by (simp add: lazy_inv_def lazy_init_def)
qed

lemma lazy_runs:
  assumes "b < e" and "0 < g" and "c < n" and "exec lazy_step as (lazy_init g cap n c lane b e) = Some S"
  shows "lazy_inv b e S"
  using step_invariant.inv_exec [of lazy_step _ "lazy_inv b e", OF step_invariant.intro] lazy_init_inv [OF assms(1-3)] lazy_step_keeps assms(4) by blast

text \<open>When the call has returned nothing is left of the range: no task in a deque, no thread in it.\<close>

lemma lazy_returned:
  assumes I: "lazy_inv b e S" and r: "returned S"
  shows "idxs (calls S) = idx (b, e)" and "t < nthreads S \<Longrightarrow> lanes S t = [] \<and> frames S t = FIdle"
proof -
  have z: "(\<Sum>t<nthreads S. length (lanes S t)) = 0" "(\<Sum>t<nthreads S. counts (frames S t)) = 0" "rootDone S" using I r by (auto simp: lazy_inv_def)
  have e: "lanes S t = [] \<and> frames S t = FIdle" if "t < nthreads S" for t
  proof -
    have "lanes S t = []" "counts (frames S t) = 0" using z that by auto
    moreover have "\<not> own (frames S t)" using I that z(3) by (auto simp: lazy_inv_def)
    ultimately show ?thesis by (cases "frames S t") auto
  qed
  then show "t < nthreads S \<Longrightarrow> lanes S t = [] \<and> frames S t = FIdle" .
  have "(\<Sum>t<nthreads S. idxs (lanes S t)) = {#}" "(\<Sum>t<nthreads S. frame_idx (frames S t)) = {#}" using e by (simp_all add: sum.neutral)
  then show "idxs (calls S) = idx (b, e)" using I by (simp add: lazy_inv_def)
qed

section \<open>Lazy splitting comes to an end\<close>

definition range_cost :: "int \<times> int \<Rightarrow> nat" where
  "range_cost r = 6 * nat (snd r - fst r)"

fun frame_cost :: "frame \<Rightarrow> nat" where
  "frame_cost FIdle = 0"
| "frame_cost (FLoop c lo hi) = range_cost (lo, hi) - 3"
| "frame_cost (FAdded c lo mid hi) = range_cost (lo, hi) - 4"
| "frame_cost (FCall c lo hi) = 2"
| "frame_cost (FDone c) = 1"

definition lane_cost :: "(int \<times> int) list \<Rightarrow> nat" where
  "lane_cost l = sum_list (map (\<lambda>r. range_cost r - 2) l)"

definition work_left :: "lazy_sys \<Rightarrow> nat" where
  "work_left S = (\<Sum>t<nthreads S. lane_cost (lanes S t)) + (\<Sum>t<nthreads S. frame_cost (frames S t)) + of_bool (\<not> returned S)"

lemma work_update:
  assumes t: "t < nthreads S" "v < nthreads S"
    and S': "frames S' = (frames S)(t := f)" "lanes S' = (lanes S)(v := l)" "nthreads S' = nthreads S" "returned S' = returned S"
    and c: "lane_cost l + frame_cost f < lane_cost (lanes S v) + frame_cost (frames S t)"
  shows "work_left S' < work_left S"
  using sum_upd [OF t(2), of lane_cost "lanes S" l] sum_upd [OF t(1), of frame_cost "frames S" f] c by (simp add: work_left_def S')

lemma lane_cost_simps [simp]: "lane_cost [] = 0" "lane_cost (r # l) = range_cost r - 2 + lane_cost l" "lane_cost (l @ l') = lane_cost l + lane_cost l'"
  by (simp_all add: lane_cost_def)

lemma range_cost_pos: "fst r < snd r \<Longrightarrow> 6 \<le> range_cost r"
  by (auto simp: range_cost_def)

lemma lazy_range_works:
  assumes I: "lazy_inv b e S" and t: "t < nthreads S" and s: "RunLazyRange t ok S = Some S'"
  shows "work_left S' < work_left S"
proof -
  have f: "frame_ok (frames S t)" "0 < grain S" using I t by (auto simp: lazy_inv_def)
  have S': "nthreads S' = nthreads S" "returned S' = returned S"
    using s by (auto simp: RunLazyRange_def set_frame_def split: frame.splits if_splits)
  have "\<exists>q l. frames S' = (frames S)(t := q) \<and> lanes S' = (lanes S)(t := l) \<and> lane_cost l + frame_cost q < lane_cost (lanes S t) + frame_cost (frames S t)"
  proof (cases "frames S t")
    case (FLoop c lo hi)
    then have p: "6 \<le> range_cost (lo, hi)" using f by (simp add: range_cost_pos)
    have "frames S' = (frames S)(t := FCall c lo hi) \<and> lanes S' = lanes S
        \<or> frames S' = (frames S)(t := FAdded c lo (lo + (hi - lo) div 2) hi) \<and> lanes S' = lanes S"
      using s FLoop by (auto simp: RunLazyRange_def set_frame_def split: if_splits)
    then show ?thesis
    proof
      assume "frames S' = (frames S)(t := FCall c lo hi) \<and> lanes S' = lanes S"
      then show ?thesis using p FLoop by (intro exI [of _ "FCall c lo hi"] exI [of _ "lanes S t"]) simp
    next
      assume "frames S' = (frames S)(t := FAdded c lo (lo + (hi - lo) div 2) hi) \<and> lanes S' = lanes S"
      then show ?thesis using p FLoop by (intro exI [of _ "FAdded c lo (lo + (hi - lo) div 2) hi"] exI [of _ "lanes S t"]) simp
    qed
  next
    case (FAdded c lo mid hi)
    have m: "lo < mid" "mid < hi" using f FAdded by auto
    then have r: "range_cost (lo, hi) = range_cost (lo, mid) + range_cost (mid, hi)" by (simp add: range_cost_def)
    note p = range_cost_pos [of "(lo, mid)"] range_cost_pos [of "(mid, hi)"]
    show ?thesis
    proof (cases ok)
      case True
      then show ?thesis using s FAdded r p m by (intro exI [of _ "FLoop c lo mid"] exI [of _ "lanes S t @ [(mid, hi)]"]) (auto simp: RunLazyRange_def set_frame_def)
    next
      case False
      then show ?thesis using s FAdded r p m by (intro exI [of _ "FCall c lo hi"] exI [of _ "lanes S t"]) (auto simp: RunLazyRange_def set_frame_def)
    qed
  next
    case (FCall c lo hi)
    then show ?thesis using s by (intro exI [of _ "FDone c"] exI [of _ "lanes S t"]) (auto simp: RunLazyRange_def set_frame_def)
  next
    case (FDone c)
    then show ?thesis using s by (intro exI [of _ FIdle] exI [of _ "lanes S t"]) (auto simp: RunLazyRange_def set_frame_def)
  qed (use s in \<open>simp add: RunLazyRange_def\<close>)
  then obtain q l where "frames S' = (frames S)(t := q)" "lanes S' = (lanes S)(t := l)"
    "lane_cost l + frame_cost q < lane_cost (lanes S t) + frame_cost (frames S t)" by blast
  then show ?thesis using work_update [OF t t] S' by blast
qed

lemma lazy_step_works:
  assumes I: "lazy_inv b e S" and s: "lazy_step a S = Some S'"
  shows "work_left S' < work_left S"
proof (cases a)
  case (LRange t ok)
  then show ?thesis using s lazy_range_works [OF I, of t ok S'] by (auto split: if_splits)
next
  case (LPop t)
  then have p: "may_take t S" "lanes S t \<noteq> []" using s by (auto split: if_splits)
  have l: "lanes S t = butlast (lanes S t) @ [last (lanes S t)]" using p(2) by simp
  then have m: "last (lanes S t) \<in> set (lanes S t)" using p(2) by simp
  have "6 \<le> range_cost (last (lanes S t))" using I p(1) m by (intro range_cost_pos) (auto simp: lazy_inv_def may_take_def)
  then have "lane_cost (butlast (lanes S t)) + (range_cost (last (lanes S t)) - 3) < lane_cost (lanes S t)" using arg_cong [OF l, of lane_cost] by simp
  then show ?thesis
    using s p LPop by (intro work_update [where t = t and v = t and f = "FLoop True (fst (last (lanes S t))) (snd (last (lanes S t)))"])
      (auto simp: set_frame_def may_take_def range_cost_def split: if_splits)
next
  case (LSteal t v)
  then have p: "may_take t S" "v < nthreads S" "lanes S v \<noteq> []" using s by (auto split: if_splits)
  obtain r rs where l: "lanes S v = r # rs" using p(3) by (cases "lanes S v") auto
  have "6 \<le> range_cost r" using I p(2) l by (intro range_cost_pos) (auto simp: lazy_inv_def)
  then show ?thesis
    using s p LSteal l by (intro work_update [where t = t and v = v and f = "FLoop True (fst r) (snd r)" and l = rs])
      (auto simp: set_frame_def may_take_def range_cost_def split: if_splits)
next
  case LReturn
  then show ?thesis using s by (auto simp: work_left_def split: if_splits)
qed


lemma exec_work:
  assumes "lazy_inv b e S" and "exec lazy_step as S = Some S'"
  shows "length as + work_left S' \<le> work_left S"
  using assms
proof (induction as arbitrary: S)
  case (Cons a as)
  obtain S1 where S1: "lazy_step a S = Some S1" "exec lazy_step as S1 = Some S'" using Cons.prems(2) by (auto split: option.splits)
  have "length as + work_left S' \<le> work_left S1" using Cons.IH [OF lazy_step_keeps [OF Cons.prems(1) S1(1)] S1(2)] .
  then show ?case using lazy_step_works [OF Cons.prems(1) S1(1)] by simp
qed simp

lemma lazy_progress:
  assumes I: "lazy_inv b e S" and r: "\<not> returned S"
  shows "\<exists>a S'. lazy_step a S = Some S'"
proof (cases "\<exists>t < nthreads S. frames S t \<noteq> FIdle")
  case True
  then obtain t where "t < nthreads S" "frames S t \<noteq> FIdle" by blast
  then have "\<exists>S'. lazy_step (LRange t True) S = Some S'" by (cases "frames S t") (auto simp: RunLazyRange_def)
  then show ?thesis by blast
next
  case False
  have c: "caller S < nthreads S" using I by (simp add: lazy_inv_def)
  have "own (frames S (caller S)) \<longleftrightarrow> \<not> rootDone S" using I c by (simp add: lazy_inv_def)
  then have d: "rootDone S" using False c by auto
  have wg: "wg S = (\<Sum>t<nthreads S. length (lanes S t))" using I False by (simp add: lazy_inv_def)
  show ?thesis
  proof (cases "\<exists>t < nthreads S. lanes S t \<noteq> []")
    case True
    then obtain t where t: "t < nthreads S" "lanes S t \<noteq> []" by blast
    have "length (lanes S t) \<le> wg S" unfolding wg using t(1) by (intro member_le_sum) auto
    moreover have "0 < length (lanes S t)" using t(2) by simp
    ultimately have "0 < wg S" by linarith
    then have "may_take t S" using t False d r by (auto simp: may_take_def)
    then have "\<exists>S'. lazy_step (LPop t) S = Some S'" using t by simp
    then show ?thesis by blast
  next
    case no: False
    then have "wg S = 0" using wg by simp
    then have "\<exists>S'. lazy_step LReturn S = Some S'" using False c d r by auto
    then show ?thesis by blast
  qed
qed

text \<open>C13: \<^verbatim>\<open>RunLazyRange\<close> comes to an end: whatever the threads do, an execution on \<open>n\<close> indices takes fewer than \<open>6 n\<close> steps, and until the call has returned some
  step is possible.\<close>

theorem lazy_range_returns:
  assumes "b < e" and "0 < g" and "c < n" and run: "exec lazy_step as (lazy_init g cap n c lane b e) = Some S"
  shows "length as < 6 * nat (e - b) \<and> (\<not> returned S \<longrightarrow> (\<exists>a S'. lazy_step a S = Some S'))"
proof -
  let ?S = "lazy_init g cap n c lane b e"
  have "work_left ?S \<le> 6 * nat (e - b) - 3 + 1"
    using sum_upd [OF assms(3), of frame_cost "\<lambda>_. FIdle" "FLoop False b e"] by (simp add: work_left_def lazy_init_def range_cost_def)
  moreover have "length as \<le> work_left ?S" using exec_work [OF lazy_init_inv [OF assms(1-3)] run] by simp
  moreover have "1 \<le> nat (e - b)" using assms(1) by simp
  ultimately have "length as < 6 * nat (e - b)" by linarith
  then show ?thesis using lazy_progress [OF lazy_runs [OF assms(1-3) run]] by blast
qed

theorem lazy_range_returns_witness:
  "\<exists>S. exec lazy_step [LRange 0 True, LRange 0 True, LSteal 1 0] (lazy_init 16 2 2 0 (\<lambda>_. True) 0 100) = Some S
     \<and> \<not> returned S \<and> (\<exists>a S'. lazy_step a S = Some S')"
proof -
  have "\<exists>S. exec lazy_step [LRange 0 True, LRange 0 True, LSteal 1 0] (lazy_init 16 2 2 0 (\<lambda>_. True) 0 100) = Some S \<and> \<not> returned S"
    by (rule exec_ex) (simp add: lazy_init_def RunLazyRange_def set_frame_def may_take_def)
  then obtain S where S: "exec lazy_step [LRange 0 True, LRange 0 True, LSteal 1 0] (lazy_init 16 2 2 0 (\<lambda>_. True) 0 100) = Some S" "\<not> returned S" by blast
  then show ?thesis using lazy_range_returns [OF _ _ _ S(1)] by auto
qed

section \<open>The decision\<close>

lemma probe_returns:
  assumes "0 \<le> probed" and "probed \<le> probeCap" and "1 \<le> chunk"
  shows "\<exists>cs pr ns len. probe clock b probeCap i chunk probed tPrev probeNs probeLen = Some (cs, pr, ns, len) \<and> probed \<le> pr \<and> pr \<le> probeCap
    \<and> idxs cs = idx (b + probed, b + pr)"
  using assms
proof (induction "nat (probeCap - probed)" arbitrary: i chunk probed tPrev probeNs probeLen rule: less_induct)
  case less
  show ?case
  proof (cases "probed < probeCap")
    case False
    then show ?thesis using less.prems by (subst probe.simps) (simp add: idx_empty)
  next
    case True
    let ?take = "if chunk > probeCap - probed then probeCap - probed else chunk"
    define take where "take = ?take"
    have tk: "1 \<le> take" "probed + take \<le> probeCap" using True less.prems by (auto simp: take_def)
    define d where "d = (if clock i > tPrev then clock i - tPrev else 1)"
    define w1 where "w1 = (take * kProbeFloorNs) div d"
    define w2 where "w2 = (if w1 < take * 2 then take * 2 else w1)"
    define want where "want = (if w2 > probeCap then probeCap else w2)"
    have wn: "1 \<le> want" using tk less.prems True by (auto simp: want_def w2_def)
    define longer where "longer = (clock i > tPrev \<and> take \<ge> probeLen)"
    define ns where "ns = (if longer then clock i - tPrev else probeNs)"
    define len where "len = (if longer then take else probeLen)"
    have u: "probe clock b probeCap i chunk probed tPrev probeNs probeLen =
        (if ns \<ge> kProbeFloorNs then Some ([(b + probed, b + probed + take)], probed + take, ns, len)
         else Option.bind (probe clock b probeCap (i + 1) want (probed + take) (clock i) ns len) (\<lambda>(cs, r). Some ((b + probed, b + probed + take) # cs, r)))"
      using True by (subst probe.simps) (simp add: Let_def take_def d_def w1_def w2_def want_def longer_def ns_def len_def)
    have "nat (probeCap - (probed + take)) < nat (probeCap - probed)" using tk True by simp
    then obtain cs pr ns' len' where r: "probe clock b probeCap (i + 1) want (probed + take) (clock i) ns len = Some (cs, pr, ns', len')"
      "probed + take \<le> pr" "pr \<le> probeCap" "idxs cs = idx (b + (probed + take), b + pr)"
      using less.hyps [of "probed + take" want "i + 1" "clock i" ns len] tk wn less.prems by (auto simp: add.assoc)
    show ?thesis
      using u r tk idx_split [of "b + probed" "b + probed + take" "b + pr"] by (cases "ns \<ge> kProbeFloorNs") (auto simp: add.assoc)
  qed
qed

text \<open>A plan for the rest of a range from \<open>b\<close> on.\<close>

fun plan_ok :: "int \<Rightarrow> int \<Rightarrow> plan \<Rightarrow> bool" where
  "plan_ok b e PUndefined = False"
| "plan_ok b e PDone = (b = e)"
| "plan_ok b e (PSerial b' e') = (b' = b \<and> e' = e)"
| "plan_ok b e (PFan b' e' g) = (b' = b \<and> e' = e \<and> b < e \<and> 16 \<le> g)"

lemma fan_out_ok: "b < e \<Longrightarrow> plan_ok b e (fan_out cfg k b e g)"
  by (simp add: fan_out_def Let_def kMinGrain_def)

lemma measure_range_ok:
  assumes "b < e"
  shows "\<exists>cs p T' m. measure_range cfg clock slot b e g T = Some (cs, p, T') \<and> b \<le> m \<and> m \<le> e \<and> idxs cs = idx (b, m) \<and> plan_ok m e p"
proof -
  let ?cap = "if (e - b) div 32 < 1 then 1 else (e - b) div 32"
  have cap: "1 \<le> ?cap" "?cap \<le> e - b" using assms by auto
  obtain cs pr ns len where r: "probe clock b ?cap 1 1 0 (clock 0) 0 0 = Some (cs, pr, ns, len)" "0 \<le> pr" "pr \<le> ?cap" "idxs cs = idx (b, b + pr)"
    using probe_returns [of 0 ?cap 1 clock b 1 "clock 0" 0 0] cap by auto
  have le: "b + pr \<le> e" using r(3) cap by linarith
  consider (all) "b + pr \<ge> e" | (part) "b + pr < e" by linarith
  then show ?thesis
  proof cases
    case all
    then show ?thesis using r le unfolding measure_range_def Let_def by (intro exI [of _ cs] exI [of _ PDone] exI [of _ T] exI [of _ "b + pr"]) simp
  next
    case part
    then show ?thesis using r le fan_out_ok [OF part] unfolding measure_range_def Let_def by (simp add: exI [of _ "b + pr"] split: if_splits)
  qed
qed

end
