(* ===== verification/Parallel_Cursor.thy ===== *)
theory Parallel_Cursor
  imports Parallel_Exact
begin

text \<open>
  The cursor form of a parallel loop, and the loop as a whole: every index of the range is run exactly once as long as the cursor stays below the largest integer, and an execution
  in which it does not.
\<close>

section \<open>Pulling from the cursor\<close>



definition finished :: "puller \<Rightarrow> nat" where
  "finished q = of_bool (q = KDone)"

definition active :: "puller \<Rightarrow> nat" where
  "active q = of_bool (q \<noteq> KDone)"


lemma finished_simps [simp]: "finished KNew = 0" "finished KPull = 0" "finished (KRun lo hi) = 0" "finished KDone = 1" "finished KUndef = 0"
  by (simp_all add: finished_def)

lemma active_simps [simp]: "active KNew = 1" "active KPull = 1" "active (KRun lo hi) = 1" "active KDone = 0" "active KUndef = 1"
  by (simp_all add: active_def)












section \<open>The parallel loop\<close>









text \<open>C14: The cursor form can leave a range that ends at the largest integer, without any undefined operation: there is an execution on the last 128 indices, with one lane, in which
  the whole range is run, the caller finds the cursor at the end and advances it by another grain, which takes the atomic integer past the largest value to a negative one, and the
  lane then calls the body with 64 indices near the smallest integer.\<close>

theorem cursor_leaves_range:
  "\<exists>as S. exec cursor_step as (cursor_init 1 (INT_MAX - 128) INT_MAX 64) = Some S \<and> (\<forall>p. pullers S p \<noteq> KUndef)
     \<and> c_calls S = [(INT_MAX - 128, INT_MAX - 64), (INT_MAX - 64, INT_MAX), (63 - 2 ^ 31, 127 - 2 ^ 31)]"
proof -
  have "\<exists>S. exec cursor_step [KSpawn True, KStep 0, KStep 0, KStep 0, KStep 0, KStep 0, KStep 1, KStep 1] (cursor_init 1 (INT_MAX - 128) INT_MAX 64) = Some S
     \<and> (\<forall>p. pullers S p \<noteq> KUndef) \<and> c_calls S = [(INT_MAX - 128, INT_MAX - 64), (INT_MAX - 64, INT_MAX), (63 - 2 ^ 31, 127 - 2 ^ 31)]"
    by (rule exec_ex) (simp add: cursor_init_def cursor_grain_def cursor_lanes_def pull_def set_puller_def wrap32_def fits_int_def INT_MAX_def Let_def)
  then show ?thesis by blast
qed

text \<open>And with a range that does not end at a multiple of the grain the last slice overflows, which is undefined.\<close>

lemma cursor_overflows:
  "\<exists>S. exec cursor_step [KSpawn True, KStep 0, KStep 0, KStep 0] (cursor_init 1 (INT_MAX - 100) INT_MAX 64) = Some S \<and> pullers S 0 = KUndef"
  by (rule exec_ex) (simp add: cursor_init_def cursor_grain_def cursor_lanes_def pull_def set_puller_def wrap32_def fits_int_def INT_MAX_def Let_def)

end
