(* ===== verification/Fiber_Cleanup.thy ===== *)
theory Fiber_Cleanup
  imports Timer_Wheel
begin

text \<open>
  What happens to a fiber whose task has returned (\<^verbatim>\<open>src/FiberRegistry.cpp\<close>, the creditors and debts of \<^verbatim>\<open>include/Fiber.h\<close>, \<^verbatim>\<open>ReleaseOnWorker\<close> and
  \<^verbatim>\<open>DischargeFiberDebts\<close>): a fiber that owes cleanup is passed from one creditor to the next through their inbound stacks, each of them releases what is due on
  its thread, and the last one returns the fiber to the pool. Accesses to the shared stacks are steps of their own; a fiber itself is touched only by the thread that has it.
\<close>

section \<open>State\<close>

definition kCreditorWords :: nat where
  "kCreditorWords = 6"

text \<open>Where a fiber is: running a task, with a thread, in the stack of a holder, in the chain a thread has taken, in the pool, nowhere.\<close>

datatype fiber_place = PRun | PWith nat | PInbound nat | PChain nat | PPool | PLost

text \<open>
  A debt: the node and the holder it is to be released on. For each fiber \<open>taken\<close> lists the debts its tasks took on, and \<open>released\<close> those that were released, with the holder whose
  drain did it.
\<close>

type_synonym debt = "nat \<times> nat"

text \<open>
  A thread in \<^verbatim>\<open>AdvanceCleanup\<close> (before \<^verbatim>\<open>TakeCreditor\<close>), in \<^verbatim>\<open>Deliver\<close> (before the load, before the exchange), in \<^verbatim>\<open>ReturnToPool\<close>, or walking a chain. The last argument
  is the holder and the rest of the chain if it is inside \<^verbatim>\<open>DrainHolder\<close>.
\<close>

type_synonym drain = "(nat \<times> nat option) option"

datatype clean_pc = CIdle | CAdvance nat drain | CLoad nat nat drain | CCas nat nat "nat option" drain | CReturn nat drain | CWalk nat "nat option"

record cleanup =
  holders :: nat
  creditors :: "nat \<Rightarrow> nat \<Rightarrow> u64"
  owedKinds :: "nat \<Rightarrow> u32"
  debts :: "nat \<Rightarrow> debt list"
  cleanupNext :: "nat \<Rightarrow> nat option"
  inbound :: "nat \<Rightarrow> nat option"
  place :: "nat \<Rightarrow> fiber_place"
  pendingDebts :: "debt list"
  taken :: "nat \<Rightarrow> debt list"
  released :: "nat \<Rightarrow> (debt \<times> nat) list"
  cpcs :: "nat \<Rightarrow> clean_pc"

definition cleanup_init :: "nat \<Rightarrow> cleanup" where
  "cleanup_init n = \<lparr>holders = n, creditors = (\<lambda>_ _. 0), owedKinds = (\<lambda>_. 0), debts = (\<lambda>_. []), cleanupNext = (\<lambda>_. None), inbound = (\<lambda>_. None),
     place = (\<lambda>_. PPool), pendingDebts = [], taken = (\<lambda>_. []), released = (\<lambda>_. []), cpcs = (\<lambda>_. CIdle)\<rparr>"

section \<open>Creditors and debts\<close>

definition NoteCreditor :: "nat \<Rightarrow> nat \<Rightarrow> cleanup \<Rightarrow> cleanup" where
  "NoteCreditor f w S =
     (if w \<ge> kCreditorWords * 64 then S
      else S\<lparr>creditors := (creditors S)(f := (creditors S f)(w div 64 := creditors S f (w div 64) OR push_bit (w mod 64) 1))\<rparr>)"

definition TakeCreditor :: "nat \<Rightarrow> cleanup \<Rightarrow> (nat \<times> cleanup) option" where
  "TakeCreditor f S = (case find (\<lambda>w. creditors S f w \<noteq> 0) [0..<kCreditorWords] of None \<Rightarrow> None
     | Some w \<Rightarrow> (let cur = creditors S f w
         in Some (w * 64 + CountTrailingZeros64 cur, S\<lparr>creditors := (creditors S)(f := (creditors S f)(w := cur AND (cur - 1)))\<rparr>)))"

definition OwesCleanup :: "nat \<Rightarrow> cleanup \<Rightarrow> bool" where
  "OwesCleanup f S = (owedKinds S f \<noteq> 0)"

text \<open>\<^verbatim>\<open>ReleaseOnWorker\<close>, called by the task on fiber \<open>f\<close>.\<close>

definition ReleaseOnWorker :: "nat \<Rightarrow> nat \<Rightarrow> nat \<Rightarrow> u32 \<Rightarrow> cleanup \<Rightarrow> cleanup" where
  "ReleaseOnWorker f d h kind S =
     (if kind = 0 then S
      else NoteCreditor f h (S\<lparr>debts := (debts S)(f := (d, h) # debts S f), owedKinds := (owedKinds S)(f := owedKinds S f OR kind),
             taken := (taken S)(f := taken S f @ [(d, h)])\<rparr>))"

definition DischargeFiberDebts :: "nat \<Rightarrow> nat \<Rightarrow> cleanup \<Rightarrow> cleanup" where
  "DischargeFiberDebts f h S =
     S\<lparr>debts := (debts S)(f := filter (\<lambda>d. snd d \<noteq> h) (debts S f)),
       released := (released S)(f := released S f @ map (\<lambda>d. (d, h)) (filter (\<lambda>d. snd d = h) (debts S f)))\<rparr>"

text \<open>\<^verbatim>\<open>ResetForReuse\<close>, with \<^verbatim>\<open>HandOffFiberDebts\<close>: the remaining debts go to the pending stack.\<close>

definition ResetForReuse :: "nat \<Rightarrow> cleanup \<Rightarrow> cleanup" where
  "ResetForReuse f S = S\<lparr>creditors := (creditors S)(f := (\<lambda>_. 0)), owedKinds := (owedKinds S)(f := 0), pendingDebts := debts S f @ pendingDebts S,
     debts := (debts S)(f := [])\<rparr>"

section \<open>The chain\<close>

definition set_place :: "nat \<Rightarrow> fiber_place \<Rightarrow> cleanup \<Rightarrow> cleanup" where
  "set_place f p S = S\<lparr>place := (place S)(f := p)\<rparr>"

definition set_cpc :: "nat \<Rightarrow> clean_pc \<Rightarrow> cleanup \<Rightarrow> cleanup" where
  "set_cpc t c S = S\<lparr>cpcs := (cpcs S)(t := c)\<rparr>"

fun continue :: "drain \<Rightarrow> clean_pc" where
  "continue None = CIdle"
| "continue (Some (h, nxt)) = CWalk h nxt"

text \<open>
  A creditor that is no holder of the registry cannot be delivered to: \<^verbatim>\<open>AdvanceCleanup\<close> notes it again and gives up, and no caller looks at the result.
\<close>

definition AdvanceCleanup :: "nat \<Rightarrow> nat \<Rightarrow> drain \<Rightarrow> cleanup \<Rightarrow> cleanup" where
  "AdvanceCleanup t f k S = (case TakeCreditor f S of
      None \<Rightarrow> set_cpc t (CReturn f k) S
    | Some (w, S') \<Rightarrow> if w < holders S then set_cpc t (CLoad f w k) S'
                      else set_cpc t (continue k) (set_place f PLost (NoteCreditor f w S')))"

definition Deliver_cas :: "nat \<Rightarrow> nat \<Rightarrow> nat \<Rightarrow> nat option \<Rightarrow> drain \<Rightarrow> cleanup \<Rightarrow> cleanup" where
  "Deliver_cas t f w head k S0 = (let S = S0\<lparr>cleanupNext := (cleanupNext S0)(f := head)\<rparr> in
     if inbound S w = head then set_cpc t (continue k) (set_place f (PInbound w) (S\<lparr>inbound := (inbound S)(w := Some f)\<rparr>))
     else set_cpc t (CCas f w (inbound S w) k) S)"

definition clean_step :: "nat \<Rightarrow> cleanup \<Rightarrow> cleanup option" where
  "clean_step t S = (case cpcs S t of
      CIdle \<Rightarrow> None
    | CAdvance f k \<Rightarrow> Some (AdvanceCleanup t f k S)
    | CLoad f w k \<Rightarrow> Some (set_cpc t (CCas f w (inbound S w) k) S)
    | CCas f w head k \<Rightarrow> Some (Deliver_cas t f w head k S)
    | CReturn f k \<Rightarrow> Some (set_cpc t (continue k) (set_place f PPool (ResetForReuse f S)))
    | CWalk h None \<Rightarrow> Some (set_cpc t CIdle S)
    | CWalk h (Some f) \<Rightarrow>
        Some (set_cpc t (CAdvance f (Some (h, cleanupNext S f))) (set_place f (PWith t) (DischargeFiberDebts f h (S\<lparr>cleanupNext := (cleanupNext S)(f := None)\<rparr>)))))"

text \<open>\<^verbatim>\<open>DrainHolder\<close> begins with \<^verbatim>\<open>TakeAll\<close>; the fibers of the stack are then the thread's.\<close>

definition DrainHolder :: "nat \<Rightarrow> nat \<Rightarrow> cleanup \<Rightarrow> cleanup option" where
  "DrainHolder t h S =
     (if cpcs S t = CIdle \<and> h < holders S
      then Some (set_cpc t (CWalk h (inbound S h))
        (S\<lparr>inbound := (inbound S)(h := None), place := (\<lambda>f. if place S f = PInbound h then PChain t else place S f)\<rparr>))
      else None)"

text \<open>
  The events: a fiber is taken from the pool, a worker runs it and so becomes its creditor, its task takes on a debt, its task returns on thread \<open>t\<close>, a thread drains a
  holder's stack or performs its next access.
\<close>

datatype clean_op = KTake nat | KRun nat nat | KOwe nat nat nat u32 | KDie nat nat | KDrain nat nat | KThread nat

fun cleanup_step :: "clean_op \<Rightarrow> cleanup \<Rightarrow> cleanup option" where
  "cleanup_step (KTake f) S = (if place S f = PPool then Some (set_place f PRun (ResetForReuse f S)) else None)"
| "cleanup_step (KRun f w) S = (if place S f = PRun \<and> w < holders S then Some (NoteCreditor f w S) else None)"
| "cleanup_step (KOwe f d h kind) S = (if place S f = PRun then Some (ReleaseOnWorker f d h kind S) else None)"
| "cleanup_step (KDie t f) S =
     (if place S f = PRun \<and> cpcs S t = CIdle
      then (if OwesCleanup f S then Some (set_cpc t (CAdvance f None) (set_place f (PWith t) S)) else Some (set_place f PPool S))
      else None)"
| "cleanup_step (KDrain t h) S = DrainHolder t h S"
| "cleanup_step (KThread t) S = clean_step t S"

end
