(* ===== verification/Cleanup_Safety.thy ===== *)
theory Cleanup_Safety
  imports Fiber_Cleanup "HOL-Library.Multiset"
begin

text \<open>
  What the cleanup chain guarantees: a fiber is in one place; every debt is released exactly once, by the drain of the holder it names, before the fiber is in the pool again; and a fiber
  with a debt to an unknown holder is lost.
\<close>

section \<open>Creditors\<close>

definition has :: "cleanup \<Rightarrow> nat \<Rightarrow> nat \<Rightarrow> bool" where
  "has S f k = (k < kCreditorWords * 64 \<and> bit (creditors S f (k div 64)) (k mod 64))"

lemma div_mod_eq: "(j :: nat) div 64 = k div 64 \<and> j mod 64 = k mod 64 \<longleftrightarrow> j = k"
  by (metis div_mult_mod_eq)

lemma NoteCreditor_has:
  "has (NoteCreditor f w S) g k \<longleftrightarrow> has S g k \<or> (g = f \<and> k = w \<and> w < kCreditorWords * 64)"
proof -
  have "bit (push_bit (w mod 64) (1 :: u64)) (k mod 64) \<longleftrightarrow> k mod 64 = w mod 64" by (auto simp: bit_simps)
  then show ?thesis using div_mod_eq [of k w] by (auto simp: has_def NoteCreditor_def bit_or_iff simp del: push_bit_of_1)
qed

lemma TakeCreditor_None: "TakeCreditor f S = None \<Longrightarrow> \<not> has S f k"
proof
  assume n: "TakeCreditor f S = None" and h: "has S f k"
  then have "\<forall>w < kCreditorWords. creditors S f w = 0" by (auto simp: TakeCreditor_def find_None_iff Let_def split: option.splits)
  moreover have "k div 64 < kCreditorWords" using h by (simp add: has_def less_mult_imp_div_less)
  ultimately show False using h by (simp add: has_def)
qed

lemma TakeCreditor_Some:
  assumes "TakeCreditor f S = Some (w, S')"
  shows "has S f w" and "has S' g k \<longleftrightarrow> has S g k \<and> (g = f \<longrightarrow> k \<noteq> w)" and "S' = S\<lparr>creditors := creditors S'\<rparr>"
proof -
  obtain i where i: "i < kCreditorWords" "creditors S f i \<noteq> 0" "w = i * 64 + CountTrailingZeros64 (creditors S f i)"
    "S' = S\<lparr>creditors := (creditors S)(f := (creditors S f)(i := creditors S f i AND (creditors S f i - 1)))\<rparr>"
    using assms by (auto simp: TakeCreditor_def find_Some_iff Let_def split: option.splits)
  note c = ctz_props [OF i(2)]
  have w: "w div 64 = i" "w mod 64 = CountTrailingZeros64 (creditors S f i)" using i(3) c(1) by simp_all
  have "w < kCreditorWords * 64" using i(1,3) c(1) by simp
  then show "has S f w" using w c(2) by (simp add: has_def)
  show "has S' g k \<longleftrightarrow> has S g k \<and> (g = f \<longrightarrow> k \<noteq> w)"
    using bit_clear_lowest [OF i(2), of "k mod 64"] w div_mod_eq [of k w] by (auto simp: has_def i(4))
  show "S' = S\<lparr>creditors := creditors S'\<rparr>" by (simp add: i(4))
qed

section \<open>Chains\<close>

fun chain :: "(nat \<Rightarrow> nat option) \<Rightarrow> nat option \<Rightarrow> nat list \<Rightarrow> bool" where
  "chain nx p [] = (p = None)"
| "chain nx p (f # fs) = (p = Some f \<and> chain nx (nx f) fs)"

lemma chain_frame: "chain nx p fs \<Longrightarrow> f \<notin> set fs \<Longrightarrow> chain (nx(f := v)) p fs"
  by (induction fs arbitrary: p) auto

text \<open>What a thread has in hand, and what is left of the chain it drains.\<close>

fun in_hand :: "clean_pc \<Rightarrow> nat option" where
  "in_hand (CAdvance f k) = Some f"
| "in_hand (CLoad f w k) = Some f"
| "in_hand (CCas f w p k) = Some f"
| "in_hand (CReturn f k) = Some f"
| "in_hand _ = None"

fun draining :: "clean_pc \<Rightarrow> drain" where
  "draining CIdle = None"
| "draining (CAdvance f k) = k"
| "draining (CLoad f w k) = k"
| "draining (CCas f w p k) = k"
| "draining (CReturn f k) = k"
| "draining (CWalk h p) = Some (h, p)"

definition rest_of :: "drain \<Rightarrow> nat option" where
  "rest_of k = (case k of None \<Rightarrow> None | Some (h, p) \<Rightarrow> p)"

lemma continue_simps [simp]: "in_hand (continue k) = None" "draining (continue k) = k"
  by (cases k; auto)+

definition lists_inv :: "(nat \<Rightarrow> nat list) \<Rightarrow> (nat \<Rightarrow> nat list) \<Rightarrow> cleanup \<Rightarrow> bool" where
  "lists_inv st wl S = ((\<forall>h. chain (cleanupNext S) (inbound S h) (st h) \<and> distinct (st h) \<and> (\<forall>f. f \<in> set (st h) \<longleftrightarrow> place S f = PInbound h))
     \<and> (\<forall>t. chain (cleanupNext S) (rest_of (draining (cpcs S t))) (wl t) \<and> distinct (wl t) \<and> (\<forall>f. f \<in> set (wl t) \<longleftrightarrow> place S f = PChain t))
     \<and> (\<forall>t f. in_hand (cpcs S t) = Some f \<longleftrightarrow> place S f = PWith t))"

lemma lists_invD:
  assumes "lists_inv st wl S"
  shows "chain (cleanupNext S) (inbound S h) (st h)" "distinct (st h)" "f \<in> set (st h) \<longleftrightarrow> place S f = PInbound h"
    "chain (cleanupNext S) (rest_of (draining (cpcs S t))) (wl t)" "distinct (wl t)" "f \<in> set (wl t) \<longleftrightarrow> place S f = PChain t"
    "in_hand (cpcs S t) = Some f \<longleftrightarrow> place S f = PWith t"
  using assms unfolding lists_inv_def by blast+

text \<open>A step that moves one fiber, which no list holds before and after, possibly from or to the hand of thread \<open>t\<close>.\<close>

lemma lists_move:
  assumes L: "lists_inv st wl S" and p: "\<And>h. place S f \<noteq> PInbound h" "\<And>u. place S f \<noteq> PChain u" "\<And>h. q \<noteq> PInbound h" "\<And>u. q \<noteq> PChain u"
    and S': "place S' = (place S)(f := q)" "inbound S' = inbound S" "\<And>g. g \<noteq> f \<Longrightarrow> cleanupNext S' g = cleanupNext S g" "cpcs S' = (cpcs S)(t := c)"
    and c: "rest_of (draining c) = rest_of (draining (cpcs S t))" "\<And>g. in_hand c = Some g \<longleftrightarrow> ((place S)(f := q)) g = PWith t"
    and o: "\<And>u. u \<noteq> t \<Longrightarrow> place S f \<noteq> PWith u \<and> q \<noteq> PWith u"
  shows "lists_inv st wl S'"
proof -
  have n: "cleanupNext S' = (cleanupNext S)(f := cleanupNext S' f)" using S'(3) by auto
  have a: "f \<notin> set (st h)" "f \<notin> set (wl u)" for h u using lists_invD(3,6) [OF L] p by auto
  have ch: "chain (cleanupNext S') x fs" if "chain (cleanupNext S) x fs" "f \<notin> set fs" for x fs using chain_frame [OF that] n by metis
  show ?thesis
    unfolding lists_inv_def
  proof (intro conjI allI)
    fix h g
    show "chain (cleanupNext S') (inbound S' h) (st h)" using ch [OF lists_invD(1) [OF L]] a S'(2) by simp
    show "distinct (st h)" by (rule lists_invD(2) [OF L])
    show "g \<in> set (st h) \<longleftrightarrow> place S' g = PInbound h" using lists_invD(3) [OF L, of g h] a(1) [of h] p S'(1) by auto
  next
    fix u g
    show "chain (cleanupNext S') (rest_of (draining (cpcs S' u))) (wl u)"
      using ch [OF lists_invD(4) [OF L, of u] a(2)] c(1) S'(4) by (cases "u = t") auto
    show "distinct (wl u)" by (rule lists_invD(5) [OF L])
    show "g \<in> set (wl u) \<longleftrightarrow> place S' g = PChain u" using lists_invD(6) [OF L, of g u] a(2) [of u] p S'(1) by auto
  next
    fix u g
    show "in_hand (cpcs S' u) = Some g \<longleftrightarrow> place S' g = PWith u"
      using c(2) [of g] lists_invD(7) [OF L, of u g] o [of u] S'(1,4) by (cases "u = t"; cases "g = f") auto
  qed
qed


lemma lists_deliver:
  assumes L: "lists_inv st wl S" and t: "in_hand (cpcs S t) = Some f"
    and S': "S' = set_cpc t (continue (draining (cpcs S t))) (set_place f (PInbound w)
      (S\<lparr>cleanupNext := (cleanupNext S)(f := inbound S w), inbound := (inbound S)(w := Some f)\<rparr>))"
  shows "lists_inv (st(w := f # st w)) wl S'"
proof -
  have p: "place S f = PWith t" using lists_invD(7) [OF L] t by blast
  have a: "f \<notin> set (st h)" "f \<notin> set (wl u)" for h u using lists_invD(3,6) [OF L] p by auto
  show ?thesis
    unfolding lists_inv_def
  proof (intro conjI allI)
    fix h g
    show "chain (cleanupNext S') (inbound S' h) ((st(w := f # st w)) h)"
      using chain_frame [OF lists_invD(1) [OF L, of h] a(1)] by (cases "h = w") (simp_all add: S' set_cpc_def set_place_def)
    show "distinct ((st(w := f # st w)) h)" using lists_invD(2) [OF L] a(1) by simp
    show "g \<in> set ((st(w := f # st w)) h) \<longleftrightarrow> place S' g = PInbound h"
      using lists_invD(3) [OF L, of g h] p by (auto simp: S' set_cpc_def set_place_def)
  next
    fix u g
    show "chain (cleanupNext S') (rest_of (draining (cpcs S' u))) (wl u)"
      using chain_frame [OF lists_invD(4) [OF L, of u] a(2)] by (cases "u = t") (simp_all add: S' set_cpc_def set_place_def)
    show "distinct (wl u)" by (rule lists_invD(5) [OF L])
    show "g \<in> set (wl u) \<longleftrightarrow> place S' g = PChain u" using lists_invD(6) [OF L, of g u] p by (auto simp: S' set_cpc_def set_place_def)
  next
    fix u g
    show "in_hand (cpcs S' u) = Some g \<longleftrightarrow> place S' g = PWith u"
      using lists_invD(7) [OF L, of u g] t p by (auto simp: S' set_cpc_def set_place_def)
  qed
qed

lemma lists_drain:
  assumes L: "lists_inv st wl S" and t: "cpcs S t = CIdle"
    and S': "S' = set_cpc t (CWalk h (inbound S h)) (S\<lparr>inbound := (inbound S)(h := None), place := (\<lambda>f. if place S f = PInbound h then PChain t else place S f)\<rparr>)"
  shows "lists_inv (st(h := [])) (wl(t := st h)) S'"
proof -
  have "rest_of (draining (cpcs S t)) = None" using t by (simp add: rest_of_def)
  then have "wl t = []" using lists_invD(4) [OF L, of t] by (cases "wl t") auto
  then have nc: "place S g \<noteq> PChain t" for g using lists_invD(6) [OF L, of g t] by auto
  show ?thesis
    unfolding lists_inv_def
  proof (intro conjI allI)
    fix k g
    show "chain (cleanupNext S') (inbound S' k) ((st(h := [])) k)" using lists_invD(1) [OF L, of k] by (simp add: S' set_cpc_def)
    show "distinct ((st(h := [])) k)" using lists_invD(2) [OF L] by simp
    show "g \<in> set ((st(h := [])) k) \<longleftrightarrow> place S' g = PInbound k" using lists_invD(3) [OF L, of g k] by (auto simp: S' set_cpc_def)
  next
    fix u g
    show "chain (cleanupNext S') (rest_of (draining (cpcs S' u))) ((wl(t := st h)) u)"
      using lists_invD(1) [OF L, of h] lists_invD(4) [OF L, of u] by (simp add: S' set_cpc_def rest_of_def)
    show "distinct ((wl(t := st h)) u)" using lists_invD(2,5) [OF L] by simp
    show "g \<in> set ((wl(t := st h)) u) \<longleftrightarrow> place S' g = PChain u"
      using lists_invD(3) [OF L, of g h] lists_invD(6) [OF L, of g u] nc [of g] by (auto simp: S' set_cpc_def)
  next
    fix u g
    show "in_hand (cpcs S' u) = Some g \<longleftrightarrow> place S' g = PWith u" using lists_invD(7) [OF L, of u g] t by (auto simp: S' set_cpc_def)
  qed
qed

lemma lists_walk:
  assumes L: "lists_inv st wl S" and t: "cpcs S t = CWalk h (Some f)"
    and S': "place S' = (place S)(f := PWith t)" "cleanupNext S' = (cleanupNext S)(f := None)" "inbound S' = inbound S"
      "cpcs S' = (cpcs S)(t := CAdvance f (Some (h, cleanupNext S f)))"
  obtains fs where "wl t = f # fs" "lists_inv st (wl(t := fs)) S'"
proof -
  obtain fs where w: "wl t = f # fs" "chain (cleanupNext S) (cleanupNext S f) fs"
    using lists_invD(4) [OF L, of t] t by (cases "wl t") (auto simp: rest_of_def)
  have p: "place S f = PChain t" using lists_invD(6) [OF L, of f t] w by simp
  have a: "f \<notin> set fs" "f \<notin> set (st k)" "u \<noteq> t \<Longrightarrow> f \<notin> set (wl u)" for k u
    using lists_invD(5) [OF L, of t] lists_invD(3,6) [OF L] p w(1) by auto
  have "lists_inv st (wl(t := fs)) S'"
    unfolding lists_inv_def
  proof (intro conjI allI)
    fix k g
    show "chain (cleanupNext S') (inbound S' k) (st k)" using chain_frame [OF lists_invD(1) [OF L, of k] a(2)] S'(2,3) by simp
    show "distinct (st k)" by (rule lists_invD(2) [OF L])
    show "g \<in> set (st k) \<longleftrightarrow> place S' g = PInbound k" using lists_invD(3) [OF L, of g k] p S'(1) by auto
  next
    fix u g
    show "chain (cleanupNext S') (rest_of (draining (cpcs S' u))) ((wl(t := fs)) u)"
      using chain_frame [OF w(2) a(1)] chain_frame [OF lists_invD(4) [OF L, of u] a(3)] S'(2,4) by (cases "u = t") (simp_all add: rest_of_def)
    show "distinct ((wl(t := fs)) u)" using lists_invD(5) [OF L, of t] lists_invD(5) [OF L, of u] w(1) by simp
    show "g \<in> set ((wl(t := fs)) u) \<longleftrightarrow> place S' g = PChain u"
      using lists_invD(6) [OF L, of g u] p a(1) w(1) S'(1) by (cases "u = t"; cases "g = f") auto
  next
    fix u g
    show "in_hand (cpcs S' u) = Some g \<longleftrightarrow> place S' g = PWith u"
      using lists_invD(7) [OF L, of u g] t p S'(1,4) by (cases "u = t"; cases "g = f") auto
  qed
  with w(1) show ?thesis by (rule that)
qed

section \<open>Debts\<close>

text \<open>The holder whose release a fiber is on its way to.\<close>

definition due :: "cleanup \<Rightarrow> nat \<Rightarrow> nat option" where
  "due S f = (case place S f of PInbound h \<Rightarrow> Some h | PChain t \<Rightarrow> map_option fst (draining (cpcs S t))
     | PWith t \<Rightarrow> (case cpcs S t of CLoad g w k \<Rightarrow> Some w | CCas g w p k \<Rightarrow> Some w | _ \<Rightarrow> None) | _ \<Rightarrow> None)"

definition fiber_ok :: "cleanup \<Rightarrow> nat \<Rightarrow> bool" where
  "fiber_ok S f = ((\<forall>k. has S f k \<longrightarrow> k < holders S) \<and> place S f \<noteq> PLost \<and> (debts S f \<noteq> [] \<longrightarrow> owedKinds S f \<noteq> 0)
     \<and> (\<forall>x \<in> set (debts S f). snd x < holders S \<and> (has S f (snd x) \<or> due S f = Some (snd x)))
     \<and> (place S f = PPool \<longrightarrow> debts S f = []) \<and> (\<forall>t k. place S f = PWith t \<and> cpcs S t = CReturn f k \<longrightarrow> debts S f = [])
     \<and> mset (taken S f) = image_mset fst (mset (released S f)) + mset (debts S f) \<and> (\<forall>x \<in> set (released S f). snd (fst x) = snd x))"

definition debts_inv :: "cleanup \<Rightarrow> bool" where
  "debts_inv S = ((\<forall>f. fiber_ok S f) \<and> pendingDebts S = [] \<and> holders S \<le> kCreditorWords * 64
     \<and> (\<forall>t f w p k. cpcs S t = CLoad f w k \<or> cpcs S t = CCas f w p k \<longrightarrow> w < holders S))"

lemma fiber_ok_other:
  assumes "fiber_ok S f" and "creditors S' f = creditors S f" "owedKinds S' f = owedKinds S f" "debts S' f = debts S f" "taken S' f = taken S f"
    "released S' f = released S f" "place S' f = place S f" "holders S' = holders S" "due S' f = due S f"
    and "\<And>t k. place S f = PWith t \<Longrightarrow> cpcs S' t = CReturn f k \<Longrightarrow> cpcs S t = CReturn f k"
  shows "fiber_ok S' f"
proof -
  have "has S' f = has S f" using assms(2) by (simp add: has_def fun_eq_iff)
  then show ?thesis using assms unfolding fiber_ok_def by auto
qed

lemma due_other:
  assumes "place S' g = place S g" "cpcs S' = (cpcs S)(t := c)" "place S g \<noteq> PWith t"
    and "place S g = PChain t \<Longrightarrow> map_option fst (draining c) = map_option fst (draining (cpcs S t))"
  shows "due S' g = due S g"
  using assms by (auto simp: due_def split: fiber_place.splits)

text \<open>A step of thread \<open>t\<close> that touches fiber \<open>f\<close> only.\<close>

lemma debts_touch:
  assumes D: "debts_inv S"
    and same: "\<And>g. g \<noteq> f \<Longrightarrow> creditors S' g = creditors S g \<and> owedKinds S' g = owedKinds S g \<and> debts S' g = debts S g \<and> taken S' g = taken S g
      \<and> released S' g = released S g \<and> place S' g = place S g"
    and S': "holders S' = holders S" "pendingDebts S' = []" "cpcs S' = (cpcs S)(t := c)"
    and t: "\<And>g. g \<noteq> f \<Longrightarrow> place S g \<noteq> PWith t"
      "\<And>g. g \<noteq> f \<Longrightarrow> place S g = PChain t \<Longrightarrow> map_option fst (draining c) = map_option fst (draining (cpcs S t))"
      "\<And>g w p k. c = CLoad g w k \<or> c = CCas g w p k \<Longrightarrow> w < holders S"
    and f: "fiber_ok S' f"
  shows "debts_inv S'"
proof -
  have "fiber_ok S' g" for g
  proof (cases "g = f")
    case False
    have "fiber_ok S g" using D by (simp add: debts_inv_def)
    moreover have "due S' g = due S g" using due_other [of S' g S t c] same [OF False] S'(3) t(1,2) [OF False] by simp
    moreover have "cpcs S u = CReturn g k" if "place S g = PWith u" "cpcs S' u = CReturn g k" for u k
      using that t(1) [OF False] S'(3) by (auto split: if_splits)
    ultimately show ?thesis using fiber_ok_other [of S g S'] same [OF False] S'(1) by metis
  qed (simp add: f)
  moreover have "w < holders S'" if "cpcs S' u = CLoad g w k \<or> cpcs S' u = CCas g w p k" for u g w p k
  proof (cases "u = t")
    case True
    then show ?thesis using that t(3) [of g w k p] S'(1,3) by auto
  next
    case False
    then show ?thesis using that D S'(1,3) by (simp add: debts_inv_def) blast
  qed
  ultimately show ?thesis using D S'(1,2) unfolding debts_inv_def by auto
qed

section \<open>Preservation\<close>

definition cleanup_inv :: "cleanup \<Rightarrow> bool" where
  "cleanup_inv S = ((\<exists>st wl. lists_inv st wl S) \<and> debts_inv S)"

lemma cleanup_invD:
  assumes "cleanup_inv S"
  shows "debts_inv S" "fiber_ok S f" "pendingDebts S = []" "holders S \<le> kCreditorWords * 64" "in_hand (cpcs S t) = Some f \<longleftrightarrow> place S f = PWith t"
    "place S f = PChain t \<Longrightarrow> rest_of (draining (cpcs S t)) \<noteq> None"
proof -
  obtain st wl where L: "lists_inv st wl S" using assms by (auto simp: cleanup_inv_def)
  show "debts_inv S" "fiber_ok S f" "pendingDebts S = []" "holders S \<le> kCreditorWords * 64" using assms by (auto simp: cleanup_inv_def debts_inv_def)
  show "in_hand (cpcs S t) = Some f \<longleftrightarrow> place S f = PWith t" by (rule lists_invD(7) [OF L])
  assume "place S f = PChain t"
  then show "rest_of (draining (cpcs S t)) \<noteq> None" using lists_invD(4) [OF L, of t] lists_invD(6) [OF L, of f t] by (cases "wl t") auto
qed

lemma lists_same:
  assumes "cleanup_inv S" "place S' = place S" "inbound S' = inbound S" "cleanupNext S' = cleanupNext S" "cpcs S' = cpcs S"
  shows "\<exists>st wl. lists_inv st wl S'"
  using assms by (simp add: cleanup_inv_def lists_inv_def)

lemma lists_move_ex:
  assumes I: "cleanup_inv S" and p: "\<And>h. place S f \<noteq> PInbound h" "\<And>u. place S f \<noteq> PChain u" "\<And>h. q \<noteq> PInbound h" "\<And>u. q \<noteq> PChain u"
    and S': "place S' = (place S)(f := q)" "inbound S' = inbound S" "\<And>g. g \<noteq> f \<Longrightarrow> cleanupNext S' g = cleanupNext S g" "cpcs S' = (cpcs S)(t := c)"
    and c: "rest_of (draining c) = rest_of (draining (cpcs S t))" "\<And>g. in_hand c = Some g \<longleftrightarrow> ((place S)(f := q)) g = PWith t"
    and o: "\<And>u. u \<noteq> t \<Longrightarrow> place S f \<noteq> PWith u \<and> q \<noteq> PWith u"
  shows "\<exists>st wl. lists_inv st wl S'"
proof -
  obtain st wl where "lists_inv st wl S" using I by (auto simp: cleanup_inv_def)
  then show ?thesis using lists_move [OF _ p S' c o] by metis
qed

text \<open>A step of no thread, on fiber \<open>f\<close> that no thread has.\<close>

lemma debts_own:
  assumes D: "debts_inv S"
    and same: "\<And>g. g \<noteq> f \<Longrightarrow> creditors S' g = creditors S g \<and> owedKinds S' g = owedKinds S g \<and> debts S' g = debts S g \<and> taken S' g = taken S g
      \<and> released S' g = released S g \<and> place S' g = place S g"
    and S': "holders S' = holders S" "pendingDebts S' = []" "cpcs S' = cpcs S" and f: "fiber_ok S' f"
  shows "debts_inv S'"
proof -
  have "fiber_ok S' g" for g
  proof (cases "g = f")
    case False
    have "fiber_ok S g" using D by (simp add: debts_inv_def)
    moreover have "due S' g = due S g" using same [OF False] S'(3) by (simp add: due_def split: fiber_place.splits)
    ultimately show ?thesis using fiber_ok_other [of S g S'] same [OF False] S'(1,3) by metis
  qed (simp add: f)
  then show ?thesis using D S' unfolding debts_inv_def by auto
qed

text \<open>The other fibers are not in the hand of a thread that is idle or has \<open>f\<close>.\<close>

lemma hand_only:
  assumes "cleanup_inv S" "in_hand (cpcs S t) = None \<or> in_hand (cpcs S t) = Some f" "g \<noteq> f"
  shows "place S g \<noteq> PWith t"
  using cleanup_invD(5) [OF assms(1), of t g] assms(2,3) by auto

lemma cpcs_upd: "cpcs S = (cpcs S)(t := cpcs S t)" by simp

lemma fiber_okD:
  assumes "fiber_ok S f"
  shows "has S f k \<Longrightarrow> k < holders S" "place S f \<noteq> PLost" "debts S f \<noteq> [] \<Longrightarrow> owedKinds S f \<noteq> 0" "x \<in> set (debts S f) \<Longrightarrow> snd x < holders S"
    "x \<in> set (debts S f) \<Longrightarrow> has S f (snd x) \<or> due S f = Some (snd x)" "place S f = PPool \<Longrightarrow> debts S f = []"
    "place S f = PWith t \<Longrightarrow> cpcs S t = CReturn f j \<Longrightarrow> debts S f = []"
    "mset (taken S f) = image_mset fst (mset (released S f)) + mset (debts S f)" "y \<in> set (released S f) \<Longrightarrow> snd (fst y) = snd y"
  using assms unfolding fiber_ok_def by blast+

lemma fiber_okI:
  assumes "\<And>k. has S f k \<Longrightarrow> k < holders S" "place S f \<noteq> PLost" "debts S f \<noteq> [] \<Longrightarrow> owedKinds S f \<noteq> 0" "\<And>x. x \<in> set (debts S f) \<Longrightarrow> snd x < holders S"
    "\<And>x. x \<in> set (debts S f) \<Longrightarrow> has S f (snd x) \<or> due S f = Some (snd x)" "place S f = PPool \<Longrightarrow> debts S f = []"
    "\<And>t j. place S f = PWith t \<Longrightarrow> cpcs S t = CReturn f j \<Longrightarrow> debts S f = []"
    "mset (taken S f) = image_mset fst (mset (released S f)) + mset (debts S f)" "\<And>y. y \<in> set (released S f) \<Longrightarrow> snd (fst y) = snd y"
  shows "fiber_ok S f"
  unfolding fiber_ok_def using assms by blast

lemma step_take:
  assumes I: "cleanup_inv S" and p: "place S f = PPool" and e: "S' = set_place f PRun (ResetForReuse f S)"
  shows "cleanup_inv S'"
proof -
  note ok = fiber_okD [OF cleanup_invD(2) [OF I, of f]]
  have d: "debts S f = []" using ok(6) p by simp
  have "\<exists>st wl. lists_inv st wl S'"
    by (rule lists_move_ex [OF I, of f PRun _ 0 "cpcs S 0"]) (use p cleanup_invD(5) [OF I, of 0] in \<open>auto simp: e set_place_def ResetForReuse_def\<close>)
  moreover have "debts_inv S'"
  proof (rule debts_own [OF cleanup_invD(1) [OF I], of f])
    show "fiber_ok S' f" by (rule fiber_okI) (use d ok(8,9) in \<open>auto simp: e set_place_def ResetForReuse_def has_def\<close>)
  qed (use d p cleanup_invD(3) [OF I] in \<open>auto simp: e set_place_def ResetForReuse_def\<close>)
  ultimately show ?thesis by (simp add: cleanup_inv_def)
qed

lemma NoteCreditor_sel [simp]:
  "holders (NoteCreditor f w S) = holders S" "owedKinds (NoteCreditor f w S) = owedKinds S" "debts (NoteCreditor f w S) = debts S"
  "cleanupNext (NoteCreditor f w S) = cleanupNext S" "inbound (NoteCreditor f w S) = inbound S" "place (NoteCreditor f w S) = place S"
  "pendingDebts (NoteCreditor f w S) = pendingDebts S" "taken (NoteCreditor f w S) = taken S" "released (NoteCreditor f w S) = released S"
  "cpcs (NoteCreditor f w S) = cpcs S" "g \<noteq> f \<Longrightarrow> creditors (NoteCreditor f w S) g = creditors S g"
  by (simp_all add: NoteCreditor_def)

lemma due_run: "place S f = PRun \<or> place S f = PPool \<Longrightarrow> due S f = None"
  by (auto simp: due_def)

lemma step_run:
  assumes I: "cleanup_inv S" and p: "place S f = PRun" "w < holders S" and e: "S' = NoteCreditor f w S"
  shows "cleanup_inv S'"
proof -
  note ok = fiber_okD [OF cleanup_invD(2) [OF I, of f]]
  have "debts_inv S'"
  proof (rule debts_own [OF cleanup_invD(1) [OF I], of f])
    show "fiber_ok S' f" by (rule fiber_okI) (use ok p due_run [of S f] in \<open>auto simp: e NoteCreditor_has\<close>)
  qed (use cleanup_invD(3) [OF I] in \<open>auto simp: e\<close>)
  then show ?thesis using lists_same [OF I, of S'] by (simp add: cleanup_inv_def e)
qed

lemma has_creditors: "creditors S' = creditors S \<Longrightarrow> has S' = has S"
  by (simp add: has_def fun_eq_iff)

lemma or_nonzero: "kind \<noteq> 0 \<Longrightarrow> x OR kind \<noteq> (0 :: u32)"
  by (metis or_eq_0_iff)

lemma step_owe:
  assumes I: "cleanup_inv S" and p: "place S f = PRun" "h < holders S" and e: "S' = ReleaseOnWorker f d h kind S"
  shows "cleanup_inv S'"
proof (cases "kind = 0")
  case False
  define M where "M = S\<lparr>debts := (debts S)(f := (d, h) # debts S f), owedKinds := (owedKinds S)(f := owedKinds S f OR kind),
             taken := (taken S)(f := taken S f @ [(d, h)])\<rparr>"
  have e': "S' = NoteCreditor f h M" using False by (simp add: e ReleaseOnWorker_def M_def)
  have hM: "has M = has S" by (rule has_creditors) (simp add: M_def)
  have M: "holders M = holders S" "place M = place S" "debts M f = (d, h) # debts S f" "owedKinds M f \<noteq> 0" "taken M f = taken S f @ [(d, h)]"
    "released M = released S" "cpcs M = cpcs S" "inbound M = inbound S" "cleanupNext M = cleanupNext S" "pendingDebts M = pendingDebts S"
    using or_nonzero [OF False] by (simp_all add: M_def)
  note ok = fiber_okD [OF cleanup_invD(2) [OF I, of f]]
  have "debts_inv S'"
  proof (rule debts_own [OF cleanup_invD(1) [OF I], of f])
    show "fiber_ok S' f"
      by (rule fiber_okI) (use ok p M due_run [of S f] cleanup_invD(4) [OF I] in \<open>auto simp: e' NoteCreditor_has hM\<close>)
  qed (use cleanup_invD(3) [OF I] in \<open>auto simp: e' M_def\<close>)
  then show ?thesis using lists_same [OF I, of S'] M by (simp add: cleanup_inv_def e')
qed (use I in \<open>simp add: e ReleaseOnWorker_def\<close>)

lemma clean_sel [simp]:
  "holders (set_place f p S) = holders S" "owedKinds (set_place f p S) = owedKinds S" "debts (set_place f p S) = debts S"
  "cleanupNext (set_place f p S) = cleanupNext S" "inbound (set_place f p S) = inbound S" "place (set_place f p S) = (place S)(f := p)"
  "pendingDebts (set_place f p S) = pendingDebts S" "taken (set_place f p S) = taken S" "released (set_place f p S) = released S"
  "cpcs (set_place f p S) = cpcs S" "creditors (set_place f p S) = creditors S" "has (set_place f p S) = has S"
  "holders (set_cpc t c S) = holders S" "owedKinds (set_cpc t c S) = owedKinds S" "debts (set_cpc t c S) = debts S"
  "cleanupNext (set_cpc t c S) = cleanupNext S" "inbound (set_cpc t c S) = inbound S" "place (set_cpc t c S) = place S"
  "pendingDebts (set_cpc t c S) = pendingDebts S" "taken (set_cpc t c S) = taken S" "released (set_cpc t c S) = released S"
  "cpcs (set_cpc t c S) = (cpcs S)(t := c)" "creditors (set_cpc t c S) = creditors S" "has (set_cpc t c S) = has S"
  by (simp_all add: set_place_def set_cpc_def has_def fun_eq_iff)

lemma step_die:
  assumes I: "cleanup_inv S" and p: "place S f = PRun" "cpcs S t = CIdle" and e: "S' = set_cpc t (CAdvance f None) (set_place f (PWith t) S)"
  shows "cleanup_inv S'"
proof -
  note ok = fiber_okD [OF cleanup_invD(2) [OF I, of f]]
  have n: "place S g \<noteq> PWith t" for g using cleanup_invD(5) [OF I, of t g] p by auto
  have "\<exists>st wl. lists_inv st wl S'"
    by (rule lists_move_ex [OF I, of f "PWith t" _ t "CAdvance f None"]) (use p n in \<open>auto simp: e rest_of_def\<close>)
  moreover have "debts_inv S'"
  proof (rule debts_touch [OF cleanup_invD(1) [OF I], of f _ t "CAdvance f None"])
    show "fiber_ok S' f" by (rule fiber_okI) (use ok p due_run [of S f] in \<open>auto simp: e\<close>)
  qed (use p n cleanup_invD(3) [OF I] cleanup_invD(6) [OF I] in \<open>auto simp: e rest_of_def\<close>)
  ultimately show ?thesis by (simp add: cleanup_inv_def)
qed

lemma step_pool:
  assumes I: "cleanup_inv S" and p: "place S f = PRun" "\<not> OwesCleanup f S" and e: "S' = set_place f PPool S"
  shows "cleanup_inv S'"
proof -
  note ok = fiber_okD [OF cleanup_invD(2) [OF I, of f]]
  have d: "debts S f = []" using ok(3) p(2) by (auto simp: OwesCleanup_def)
  have "\<exists>st wl. lists_inv st wl S'"
    by (rule lists_move_ex [OF I, of f PPool _ 0 "cpcs S 0"]) (use p cleanup_invD(5) [OF I, of 0] in \<open>auto simp: e\<close>)
  moreover have "debts_inv S'"
  proof (rule debts_own [OF cleanup_invD(1) [OF I], of f])
    show "fiber_ok S' f" by (rule fiber_okI) (use d ok in \<open>auto simp: e\<close>)
  qed (use cleanup_invD(3) [OF I] in \<open>auto simp: e\<close>)
  ultimately show ?thesis by (simp add: cleanup_inv_def)
qed

text \<open>Draining: the fibers of the stack of \<open>h\<close> stay due to \<open>h\<close>.\<close>

lemma step_drain:
  assumes I: "cleanup_inv S" and S': "DrainHolder t h S = Some S'"
  shows "cleanup_inv S'"
proof -
  have t: "cpcs S t = CIdle" and e: "S' = set_cpc t (CWalk h (inbound S h))
      (S\<lparr>inbound := (inbound S)(h := None), place := (\<lambda>f. if place S f = PInbound h then PChain t else place S f)\<rparr>)"
    using S' by (auto simp: DrainHolder_def split: if_splits)
  obtain st wl where "lists_inv st wl S" using I by (auto simp: cleanup_inv_def)
  then have L: "\<exists>st wl. lists_inv st wl S'" using lists_drain [OF _ t e] by blast
  have n: "place S g \<noteq> PWith t" "place S g \<noteq> PChain t" for g
    using cleanup_invD(5) [OF I, of t g] cleanup_invD(6) [OF I, of g t] t by (auto simp: rest_of_def)
  have h: "has S' = has S" by (rule has_creditors) (simp add: e)
  have pl: "place S' g = (if place S g = PInbound h then PChain t else place S g)" for g by (simp add: e)
  have du: "due S' g = due S g" for g
    using n [of g] by (simp add: due_def pl) (auto simp: e split: fiber_place.splits)
  have "fiber_ok S' f" for f
  proof (rule fiber_okI)
    note ok = fiber_okD [OF cleanup_invD(2) [OF I, of f]]
    show "debts S' f = []" if "place S' f = PWith u" "cpcs S' u = CReturn f j" for u j
      using ok(7) [of u j] that n [of f] by (auto simp: e split: if_splits)
  qed (use fiber_okD [OF cleanup_invD(2) [OF I, of f]] in \<open>simp_all add: h du, auto simp: e split: if_splits\<close>)
  moreover have "w < holders S'" if "cpcs S' u = CLoad g w k \<or> cpcs S' u = CCas g w p k" for u g w p k
    using that cleanup_invD(1) [OF I] by (auto simp: e debts_inv_def split: if_splits)
  moreover have "pendingDebts S' = []" "holders S' \<le> kCreditorWords * 64" using cleanup_invD(3,4) [OF I] by (simp_all add: e)
  ultimately show ?thesis using L unfolding cleanup_inv_def debts_inv_def by blast
qed

text \<open>A step of the thread that has \<open>f\<close> in hand and keeps it there.\<close>

lemma step_hold:
  assumes I: "cleanup_inv S" and t: "in_hand (cpcs S t) = Some f" "in_hand c = Some f" "draining c = draining (cpcs S t)"
    and e: "S' = S\<lparr>creditors := (creditors S)(f := cr), cleanupNext := (cleanupNext S)(f := nx), cpcs := (cpcs S)(t := c)\<rparr>"
    and w: "\<And>g w p k. c = CLoad g w k \<or> c = CCas g w p k \<Longrightarrow> w < holders S" and ok: "fiber_ok S' f"
  shows "cleanup_inv S'"
proof -
  have p: "place S f = PWith t" using cleanup_invD(5) [OF I] t(1) by blast
  have only: "g \<noteq> f \<Longrightarrow> place S g \<noteq> PWith t" for g using hand_only [OF I] t(1) by blast
  have "\<exists>st wl. lists_inv st wl S'"
    by (rule lists_move_ex [OF I, of f "PWith t" _ t c]) (use p only t in \<open>auto simp: e\<close>)
  moreover have "debts_inv S'"
    by (rule debts_touch [OF cleanup_invD(1) [OF I] _ _ _ _ _ _ w ok, of t c]) (use only t cleanup_invD(3) [OF I] in \<open>auto simp: e\<close>)
  ultimately show ?thesis by (simp add: cleanup_inv_def)
qed

lemma due_with: "place S f = PWith t \<Longrightarrow> due S f = (case cpcs S t of CLoad g w k \<Rightarrow> Some w | CCas g w p k \<Rightarrow> Some w | _ \<Rightarrow> None)"
  by (simp add: due_def)

lemma step_advance:
  assumes I: "cleanup_inv S" and t: "cpcs S t = CAdvance f k" and e: "S' = AdvanceCleanup t f k S"
  shows "cleanup_inv S'"
proof -
  have p: "place S f = PWith t" using cleanup_invD(5) [OF I, of t f] t by simp
  note ok = fiber_okD [OF cleanup_invD(2) [OF I, of f]]
  have nd: "due S f = None" using due_with [OF p] t by simp
  show ?thesis
  proof (cases "TakeCreditor f S")
    case None
    then have e': "S' = S\<lparr>creditors := (creditors S)(f := creditors S f), cleanupNext := (cleanupNext S)(f := cleanupNext S f), cpcs := (cpcs S)(t := CReturn f k)\<rparr>"
      by (simp add: e AdvanceCleanup_def set_cpc_def)
    have h: "has S' = has S" by (rule has_creditors) (simp add: e')
    have "debts S f = []" using ok(5) nd TakeCreditor_None [OF None] by (cases "debts S f") auto
    then have "fiber_ok S' f" by (intro fiber_okI) (use ok in \<open>simp_all add: h, auto simp: e'\<close>)
    with step_hold [OF I _ _ _ e'] t show ?thesis by simp
  next
    case (Some x)
    obtain w S1 where x: "x = (w, S1)" by (cases x)
    note T = TakeCreditor_Some [OF Some [unfolded x]]
    have w: "w < holders S" by (rule ok(1) [OF T(1)])
    have e1: "S1 = S\<lparr>creditors := (creditors S)(f := creditors S1 f)\<rparr>"
      using Some by (auto simp: x TakeCreditor_def Let_def split: option.splits)
    have S'1: "S' = set_cpc t (CLoad f w k) S1" using w by (simp add: e AdvanceCleanup_def Some x)
    then have e': "S' = S\<lparr>creditors := (creditors S)(f := creditors S1 f), cleanupNext := (cleanupNext S)(f := cleanupNext S f), cpcs := (cpcs S)(t := CLoad f w k)\<rparr>"
      by (subst S'1, subst e1) (simp add: set_cpc_def)
    have h: "has S' f j \<longleftrightarrow> has S f j \<and> j \<noteq> w" for j using T(2) [of f j] by (simp add: S'1)
    have du: "due S' f = Some w" using p by (simp add: due_def e')
    have "fiber_ok S' f" by (intro fiber_okI) (use ok nd p in \<open>simp_all add: h du, auto simp: e'\<close>)
    with step_hold [OF I _ _ _ e'] t w show ?thesis by simp
  qed
qed

text \<open>A step that is not a change of hands keeps \<open>due\<close>.\<close>

lemma step_aim:
  assumes I: "cleanup_inv S" and t: "cpcs S t = CLoad f w k \<or> cpcs S t = CCas f w q k"
    and e: "S' = S\<lparr>cleanupNext := (cleanupNext S)(f := nx), cpcs := (cpcs S)(t := CCas f w p' k)\<rparr>"
  shows "cleanup_inv S'"
proof -
  have p: "place S f = PWith t" using cleanup_invD(5) [OF I, of t f] t by auto
  have e': "S' = S\<lparr>creditors := (creditors S)(f := creditors S f), cleanupNext := (cleanupNext S)(f := nx), cpcs := (cpcs S)(t := CCas f w p' k)\<rparr>"
    by (simp add: e)
  have w: "w < holders S" using t cleanup_invD(1) [OF I] by (auto simp: debts_inv_def)
  have h: "has S' = has S" by (rule has_creditors) (simp add: e)
  have du: "due S' f = due S f" using p t by (auto simp: due_def e)
  have sel: "debts S' = debts S" "released S' = released S" "taken S' = taken S" "holders S' = holders S" "place S' = place S" "owedKinds S' = owedKinds S"
    "cpcs S' t = CCas f w p' k" by (simp_all add: e)
  have "fiber_ok S' f"
  proof (rule fiber_okI)
    show "debts S' f = []" if "place S' f = PWith u" "cpcs S' u = CReturn f j" for u j using that p sel by auto
  qed (use fiber_okD [OF cleanup_invD(2) [OF I, of f]] in \<open>simp_all add: h du sel\<close>)
  moreover have "in_hand (cpcs S t) = Some f" "draining (cpcs S t) = k" using t by auto
  ultimately show ?thesis using step_hold [OF I _ _ _ e'] w by simp
qed

lemma step_return:
  assumes I: "cleanup_inv S" and t: "cpcs S t = CReturn f k" and e: "S' = set_cpc t (continue k) (set_place f PPool (ResetForReuse f S))"
  shows "cleanup_inv S'"
proof -
  have p: "place S f = PWith t" using cleanup_invD(5) [OF I, of t f] t by simp
  note ok = fiber_okD [OF cleanup_invD(2) [OF I, of f]]
  have only: "g \<noteq> f \<Longrightarrow> place S g \<noteq> PWith t" for g by (rule hand_only [OF I]) (simp_all add: t)
  have d: "debts S f = []" by (rule ok(7) [OF p t])
  have c: "\<And>g w p. continue k \<noteq> CLoad g w j \<and> continue k \<noteq> CCas g w p j" for j by (cases k) auto
  have "\<exists>st wl. lists_inv st wl S'"
    by (rule lists_move_ex [OF I, of f PPool _ t "continue k"]) (use p only t in \<open>auto simp: e ResetForReuse_def\<close>)
  moreover have "debts_inv S'"
  proof (rule debts_touch [OF cleanup_invD(1) [OF I], of f _ t "continue k"])
    show "fiber_ok S' f" by (rule fiber_okI) (use d ok(8,9) in \<open>auto simp: e ResetForReuse_def has_def\<close>)
  qed (use only t d c cleanup_invD(3) [OF I] in \<open>auto simp: e ResetForReuse_def\<close>)
  ultimately show ?thesis by (simp add: cleanup_inv_def)
qed

lemma step_deliver:
  assumes I: "cleanup_inv S" and t: "cpcs S t = CCas f w (inbound S w) k"
    and e: "S' = set_cpc t (continue k) (set_place f (PInbound w) (S\<lparr>cleanupNext := (cleanupNext S)(f := inbound S w), inbound := (inbound S)(w := Some f)\<rparr>))"
  shows "cleanup_inv S'"
proof -
  obtain st wl where "lists_inv st wl S" using I by (auto simp: cleanup_inv_def)
  then have L: "\<exists>st wl. lists_inv st wl S'" using lists_deliver [of st wl S t f S' w] t e by auto
  have p: "place S f = PWith t" using cleanup_invD(5) [OF I, of t f] t by simp
  note ok = fiber_okD [OF cleanup_invD(2) [OF I, of f]]
  have only: "g \<noteq> f \<Longrightarrow> place S g \<noteq> PWith t" for g by (rule hand_only [OF I]) (simp_all add: t)
  have c: "\<And>g w p. continue k \<noteq> CLoad g w j \<and> continue k \<noteq> CCas g w p j" for j by (cases k) auto
  have h: "has S' = has S" by (rule has_creditors) (simp add: e)
  have du: "due S f = Some w" "due S' f = Some w" using p t by (simp_all add: due_def e)
  have "debts_inv S'"
  proof (rule debts_touch [OF cleanup_invD(1) [OF I], of f _ t "continue k"])
    show "fiber_ok S' f" by (rule fiber_okI) (use ok du in \<open>simp_all add: h, auto simp: e\<close>)
  qed (use only t c cleanup_invD(3) [OF I] in \<open>auto simp: e\<close>)
  with L show ?thesis by (simp add: cleanup_inv_def)
qed

lemma step_walk_end:
  assumes I: "cleanup_inv S" and t: "cpcs S t = CWalk h None" and e: "S' = set_cpc t CIdle S"
  shows "cleanup_inv S'"
proof -
  have n: "place S g \<noteq> PWith t" "place S g \<noteq> PChain t" for g
    using cleanup_invD(5) [OF I, of t g] cleanup_invD(6) [OF I, of g t] t by (auto simp: rest_of_def)
  obtain st wl where l: "lists_inv st wl S" using I by (auto simp: cleanup_inv_def)
  have "lists_inv st wl S'"
    unfolding lists_inv_def
  proof (intro conjI allI)
    fix u g
    show "chain (cleanupNext S') (rest_of (draining (cpcs S' u))) (wl u)"
      using lists_invD(4) [OF l, of u] t by (cases "u = t") (simp_all add: e rest_of_def)
    show "in_hand (cpcs S' u) = Some g \<longleftrightarrow> place S' g = PWith u" using lists_invD(7) [OF l, of u g] t by (cases "u = t") (simp_all add: e)
  qed (use lists_invD(1,2,3,5,6) [OF l] in \<open>simp_all add: e\<close>)
  moreover have "debts_inv S'"
  proof (rule debts_touch [OF cleanup_invD(1) [OF I], of 0 _ t CIdle])
    have du: "due S' 0 = due S 0" using n [of 0] by (auto simp: due_def e split: fiber_place.splits)
    show "fiber_ok S' 0"
      by (rule fiber_ok_other [OF cleanup_invD(2) [OF I, of 0], of S']) (use du n [of 0] in \<open>auto simp: e split: if_splits\<close>)
  qed (use n cleanup_invD(3) [OF I] in \<open>auto simp: e\<close>)
  ultimately show ?thesis by (auto simp: cleanup_inv_def)
qed

lemma step_walk:
  assumes I: "cleanup_inv S" and t: "cpcs S t = CWalk h (Some f)"
    and e: "S' = set_cpc t (CAdvance f (Some (h, cleanupNext S f))) (set_place f (PWith t) (DischargeFiberDebts f h (S\<lparr>cleanupNext := (cleanupNext S)(f := None)\<rparr>)))"
  shows "cleanup_inv S'"
proof -
  obtain st wl where l: "lists_inv st wl S" using I by (auto simp: cleanup_inv_def)
  then obtain fs where w: "wl t = f # fs" "lists_inv st (wl(t := fs)) S'"
    by (rule lists_walk [OF _ t, of _ _ S']) (auto simp: e DischargeFiberDebts_def)
  have p: "place S f = PChain t" using lists_invD(6) [OF l, of f t] w(1) by simp
  note ok = fiber_okD [OF cleanup_invD(2) [OF I, of f]]
  have only: "place S g \<noteq> PWith t" for g using cleanup_invD(5) [OF I, of t g] t by simp
  have h: "has S' = has S" by (rule has_creditors) (simp add: e DischargeFiberDebts_def)
  have du: "due S f = Some h" using p t by (simp add: due_def)
  have sel: "debts S' f = filter (\<lambda>d. snd d \<noteq> h) (debts S f)" "released S' f = released S f @ map (\<lambda>d. (d, h)) (filter (\<lambda>d. snd d = h) (debts S f))"
    "taken S' = taken S" "holders S' = holders S" "place S' f = PWith t" "cpcs S' t = CAdvance f (Some (h, cleanupNext S f))" "owedKinds S' = owedKinds S"
    by (simp_all add: e DischargeFiberDebts_def)
  have "debts_inv S'"
  proof (rule debts_touch [OF cleanup_invD(1) [OF I], of f _ t "CAdvance f (Some (h, cleanupNext S f))"])
    show "fiber_ok S' f"
    proof (rule fiber_okI)
      show "mset (taken S' f) = image_mset fst (mset (released S' f)) + mset (debts S' f)"
        using ok(8) multiset_partition [of "mset (debts S f)" "\<lambda>d. snd d = h"] by (simp add: sel multiset.map_comp comp_def)
      show "owedKinds S' f \<noteq> 0" if "debts S' f \<noteq> []" using that ok(3) by (cases "debts S f") (auto simp: sel)
      show "has S' f (snd x) \<or> due S' f = Some (snd x)" if "x \<in> set (debts S' f)" for x using that ok(5) [of x] du by (auto simp: h sel)
      show "\<And>k. has S' f k \<Longrightarrow> k < holders S'" using ok(1) by (simp add: h sel)
      show "\<And>x. x \<in> set (debts S' f) \<Longrightarrow> snd x < holders S'" using ok(4) by (simp add: sel)
      show "\<And>x. x \<in> set (released S' f) \<Longrightarrow> snd (fst x) = snd x" using ok(9) by (auto simp: sel)
      show "debts S' f = []" if "place S' f = PWith u" "cpcs S' u = CReturn f j" for u j using that sel by auto
    qed (simp_all add: sel)
  qed (use only t cleanup_invD(3) [OF I] in \<open>auto simp: e DischargeFiberDebts_def\<close>)
  with w(2) show ?thesis by (auto simp: cleanup_inv_def)
qed

lemma clean_step_inv:
  assumes I: "cleanup_inv S" and S': "clean_step t S = Some S'"
  shows "cleanup_inv S'"
proof (cases "cpcs S t")
  case (CAdvance f k)
  then show ?thesis using step_advance [OF I CAdvance] S' by (simp add: clean_step_def)
next
  case (CLoad f w k)
  then have "S' = S\<lparr>cleanupNext := (cleanupNext S)(f := cleanupNext S f), cpcs := (cpcs S)(t := CCas f w (inbound S w) k)\<rparr>"
    using S' by (simp add: clean_step_def set_cpc_def)
  then show ?thesis using step_aim [OF I] CLoad by blast
next
  case (CCas f w head k)
  then have e: "S' = Deliver_cas t f w head k S" using S' by (simp add: clean_step_def)
  show ?thesis
  proof (cases "inbound S w = head")
    case True
    then have "cpcs S t = CCas f w (inbound S w) k" using CCas by simp
    from step_deliver [OF I this, of S'] show ?thesis using e True by (simp add: Deliver_cas_def Let_def)
  next
    case False
    then have "S' = S\<lparr>cleanupNext := (cleanupNext S)(f := head), cpcs := (cpcs S)(t := CCas f w (inbound S w) k)\<rparr>"
      using e by (simp add: Deliver_cas_def set_cpc_def)
    then show ?thesis using step_aim [OF I] CCas by blast
  qed
next
  case (CReturn f k)
  then show ?thesis using step_return [OF I CReturn] S' by (simp add: clean_step_def)
next
  case (CWalk h p)
  then show ?thesis using step_walk_end [OF I] step_walk [OF I] S' by (cases p) (auto simp: clean_step_def)
qed (use S' in \<open>simp add: clean_step_def\<close>)

text \<open>A debt is proper when it names a holder of the registry.\<close>

fun proper_debt :: "nat \<Rightarrow> clean_op \<Rightarrow> bool" where
  "proper_debt n (KOwe f d h kind) = (h < n)"
| "proper_debt n _ = True"

lemma cleanup_step_inv:
  assumes "cleanup_inv S" "proper_debt (holders S) x" "cleanup_step x S = Some S'"
  shows "cleanup_inv S'"
  using assms
  by (cases x) (auto split: if_splits intro: step_take step_run step_owe step_die step_pool step_drain clean_step_inv)

lemma cleanup_init_inv: "n \<le> kCreditorWords * 64 \<Longrightarrow> cleanup_inv (cleanup_init n)"
proof -
  assume n: "n \<le> kCreditorWords * 64"
  have "lists_inv (\<lambda>_. []) (\<lambda>_. []) (cleanup_init n)" by (simp add: lists_inv_def cleanup_init_def rest_of_def)
  moreover have "debts_inv (cleanup_init n)" using n by (simp add: debts_inv_def fiber_ok_def cleanup_init_def has_def)
  ultimately show ?thesis by (auto simp: cleanup_inv_def)
qed

definition proper_step :: "clean_op \<Rightarrow> cleanup \<Rightarrow> cleanup option" where
  "proper_step x S = (if proper_debt (holders S) x then cleanup_step x S else None)"

text \<open>The contract holds from every registry whose holders have a creditor bit each.\<close>

definition registry_inv :: "nat \<Rightarrow> cleanup \<Rightarrow> bool" where
  "registry_inv n S \<longleftrightarrow> (n \<le> kCreditorWords * 64 \<longrightarrow> cleanup_inv S)"

interpretation fc: step_invariant proper_step "cleanup_init n" "registry_inv n" for n
  by unfold_locales (auto simp: registry_inv_def proper_step_def cleanup_init_inv intro: cleanup_step_inv split: if_splits)

section \<open>What the cleanup guarantees\<close>

text \<open>C18: In a registry of at most 384 holders, when every debt names one of them: each debt a fiber took on is released at most once, by a drain of the holder it names; a fiber that is in
  the pool has had all of its debts released, and none is ever left over for release on another thread; and when every inbound stack is empty and no thread is in a cleanup, every
  fiber that does not run a task is in the pool.\<close>

theorem fiber_debts_released:
  assumes "exec proper_step as (cleanup_init n) = Some S" and "n \<le> kCreditorWords * 64"
  shows "mset (taken S f) = image_mset fst (mset (released S f)) + mset (debts S f) \<and> (\<forall>x \<in> set (released S f). snd (fst x) = snd x)
    \<and> (place S f = PPool \<longrightarrow> debts S f = []) \<and> pendingDebts S = []
    \<and> ((\<forall>h. inbound S h = None) \<and> (\<forall>t. cpcs S t = CIdle) \<and> place S f \<noteq> PRun \<longrightarrow> place S f = PPool)"
proof -
  have I: "cleanup_inv S" using fc.inv_exec [OF assms(1)] assms(2) by (simp add: registry_inv_def)
  note ok = fiber_okD [OF cleanup_invD(2) [OF I, of f]]
  obtain st wl where L: "lists_inv st wl S" using I by (auto simp: cleanup_inv_def)
  have "place S f = PPool" if "\<forall>h. inbound S h = None" "\<forall>t. cpcs S t = CIdle" "place S f \<noteq> PRun"
  proof (cases "place S f")
    case (PWith t) then show ?thesis using cleanup_invD(5) [OF I, of t f] that(2) by simp
  next
    case (PChain t) then show ?thesis using cleanup_invD(6) [OF I, of f t] that(2) by (simp add: rest_of_def)
  next
    case (PInbound h)
    have "st h = []" using lists_invD(1) [OF L, of h] that(1) by (cases "st h") auto
    then show ?thesis using lists_invD(3) [OF L, of f h] PInbound by simp
  qed (use ok(2) that(3) in simp_all)
  then show ?thesis using ok(6,8,9) cleanup_invD(3) [OF I] by blast
qed

text \<open>Fiber 0 runs on the workers 0 and 1 and takes on a debt to each.\<close>

definition cleanup_run :: "clean_op list" where
  "cleanup_run = [KTake 0, KRun 0 0, KOwe 0 7 1 2, KOwe 0 8 0 2, KRun 0 1, KDie 1 0] @ replicate 3 (KThread 1) @ [KDrain 0 0] @ replicate 5 (KThread 0)
     @ [KDrain 1 1] @ replicate 4 (KThread 1)"

lemma cleanup_run_ends:
  "\<exists>S. exec proper_step cleanup_run (cleanup_init 2) = Some S \<and> place S 0 = PPool \<and> taken S 0 = [(7, 1), (8, 0)] \<and> released S 0 = [((8, 0), 0), ((7, 1), 1)]"
  by (rule exec_ex) code_simp

theorem fiber_debts_released_witness:
  "\<exists>S. exec proper_step cleanup_run (cleanup_init 2) = Some S \<and> place S 0 = PPool \<and> length (taken S 0) = 2 \<and> debts S 0 = []"
proof -
  obtain S where S: "exec proper_step cleanup_run (cleanup_init 2) = Some S" "place S 0 = PPool" "taken S 0 = [(7, 1), (8, 0)]" using cleanup_run_ends by blast
  then show ?thesis using fiber_debts_released [OF S(1), of 0] by (simp add: kCreditorWords_def)
qed

text \<open>A debt to a number that is no holder: the fiber ends up neither in a stack nor in the pool.\<close>

lemma unknown_holder_loses_fiber:
  "\<exists>S. exec cleanup_step [KTake 0, KOwe 0 7 5 2, KDie 0 0, KThread 0] (cleanup_init 2) = Some S \<and> place S 0 = PLost \<and> cpcs S 0 = CIdle"
  by (rule exec_ex) code_simp

end
