(* ===== verification/Spec2Isabelle.thy ===== *)
theory Spec2Isabelle
  imports Deque_Protocol Mpsc_Queue Cancel_Token Wait_Group Dag_Execution Timer_Service Mutex_Run Sched_Condvar Epoch_Safety Task_Allocator Fiber_Wakeup Hazard_Protection
    Parallel_Cursor Cleanup_Safety
begin

text \<open>
  \<^bold>\<open>JLib Scheduler: a verification development.\<close>

  The program is a user-level task scheduler in C++20. Worker threads (\<^verbatim>\<open>src/Thread.cpp\<close>) run tasks
  (\<^verbatim>\<open>include/Task.h\<close>) on fibers, as coroutines, or directly. A task reaches a worker through the worker's own
  work-stealing deque (\<^verbatim>\<open>include/TaskDeque.h\<close>), through an inbox any thread may push to
  (\<^verbatim>\<open>include/TaskMPSCQueue.h\<close>), or by being stolen. Completion is counted in wait groups
  (\<^verbatim>\<open>include/WaitGroup.h\<close>); dependencies between tasks form graphs that push a task when its gate opens
  (\<^verbatim>\<open>src/TaskDAG.cpp\<close>); cancellation scopes (\<^verbatim>\<open>src/CancelToken.cpp\<close>) stop tasks cooperatively and are
  cancelled by timers (\<^verbatim>\<open>src/Timer.cpp\<close>). Tasks block on a mutex, a semaphore and a condition variable of the
  scheduler's own (\<^verbatim>\<open>TaskScheduler.h\<close>, \<^verbatim>\<open>TaskScheduler.cpp\<close>), whose waiters a cancellation ejects. Nodes
  that are shared without locks are reclaimed by epochs (\<^verbatim>\<open>include/Epochs.h\<close>).

  \<^bold>\<open>How code is modelled.\<close> Structures are records, enumerations are datatypes, 64- and 32-bit fields whose
  overflow or packing matters are words, and every operation is an executable function on the state. Where threads interleave,
  the unit of a step is one atomic access, or one region under a lock, and the system is a list of events executed by
  \<open>exec\<close> of \<open>Sched_Prelude\<close>: an event that is not possible in a state is refused (\<open>None\<close>), so
  that a theorem about \<open>exec step s0 es = Some s\<close> speaks of every interleaving of any number of threads. Invariants
  are proved once per system through the locale \<open>step_invariant\<close>, interpreted on that system's step function.
  Memory is sequentially consistent, except in \<open>Epoch_Manager\<close> and \<open>Hazard_Pointer\<close>, where stores go through store buffers because the
  code's ordering argument is what is at stake. Addresses are abstract natural numbers or words; the heap allocator, thread
  creation and the clock are arguments of the definitions or values carried by events.

  \<^bold>\<open>Sched_Prelude.\<close> Machine types, powers of two and masks, lists, maps, runs and \<open>step_invariant\<close>.

  \<^bold>\<open>The work-stealing deque.\<close> \<open>Task_Deque\<close> follows \<^verbatim>\<open>include/TaskDeque.h\<close>: the tag bits a slot
  carries beside the task pointer, the ring, \<open>grow\<close>, \<open>push_bottom\<close>, \<open>push_bottom_batch\<close>,
  \<open>pop_bottom\<close>, \<open>steal_if\<close>. It shows that tags and pointers are recovered, that each operation acts on
  the contents as on a list, on every branch including the capacity ceiling and a failed allocation, that a batch push returns,
  and, through the locale \<open>work_deque\<close>, that runs conserve tasks as a multiset. \<open>Deque_Protocol\<close> splits
  the same operations into their atomic accesses, with one owner and any number of thieves, and shows that no task is claimed
  twice and none is lost. Rings are never freed in it: growth only moves the old ring to \<^verbatim>\<open>retired_\<close>, and the model ends before the destructor.

  \<^bold>\<open>The inbox.\<close> \<open>Mpsc_Queue\<close>: \<open>push\<close>, \<open>push_batch\<close>, \<open>pop\<close>,
  \<open>clear\<close>, \<open>empty\<close>, \<open>quiescent\<close> at the grain of single accesses; the queue is first in, first
  out in the order of the exchanges, \<open>quiescent\<close> is sound, and \<open>pop\<close> and \<open>clear\<close> are complete when no
  push is half done.

  \<^bold>\<open>Cancellation.\<close> \<open>Cancel_Token\<close>: the slot table, its free list and generation numbers, scopes, tokens,
  \<open>Cancel\<close> and \<open>CancelVia\<close>. A cancel reaches exactly the scopes nested in the cancelled one; a stale token
  is inert as long as its slot has been given back fewer than 65,536 times since, the range of the generation; the constructor fails exactly when the table is full.

  \<^bold>\<open>Wait groups.\<close> \<open>Wait_Group\<close>: the packed counter with its waiter bit, the waiter stack, the increments of \<^verbatim>\<open>RunCounted\<close>
  and the loops, the decrement of a finished task and the fiber's path through \<^verbatim>\<open>WaitFor\<close>, over any number of rounds; no waiter is left behind when a round finishes, provided that a finished group
  is counted up again only when no drain is in progress, and an execution shows what happens otherwise.

  \<^bold>\<open>Task graphs.\<close> \<open>Task_Dag\<close> has the nodes, gates, construction, the cycle check and submission of
  \<^verbatim>\<open>src/TaskDAG.cpp\<close>; the check decides acyclicity exactly. \<open>Dag_Execution\<close> proves that in every
  interleaving of firing threads, workers, external signals and cancels, on a graph whose payload nodes have a task, a node completes at most once, only after what its gate
  requires, that an execution at rest has completed every node, and that it comes to rest after a bounded number of steps.

  \<^bold>\<open>Timers.\<close> \<open>Timer_Wheel\<close> has the data structure of \<^verbatim>\<open>src/Timer.cpp\<close> (four levels of 256
  intrusive lists with occupancy bitmaps, cascading, the worker's pass, \<open>Arm\<close>, \<open>Disarm\<close>, \<open>Start\<close>,
  \<open>Stop\<close>); \<open>Timer_Queue\<close> abstracts it to a map from handles to timers; \<open>Timer_Timing\<close> bounds when
  a slot is reached; \<open>Timer_Service\<close> states what clients get, including that firing cancels the scopes of the batch,
  and two executions in which a timer is late.

  \<^bold>\<open>Blocking primitives.\<close> \<open>Sync_Waiters\<close> has what they share: clients, waiters, the ejection of waiters in
  passes of 64, and the locale \<open>wait_places\<close> (a client waits in at most one place), interpreted for each primitive.
  \<open>Sched_Mutex\<close> and \<open>Mutex_Run\<close> show exclusion, freedom from deadlock, hand-over and ejection;
  \<open>Sched_Semaphore\<close> shows that permits and signals are conserved (signals counted where they are called, permits taken where the wait returns) and that no wakeup is lost without cancellable waits, and an
  execution with one in which a waiter is stranded; \<open>Sched_Condvar\<close>, running the models of the mutex and of a semaphore for each waiter,
  shows that a wait returns with the mutex held, but for a task without a fiber whose \<^verbatim>\<open>Lock\<close> is refused, and two executions that leave a waiter behind for good or use a dead frame.

  \<^bold>\<open>Parallel loops.\<close> \<open>Parallel_For\<close> has \<^verbatim>\<open>ParallelFor\<close> with its probe, its cost table and its choice of width and grain,
  \<^verbatim>\<open>RunLazyRange\<close> (splitting over the deques, with thieves) and \<^verbatim>\<open>RunCursorRange\<close> (a shared cursor). \<open>Parallel_Exact\<close> and \<open>Parallel_Cursor\<close> show that every index is run exactly once
  in every execution that returns, that lazy splitting returns after a bounded number of steps, and an execution in which the cursor wraps around. Signed overflow, which C++ leaves undefined, is an outcome of its own; the atomic
  cursor wraps.

  \<^bold>\<open>Epochs.\<close> \<open>Epoch_Manager\<close> has the global epoch, the announcement slots behind their store buffers, bags,
  orphans, guards and \<open>Tick\<close>. \<open>Epoch_Safety\<close> shows that what a reader holds is not freed if its
  announcement is visible in time and guards do not nest, that a tick with no announcements drains, and that without either
  condition an object can be freed under a reader.

  \<^bold>\<open>Hazard pointers.\<close> \<open>Hazard_Pointer\<close> has the table of cells, the rows of the readers, guards with \<^verbatim>\<open>Protect\<close>, \<^verbatim>\<open>Set\<close> and
  \<^verbatim>\<open>Swap\<close>, \<^verbatim>\<open>Retire\<close>, \<^verbatim>\<open>Scan\<close> and the orphans of \<^verbatim>\<open>src/Hazard.cpp\<close>, with the store buffers of readers and threads; clients retire what they have unlinked.
  \<open>Hazard_Safety\<close> proves the invariant and \<open>Hazard_Protection\<close> that a protected object is not freed, under three conditions that are
  each shown to be needed; that a scan keeps what a cell held throughout and frees what it does not keep, at least half of a batch that set it off; and that readers do not share rows.

  \<^bold>\<open>Memory.\<close> \<open>Slab_Pool\<close> has the pool of \<^verbatim>\<open>include/SlabPool.h\<close>: intrusive free lists over byte
  addresses, the thread caches, refill, flush, growth by extents and the sharded counters. \<open>Slab_Safety\<close> shows that every
  slot is in one place, so that no slot is handed out twice and slots in use do not overlap, and when an allocation fails; and that the
  cache of a thread that ends is lost. \<open>Task_Allocator\<close> composes four pools as \<^verbatim>\<open>include/TaskAllocator.h\<close>
  does, and shows that a block is large enough, overlaps no other, and is given back to the pool it came from.

  \<^bold>\<open>Fibers and events.\<close> \<open>Fiber_Event\<close> has the status word of \<^verbatim>\<open>include/Fiber.h\<close>, \<^verbatim>\<open>WaitOnEvent\<close>, the waiter
  table of \<^verbatim>\<open>include/Event.h\<close> with \<^verbatim>\<open>SignalAll\<close>, \<^verbatim>\<open>SignalOne\<close> and \<^verbatim>\<open>CancelWaiters\<close>, and what a worker does with a fiber that
  has switched out, one atomic access a step. \<open>Fiber_Safety\<close> proves the invariant: a fiber is in at most one place, and a slot that holds
  a task is marked in the bitmap or in the care of a call that took its mark. \<open>Fiber_Wakeup\<close> concludes that no fiber is queued twice or while it is
  on its stack (queueing one that is not off its stack is a state of its own, which no run reaches), that no wakeup is lost, and that an undisturbed \<^verbatim>\<open>SignalAll\<close> returns having queued every parked fiber.

  \<^bold>\<open>Dead fibers.\<close> \<open>Fiber_Cleanup\<close> has the creditors and debts of \<^verbatim>\<open>include/Fiber.h\<close> and the chain of \<^verbatim>\<open>src/FiberRegistry.cpp\<close> that takes a fiber whose
  task has returned from one creditor to the next, each releasing what is due on its thread. \<open>Cleanup_Safety\<close> shows that every debt is released once, on the holder it names, before the fiber is in the pool
  again, and that a debt to an unknown holder loses the fiber.

  \<^bold>\<open>Bounds and fuel.\<close> The capacities are those of the code (65,535 cancel slots, 256 slots per wheel level, 64
  waiters per ejection pass). Bounded loops are structural recursions. The loops whose
  end depends on the state (growth of the ring, clearing the inbox, the cycle check, walking a slot list of the wheel) are
  partial functions into \<open>option\<close>, and the theorems about them state that a result is returned.

  \<^bold>\<open>Not modelled.\<close> The vendored queues, the reactor and its platform back ends (system calls), topology
  discovery, context switching in assembly, the statistics and check macros that are compiled out by default, the benchmarks
  and tests. The worker's main loop, the fiber pools and their caches, direct events, starting and stopping the scheduler and the placement of tasks are not modelled. In the mutex and the semaphore a
  client parks in one step with its entry in the queue; the order of the accesses inside that step is modelled for events, in \<open>Fiber_Event\<close>. The walk of a token over its parents is one step.
\<close>

end
